(* ===== verification/DMC_Prelude.thy ===== *)
theory DMC_Prelude
  imports Main "HOL-Library.Word" "HOL-Library.Char_ord" "HOL-Library.List_Lexorder"
begin

text \<open>
  The vocabulary every component theory shares: Go's byte slices and strings, panics as
  values, 64-bit signed arithmetic, slice indexing, and the functions of Go's standard
  library the repository calls (\<^verbatim>\<open>bytes.Compare\<close>, \<^verbatim>\<open>sort.Search\<close>, decimal and
  hexadecimal formatting). The lemmas are generic: they mention no component.
\<close>

named_theorems panic_simps \<comment> \<open>how a computation that may panic reduces\<close>
named_theorems wf_intros \<comment> \<open>every operation keeps its component's invariant\<close>

section \<open>Byte slices and strings\<close>

text \<open>
  A Go \<open>string\<close> is a sequence of bytes, and \<open>[]byte(s)\<close> and \<open>string(b)\<close> convert
  without change, so both are HOL strings (lists of 8-bit characters). The order of the
  library theories \<open>Char_ord\<close> and \<open>List_Lexorder\<close> on them is the one of
  \<^verbatim>\<open>bytes.Compare\<close>, as \<open>bytes_compare_less\<close> shows.
\<close>

type_synonym bytes = string

fun bytes_compare :: "bytes \<Rightarrow> bytes \<Rightarrow> int" where
  "bytes_compare [] [] = 0"
| "bytes_compare [] (y # ys) = -1"
| "bytes_compare (x # xs) [] = 1"
| "bytes_compare (x # xs) (y # ys) =
     (if x < y then -1 else if y < x then 1 else bytes_compare xs ys)"

lemma bytes_compare_cases:
  "bytes_compare a b = (if a < b then -1 else if b < a then 1 else 0)"
  by (induction a b rule: bytes_compare.induct) auto

lemma bytes_compare_less [simp]: "bytes_compare a b = -1 \<longleftrightarrow> a < b"
  by (auto simp: bytes_compare_cases)

lemma bytes_compare_le [simp]: "bytes_compare a b \<le> 0 \<longleftrightarrow> a \<le> b"
  by (auto simp: bytes_compare_cases)

lemma bytes_compare_lt [simp]: "bytes_compare a b < 0 \<longleftrightarrow> a < b"
  by (auto simp: bytes_compare_cases)

lemma bytes_compare_gt [simp]: "0 < bytes_compare a b \<longleftrightarrow> b < a"
  by (auto simp: bytes_compare_cases)

section \<open>Panics\<close>

text \<open>
  A Go function that may panic returns \<open>Inl\<close> of the panic. \<open>bindP\<close> sequences two such
  computations: the first panic wins. \<open>NoReturn\<close> marks a call that does not come back.
\<close>

datatype go_panic =
    PanicSanity string      \<comment> \<open>\<open>cmn.PanicSanity\<close>\<close>
  | PanicCrisis string      \<comment> \<open>\<open>cmn.PanicCrisis\<close>\<close>
  | PanicConsensus string   \<comment> \<open>\<open>cmn.PanicConsensus\<close>\<close>
  | PanicMsg string         \<comment> \<open>the builtin \<open>panic\<close>\<close>
  | NilDereference
  | IndexOutOfRange
  | TypeAssertion
  | NoReturn

type_synonym 'a or_panic = "go_panic + 'a"

definition bindP :: "'a or_panic \<Rightarrow> ('a \<Rightarrow> 'b or_panic) \<Rightarrow> 'b or_panic" where
  "bindP m f = (case m of Inl p \<Rightarrow> Inl p | Inr x \<Rightarrow> f x)"

lemma bindP_Inl [simp, panic_simps]: "bindP (Inl p) f = Inl p"
  and bindP_Inr [simp, panic_simps]: "bindP (Inr x) f = f x"
  by (simp_all add: bindP_def)

lemma bindP_eq_Inr [panic_simps]: "bindP m f = Inr y \<longleftrightarrow> (\<exists>x. m = Inr x \<and> f x = Inr y)"
  by (cases m) auto

lemma bindP_Inr_E: "bindP m f = Inr y \<Longrightarrow> (\<And>x. m = Inr x \<Longrightarrow> f x = Inr y \<Longrightarrow> P) \<Longrightarrow> P"
  by (auto simp: bindP_eq_Inr)

lemma bindP_eq_Inl [panic_simps]:
  "bindP m f = Inl p \<longleftrightarrow> m = Inl p \<or> (\<exists>x. m = Inr x \<and> f x = Inl p)"
  by (cases m) auto

lemma bindP_cong [fundef_cong]:
  "m = m' \<Longrightarrow> (\<And>x. m' = Inr x \<Longrightarrow> f x = g x) \<Longrightarrow> bindP m f = bindP m' g"
  by (cases m') auto

text \<open>\<open>okP Q m\<close>: if \<open>m\<close> does not panic, its value satisfies \<open>Q\<close>.\<close>

definition okP :: "('a \<Rightarrow> bool) \<Rightarrow> 'a or_panic \<Rightarrow> bool" where
  "okP Q m \<longleftrightarrow> (\<forall>x. m = Inr x \<longrightarrow> Q x)"

lemma okP_Inr [simp, panic_simps]: "okP Q (Inr x) \<longleftrightarrow> Q x"
  and okP_Inl [simp, panic_simps]: "okP Q (Inl p)"
  by (simp_all add: okP_def)

lemma okP_bindP: "okP Q (bindP m f) \<longleftrightarrow> okP (\<lambda>x. okP Q (f x)) m"
  by (cases m) (simp_all add: okP_def)

lemma okP_bindI: "okP P m \<Longrightarrow> (\<And>x. m = Inr x \<Longrightarrow> P x \<Longrightarrow> okP Q (f x)) \<Longrightarrow> okP Q (bindP m f)"
  by (cases m) (simp_all add: okP_def)

lemma okP_weaken: "okP P m \<Longrightarrow> (\<And>x. m = Inr x \<Longrightarrow> P x \<Longrightarrow> Q x) \<Longrightarrow> okP Q m"
  by (simp add: okP_def)

lemma okP_if: "okP Q (if b then m else n) \<longleftrightarrow> (b \<longrightarrow> okP Q m) \<and> (\<not> b \<longrightarrow> okP Q n)"
  by simp

text \<open>Dereferencing a pointer that may be nil, and reading a slice at an \<open>int\<close> index.\<close>

definition deref :: "'a option \<Rightarrow> 'a or_panic" where
  "deref p = (case p of None \<Rightarrow> Inl NilDereference | Some x \<Rightarrow> Inr x)"

lemma deref_simps [simp, panic_simps]: "deref None = Inl NilDereference" "deref (Some x) = Inr x"
  by (simp_all add: deref_def)

lemma deref_eq_Inr [simp]: "deref p = Inr x \<longleftrightarrow> p = Some x"
  by (cases p) auto

definition slice_at :: "'a list \<Rightarrow> int \<Rightarrow> 'a or_panic" where
  "slice_at xs i = (if 0 \<le> i \<and> i < int (length xs) then Inr (xs ! nat i) else Inl IndexOutOfRange)"

lemma slice_at_eq_Inr:
  "slice_at xs i = Inr x \<longleftrightarrow> 0 \<le> i \<and> i < int (length xs) \<and> xs ! nat i = x"
  by (auto simp: slice_at_def)

text \<open>A slice expression \<open>xs[lo:hi]\<close>.\<close>

definition go_slice :: "'a list \<Rightarrow> int \<Rightarrow> int \<Rightarrow> 'a list or_panic" where
  "go_slice xs lo hi =
     (if 0 \<le> lo \<and> lo \<le> hi \<and> hi \<le> int (length xs)
      then Inr (take (nat (hi - lo)) (drop (nat lo) xs)) else Inl IndexOutOfRange)"

lemma go_slice_nat: "lo \<le> hi \<Longrightarrow> hi \<le> length xs \<Longrightarrow> go_slice xs (int lo) (int hi) = Inr (take (hi - lo) (drop lo xs))"
  by (simp add: go_slice_def nat_diff_distrib')

text \<open>A loop that computes one element after the other.\<close>

fun mapP :: "('a \<Rightarrow> 'b or_panic) \<Rightarrow> 'a list \<Rightarrow> 'b list or_panic" where
  "mapP f [] = Inr []"
| "mapP f (x # xs) = bindP (f x) (\<lambda>y. bindP (mapP f xs) (\<lambda>ys. Inr (y # ys)))"

fun foldP :: "('a \<Rightarrow> 's \<Rightarrow> 's or_panic) \<Rightarrow> 'a list \<Rightarrow> 's \<Rightarrow> 's or_panic" where
  "foldP f [] s = Inr s"
| "foldP f (x # xs) s = bindP (f x s) (foldP f xs)"

lemma mapP_Inr: "(\<And>x. x \<in> set xs \<Longrightarrow> f x = Inr (g x)) \<Longrightarrow> mapP f xs = Inr (map g xs)"
  by (induction xs) simp_all

lemma mapP_map: "mapP f (map g xs) = mapP (\<lambda>x. f (g x)) xs"
  by (induction xs) simp_all

lemma mapP_cong [fundef_cong]:
  "xs = ys \<Longrightarrow> (\<And>x. x \<in> set ys \<Longrightarrow> f x = g x) \<Longrightarrow> mapP f xs = mapP g ys"
  by (induction ys arbitrary: xs) simp_all

lemma foldP_Inr: "(\<And>x s. x \<in> set xs \<Longrightarrow> f x s = Inr (g x s)) \<Longrightarrow> foldP f xs s = Inr (fold g xs s)"
  by (induction xs arbitrary: s) simp_all

lemma foldP_append [simp]: "foldP f (xs @ ys) s = bindP (foldP f xs s) (foldP f ys)"
  by (induction xs arbitrary: s) (auto simp: bindP_def split: sum.splits)

section \<open>64-bit signed integers\<close>

text \<open>
  Go's \<open>int64\<close> and, on the 64-bit platforms the node runs on, \<open>int\<close> are two's complement.
  They are HOL integers here, and \<open>wrap64\<close> is applied to the result of every addition,
  subtraction or multiplication whose operands are not bounded by a length of a slice
  or by a height the node itself counts up.
\<close>

definition MaxInt64 :: int where "MaxInt64 = 9223372036854775807"
definition MinInt64 :: int where "MinInt64 = -9223372036854775808"

definition in64 :: "int \<Rightarrow> bool" where
  "in64 x \<longleftrightarrow> MinInt64 \<le> x \<and> x \<le> MaxInt64"

definition wrap64 :: "int \<Rightarrow> int" where
  "wrap64 x = (x + 9223372036854775808) mod 18446744073709551616 - 9223372036854775808"

lemmas int64_defs = MaxInt64_def MinInt64_def in64_def

lemma wrap64_id [simp]: "in64 x \<Longrightarrow> wrap64 x = x"
  by (simp add: wrap64_def int64_defs)

lemma in64_wrap64 [simp]: "in64 (wrap64 x)"
proof -
  have "0 \<le> (x + 9223372036854775808) mod 18446744073709551616"
    and "(x + 9223372036854775808) mod 18446744073709551616 < 18446744073709551616"
    by simp_all
  then show ?thesis by (simp add: wrap64_def int64_defs)
qed

text \<open>Division truncates towards zero.\<close>

definition go_quot :: "int \<Rightarrow> int \<Rightarrow> int" where
  "go_quot a b = sgn a * sgn b * (\<bar>a\<bar> div \<bar>b\<bar>)"

lemma go_quot_nonneg: "0 \<le> a \<Longrightarrow> 0 < b \<Longrightarrow> go_quot a b = a div b"
  by (cases "a = 0") (simp_all add: go_quot_def)

definition go_rem :: "int \<Rightarrow> int \<Rightarrow> int" where
  "go_rem a b = a - b * go_quot a b"

lemma go_rem_nonneg: "0 \<le> a \<Longrightarrow> 0 < b \<Longrightarrow> go_rem a b = a mod b"
  by (simp add: go_rem_def go_quot_nonneg minus_mult_div_eq_mod)

section \<open>Binary search: sort.Search\<close>

text \<open>
  \<^verbatim>\<open>sort.Search(n, f)\<close> halves the interval \<open>[i, j)\<close> until it is empty. It is the search
  every lookup in a validator set uses.
\<close>

function search_loop :: "(nat \<Rightarrow> bool) \<Rightarrow> nat \<Rightarrow> nat \<Rightarrow> nat" where
  "search_loop f i j =
     (if i < j
      then let h = (i + j) div 2
           in if \<not> f h then search_loop f (h + 1) j else search_loop f i h
      else i)"
  by pat_completeness auto
termination
  by (relation "measure (\<lambda>(f, i, j). j - i)") auto

declare search_loop.simps [simp del]

definition sort_Search :: "nat \<Rightarrow> (nat \<Rightarrow> bool) \<Rightarrow> nat" where
  "sort_Search n f = search_loop f 0 n"

text \<open>
  The result is the boundary of a monotone predicate: everything below it fails, and it
  succeeds itself unless it is the end of the range.
\<close>

lemma search_loop_spec:
  assumes "\<forall>a b. a \<le> b \<and> b < n \<and> f a \<longrightarrow> f b" "i \<le> j" "j \<le> n"
    "\<forall>k < i. \<not> f k" "j < n \<longrightarrow> f j"
  shows "search_loop f i j \<le> n \<and> (\<forall>k < search_loop f i j. \<not> f k)
    \<and> (search_loop f i j < n \<longrightarrow> f (search_loop f i j))"
  using assms
proof (induction f i j rule: search_loop.induct)
  case (1 f i j)
  show ?case
  proof (cases "i < j")
    case False
    then have "search_loop f i j = i" by (simp add: search_loop.simps [of f i j])
    with "1.prems" False show ?thesis by simp
  next
    case True
    define h where "h = (i + j) div 2"
    have h: "i \<le> h" "h < j" using True by (auto simp: h_def)
    show ?thesis
    proof (cases "f h")
      case False
      have below: "\<forall>k < h + 1. \<not> f k"
        using "1.prems"(1,3) False h by (metis less_Suc_eq_le Suc_eq_plus1 order_less_le_trans)
      have eq: "search_loop f i j = search_loop f (h + 1) j"
        using True False by (simp add: search_loop.simps [of f i j] h_def [symmetric])
      show ?thesis
        unfolding eq
        by (rule "1.IH"(1) [OF True h_def False "1.prems"(1) _ "1.prems"(3) below "1.prems"(5)])
          (use h in simp)
    next
      case fh: True
      have eq: "search_loop f i j = search_loop f i h"
        using True fh by (simp add: search_loop.simps [of f i j] h_def [symmetric])
      show ?thesis
        unfolding eq
        by (rule "1.IH"(2) [OF True h_def _ "1.prems"(1) h(1) _ "1.prems"(4)])
          (use fh h "1.prems"(3) in simp_all)
    qed
  qed
qed

lemma sort_Search_spec:
  assumes "\<forall>a b. a \<le> b \<and> b < n \<and> f a \<longrightarrow> f b"
  shows "sort_Search n f \<le> n" "k < sort_Search n f \<Longrightarrow> \<not> f k"
    "sort_Search n f < n \<Longrightarrow> f (sort_Search n f)"
  using search_loop_spec [OF assms, of 0 n] by (simp_all add: sort_Search_def)

section \<open>Formatting integers\<close>

text \<open>\<^verbatim>\<open>%v\<close> and \<^verbatim>\<open>%d\<close> print a decimal number, \<^verbatim>\<open>%x\<close> a hexadecimal one.\<close>

definition digit_char :: "nat \<Rightarrow> char" where
  "digit_char d = (if d < 10 then char_of (48 + d) else char_of (87 + d))"

definition char_digit :: "char \<Rightarrow> nat" where
  "char_digit c = (if of_char c < (97::nat) then of_char c - 48 else of_char c - 87)"

fun show_base :: "nat \<Rightarrow> nat \<Rightarrow> string" where
  "show_base b n =
     (if b < 2 \<or> n < b then [digit_char n] else show_base b (n div b) @ [digit_char (n mod b)])"

declare show_base.simps [simp del]

definition show_nat :: "nat \<Rightarrow> string" where "show_nat = show_base 10"
definition show_hex :: "nat \<Rightarrow> string" where "show_hex = show_base 16"

definition show_int :: "int \<Rightarrow> string" where
  "show_int i = (if i < 0 then CHR ''-'' # show_nat (nat (-i)) else show_nat (nat i))"

text \<open>\<^verbatim>\<open>hex.EncodeToString\<close>, and \<^verbatim>\<open>%x\<close> of a byte slice.\<close>

definition hex_EncodeToString :: "bytes \<Rightarrow> bytes" where
  "hex_EncodeToString bs = concat (map (\<lambda>c. [digit_char (of_char c div 16), digit_char (of_char c mod 16)]) bs)"

definition read_base :: "nat \<Rightarrow> string \<Rightarrow> nat" where
  "read_base b s = foldl (\<lambda>a c. a * b + char_digit c) 0 s"

lemma char_digit_char [simp]: "d < 16 \<Longrightarrow> char_digit (digit_char d) = d"
  by (auto simp: char_digit_def digit_char_def)

lemma read_base_snoc: "read_base b (s @ [c]) = read_base b s * b + char_digit c"
  by (simp add: read_base_def)

lemma read_show_base: "2 \<le> b \<Longrightarrow> b \<le> 16 \<Longrightarrow> read_base b (show_base b n) = n"
proof (induction b n rule: show_base.induct)
  case (1 b n)
  show ?case
  proof (cases "n < b")
    case True
    with "1.prems" show ?thesis
      by (simp add: show_base.simps [of b n] read_base_def)
  next
    case False
    then have "show_base b n = show_base b (n div b) @ [digit_char (n mod b)]"
      using "1.prems" by (simp add: show_base.simps [of b n])
    moreover have "n mod b < 16"
      using "1.prems" by (meson mod_less_divisor order_less_le_trans zero_less_numeral)
    ultimately show ?thesis
      using "1.IH" "1.prems" False by (simp add: read_base_snoc)
  qed
qed

lemma show_base_chars:
  "c \<in> set (show_base b n) \<Longrightarrow> b \<le> 16 \<Longrightarrow> 2 \<le> b \<Longrightarrow> \<exists>d < 16. c = digit_char d"
proof (induction b n rule: show_base.induct)
  case (1 b n)
  have m: "n mod b < 16" using "1.prems" by (meson mod_less_divisor order_less_le_trans zero_less_numeral)
  show ?case
  proof (cases "n < b")
    case True
    with "1.prems" have "c = digit_char n" "n < 16" by (simp_all add: show_base.simps [of b n])
    then show ?thesis by blast
  next
    case False
    with "1.prems" have "c \<in> set (show_base b (n div b)) \<or> c = digit_char (n mod b)"
      by (auto simp: show_base.simps [of b n])
    then show ?thesis using "1.IH" "1.prems" m False by auto
  qed
qed

lemma show_nat_inject [simp]: "show_nat m = show_nat n \<longleftrightarrow> m = n"
proof
  assume "show_nat m = show_nat n"
  then have "read_base 10 (show_base 10 m) = read_base 10 (show_base 10 n)"
    by (simp add: show_nat_def)
  then show "m = n" by (simp add: read_show_base)
qed simp

lemma digit_char_not_punct:
  "d < 16 \<Longrightarrow> digit_char d \<notin> {CHR ''-'', CHR '':'', CHR '' '', CHR ''/''}"
proof
  assume "d < 16"
  then have codes: "of_char (digit_char d) \<notin> {45::nat, 58, 32, 47}"
    by (auto simp: digit_char_def)
  assume "digit_char d \<in> {CHR ''-'', CHR '':'', CHR '' '', CHR ''/''}"
  then show False
    using codes by (elim insertE emptyE) simp_all
qed

lemma show_nat_chars:
  assumes "c \<in> set (show_nat n)"
  shows "c \<notin> {CHR ''-'', CHR '':'', CHR '' '', CHR ''/''}"
proof -
  from assms obtain d where "d < 16" "c = digit_char d"
    using show_base_chars [of c 10 n] by (auto simp: show_nat_def)
  then show ?thesis using digit_char_not_punct [of d] by simp
qed

lemma show_nat_nonempty [simp]: "show_nat n \<noteq> []"
  by (simp add: show_nat_def show_base.simps [of 10 n])

lemma show_int_inject [simp]: "show_int i = show_int j \<longleftrightarrow> i = j"
proof -
  have neg: "CHR ''-'' # s \<noteq> show_nat n" for s n
  proof
    assume "CHR ''-'' # s = show_nat n"
    then have "CHR ''-'' \<in> set (show_nat n)" by (metis list.set_intros(1))
    then show False using show_nat_chars [of "CHR ''-''" n] by simp
  qed
  have neg': "show_nat n \<noteq> CHR ''-'' # s" for s n
    using neg [of s n] by metis
  show ?thesis
    by (cases "i < 0"; cases "j < 0") (simp_all add: show_int_def neg neg' eq_nat_nat_iff)
qed

lemma show_int_chars: "c \<in> set (show_int i) \<Longrightarrow> c \<notin> {CHR '':'', CHR '' '', CHR ''/''}"
proof (cases "c = CHR ''-''")
  case False
  assume "c \<in> set (show_int i)"
  with False have "c \<in> set (show_nat (nat i)) \<or> c \<in> set (show_nat (nat (- i)))"
    by (cases "i < 0") (simp_all add: show_int_def)
  then show ?thesis
    using show_nat_chars [of c "nat i"] show_nat_chars [of c "nat (- i)"] by (elim disjE) simp_all
qed simp

end
