(* ===== verification/Bit_Array.thy ===== *)
theory Bit_Array
  imports DMC_Prelude
begin

unbundle bit_operations_syntax

text \<open>
  \<^verbatim>\<open>libs/common/bit_array.go\<close>: the bit arrays in which the node records which validators
  voted and which block parts arrived. A \<open>*BitArray\<close> that may be nil is an option; the
  bits live in 64-bit words, and an access outside \<open>Elems\<close> panics, since \<open>Bits\<close> and
  \<open>Elems\<close> of a decoded array need not agree. \<open>ba_wf\<close> says that they do.
\<close>

record bit_array =
  Bits :: int
  Elems :: "64 word list"

section \<open>The operations\<close>

definition NewBitArray :: "int \<Rightarrow> bit_array option" where
  "NewBitArray bits =
     (if bits \<le> 0 then None
      else Some \<lparr>Bits = bits, Elems = replicate (nat (go_quot (bits + 63) 64)) 0\<rparr>)"

definition ba_Size :: "bit_array option \<Rightarrow> int" where
  "ba_Size bA = (case bA of None \<Rightarrow> 0 | Some b \<Rightarrow> Bits b)"

text \<open>
  \<open>uint64(1) << uint(i % 64)\<close>: the remainder has the sign of \<open>i\<close>, and a negative one
  becomes a shift count of at least 64, for which Go's shift gives 0.
\<close>

definition shift_one :: "int \<Rightarrow> 64 word" where
  "shift_one n = (if 0 \<le> n then push_bit (nat n) 1 else 0)"

definition bit_mask :: "int \<Rightarrow> 64 word" where
  "bit_mask i = shift_one (go_rem i 64)"

definition getIndex :: "bit_array \<Rightarrow> int \<Rightarrow> bool or_panic" where
  "getIndex bA i =
     (if i \<ge> Bits bA then Inr False
      else bindP (slice_at (Elems bA) (go_quot i 64)) (\<lambda>e. Inr (e AND bit_mask i > 0)))"

definition GetIndex :: "bit_array option \<Rightarrow> int \<Rightarrow> bool or_panic" where
  "GetIndex bA i = (case bA of None \<Rightarrow> Inr False | Some b \<Rightarrow> getIndex b i)"

definition setIndex :: "bit_array \<Rightarrow> int \<Rightarrow> bool \<Rightarrow> (bool \<times> bit_array) or_panic" where
  "setIndex bA i v =
     (if i \<ge> Bits bA then Inr (False, bA)
      else bindP (slice_at (Elems bA) (go_quot i 64)) (\<lambda>e.
        let e' = (if v then e OR bit_mask i else e AND NOT (bit_mask i))
        in Inr (True, bA\<lparr>Elems := (Elems bA)[nat (go_quot i 64) := e']\<rparr>)))"

definition SetIndex :: "bit_array option \<Rightarrow> int \<Rightarrow> bool \<Rightarrow> (bool \<times> bit_array option) or_panic" where
  "SetIndex bA i v =
     (case bA of None \<Rightarrow> Inr (False, None)
      | Some b \<Rightarrow> bindP (setIndex b i v) (\<lambda>(r, b'). Inr (r, Some b')))"

definition copyBits :: "bit_array \<Rightarrow> int \<Rightarrow> bit_array or_panic" where
  "copyBits bA bits =
     (if go_quot (bits + 63) 64 < 0 then Inl (PanicMsg ''makeslice: len out of range'')
      else let n = nat (go_quot (bits + 63) 64)
        in Inr \<lparr>Bits = bits, Elems = take n (Elems bA @ replicate n 0)\<rparr>)"

text \<open>
  The loops of \<open>Or\<close> and \<open>and\<close> read \<open>o.Elems[i]\<close> for every index of the copy: they
  panic when \<open>o\<close> has fewer words.
\<close>

fun zip_elems :: "(64 word \<Rightarrow> 64 word \<Rightarrow> 64 word) \<Rightarrow> 64 word list \<Rightarrow> 64 word list \<Rightarrow> 64 word list or_panic" where
  "zip_elems f [] es = Inr []"
| "zip_elems f (c # cs) [] = Inl IndexOutOfRange"
| "zip_elems f (c # cs) (e # es) = bindP (zip_elems f cs es) (\<lambda>rs. Inr (f c e # rs))"

definition ba_Or :: "bit_array option \<Rightarrow> bit_array option \<Rightarrow> bit_array option or_panic" where
  "ba_Or bA ob =
     (case (bA, ob) of
        (None, None) \<Rightarrow> Inr None
      | (None, Some b) \<Rightarrow> Inr (Some b)
      | (Some a, None) \<Rightarrow> Inr (Some a)
      | (Some a, Some b) \<Rightarrow>
          bindP (copyBits a (max (Bits a) (Bits b))) (\<lambda>c.
          bindP (zip_elems (OR) (Elems c) (Elems b)) (\<lambda>es. Inr (Some (c\<lparr>Elems := es\<rparr>)))))"

definition ba_and :: "bit_array \<Rightarrow> bit_array \<Rightarrow> bit_array or_panic" where
  "ba_and a b =
     bindP (copyBits a (min (Bits a) (Bits b))) (\<lambda>c.
     bindP (zip_elems (AND) (Elems c) (Elems b)) (\<lambda>es. Inr (c\<lparr>Elems := es\<rparr>)))"

definition ba_And :: "bit_array option \<Rightarrow> bit_array option \<Rightarrow> bit_array option or_panic" where
  "ba_And bA ob =
     (case (bA, ob) of
        (Some a, Some b) \<Rightarrow> bindP (ba_and a b) (\<lambda>c. Inr (Some c))
      | _ \<Rightarrow> Inr None)"

definition ba_Not :: "bit_array option \<Rightarrow> bit_array option" where
  "ba_Not bA = (case bA of None \<Rightarrow> None | Some a \<Rightarrow> Some (a\<lparr>Elems := map NOT (Elems a)\<rparr>))"

text \<open>
  \<open>Sub\<close> with a longer receiver: the first loop of the source writes
  \<^verbatim>\<open>c.Elems[i] &= ^c.Elems[i]\<close>, with \<open>c\<close> on both sides; the second treats the last word
  of \<open>o\<close> bit by bit.
\<close>

fun sub_words :: "64 word list \<Rightarrow> nat \<Rightarrow> 64 word list or_panic" where
  "sub_words es 0 = Inr es"
| "sub_words [] (Suc n) = Inl IndexOutOfRange"
| "sub_words (e # es) (Suc n) = bindP (sub_words es n) (\<lambda>rs. Inr ((e AND NOT e) # rs))"

fun sub_bits :: "bit_array \<Rightarrow> bit_array \<Rightarrow> int list \<Rightarrow> bit_array or_panic" where
  "sub_bits c b [] = Inr c"
| "sub_bits c b (idx # idxs) =
     bindP (getIndex c idx) (\<lambda>x.
     bindP (if x then bindP (GetIndex (Some b) idx) (\<lambda>y. Inr (\<not> y)) else Inr False) (\<lambda>v.
     bindP (setIndex c idx v) (\<lambda>(_, c'). sub_bits c' b idxs)))"

definition ba_Sub :: "bit_array option \<Rightarrow> bit_array option \<Rightarrow> bit_array option or_panic" where
  "ba_Sub bA ob =
     (case (bA, ob) of
        (Some a, Some b) \<Rightarrow>
          if Bits a > Bits b then
            bindP (sub_words (Elems a) (length (Elems b) - 1)) (\<lambda>es.
            if length (Elems b) = 0 then Inr (Some (a\<lparr>Elems := es\<rparr>))
            else bindP (sub_bits (a\<lparr>Elems := es\<rparr>) b [int (length (Elems b) - 1) * 64..Bits b - 1])
              (\<lambda>c. Inr (Some c)))
          else bindP (deref (ba_Not (Some b))) (\<lambda>nb.
            bindP (ba_and a nb) (\<lambda>c. Inr (Some c)))
      | _ \<Rightarrow> Inr None)"

definition ba_IsEmpty :: "bit_array option \<Rightarrow> bool" where
  "ba_IsEmpty bA = (case bA of None \<Rightarrow> True | Some a \<Rightarrow> list_all (\<lambda>e. \<not> e > 0) (Elems a))"

definition ba_IsFull :: "bit_array option \<Rightarrow> bool or_panic" where
  "ba_IsFull bA =
     (case bA of None \<Rightarrow> Inr True
      | Some a \<Rightarrow>
          if Elems a = [] then Inl IndexOutOfRange
          else if list_ex (\<lambda>e. NOT e \<noteq> 0) (butlast (Elems a)) then Inr False
          else let lastElemBits = go_rem (Bits a + 63) 64 + 1; lastElem = last (Elems a)
               in Inr ((lastElem + 1) AND (shift_one lastElemBits - 1) = 0))"

text \<open>
  \<open>PickRandom\<close>: \<open>rnd k n\<close> is what the \<open>k\<close>-th call of \<open>RandIntn(n)\<close> returns. A word
  that is not the last is scanned over 64 bits from a random start, the last one over
  the bits in use.
\<close>

definition scan_bits :: "64 word \<Rightarrow> nat \<Rightarrow> nat \<Rightarrow> nat option" where
  "scan_bits e n start =
     find (\<lambda>b. e AND push_bit b 1 > 0) (map (\<lambda>j. (j + start) mod n) [0..<n])"

fun pick_loop :: "(nat \<Rightarrow> nat \<Rightarrow> nat) \<Rightarrow> bit_array \<Rightarrow> nat \<Rightarrow> nat list \<Rightarrow> (int \<times> bool) or_panic" where
  "pick_loop rnd a k [] = Inr (0, False)"
| "pick_loop rnd a k (elemIdx # idxs) =
     (let e = Elems a ! elemIdx in
      if elemIdx < length (Elems a) - 1 then
        if e > 0 then
          (case scan_bits e 64 (rnd k 64) of
             Some bitIdx \<Rightarrow> Inr (int (64 * elemIdx + bitIdx), True)
           | None \<Rightarrow> Inl (PanicSanity ''should not happen''))
        else pick_loop rnd a k idxs
      else
        let m = go_rem (Bits a) 64; elemBits = nat (if m = 0 then 64 else m) in
        if m < 0 then Inl (PanicMsg ''invalid argument to Intn'')
        else case scan_bits e elemBits (rnd k elemBits) of
          Some bitIdx \<Rightarrow> Inr (int (64 * elemIdx + bitIdx), True)
        | None \<Rightarrow> pick_loop rnd a (Suc k) idxs)"

definition ba_PickRandom :: "(nat \<Rightarrow> nat \<Rightarrow> nat) \<Rightarrow> bit_array option \<Rightarrow> (int \<times> bool) or_panic" where
  "ba_PickRandom rnd bA =
     (case bA of None \<Rightarrow> Inr (0, False)
      | Some a \<Rightarrow>
          let n = length (Elems a) in
          if n = 0 then Inr (0, False)
          else pick_loop rnd a 1 (map (\<lambda>i. (i + rnd 0 n) mod n) [0..<n]))"

definition ba_Update :: "bit_array option \<Rightarrow> bit_array option \<Rightarrow> bit_array option" where
  "ba_Update bA ob =
     (case (bA, ob) of
        (Some a, Some b) \<Rightarrow>
          Some (a\<lparr>Elems := take (length (Elems a)) (Elems b) @ drop (length (Elems b)) (Elems a)\<rparr>)
      | _ \<Rightarrow> bA)"

fun bit_chars :: "bit_array \<Rightarrow> int list \<Rightarrow> string or_panic" where
  "bit_chars a [] = Inr []"
| "bit_chars a (i # is) =
     bindP (getIndex a i) (\<lambda>b.
     bindP (bit_chars a is) (\<lambda>s. Inr ((if b then CHR ''x'' else CHR ''_'') # s)))"

definition ba_MarshalJSON :: "bit_array option \<Rightarrow> bytes or_panic" where
  "ba_MarshalJSON bA =
     (case bA of None \<Rightarrow> Inr ''null''
      | Some a \<Rightarrow> bindP (bit_chars a [0..Bits a - 1])
          (\<lambda>s. Inr (CHR 0x22 # s @ [CHR 0x22])))"

text \<open>The submatch of the regular expression \<^verbatim>\<open>\A"([_x]*)"\z\<close>.\<close>

definition json_match :: "bytes \<Rightarrow> string option" where
  "json_match b =
     (if length b \<ge> 2 \<and> hd b = CHR 0x22 \<and> last b = CHR 0x22
         \<and> list_all (\<lambda>c. c = CHR ''_'' \<or> c = CHR ''x'') (butlast (tl b))
      then Some (butlast (tl b)) else None)"

fun set_marked :: "bit_array option \<Rightarrow> int \<Rightarrow> string \<Rightarrow> bit_array option or_panic" where
  "set_marked bA i [] = Inr bA"
| "set_marked bA i (c # cs) =
     (if c = CHR ''x''
      then bindP (SetIndex bA i True) (\<lambda>(_, bA'). set_marked bA' (i + 1) cs)
      else set_marked bA (i + 1) cs)"

datatype json_error = BitArrayFormat bytes

definition ba_UnmarshalJSON :: "bytes \<Rightarrow> (json_error + bit_array) or_panic" where
  "ba_UnmarshalJSON bz =
     (if bz = ''null'' then Inr (Inr \<lparr>Bits = 0, Elems = []\<rparr>)
      else case json_match bz of
        None \<Rightarrow> Inr (Inl (BitArrayFormat bz))
      | Some bits \<Rightarrow>
          bindP (set_marked (NewBitArray (int (length bits))) 0 bits) (\<lambda>bA2.
          bindP (deref bA2) (\<lambda>b. Inr (Inr b))))"

section \<open>Well-formed arrays and their bits\<close>

definition ba_wf :: "bit_array \<Rightarrow> bool" where
  "ba_wf a \<longleftrightarrow> 0 < Bits a \<and> length (Elems a) = nat ((Bits a + 63) div 64)"

text \<open>The bit at position \<open>k\<close>: what the array means.\<close>

definition ba_test :: "bit_array \<Rightarrow> nat \<Rightarrow> bool" where
  "ba_test a k = bit (Elems a ! (k div 64)) (k mod 64)"

definition ba_put :: "nat \<Rightarrow> bool \<Rightarrow> bit_array \<Rightarrow> bit_array" where
  "ba_put k v a = (case setIndex a (int k) v of Inr (_, b) \<Rightarrow> b | Inl _ \<Rightarrow> a)"

lemma go_quot_add63: "0 < b \<Longrightarrow> go_quot (b + 63) 64 = (b + 63) div 64"
  by (simp add: go_quot_nonneg)

lemma bit_mask_nat [simp]: "bit_mask (int k) = 2 ^ (k mod 64)"
  by (simp add: bit_mask_def shift_one_def go_rem_nonneg nat_mod_distrib)

lemma and_mask_pos [simp]: "(e :: 64 word) AND 2 ^ n > 0 \<longleftrightarrow> bit e n"
  by (simp add: word_neq_0_conv [symmetric] bit_iff_and_push_bit_not_eq_0 [of e n])

lemma word_index: "ba_wf a \<Longrightarrow> int k < Bits a \<Longrightarrow> k div 64 < length (Elems a)"
  by (simp add: ba_wf_def)

lemma go_quot_word [simp]: "go_quot (int k) 64 = int (k div 64)"
  by (simp add: go_quot_nonneg zdiv_int)

lemma slice_word [simp]:
  "ba_wf a \<Longrightarrow> int k < Bits a \<Longrightarrow> slice_at (Elems a) (int (k div 64)) = Inr (Elems a ! (k div 64))"
  using word_index [of a k] by (simp add: slice_at_def del: of_nat_div zdiv_int)

lemma getIndex_wf: "ba_wf a \<Longrightarrow> getIndex a (int k) = Inr (int k < Bits a \<and> ba_test a k)"
  by (auto simp: getIndex_def ba_test_def simp del: of_nat_div)

lemma setIndex_wf:
  "ba_wf a \<Longrightarrow> int k < Bits a \<Longrightarrow> setIndex a (int k) v =
     Inr (True, a\<lparr>Elems := (Elems a)[k div 64 :=
       (if v then set_bit (k mod 64) (Elems a ! (k div 64))
        else unset_bit (k mod 64) (Elems a ! (k div 64)))]\<rparr>)"
  by (simp add: setIndex_def Let_def set_bit_eq_or unset_bit_eq_and_not del: of_nat_div)

lemma setIndex_put: "ba_wf a \<Longrightarrow> int k < Bits a \<Longrightarrow> setIndex a (int k) v = Inr (True, ba_put k v a)"
  by (simp add: ba_put_def setIndex_wf)

lemma ba_put_Bits [simp]: "Bits (ba_put k v a) = Bits a"
  by (auto simp: ba_put_def setIndex_def Let_def bindP_def split: sum.splits if_splits)

lemma ba_put_wf [wf_intros]: "ba_wf a \<Longrightarrow> ba_wf (ba_put k v a)"
  by (auto simp: ba_wf_def ba_put_def setIndex_def Let_def bindP_def split: sum.splits if_splits)

lemma ba_test_put:
  assumes "ba_wf a" "int k < Bits a" "int j < Bits a"
  shows "ba_test (ba_put k v a) j = (if j = k then v else ba_test a j)"
proof (cases "j div 64 = k div 64")
  case True
  have "j mod 64 = k mod 64 \<longleftrightarrow> j = k"
    using True by (metis div_mod_decomp)
  then show ?thesis
    using assms word_index [of a k] True
    by (auto simp: ba_put_def setIndex_wf ba_test_def bit_set_bit_iff bit_unset_bit_iff)
next
  case False
  then show ?thesis
    using assms by (auto simp: ba_put_def setIndex_wf ba_test_def)
qed

lemma NewBitArray_wf [wf_intros]: "NewBitArray n = Some a \<Longrightarrow> ba_wf a"
  by (auto simp: NewBitArray_def ba_wf_def go_quot_add63 split: if_splits)

lemma NewBitArray_test: "NewBitArray n = Some a \<Longrightarrow> int k < n \<Longrightarrow> \<not> ba_test a k"
  using word_index [of a k] NewBitArray_wf [of n a]
  by (auto simp: NewBitArray_def ba_test_def split: if_splits)

lemma NewBitArray_Bits: "NewBitArray n = Some a \<Longrightarrow> Bits a = n"
  by (auto simp: NewBitArray_def split: if_splits)

section \<open>The interface the other components use\<close>

text \<open>
  What the vote sets and part sets rely on: a set of marked positions below a size, with
  single-position reads and writes.
\<close>

locale index_set =
  fixes wf :: "'b \<Rightarrow> bool"
    and size_of :: "'b \<Rightarrow> nat"
    and get :: "'b \<Rightarrow> nat \<Rightarrow> bool"
    and put :: "nat \<Rightarrow> bool \<Rightarrow> 'b \<Rightarrow> 'b"
  assumes put_wf: "wf b \<Longrightarrow> wf (put i v b)"
    and put_size: "size_of (put i v b) = size_of b"
    and get_put: "wf b \<Longrightarrow> i < size_of b \<Longrightarrow> j < size_of b \<Longrightarrow>
      get (put i v b) j = (if j = i then v else get b j)"
begin

definition put_all :: "nat list \<Rightarrow> 'b \<Rightarrow> 'b" where
  "put_all is b = fold (\<lambda>i. put i True) is b"

lemma put_all_simps [simp]: "put_all [] b = b" "put_all (i # is) b = put_all is (put i True b)"
  by (simp_all add: put_all_def)

lemma put_all_wf: "wf b \<Longrightarrow> wf (put_all is b)"
  by (induction "is" arbitrary: b) (simp_all add: put_wf)

lemma put_all_size: "size_of (put_all is b) = size_of b"
  by (induction "is" arbitrary: b) (simp_all add: put_size)

lemma get_put_all:
  "wf b \<Longrightarrow> \<forall>i \<in> set is. i < size_of b \<Longrightarrow> j < size_of b \<Longrightarrow>
     get (put_all is b) j \<longleftrightarrow> j \<in> set is \<or> get b j"
  by (induction "is" arbitrary: b) (auto simp: put_wf put_size get_put)

end

interpretation ba: index_set ba_wf "\<lambda>a. nat (Bits a)" ba_test ba_put
  by unfold_locales (auto simp: ba_put_wf ba_test_put)

section \<open>What the operations compute\<close>

lemma word_take_bit_add: "take_bit n (take_bit n a + take_bit n (b :: 'a::len word)) = take_bit n (a + b)"
  by transfer (metis (no_types, opaque_lifting) take_bit_add take_bit_take_bit min.commute)

lemma take_bit_full_iff:
  fixes e :: "64 word"
  shows "take_bit n (e + 1) = 0 \<longleftrightarrow> (\<forall>k<n. k < 64 \<longrightarrow> bit e k)"
proof -
  have full: "(\<forall>k<n. k < 64 \<longrightarrow> bit e k) \<longleftrightarrow> take_bit n e = mask n"
    by (auto simp: bit_eq_iff bit_take_bit_iff bit_mask_iff)
  have "take_bit n e = mask n" if "take_bit n (e + 1) = 0"
  proof -
    have "take_bit n e = take_bit n (take_bit n (e + 1) + take_bit n (- 1))"
      by (subst word_take_bit_add) simp
    then show ?thesis using that by simp
  qed
  moreover have "take_bit n (e + 1) = 0" if "take_bit n e = mask n"
  proof -
    have "take_bit n e = take_bit n (mask n)" by (simp flip: that)
    then have "take_bit n (e + 1) = take_bit n (mask n + 1)"
      by (metis word_take_bit_add)
    also have "\<dots> = 0"
      by (auto simp: mask_eq_exp_minus_1 bit_take_bit_iff bit_exp_iff intro!: bit_eqI)
    finally show ?thesis .
  qed
  ultimately show ?thesis unfolding full by blast
qed

lemma wf_last_word:
  assumes "ba_wf a"
  defines "n \<equiv> length (Elems a)"
  shows "Elems a \<noteq> []" "go_rem (Bits a + 63) 64 + 1 = Bits a - 64 * int (n - 1)"
    "0 < Bits a - 64 * int (n - 1)" "Bits a - 64 * int (n - 1) \<le> 64"
proof -
  have pos: "0 < Bits a" using assms by (simp add: ba_wf_def)
  then have "0 \<le> (Bits a + 63) div 64" by simp
  then have n: "int n = (Bits a + 63) div 64" using assms by (simp add: ba_wf_def)
  have "0 < n" using n pos by linarith
  then show "Elems a \<noteq> []" by (simp add: n_def)
  have i: "int (n - 1) = (Bits a + 63) div 64 - 1" using n \<open>0 < n\<close> by simp
  show "go_rem (Bits a + 63) 64 + 1 = Bits a - 64 * int (n - 1)"
    unfolding i using pos by (simp add: go_rem_nonneg) presburger
  show "0 < Bits a - 64 * int (n - 1)" "Bits a - 64 * int (n - 1) \<le> 64"
    unfolding i by presburger+
qed

text \<open>The positions of an array, word by word.\<close>

lemma all_bits_iff:
  assumes "ba_wf a"
  defines "n \<equiv> length (Elems a)"
  shows "(\<forall>k. int k < Bits a \<longrightarrow> P (Elems a ! (k div 64)) (k mod 64)) \<longleftrightarrow>
     (\<forall>e \<in> set (butlast (Elems a)). \<forall>b<64. P e b) \<and>
     (\<forall>b. int b < Bits a - 64 * int (n - 1) \<longrightarrow> P (last (Elems a)) b)" (is "?L \<longleftrightarrow> ?R")
proof
  note w = wf_last_word [OF assms(1), folded n_def]
  have lst: "last (Elems a) = Elems a ! (n - 1)"
    using w(1) by (simp add: last_conv_nth n_def)
  { assume L: ?L
    have "P (Elems a ! i) b" if "i < n - 1" "b < 64" for i b
    proof -
      have "int (64 * i + b) < Bits a" using that w(3) by linarith
      then show ?thesis using L [rule_format, of "64 * i + b"] that(2) by simp
    qed
    moreover have "P (last (Elems a)) b" if b: "int b < Bits a - 64 * int (n - 1)" for b
    proof -
      have "int (64 * (n - 1) + b) < Bits a" "b < 64" using b w(4) by linarith+
      then show ?thesis using L [rule_format, of "64 * (n - 1) + b"] by (simp add: lst)
    qed
    ultimately show ?R by (auto simp: in_set_conv_nth nth_butlast n_def) }
  { assume R: ?R
    show ?L
    proof (intro allI impI)
      fix k assume k: "int k < Bits a"
      then have i: "k div 64 < n" using word_index [OF assms(1)] by (simp add: n_def)
      show "P (Elems a ! (k div 64)) (k mod 64)"
      proof (cases "k div 64 = n - 1")
        case True
        have "k = 64 * (n - 1) + k mod 64" using True by (metis mult_div_mod_eq)
        then have "int (k mod 64) < Bits a - 64 * int (n - 1)" using k by linarith
        then show ?thesis using R True lst by simp
      next
        case False
        then have "k div 64 < length (butlast (Elems a))" using i by (simp add: n_def)
        then have "Elems a ! (k div 64) \<in> set (butlast (Elems a))"
          by (metis nth_butlast nth_mem)
        then show ?thesis using R by simp
      qed
    qed }
qed

lemma not_zero_iff: "NOT (e :: 64 word) \<noteq> 0 \<longleftrightarrow> \<not> (\<forall>b<64. bit e b)"
  by (auto simp: bit_eq_iff bit_not_iff)

lemma ba_IsFull_iff:
  assumes "ba_wf a"
  shows "ba_IsFull (Some a) = Inr (\<forall>k. int k < Bits a \<longrightarrow> ba_test a k)"
proof -
  note w = wf_last_word [OF assms]
  have "(last (Elems a) + 1) AND (shift_one (go_rem (Bits a + 63) 64 + 1) - 1) = 0 \<longleftrightarrow>
      (\<forall>b. int b < Bits a - 64 * int (length (Elems a) - 1) \<longrightarrow> bit (last (Elems a)) b)"
    using w(2-4) take_bit_full_iff [of "nat (Bits a - 64 * int (length (Elems a) - 1))" "last (Elems a)"]
    by (auto simp: shift_one_def take_bit_eq_mask mask_eq_exp_minus_1 zless_nat_eq_int_zless)
  then show ?thesis
    using w(1) unfolding ba_test_def all_bits_iff [OF assms, of bit]
    by (auto simp: ba_IsFull_def list_ex_iff not_zero_iff Let_def)
qed

lemma scan_bits_Some: "scan_bits e n start = Some b \<Longrightarrow> 0 < n \<Longrightarrow> b < n \<and> bit e b"
  by (auto simp: scan_bits_def find_Some_iff)

lemma scan_bits_None:
  assumes "scan_bits e n start = None" "b < n"
  shows "\<not> bit e b"
proof -
  define j where "j = (b + (n - start mod n)) mod n"
  have "j < n" using assms(2) by (simp add: j_def)
  have "(j + start) mod n = (b + (n - start mod n) + start mod n) mod n"
    by (simp add: j_def mod_simps)
  moreover have "b + (n - start mod n) + start mod n = b + n"
    using assms(2) mod_less_divisor [of n start] by linarith
  ultimately have "(j + start) mod n = b" using assms(2) by simp
  then have "b \<in> set (map (\<lambda>j. (j + start) mod n) [0..<n])"
    using \<open>j < n\<close> unfolding set_map by (intro image_eqI [of _ _ j]) simp_all
  then show ?thesis using assms(1) by (auto simp: scan_bits_def find_None_iff)
qed

text \<open>What one turn of the loop decides about word \<open>i\<close>.\<close>

definition word_bits :: "bit_array \<Rightarrow> nat \<Rightarrow> nat" where
  "word_bits a i = (if i < length (Elems a) - 1 then 64 else nat (Bits a - 64 * int (length (Elems a) - 1)))"

lemma word_bits_pos: "ba_wf a \<Longrightarrow> 0 < word_bits a i"
  using wf_last_word [of a] by (simp add: word_bits_def)

lemma word_bits_index:
  assumes "ba_wf a" "i < length (Elems a)" "b < word_bits a i"
  shows "int (64 * i + b) < Bits a" "ba_test a (64 * i + b) = bit (Elems a ! i) b"
  using assms wf_last_word [of a]
  by (auto simp: word_bits_def ba_test_def less_diff_conv split: if_splits)

lemma last_word_bits:
  assumes "ba_wf a" "\<not> i < length (Elems a) - 1"
  shows "nat (if go_rem (Bits a) 64 = 0 then 64 else go_rem (Bits a) 64) = word_bits a i"
    "\<not> go_rem (Bits a) 64 < 0"
proof -
  have pos: "0 < Bits a" using assms by (simp add: ba_wf_def)
  then show "\<not> go_rem (Bits a) 64 < 0" by (simp add: go_rem_nonneg)
  define d where "d = Bits a - 64 * int (length (Elems a) - 1)"
  have d: "0 < d" "d \<le> 64" using wf_last_word [OF assms(1)] by (simp_all add: d_def)
  have "Bits a = d + 64 * int (length (Elems a) - 1)" by (simp add: d_def)
  then have "Bits a mod 64 = d mod 64" by (simp only: mod_mult_self2)
  moreover have "d mod 64 = (if d = 64 then 0 else d)" using d by simp
  ultimately have e: "(if go_rem (Bits a) 64 = 0 then 64 else go_rem (Bits a) 64) = d"
    using d pos by (simp add: go_rem_nonneg)
  have "word_bits a i = nat d" using assms(2) by (simp add: word_bits_def d_def)
  then show "nat (if go_rem (Bits a) 64 = 0 then 64 else go_rem (Bits a) 64) = word_bits a i"
    by (simp only: e)
qed

lemma word_gt_0_bit: "e > (0 :: 64 word) \<longleftrightarrow> (\<exists>b<64. bit e b)"
  by (auto simp: word_neq_0_conv [symmetric] bit_eq_iff)

lemma pick_loop_spec:
  assumes wf: "ba_wf a" and ix: "\<forall>i \<in> set idxs. i < length (Elems a)"
  shows "\<exists>p ok. pick_loop rnd a k idxs = Inr (p, ok) \<and>
    (if ok then \<exists>j. p = int j \<and> p < Bits a \<and> ba_test a j
     else \<forall>i \<in> set idxs. \<forall>b < word_bits a i. \<not> bit (Elems a ! i) b)"
  using ix
proof (induction idxs arbitrary: k)
  case Nil
  then show ?case by auto
next
  case (Cons i idxs)
  have i: "i < length (Elems a)" using Cons.prems by simp
  have "\<forall>j \<in> set idxs. j < length (Elems a)" using Cons.prems by simp
  note IH = Cons.IH [OF this]
  have hit: ?case if "pick_loop rnd a k (i # idxs) = Inr (int (64 * i + b), True)"
      "b < word_bits a i" "bit (Elems a ! i) b" for b
  proof -
    have "\<exists>j. int (64 * i + b) = int j \<and> int (64 * i + b) < Bits a \<and> ba_test a j"
      using word_bits_index [OF wf i that(2)] that(3) by blast
    then show ?thesis unfolding that(1)
      by (intro exI [of _ "int (64 * i + b)"] exI [of _ True] conjI refl) (simp only: if_True)
  qed
  have miss: ?case if "pick_loop rnd a k (i # idxs) = pick_loop rnd a k' idxs"
      "\<forall>b < word_bits a i. \<not> bit (Elems a ! i) b" for k'
  proof -
    obtain p ok where "pick_loop rnd a k' idxs = Inr (p, ok)"
      "if ok then \<exists>j. p = int j \<and> p < Bits a \<and> ba_test a j
       else \<forall>j \<in> set idxs. \<forall>b < word_bits a j. \<not> bit (Elems a ! j) b"
      using IH [of k'] by auto
    then show ?thesis unfolding that(1) using that(2) by (intro exI [of _ p] exI [of _ ok]) auto
  qed
  show ?case
  proof (cases "i < length (Elems a) - 1")
    case True
    then have n: "word_bits a i = 64" by (simp add: word_bits_def)
    show ?thesis
    proof (cases "scan_bits (Elems a ! i) 64 (rnd k 64)")
      case None
      then have "\<forall>b<64. \<not> bit (Elems a ! i) b" using scan_bits_None by blast
      then have "\<not> Elems a ! i > 0" by (simp add: word_gt_0_bit)
      then show ?thesis using True n scan_bits_None [OF None] by (intro miss [of k]) simp_all
    next
      case (Some b)
      then have "b < 64" "bit (Elems a ! i) b" using scan_bits_Some [of _ 64] by auto
      moreover from this have "Elems a ! i > 0" by (auto simp: word_gt_0_bit)
      ultimately show ?thesis using True n Some by (intro hit [of b]) simp_all
    qed
  next
    case False
    note n = last_word_bits [OF wf False]
    show ?thesis
    proof (cases "scan_bits (Elems a ! i) (word_bits a i) (rnd k (word_bits a i))")
      case None
      then show ?thesis using False n scan_bits_None [OF None]
        by (intro miss [of "Suc k"]) (simp_all add: Let_def)
    next
      case (Some b)
      then show ?thesis using False n scan_bits_Some [OF Some word_bits_pos [OF wf]]
        by (intro hit [of b]) (simp_all add: Let_def)
    qed
  qed
qed

lemma ba_PickRandom_spec:
  assumes "ba_wf a"
  shows "\<exists>p ok. ba_PickRandom rnd (Some a) = Inr (p, ok) \<and>
    (if ok then \<exists>j. p = int j \<and> p < Bits a \<and> ba_test a j
     else \<forall>k. int k < Bits a \<longrightarrow> \<not> ba_test a k)"
proof -
  define n where "n = length (Elems a)"
  define idxs where "idxs = map (\<lambda>i. (i + rnd 0 n) mod n) [0..<n]"
  have n: "0 < n" using wf_last_word(1) [OF assms] by (simp add: n_def)
  have all: "i \<in> set idxs" if "i < n" for i
  proof -
    define j where "j = (i + (n - rnd 0 n mod n)) mod n"
    have "(j + rnd 0 n) mod n = (i + (n - rnd 0 n mod n) + rnd 0 n mod n) mod n"
      by (simp add: j_def mod_simps)
    moreover have "i + (n - rnd 0 n mod n) + rnd 0 n mod n = i + n"
      using n mod_less_divisor [of n "rnd 0 n"] by linarith
    ultimately have "(j + rnd 0 n) mod n = i" using that by simp
    moreover have "j < n" using n by (simp add: j_def)
    ultimately show ?thesis unfolding idxs_def set_map by (intro image_eqI [of _ _ j]) simp_all
  qed
  have "\<forall>i \<in> set idxs. i < length (Elems a)" using n by (auto simp: idxs_def n_def)
  from pick_loop_spec [OF assms this, of rnd 1] obtain p ok where
    p: "pick_loop rnd a 1 idxs = Inr (p, ok)" and
    r: "if ok then \<exists>j. p = int j \<and> p < Bits a \<and> ba_test a j
      else \<forall>i \<in> set idxs. \<forall>b < word_bits a i. \<not> bit (Elems a ! i) b" by blast
  have "\<not> ba_test a k" if "\<not> ok" "int k < Bits a" for k
  proof -
    have i: "k div 64 < n" using word_index [OF assms that(2)] by (simp add: n_def)
    have "k mod 64 < word_bits a (k div 64)"
    proof (cases "k div 64 < n - 1")
      case False
      then have "k div 64 = n - 1" using i by simp
      then have "k = 64 * (n - 1) + k mod 64" by (metis mult_div_mod_eq)
      then show ?thesis using that(2) False by (simp add: word_bits_def n_def)
    qed (simp add: word_bits_def n_def)
    then show ?thesis using r that(1) all [OF i] by (simp add: ba_test_def)
  qed
  moreover have "ba_PickRandom rnd (Some a) = Inr (p, ok)"
    using p n by (simp add: ba_PickRandom_def n_def idxs_def Let_def)
  ultimately show ?thesis using r by (intro exI [of _ p] exI [of _ ok]) simp
qed

lemma zip_elems_ok: "length cs \<le> length es \<Longrightarrow> zip_elems f cs es = Inr (map2 f cs es)"
  by (induction f cs es rule: zip_elems.induct) simp_all

lemma zip_elems_short: "length es < length cs \<Longrightarrow> zip_elems f cs es = Inl IndexOutOfRange"
  by (induction f cs es rule: zip_elems.induct) simp_all

lemma copyBits_ok: "0 < n \<Longrightarrow> copyBits a n =
    Inr \<lparr>Bits = n, Elems = take (nat ((n + 63) div 64)) (Elems a @ replicate (nat ((n + 63) div 64)) 0)\<rparr>"
  by (simp add: copyBits_def go_quot_nonneg Let_def)

lemma copyBits_length: "0 < n \<Longrightarrow> copyBits a n = Inr c \<Longrightarrow> Bits c = n \<and> ba_wf c"
  by (auto simp: copyBits_ok ba_wf_def)

lemma copyBits_test:
  assumes "ba_wf a" "0 < n" "n \<le> Bits a" "copyBits a n = Inr c" "int k < n"
  shows "ba_test c k = ba_test a k"
proof -
  have "k div 64 < length (Elems a)" using assms word_index [of a k] by simp
  moreover have "k div 64 < length (Elems c)"
    using assms copyBits_length [of n a c] word_index [of c k] by simp
  moreover have "\<exists>m. Elems c = take m (Elems a @ replicate m 0)"
    using copyBits_ok [OF assms(2), of a] assms(4) by (metis Inr_inject bit_array.select_convs(2))
  ultimately have "Elems c ! (k div 64) = Elems a ! (k div 64)"
    by (auto simp: nth_append)
  then show ?thesis by (simp add: ba_test_def)
qed

lemma words_mono: "ba_wf a \<Longrightarrow> ba_wf b \<Longrightarrow> Bits a \<le> Bits b \<Longrightarrow> length (Elems a) \<le> length (Elems b)"
  by (simp add: ba_wf_def nat_mono zdiv_mono1)

text \<open>A wordwise operation on two arrays is the bitwise one on every position.\<close>

lemma zip_test:
  assumes "ba_wf c" "length (Elems c) \<le> length (Elems b)" "int k < Bits c"
    and "\<And>x y i. i < 64 \<Longrightarrow> bit (f x y) i = g (bit x i) (bit y i)"
  shows "ba_test (c\<lparr>Elems := map2 f (Elems c) (Elems b)\<rparr>) k = g (ba_test c k) (ba_test b k)"
  using assms word_index [of c k] by (simp add: ba_test_def)

lemma ba_Not_wf: "ba_wf b \<Longrightarrow> ba_Not (Some b) = Some c \<Longrightarrow> ba_wf c \<and> Bits c = Bits b"
  by (auto simp: ba_Not_def ba_wf_def)

lemma ba_Not_test: "ba_wf b \<Longrightarrow> ba_Not (Some b) = Some c \<Longrightarrow> int k < Bits b \<Longrightarrow> ba_test c k \<longleftrightarrow> \<not> ba_test b k"
  using word_index [of b k] by (auto simp: ba_Not_def ba_test_def bit_not_iff)

lemma ba_and_spec:
  assumes "ba_wf a" "ba_wf b"
  obtains c where "ba_and a b = Inr c" "ba_wf c" "Bits c = min (Bits a) (Bits b)"
    "\<And>k. int k < Bits c \<Longrightarrow> ba_test c k \<longleftrightarrow> ba_test a k \<and> ba_test b k"
proof -
  define n where "n = min (Bits a) (Bits b)"
  have n: "0 < n" using assms by (simp add: n_def ba_wf_def)
  obtain c where c: "copyBits a n = Inr c" using copyBits_ok [OF n] by blast
  note wf = copyBits_length [OF n c]
  have len: "length (Elems c) \<le> length (Elems b)"
    using words_mono [of c b] wf assms by (simp add: n_def)
  show ?thesis
  proof
    show "ba_and a b = Inr (c\<lparr>Elems := map2 (AND) (Elems c) (Elems b)\<rparr>)"
      using c len by (simp add: ba_and_def zip_elems_ok n_def)
    show "ba_test (c\<lparr>Elems := map2 (AND) (Elems c) (Elems b)\<rparr>) k \<longleftrightarrow> ba_test a k \<and> ba_test b k"
      if "int k < Bits (c\<lparr>Elems := map2 (AND) (Elems c) (Elems b)\<rparr>)" for k
      using that zip_test [of c b k "(AND)" "(\<and>)"] wf len copyBits_test [OF assms(1) n _ c, of k]
      by (simp add: bit_and_iff n_def)
  qed (use wf len in \<open>auto simp: n_def ba_wf_def\<close>)
qed

lemma ba_Sub_spec:
  assumes "ba_wf a" "ba_wf b" "Bits a \<le> Bits b"
  shows "\<exists>c. ba_Sub (Some a) (Some b) = Inr (Some c) \<and> ba_wf c \<and> Bits c = Bits a \<and>
    (\<forall>k. int k < Bits a \<longrightarrow> (ba_test c k \<longleftrightarrow> ba_test a k \<and> \<not> ba_test b k))"
proof -
  obtain nb where nb: "ba_Not (Some b) = Some nb" by (simp add: ba_Not_def)
  note n = ba_Not_wf [OF assms(2) nb]
  obtain c where c: "ba_and a nb = Inr c" "ba_wf c" "Bits c = min (Bits a) (Bits nb)"
    "\<And>k. int k < Bits c \<Longrightarrow> ba_test c k \<longleftrightarrow> ba_test a k \<and> ba_test nb k"
    using ba_and_spec [OF assms(1)] n by blast
  then show ?thesis
    using assms(3) n nb ba_Not_test [OF assms(2) nb]
    by (intro exI [of _ c]) (simp add: ba_Sub_def deref_def)
qed

lemma ba_Or_spec:
  assumes "ba_wf a" "ba_wf b" "Bits a = Bits b"
  shows "\<exists>c. ba_Or (Some a) (Some b) = Inr (Some c) \<and> ba_wf c \<and> Bits c = Bits b \<and>
    (\<forall>k. int k < Bits b \<longrightarrow> (ba_test c k \<longleftrightarrow> ba_test a k \<or> ba_test b k))"
proof -
  have n: "0 < Bits b" using assms by (simp add: ba_wf_def)
  obtain c where c: "copyBits a (Bits b) = Inr c" using copyBits_ok [OF n] by blast
  note wf = copyBits_length [OF n c]
  have len: "length (Elems c) \<le> length (Elems b)" using words_mono [of c b] wf assms by simp
  define d where "d = c\<lparr>Elems := map2 (OR) (Elems c) (Elems b)\<rparr>"
  have "ba_test d k \<longleftrightarrow> ba_test a k \<or> ba_test b k" if "int k < Bits b" for k
    unfolding d_def
    using that zip_test [of c b k "(OR)" "(\<or>)"] wf len copyBits_test [OF assms(1) n _ c, of k] assms(3)
    by (simp add: bit_or_iff)
  moreover have "ba_Or (Some a) (Some b) = Inr (Some d)"
    using c len assms(3) by (simp add: ba_Or_def zip_elems_ok d_def)
  ultimately show ?thesis using wf len by (intro exI [of _ d]) (auto simp: d_def ba_wf_def)
qed

text \<open>The receiver of \<open>Or\<close> needs more words than the argument has: the loop panics.\<close>

lemma ba_Or_panics:
  assumes "ba_wf a" "length (Elems b) < length (Elems a)" "Bits b \<le> Bits a"
  shows "ba_Or (Some a) (Some b) = Inl IndexOutOfRange"
proof -
  have n: "0 < Bits a" using assms by (simp add: ba_wf_def)
  obtain c where c: "copyBits a (Bits a) = Inr c" using copyBits_ok [OF n] by blast
  have "length (Elems c) = length (Elems a)"
    using copyBits_length [OF n c] assms(1) by (simp add: ba_wf_def)
  then show ?thesis using assms c by (simp add: ba_Or_def zip_elems_short)
qed

lemma sub_words_spec: "n \<le> length es \<Longrightarrow> sub_words es n = Inr (replicate n 0 @ drop n es)"
  by (induction es n rule: sub_words.induct) simp_all

lemma sub_bits_spec:
  "ba_wf c \<Longrightarrow> ba_wf b \<Longrightarrow> \<forall>k \<in> set ks. int k < Bits c \<and> int k < Bits b \<Longrightarrow> distinct ks \<Longrightarrow>
   \<exists>d. sub_bits c b (map int ks) = Inr d \<and> ba_wf d \<and> Bits d = Bits c \<and>
     (\<forall>k. int k < Bits c \<longrightarrow>
        (ba_test d k \<longleftrightarrow> ba_test c k \<and> (k \<in> set ks \<longrightarrow> \<not> ba_test b k)))"
proof (induction ks arbitrary: c)
  case Nil
  then show ?case by simp
next
  case (Cons j ks)
  define c' where "c' = ba_put j (ba_test c j \<and> \<not> ba_test b j) c"
  have j: "int j < Bits c" "int j < Bits b" using Cons.prems by simp_all
  have c': "ba_wf c'" "Bits c' = Bits c" using Cons.prems(1) by (simp_all add: c'_def ba_put_wf)
  have step: "sub_bits c b (map int (j # ks)) = sub_bits c' b (map int ks)"
    using Cons.prems j by (simp add: getIndex_wf GetIndex_def setIndex_put c'_def)
  have "\<exists>d. sub_bits c' b (map int ks) = Inr d \<and> ba_wf d \<and> Bits d = Bits c' \<and>
     (\<forall>k. int k < Bits c' \<longrightarrow>
        (ba_test d k \<longleftrightarrow> ba_test c' k \<and> (k \<in> set ks \<longrightarrow> \<not> ba_test b k)))"
    using Cons.prems c' by (intro Cons.IH) simp_all
  then obtain d where d: "sub_bits c' b (map int ks) = Inr d" "ba_wf d" "Bits d = Bits c'" and
    t: "\<And>k. int k < Bits c' \<Longrightarrow>
      (ba_test d k \<longleftrightarrow> ba_test c' k \<and> (k \<in> set ks \<longrightarrow> \<not> ba_test b k))" by blast
  have "ba_test d k \<longleftrightarrow> ba_test c k \<and> (k \<in> set (j # ks) \<longrightarrow> \<not> ba_test b k)"
    if k: "int k < Bits c" for k
    using t [of k] k c' ba_test_put [OF Cons.prems(1) j(1) k, of "ba_test c j \<and> \<not> ba_test b j"]
    by (auto simp: c'_def)
  then show ?case using d c' step by (intro exI [of _ d]) simp
qed

lemma upto_nat: "[int m..int n - 1] = map int [m..<n]"
  by (rule nth_equalityI) auto

text \<open>
  A longer receiver: the words of the argument before its last one are cleared in the
  result whatever the argument holds; only the last word is subtracted bit by bit.
\<close>

lemma ba_Sub_longer:
  assumes "ba_wf a" "ba_wf b" "Bits b < Bits a"
  defines "m \<equiv> 64 * (length (Elems b) - 1)"
  shows "\<exists>c. ba_Sub (Some a) (Some b) = Inr (Some c) \<and> ba_wf c \<and> Bits c = Bits a \<and>
    (\<forall>k. int k < Bits a \<longrightarrow> (ba_test c k \<longleftrightarrow>
       m \<le> k \<and> ba_test a k \<and> (int k < Bits b \<longrightarrow> \<not> ba_test b k)))"
proof -
  define n where "n = length (Elems b) - 1"
  have len: "length (Elems b) \<le> length (Elems a)" using words_mono [of b a] assms by simp
  have nb: "Elems b \<noteq> []" using wf_last_word(1) [OF assms(2)] .
  define a' where "a' = a\<lparr>Elems := replicate n 0 @ drop n (Elems a)\<rparr>"
  have a': "ba_wf a'" "Bits a' = Bits a" using assms(1) len by (auto simp: ba_wf_def a'_def n_def)
  have ta: "ba_test a' k \<longleftrightarrow> m \<le> k \<and> ba_test a k" if "int k < Bits a" for k
    using word_index [OF assms(1) that] len
    by (auto simp: ba_test_def a'_def n_def m_def nth_append less_mult_imp_div_less
        intro: nat_le_iff_add [THEN iffD2])
  have up: "[int n * 64..Bits b - 1] = map int [m..<nat (Bits b)]"
    using upto_nat [of m "nat (Bits b)"] assms(2) by (simp add: m_def n_def ba_wf_def mult.commute)
  obtain d where d: "sub_bits a' b (map int [m..<nat (Bits b)]) = Inr d" "ba_wf d" "Bits d = Bits a'" and
    t: "\<And>k. int k < Bits a' \<Longrightarrow>
      (ba_test d k \<longleftrightarrow> ba_test a' k \<and> (k \<in> set [m..<nat (Bits b)] \<longrightarrow> \<not> ba_test b k))"
    using sub_bits_spec [OF a'(1) assms(2), of "[m..<nat (Bits b)]"] a'(2) assms(3)
    by (auto simp: zless_nat_eq_int_zless)
  have "ba_Sub (Some a) (Some b) = Inr (Some d)"
    using assms(3) len nb d(1) up by (simp add: ba_Sub_def sub_words_spec n_def a'_def)
  then show ?thesis using d a' t ta by (intro exI [of _ d]) auto
qed

section \<open>JSON\<close>

lemma bit_chars_wf:
  "ba_wf a \<Longrightarrow> \<forall>i \<in> set is. 0 \<le> i \<and> i < Bits a \<Longrightarrow>
     bit_chars a is = Inr (map (\<lambda>i. if ba_test a (nat i) then CHR ''x'' else CHR ''_'') is)"
proof (induction "is")
  case (Cons i "is")
  then show ?case using getIndex_wf [OF Cons.prems(1), of "nat i"] by simp
qed simp

lemma set_marked_spec:
  "ba_wf b \<Longrightarrow> int (i + length cs) \<le> Bits b \<Longrightarrow>
   \<exists>c. set_marked (Some b) (int i) cs = Inr (Some c) \<and> ba_wf c \<and> Bits c = Bits b \<and>
     (\<forall>k. int k < Bits b \<longrightarrow>
        (ba_test c k \<longleftrightarrow> ba_test b k \<or> (i \<le> k \<and> k < i + length cs \<and> cs ! (k - i) = CHR ''x'')))"
proof (induction cs arbitrary: i b)
  case Nil
  then show ?case by auto
next
  case (Cons d cs)
  define b' where "b' = (if d = CHR ''x'' then ba_put i True b else b)"
  have i: "int i < Bits b" using Cons.prems(2) by simp
  have wf: "ba_wf b'" "Bits b' = Bits b"
    using Cons.prems(1) by (simp_all add: b'_def ba_put_wf)
  have step: "set_marked (Some b) (int i) (d # cs) = set_marked (Some b') (int (Suc i)) cs"
    using Cons.prems(1) i by (simp add: b'_def SetIndex_def setIndex_put add.commute)
  have "int (Suc i + length cs) \<le> Bits b'" using Cons.prems(2) wf by simp
  from Cons.IH [OF wf(1) this] obtain c where
    c: "set_marked (Some b') (int (Suc i)) cs = Inr (Some c)" "ba_wf c" "Bits c = Bits b'" and
    t: "\<And>k. int k < Bits b' \<Longrightarrow> ba_test c k \<longleftrightarrow>
      ba_test b' k \<or> (Suc i \<le> k \<and> k < Suc i + length cs \<and> cs ! (k - Suc i) = CHR ''x'')"
    by blast
  have "ba_test c k \<longleftrightarrow> ba_test b k \<or> (i \<le> k \<and> k < i + length (d # cs) \<and> (d # cs) ! (k - i) = CHR ''x'')"
    if k: "int k < Bits b" for k
  proof (cases "k = i")
    case True
    then show ?thesis
      using t [of i] wf i Cons.prems(1) ba_test_put [of b i i True] by (simp add: b'_def)
  next
    case False
    then show ?thesis
      using t [of k] wf k i Cons.prems(1) ba_test_put [of b i k True]
      by (auto simp: b'_def nth_Cons' Suc_le_eq)
  qed
  then show ?case using c wf step by (intro exI [of _ c]) simp
qed

lemma json_match_quoted:
  "list_all (\<lambda>c. c = CHR ''_'' \<or> c = CHR ''x'') s \<Longrightarrow> json_match (CHR 0x22 # s @ [CHR 0x22]) = Some s"
  by (simp add: json_match_def)

lemma ba_JSON_roundtrip_bits:
  assumes "ba_wf a"
  shows "\<exists>s c. ba_MarshalJSON (Some a) = Inr s \<and> ba_UnmarshalJSON s = Inr (Inr c) \<and>
    ba_wf c \<and> Bits c = Bits a \<and> (\<forall>k. int k < Bits a \<longrightarrow> ba_test c k = ba_test a k)"
proof -
  define s where "s = map (\<lambda>i. if ba_test a (nat i) then CHR ''x'' else CHR ''_'') [0..Bits a - 1]"
  have pos: "0 < Bits a" using assms by (simp add: ba_wf_def)
  have len: "int (length s) = Bits a" using pos by (simp add: s_def)
  obtain z where z: "NewBitArray (Bits a) = Some z" using pos by (simp add: NewBitArray_def)
  note zwf = NewBitArray_wf [OF z] and zb = NewBitArray_Bits [OF z]
  obtain c where c: "set_marked (Some z) 0 s = Inr (Some c)" "ba_wf c" "Bits c = Bits z" and
    t: "\<And>k. int k < Bits z \<Longrightarrow> ba_test c k \<longleftrightarrow> ba_test z k \<or> (k < length s \<and> s ! k = CHR ''x'')"
    using set_marked_spec [OF zwf, of 0 s] zb len by auto
  have "ba_test c k = ba_test a k" if "int k < Bits a" for k
    using t [of k] that zb len NewBitArray_test [OF z that]
    by (simp add: s_def zless_nat_eq_int_zless)
  moreover have "ba_MarshalJSON (Some a) = Inr (CHR 0x22 # s @ [CHR 0x22])"
    using bit_chars_wf [OF assms, of "[0..Bits a - 1]"] by (simp add: ba_MarshalJSON_def s_def)
  moreover have "json_match (CHR 0x22 # s @ [CHR 0x22]) = Some s"
    by (rule json_match_quoted) (simp add: s_def list_all_length)
  ultimately show ?thesis
    using c z zb len
    by (intro exI [of _ "CHR 0x22 # s @ [CHR 0x22]"] exI [of _ c]) (simp add: ba_UnmarshalJSON_def deref_def)
qed

section \<open>Properties\<close>

text \<open>
  C34: \<open>PickRandom\<close> never panics on a well-formed array, whatever the random source returns;
  when it reports success the index it returns is a set bit of the array, and it reports
  failure only when no bit is set.
\<close>

theorem PickRandom_sound_complete:
  assumes "ba_wf a"
  shows "\<exists>p ok. ba_PickRandom rnd (Some a) = Inr (p, ok) \<and>
    (if ok then \<exists>j. p = int j \<and> p < Bits a \<and> ba_test a j
     else \<forall>k. int k < Bits a \<longrightarrow> \<not> ba_test a k)"
  by (rule ba_PickRandom_spec [OF assms])

theorem PickRandom_sound_complete_witness:
  "\<exists>p. ba_PickRandom (\<lambda>k n. k) (Some \<lparr>Bits = 70, Elems = [0, 4]\<rparr>) = Inr (p, True)"
proof -
  have "ba_test \<lparr>Bits = 70, Elems = [0, 4]\<rparr> 66" by (simp add: ba_test_def bit_numeral_rec)
  then have "\<not> (\<forall>k. int k < Bits \<lparr>Bits = 70, Elems = [0, 4]\<rparr> \<longrightarrow> \<not> ba_test \<lparr>Bits = 70, Elems = [0, 4]\<rparr> k)"
    by (intro notI) (drule spec [of _ 66], simp)
  then show ?thesis
    using PickRandom_sound_complete [of "\<lparr>Bits = 70, Elems = [0, 4]\<rparr>" "\<lambda>k n. k"]
    by (auto simp: ba_wf_def split: if_splits)
qed

text \<open>
  \<open>Sub\<close> is the set difference when the receiver is not longer than the argument. When it
  is longer, the bits below the last word of the argument are all cleared, whether the
  argument has them or not; from that word on it is the difference again.
\<close>

lemma Sub_bits:
  assumes "ba_wf a" "ba_wf b"
  shows "\<exists>c. ba_Sub (Some a) (Some b) = Inr (Some c) \<and> ba_wf c \<and> Bits c = Bits a \<and>
    (\<forall>k. int k < Bits a \<longrightarrow> (ba_test c k \<longleftrightarrow>
       ba_test a k \<and> (int k < Bits b \<longrightarrow> \<not> ba_test b k) \<and>
       (Bits b < Bits a \<longrightarrow> 64 * (length (Elems b) - 1) \<le> k)))"
proof (cases "Bits b < Bits a")
  case True
  then show ?thesis using ba_Sub_longer [OF assms True] by auto
next
  case False
  then show ?thesis using ba_Sub_spec [OF assms] by auto
qed

text \<open>
  Marshalling a well-formed array to JSON and reading the text back gives a
  well-formed array of the same size with the same bits.
\<close>

lemma BitArray_JSON_roundtrip:
  assumes "ba_wf a"
  shows "\<exists>s c. ba_MarshalJSON (Some a) = Inr s \<and> ba_UnmarshalJSON s = Inr (Inr c) \<and>
    ba_wf c \<and> Bits c = Bits a \<and> (\<forall>k. int k < Bits a \<longrightarrow> ba_test c k = ba_test a k)"
  by (rule ba_JSON_roundtrip_bits [OF assms])

text \<open>The empty JSON string has no bit array: \<open>NewBitArray(0)\<close> is nil and is dereferenced.\<close>

lemma UnmarshalJSON_empty_panics: "ba_UnmarshalJSON [CHR 0x22, CHR 0x22] = Inl NilDereference"
  by (simp add: ba_UnmarshalJSON_def json_match_def NewBitArray_def deref_def)

end
