(* ===== verification/Crypto.thy ===== *)
theory Crypto
  imports DMC_Prelude
begin

text \<open>
  \<^verbatim>\<open>crypto/pub_key.go\<close>, \<^verbatim>\<open>crypto/signature.go\<close>, \<^verbatim>\<open>crypto/hash.go\<close> and
  \<^verbatim>\<open>crypto/tmhash\<close>: keys, signatures and addresses. The hash functions, the curve
  libraries and amino's length-prefixed byte slices come from other packages; they are the
  fields of the environment \<open>crypto_env\<close>, which every operation that calls them takes as
  an argument.
\<close>

record crypto_env =
  sha256 :: "bytes \<Rightarrow> bytes"
  ripemd160 :: "bytes \<Rightarrow> bytes"
  ed25519_Verify :: "bytes \<Rightarrow> bytes \<Rightarrow> bytes \<Rightarrow> bool"
  secp256k1_ParsePubKey :: "bytes \<Rightarrow> bytes option"
  secp256k1_ParseDERSignature :: "bytes \<Rightarrow> bytes option"
  secp256k1_Verify :: "bytes \<Rightarrow> bytes \<Rightarrow> bytes \<Rightarrow> bool"
  EncodeByteSlice :: "bytes \<Rightarrow> bytes"

section \<open>Hashes\<close>

definition Sha256 :: "'e crypto_env_scheme \<Rightarrow> bytes \<Rightarrow> bytes" where
  "Sha256 E bz = sha256 E bz"

definition Ripemd160 :: "'e crypto_env_scheme \<Rightarrow> bytes \<Rightarrow> bytes" where
  "Ripemd160 E bz = ripemd160 E bz"

definition tmhash_Size :: nat where
  "tmhash_Size = 20"

definition tmhash_Sum :: "'e crypto_env_scheme \<Rightarrow> bytes \<Rightarrow> bytes" where
  "tmhash_Sum E bz = take tmhash_Size (sha256 E bz)"

section \<open>Keys and signatures\<close>

datatype signature = SignatureEd25519 bytes | SignatureSecp256k1 bytes

datatype pub_key = PubKeyEd25519 bytes | PubKeySecp256k1 bytes

fun pk_Address :: "'e crypto_env_scheme \<Rightarrow> pub_key \<Rightarrow> bytes" where
  "pk_Address E (PubKeyEd25519 k) = tmhash_Sum E k"
| "pk_Address E (PubKeySecp256k1 k) = ripemd160 E (sha256 E k)"

text \<open>A nil signature fails the type assertion of both verifiers.\<close>

fun VerifyBytes :: "'e crypto_env_scheme \<Rightarrow> pub_key \<Rightarrow> bytes \<Rightarrow> signature option \<Rightarrow> bool" where
  "VerifyBytes E (PubKeyEd25519 k) msg sigI =
     (case sigI of
        Some (SignatureEd25519 sig) \<Rightarrow> ed25519_Verify E k msg sig
      | _ \<Rightarrow> False)"
| "VerifyBytes E (PubKeySecp256k1 k) msg sigI =
     (case sigI of
        Some (SignatureSecp256k1 sig) \<Rightarrow>
          (case secp256k1_ParsePubKey E k of None \<Rightarrow> False
           | Some pub \<Rightarrow>
               (case secp256k1_ParseDERSignature E sig of None \<Rightarrow> False
                | Some s \<Rightarrow> secp256k1_Verify E s (Sha256 E msg) pub))
      | _ \<Rightarrow> False)"

fun pk_Equals :: "pub_key \<Rightarrow> pub_key option \<Rightarrow> bool" where
  "pk_Equals (PubKeyEd25519 k) other =
     (case other of Some (PubKeyEd25519 k') \<Rightarrow> k = k' | _ \<Rightarrow> False)"
| "pk_Equals (PubKeySecp256k1 k) other =
     (case other of Some (PubKeySecp256k1 k') \<Rightarrow> k = k' | _ \<Rightarrow> False)"

fun sig_Equals :: "signature \<Rightarrow> signature option \<Rightarrow> bool" where
  "sig_Equals (SignatureEd25519 s) other =
     (case other of Some (SignatureEd25519 s') \<Rightarrow> s = s' | _ \<Rightarrow> False)"
| "sig_Equals (SignatureSecp256k1 s) other =
     (case other of Some (SignatureSecp256k1 s') \<Rightarrow> s = s' | _ \<Rightarrow> False)"

text \<open>
  The Ed25519 array type has length 64, so its \<open>len\<close> is a positive constant; the
  Secp256k1 one is a slice.
\<close>

fun sig_IsZero :: "signature \<Rightarrow> bool" where
  "sig_IsZero (SignatureEd25519 s) \<longleftrightarrow> (64 :: nat) = 0"
| "sig_IsZero (SignatureSecp256k1 s) \<longleftrightarrow> length s = 0"

section \<open>Lemmas\<close>

lemma pk_Equals_iff [simp]: "pk_Equals k other \<longleftrightarrow> other = Some k"
  by (cases k) (auto split: option.splits pub_key.splits)

lemma sig_Equals_iff [simp]: "sig_Equals s other \<longleftrightarrow> other = Some s"
  by (cases s) (auto split: option.splits signature.splits)

lemma VerifyBytes_nil [simp]: "\<not> VerifyBytes E k msg None"
  by (cases k) simp_all

text \<open>
  amino documents \<open>EncodeByteSlice\<close> as the slice prefixed with its length: a reader of a
  longer string recovers the slice and the rest.
\<close>

definition length_prefixed :: "(bytes \<Rightarrow> bytes) \<Rightarrow> bool" where
  "length_prefixed enc \<longleftrightarrow> (\<forall>a b x y. enc a @ x = enc b @ y \<longrightarrow> a = b \<and> x = y)"

lemma length_prefixedD: "length_prefixed enc \<Longrightarrow> enc a @ x = enc b @ y \<Longrightarrow> a = b \<and> x = y"
  unfolding length_prefixed_def by blast

text \<open>A concrete encoding of that kind: the length in unary, a separator, the bytes.\<close>

definition unary_prefix :: "bytes \<Rightarrow> bytes" where
  "unary_prefix b = replicate (length b) (CHR ''|'') @ CHR '':'' # b"

lemma replicate_separator:
  "c \<noteq> d \<Longrightarrow> replicate m c @ d # xs = replicate n c @ d # ys \<Longrightarrow> m = n \<and> xs = ys"
proof (induction m arbitrary: n)
  case 0
  then show ?case by (cases n) auto
next
  case (Suc m)
  then show ?case by (cases n) auto
qed

lemma unary_prefix_length_prefixed: "length_prefixed unary_prefix"
  unfolding length_prefixed_def
proof (intro allI impI)
  fix a b x y :: bytes
  assume "unary_prefix a @ x = unary_prefix b @ y"
  then have "replicate (length a) (CHR ''|'') @ CHR '':'' # (a @ x) =
      replicate (length b) (CHR ''|'') @ CHR '':'' # (b @ y)"
    by (simp add: unary_prefix_def)
  then have "length a = length b \<and> a @ x = b @ y"
    by (rule replicate_separator [rotated]) simp
  then show "a = b \<and> x = y" by (metis append_eq_append_conv)
qed

text \<open>An environment of concrete functions, for evaluation.\<close>

definition demo_crypto :: crypto_env where
  "demo_crypto = \<lparr>sha256 = (\<lambda>b. b), ripemd160 = (\<lambda>b. b),
     ed25519_Verify = (\<lambda>k m s. s = k @ m),
     secp256k1_ParsePubKey = Some, secp256k1_ParseDERSignature = Some,
     secp256k1_Verify = (\<lambda>s m k. s = k @ m),
     EncodeByteSlice = unary_prefix\<rparr>"

lemma demo_crypto_simps [simp]:
  "EncodeByteSlice demo_crypto = unary_prefix" "sha256 demo_crypto = (\<lambda>b. b)"
  "ed25519_Verify demo_crypto = (\<lambda>k m s. s = k @ m)"
  by (simp_all add: demo_crypto_def)

end
