(* ===== verification/Merkle.thy ===== *)
theory Merkle
  imports Crypto "HOL-Library.Product_Lexorder" "HOL-Library.Multiset"
begin

text \<open>
  \<^verbatim>\<open>crypto/merkle\<close>: the simple Merkle tree, its inclusion proofs and the tree of a map.
  An item is anything with a \<open>Hash\<close> method; the method is the argument \<open>Hash\<close>. The proof
  nodes are heap objects linked by pointers, which \<open>trailsFromHashers\<close> updates after it has
  built both halves, so they are modelled in an explicit store: a list of nodes, a pointer
  being an index.
\<close>

section \<open>The tree\<close>

definition SimpleHashFromTwoHashes :: "'e crypto_env_scheme \<Rightarrow> bytes \<Rightarrow> bytes \<Rightarrow> bytes" where
  "SimpleHashFromTwoHashes E left right = tmhash_Sum E (EncodeByteSlice E left @ EncodeByteSlice E right)"

text \<open>A nil result (no leaves) is the empty byte string.\<close>

fun simpleHashFromHashes :: "'e crypto_env_scheme \<Rightarrow> bytes list \<Rightarrow> bytes" where
  "simpleHashFromHashes E [] = []"
| "simpleHashFromHashes E [h] = h"
| "simpleHashFromHashes E hashes =
     (let k = (length hashes + 1) div 2
      in SimpleHashFromTwoHashes E (simpleHashFromHashes E (take k hashes))
           (simpleHashFromHashes E (drop k hashes)))"

definition SimpleHashFromHashers :: "'e crypto_env_scheme \<Rightarrow> ('i \<Rightarrow> bytes) \<Rightarrow> 'i list \<Rightarrow> bytes" where
  "SimpleHashFromHashers E Hash items = simpleHashFromHashes E (map Hash items)"

section \<open>Proofs\<close>

text \<open>The recursion of \<open>computeHashFromAunts\<close>; \<open>None\<close> is its nil result.\<close>

function computeHashFromAunts ::
  "'e crypto_env_scheme \<Rightarrow> int \<Rightarrow> int \<Rightarrow> bytes \<Rightarrow> bytes list \<Rightarrow> bytes option" where
  "computeHashFromAunts E index tot leafHash innerHashes =
     (if index \<ge> tot \<or> index < 0 \<or> tot \<le> 0 then None
      else if tot = 1 then (if innerHashes = [] then Some leafHash else None)
      else if innerHashes = [] then None
      else
        let numLeft = go_quot (wrap64 (tot + 1)) 2 in
        if index < numLeft then
          (case computeHashFromAunts E index numLeft leafHash (butlast innerHashes) of
             None \<Rightarrow> None
           | Some leftHash \<Rightarrow> Some (SimpleHashFromTwoHashes E leftHash (last innerHashes)))
        else
          (case computeHashFromAunts E (wrap64 (index - numLeft)) (wrap64 (tot - numLeft)) leafHash (butlast innerHashes) of
             None \<Rightarrow> None
           | Some rightHash \<Rightarrow> Some (SimpleHashFromTwoHashes E (last innerHashes) rightHash)))"
  by pat_completeness auto
termination
  by (relation "measure (\<lambda>(E, i, n, l, hs). length hs)") auto

declare computeHashFromAunts.simps [simp del]

record SimpleProof =
  Aunts :: "bytes list"

definition sp_Verify :: "'e crypto_env_scheme \<Rightarrow> SimpleProof \<Rightarrow> int \<Rightarrow> int \<Rightarrow> bytes \<Rightarrow> bytes \<Rightarrow> bool" where
  "sp_Verify E sp index tot leafHash rootHash =
     (case computeHashFromAunts E index tot leafHash (Aunts sp) of
        None \<Rightarrow> False
      | Some computedHash \<Rightarrow> computedHash = rootHash)"

record SimpleProofNode =
  spn_Hash :: bytes
  Parent :: "nat option"
  Left :: "nat option"
  Right :: "nat option"

type_synonym node_store = "SimpleProofNode list"

definition leaf_node :: "bytes \<Rightarrow> SimpleProofNode" where
  "leaf_node h = \<lparr>spn_Hash = h, Parent = None, Left = None, Right = None\<rparr>"

text \<open>The loop over the parent pointers; it would not end on a cyclic store.\<close>

partial_function (option) flatten_loop ::
  "node_store \<Rightarrow> nat option \<Rightarrow> bytes list \<Rightarrow> bytes list option" where
  "flatten_loop st spn innerHashes =
     (case spn of None \<Rightarrow> Some innerHashes
      | Some p \<Rightarrow>
          let n = st ! p in
          case Left n of
            Some l \<Rightarrow> flatten_loop st (Parent n) (innerHashes @ [spn_Hash (st ! l)])
          | None \<Rightarrow>
              (case Right n of
                 Some r \<Rightarrow> flatten_loop st (Parent n) (innerHashes @ [spn_Hash (st ! r)])
               | None \<Rightarrow> Some innerHashes))"

definition FlattenAunts :: "node_store \<Rightarrow> nat option \<Rightarrow> bytes list option" where
  "FlattenAunts st spn = flatten_loop st spn []"

text \<open>The four assignments that hang two trees below a new root.\<close>

definition link_roots :: "node_store \<Rightarrow> nat \<Rightarrow> nat \<Rightarrow> nat \<Rightarrow> node_store" where
  "link_roots st l r root =
     (let st1 = st[l := (st ! l)\<lparr>Parent := Some root, Right := Some r\<rparr>]
      in st1[r := (st1 ! r)\<lparr>Parent := Some root, Left := Some l\<rparr>])"

fun trailsFromHashers ::
  "'e crypto_env_scheme \<Rightarrow> ('i \<Rightarrow> bytes) \<Rightarrow> 'i list \<Rightarrow> node_store \<Rightarrow> (nat list \<times> nat option \<times> node_store) or_panic"
where
  "trailsFromHashers E Hash [] st = Inr ([], None, st)"
| "trailsFromHashers E Hash [x] st =
     Inr ([length st], Some (length st), st @ [leaf_node (Hash x)])"
| "trailsFromHashers E Hash items st =
     (let k = (length items + 1) div 2 in
      bindP (trailsFromHashers E Hash (take k items) st) (\<lambda>(lefts, leftRoot, st1).
      bindP (trailsFromHashers E Hash (drop k items) st1) (\<lambda>(rights, rightRoot, st2).
      bindP (deref leftRoot) (\<lambda>l.
      bindP (deref rightRoot) (\<lambda>r.
        let root = length st2;
            st3 = st2 @ [leaf_node (SimpleHashFromTwoHashes E (spn_Hash (st2 ! l)) (spn_Hash (st2 ! r)))]
        in Inr (lefts @ rights, Some root, link_roots st3 l r root))))))"

definition SimpleProofsFromHashers ::
  "'e crypto_env_scheme \<Rightarrow> ('i \<Rightarrow> bytes) \<Rightarrow> 'i list \<Rightarrow> (bytes \<times> SimpleProof list) or_panic" where
  "SimpleProofsFromHashers E Hash items =
     bindP (trailsFromHashers E Hash items []) (\<lambda>(trails, rootSPN, st).
     bindP (deref rootSPN) (\<lambda>root.
     bindP (mapP (\<lambda>t. case FlattenAunts st (Some t) of None \<Rightarrow> Inl NoReturn | Some as \<Rightarrow> Inr \<lparr>Aunts = as\<rparr>) trails)
       (\<lambda>proofs. Inr (spn_Hash (st ! root), proofs))))"

section \<open>The tree of a map\<close>

record KVPair =
  kv_Key :: bytes
  kv_Value :: bytes

definition KVPair_Hash :: "'e crypto_env_scheme \<Rightarrow> KVPair \<Rightarrow> bytes" where
  "KVPair_Hash E kv = tmhash_Sum E (EncodeByteSlice E (kv_Key kv) @ EncodeByteSlice E (kv_Value kv))"

text \<open>\<open>KVPairs.Less\<close> compares keys first, then values.\<close>

definition KVPairs_Less :: "KVPair \<Rightarrow> KVPair \<Rightarrow> bool" where
  "KVPairs_Less a b =
     (let c = bytes_compare (kv_Key a) (kv_Key b)
      in if c = - 1 then True
         else if c = 0 then bytes_compare (kv_Value a) (kv_Value b) < 0
         else False)"

definition KVPairs_Sort :: "KVPair list \<Rightarrow> KVPair list" where
  "KVPairs_Sort kvs = sort_key (\<lambda>kv. (kv_Key kv, kv_Value kv)) kvs"

record simpleMap =
  sm_kvs :: "KVPair list"
  sm_sorted :: bool

definition newSimpleMap :: simpleMap where
  "newSimpleMap = \<lparr>sm_kvs = [], sm_sorted = False\<rparr>"

definition sm_Set :: "simpleMap \<Rightarrow> bytes \<Rightarrow> bytes \<Rightarrow> simpleMap" where
  "sm_Set sm key vhash =
     sm\<lparr>sm_sorted := False, sm_kvs := sm_kvs sm @ [\<lparr>kv_Key = key, kv_Value = vhash\<rparr>]\<rparr>"

definition sm_Sort :: "simpleMap \<Rightarrow> simpleMap" where
  "sm_Sort sm = (if sm_sorted sm then sm else sm\<lparr>sm_kvs := KVPairs_Sort (sm_kvs sm), sm_sorted := True\<rparr>)"

definition hashKVPairs :: "'e crypto_env_scheme \<Rightarrow> KVPair list \<Rightarrow> bytes" where
  "hashKVPairs E kvs = SimpleHashFromHashers E (KVPair_Hash E) kvs"

definition sm_Hash :: "'e crypto_env_scheme \<Rightarrow> simpleMap \<Rightarrow> bytes \<times> simpleMap" where
  "sm_Hash E sm = (let sm' = sm_Sort sm in (hashKVPairs E (sm_kvs sm'), sm'))"

text \<open>A Go map is ranged over in an unspecified order: the argument is one enumeration.\<close>

definition SimpleHashFromMap :: "'e crypto_env_scheme \<Rightarrow> (bytes \<times> bytes) list \<Rightarrow> bytes" where
  "SimpleHashFromMap E m = fst (sm_Hash E (fold (\<lambda>(k, v) sm. sm_Set sm k v) m newSimpleMap))"

definition SimpleProofsFromMap ::
  "'e crypto_env_scheme \<Rightarrow> (bytes \<times> bytes) list \<Rightarrow>
     (bytes \<times> (bytes \<rightharpoonup> SimpleProof) \<times> bytes list) or_panic" where
  "SimpleProofsFromMap E m =
     (let kvs = sm_kvs (sm_Sort (fold (\<lambda>(k, v) sm. sm_Set sm k v) m newSimpleMap))
      in bindP (SimpleProofsFromHashers E (KVPair_Hash E) kvs) (\<lambda>(rootHash, proofList).
           Inr (rootHash, map_of (rev (zip (map kv_Key kvs) proofList)), map kv_Key kvs)))"

section \<open>Splitting\<close>

lemma half_bounds:
  "2 \<le> n \<Longrightarrow> 0 < (n + 1) div 2 \<and> (n + 1) div 2 < (n :: nat)"
  by auto

text \<open>The two recursive definitions, unfolded once on a list of at least two elements.\<close>

lemma simpleHash_split:
  assumes "2 \<le> length hs"
  defines "k \<equiv> (length hs + 1) div 2"
  shows "simpleHashFromHashes E hs =
    SimpleHashFromTwoHashes E (simpleHashFromHashes E (take k hs)) (simpleHashFromHashes E (drop k hs))"
proof -
  obtain x y zs where "hs = x # y # zs" using assms(1) by (metis Suc_le_length_iff numeral_2_eq_2)
  then show ?thesis by (simp add: k_def Let_def)
qed

lemma compute_single:
  "computeHashFromAunts E 0 1 leaf as = (if as = [] then Some leaf else None)"
  by (subst computeHashFromAunts.simps) simp

lemma compute_split:
  assumes "2 \<le> n" "int n < MaxInt64" "i < n"
  defines "k \<equiv> (n + 1) div 2"
  shows "computeHashFromAunts E (int i) (int n) leaf as =
    (if as = [] then None
     else if i < k then
       map_option (\<lambda>h. SimpleHashFromTwoHashes E h (last as))
         (computeHashFromAunts E (int i) (int k) leaf (butlast as))
     else map_option (\<lambda>h. SimpleHashFromTwoHashes E (last as) h)
         (computeHashFromAunts E (int (i - k)) (int (n - k)) leaf (butlast as)))"
proof -
  have k: "0 < k" "k < n" using half_bounds [OF assms(1)] by (simp_all add: k_def)
  have nl: "go_quot (wrap64 (int n + 1)) 2 = int k"
    using assms(2) by (simp add: wrap64_id in64_def int64_defs go_quot_nonneg k_def zdiv_int)
  have i: "wrap64 (int i - int k) = int (i - k)" if "\<not> i < k"
    using that assms by (simp add: wrap64_id in64_def int64_defs of_nat_diff)
  have n: "wrap64 (int n - int k) = int (n - k)"
    using k assms by (simp add: wrap64_id in64_def int64_defs of_nat_diff)
  show ?thesis
    using assms(1,3)
    by (subst computeHashFromAunts.simps)
      (simp add: nl n i Let_def split: option.split del: of_nat_diff)
qed

section \<open>The aunts of a leaf\<close>

text \<open>
  A reference definition: the sibling hashes on the way from leaf \<open>i\<close> to the root, the
  leaf's own sibling first.
\<close>

function aunts :: "'e crypto_env_scheme \<Rightarrow> bytes list \<Rightarrow> nat \<Rightarrow> bytes list" where
  "aunts E hs i =
     (if length hs \<le> 1 then []
      else let k = (length hs + 1) div 2
        in if i < k then aunts E (take k hs) i @ [simpleHashFromHashes E (drop k hs)]
           else aunts E (drop k hs) (i - k) @ [simpleHashFromHashes E (take k hs)])"
  by pat_completeness auto
termination
  by (relation "measure (\<lambda>(E, hs, i). length hs)") auto

declare aunts.simps [simp del]

lemma aunts_single [simp]: "aunts E [h] i = []"
  by (subst aunts.simps) simp

lemma aunts_split:
  "2 \<le> length hs \<Longrightarrow> aunts E hs i =
     (let k = (length hs + 1) div 2
      in if i < k then aunts E (take k hs) i @ [simpleHashFromHashes E (drop k hs)]
         else aunts E (drop k hs) (i - k) @ [simpleHashFromHashes E (take k hs)])"
  by (subst aunts.simps) simp

lemma list_single: "length xs = 1 \<Longrightarrow> i < length xs \<Longrightarrow> xs = [xs ! i]"
  by (cases xs) auto

text \<open>Folding a leaf with its aunts gives the root of the tree.\<close>

lemma compute_aunts:
  "i < length hs \<Longrightarrow> int (length hs) < MaxInt64 \<Longrightarrow>
   computeHashFromAunts E (int i) (int (length hs)) (hs ! i) (aunts E hs i) =
     Some (simpleHashFromHashes E hs)"
proof (induction hs arbitrary: i rule: length_induct)
  case (1 hs)
  show ?case
  proof (cases "length hs \<le> 1")
    case True
    then obtain h where "hs = [h]" using "1.prems" by (cases hs) auto
    then show ?thesis using "1.prems" compute_single [of E h "[]"] by simp
  next
    case False
    define k where "k = (length hs + 1) div 2"
    have n: "2 \<le> length hs" using False by simp
    have k: "0 < k" "k < length hs" using half_bounds [OF n] by (simp_all add: k_def)
    note split = compute_split [OF n "1.prems"(2,1), folded k_def] aunts_split [OF n, folded k_def]
      simpleHash_split [OF n, folded k_def]
    have IH: "i < length xs \<Longrightarrow> length xs < length hs \<Longrightarrow>
        computeHashFromAunts E (int i) (int (length xs)) (xs ! i) (aunts E xs i) =
          Some (simpleHashFromHashes E xs)" for xs :: "bytes list" and i
      using "1.IH" "1.prems"(2) by force
    show ?thesis
    proof (cases "i < k")
      case True
      then show ?thesis using k IH [of i "take k hs"] by (simp add: split Let_def)
    next
      case False
      then show ?thesis using k "1.prems" IH [of "i - k" "drop k hs"]
        by (simp add: split Let_def del: of_nat_diff)
    qed
  qed
qed

section \<open>The node store\<close>

text \<open>
  \<open>trail st p as r\<close>: from node \<open>p\<close> the parent pointers lead to \<open>r\<close>, and the hashes of the
  siblings on the way are \<open>as\<close>. Parents are allocated after their children.
\<close>

inductive trail :: "node_store \<Rightarrow> nat \<Rightarrow> bytes list \<Rightarrow> nat \<Rightarrow> bool" for st where
  here: "trail st r [] r"
| left: "p < q \<Longrightarrow> q < length st \<Longrightarrow> Parent (st ! p) = Some q \<Longrightarrow> Left (st ! p) = Some l \<Longrightarrow>
    l < length st \<Longrightarrow> trail st q as r \<Longrightarrow> trail st p (spn_Hash (st ! l) # as) r"
| right: "p < q \<Longrightarrow> q < length st \<Longrightarrow> Parent (st ! p) = Some q \<Longrightarrow> Left (st ! p) = None \<Longrightarrow>
    Right (st ! p) = Some l \<Longrightarrow> l < length st \<Longrightarrow> trail st q as r \<Longrightarrow>
    trail st p (spn_Hash (st ! l) # as) r"

lemma trail_le: "trail st p as r \<Longrightarrow> p \<le> r"
  by (induction rule: trail.induct) auto

lemma trail_append: "trail st p as q \<Longrightarrow> trail st q bs r \<Longrightarrow> trail st p (as @ bs) r"
  by (induction rule: trail.induct) (auto intro: trail.intros)

text \<open>
  Changing the store keeps a trail when the nodes before its end keep their fields and
  all nodes keep their hashes.
\<close>

lemma trail_mono:
  assumes "trail st p as r" "\<And>x. p \<le> x \<Longrightarrow> x < r \<Longrightarrow> st' ! x = st ! x"
    "length st \<le> length st'" "\<And>y. y < length st \<Longrightarrow> spn_Hash (st' ! y) = spn_Hash (st ! y)"
  shows "trail st' p as r"
  using assms
proof (induction rule: trail.induct)
  case (here r)
  show ?case by (rule trail.here)
next
  case (left p q l as r)
  have "p < r" using trail_le [OF left.hyps(6)] left.hyps(1) by simp
  then have "st' ! p = st ! p" using left.prems(1) by simp
  moreover have "trail st' q as r" using left.hyps(1) left.prems by (intro left.IH) simp_all
  ultimately have "trail st' p (spn_Hash (st' ! l) # as) r"
    using left.hyps left.prems(2) by (intro trail.left [of _ q]) simp_all
  then show ?case using left.hyps(5) left.prems(3) by simp
next
  case (right p q l as r)
  have "p < r" using trail_le [OF right.hyps(7)] right.hyps(1) by simp
  then have "st' ! p = st ! p" using right.prems(1) by simp
  moreover have "trail st' q as r" using right.hyps(1) right.prems by (intro right.IH) simp_all
  ultimately have "trail st' p (spn_Hash (st' ! l) # as) r"
    using right.hyps right.prems(2) by (intro trail.right [of _ q]) simp_all
  then show ?case using right.hyps(6) right.prems(3) by simp
qed

lemma flatten_trail:
  "trail st p as r \<Longrightarrow> Left (st ! r) = None \<Longrightarrow> Right (st ! r) = None \<Longrightarrow>
   flatten_loop st (Some p) acc = Some (acc @ as)"
  by (induction arbitrary: acc rule: trail.induct)
    (subst flatten_loop.simps, simp add: Let_def)+

text \<open>What a call of \<open>trailsFromHashers\<close> leaves: the old store, then the nodes of a tree with a fresh root.\<close>

definition built ::
  "'e crypto_env_scheme \<Rightarrow> bytes list \<Rightarrow> node_store \<Rightarrow> nat list \<Rightarrow> nat \<Rightarrow> node_store \<Rightarrow> bool" where
  "built E hs st ts r st' \<longleftrightarrow>
     length st \<le> r \<and> length st' = Suc r \<and> (\<forall>x < length st. st' ! x = st ! x) \<and>
     st' ! r = leaf_node (simpleHashFromHashes E hs) \<and> length ts = length hs \<and>
     (\<forall>i < length hs. length st \<le> ts ! i \<and> trail st' (ts ! i) (aunts E hs i) r)"

lemma built_combine:
  assumes n: "2 \<le> length hs" and k: "k = (length hs + 1) div 2"
    and L: "built E (take k hs) st ls l st1" and R: "built E (drop k hs) st1 rs r st2"
  defines "st3 \<equiv> st2 @ [leaf_node (SimpleHashFromTwoHashes E (spn_Hash (st2 ! l)) (spn_Hash (st2 ! r)))]"
  shows "built E hs st (ls @ rs) (length st2) (link_roots st3 l r (length st2))"
proof -
  let ?root = "length st2"
  define st4 where "st4 = link_roots st3 l r ?root"
  have kb: "0 < k" "k < length hs" using half_bounds [OF n] k by simp_all
  have ord: "length st \<le> l" "l < length st1" "length st1 \<le> r" "length st2 = Suc r" "l < r"
    using L R by (auto simp: built_def)
  have lh: "st2 ! l = leaf_node (simpleHashFromHashes E (take k hs))"
    using L R ord by (simp add: built_def)
  have rh: "st2 ! r = leaf_node (simpleHashFromHashes E (drop k hs))"
    using R by (simp add: built_def)
  have len: "length st4 = Suc ?root" by (simp add: st4_def link_roots_def st3_def Let_def)
  have other: "st4 ! x = st3 ! x" if "x \<noteq> l" "x \<noteq> r" for x
    using that by (simp add: st4_def link_roots_def Let_def)
  have l4: "st4 ! l = (st2 ! l)\<lparr>Parent := Some ?root, Right := Some r\<rparr>"
    using ord by (simp add: st4_def link_roots_def Let_def st3_def nth_append)
  have r4: "st4 ! r = (st2 ! r)\<lparr>Parent := Some ?root, Left := Some l\<rparr>"
    using ord by (simp add: st4_def link_roots_def Let_def st3_def nth_append)
  have hash4: "spn_Hash (st4 ! y) = spn_Hash (st2 ! y)" if "y < length st2" for y
    using that l4 r4 other [of y] by (cases "y = l \<or> y = r") (auto simp: st3_def nth_append)
  have same2: "st4 ! x = st2 ! x" if "x \<noteq> l" "x \<noteq> r" "x < length st2" for x
    using other [OF that(1,2)] that(3) by (simp add: st3_def nth_append)
  have up_l: "trail st4 l [simpleHashFromHashes E (drop k hs)] ?root"
    using trail.right [of l ?root st4 r "[]" ?root] ord len l4 lh rh hash4 [of r] trail.here
    by (simp add: leaf_node_def)
  have up_r: "trail st4 r [simpleHashFromHashes E (take k hs)] ?root"
    using trail.left [of r ?root st4 l "[]" ?root] ord len r4 lh rh hash4 [of l] trail.here
    by (simp add: leaf_node_def)
  have "length st \<le> (ls @ rs) ! i \<and> trail st4 ((ls @ rs) ! i) (aunts E hs i) ?root"
    if i: "i < length hs" for i
  proof (cases "i < k")
    case True
    have t: "trail st1 (ls ! i) (aunts E (take k hs) i) l" "length st \<le> ls ! i" "length ls = k"
      using L True kb by (auto simp: built_def)
    have "trail st4 (ls ! i) (aunts E (take k hs) i) l"
    proof (rule trail_mono [OF t(1)])
      show "length st1 \<le> length st4" using ord len by simp
      show "st4 ! x = st1 ! x" if "x < l" for x
        using that same2 [of x] ord R by (simp add: built_def)
      show "spn_Hash (st4 ! y) = spn_Hash (st1 ! y)" if "y < length st1" for y
        using that hash4 [of y] ord R by (simp add: built_def)
    qed
    from trail_append [OF this up_l] show ?thesis
      using True t by (simp add: aunts_split [OF n] k Let_def nth_append)
  next
    case False
    have t: "trail st2 (rs ! (i - k)) (aunts E (drop k hs) (i - k)) r" "length st1 \<le> rs ! (i - k)"
      using R False i by (auto simp: built_def)
    have "trail st4 (rs ! (i - k)) (aunts E (drop k hs) (i - k)) r"
    proof (rule trail_mono [OF t(1)])
      show "length st2 \<le> length st4" using len by simp
      show "st4 ! x = st2 ! x" if "rs ! (i - k) \<le> x" "x < r" for x
        using that same2 [of x] ord t(2) by simp
      show "spn_Hash (st4 ! y) = spn_Hash (st2 ! y)" if "y < length st2" for y
        using that by (rule hash4)
    qed
    from trail_append [OF this up_r] show ?thesis
      using False t ord L kb by (simp add: aunts_split [OF n] k Let_def nth_append built_def)
  qed
  moreover have "st4 ! ?root = leaf_node (simpleHashFromHashes E hs)"
    using other [of ?root] ord lh rh
    by (simp add: st3_def simpleHash_split [OF n] k leaf_node_def nth_append)
  moreover have "st4 ! x = st ! x" if "x < length st" for x
    using that same2 [of x] ord L R by (simp add: built_def)
  moreover have "length (ls @ rs) = length hs" using L R kb by (simp add: built_def)
  ultimately show ?thesis using len ord by (simp add: built_def st4_def)
qed

lemma trailsFromHashers_built:
  "items \<noteq> [] \<Longrightarrow> \<exists>ts r st'. trailsFromHashers E Hash items st = Inr (ts, Some r, st') \<and>
     built E (map Hash items) st ts r st'"
proof (induction E Hash items st rule: trailsFromHashers.induct)
  case (2 E Hash x st)
  have "trail (st @ [leaf_node (Hash x)]) (length st) [] (length st)" by (rule trail.here)
  then show ?case by (simp add: built_def nth_append)
next
  case (3 E Hash x y zs st)
  define items where "items = x # y # zs"
  define k where "k = (length items + 1) div 2"
  have n: "2 \<le> length items" by (simp add: items_def)
  have kb: "0 < k" "k < length items" using half_bounds [OF n] by (simp_all add: k_def)
  have ne: "take k items \<noteq> []" "drop k items \<noteq> []" using kb by auto
  obtain ls l st1 where L: "trailsFromHashers E Hash (take k items) st = Inr (ls, Some l, st1)"
      "built E (map Hash (take k items)) st ls l st1"
    using "3.IH"(1) [OF k_def [unfolded items_def], folded items_def, OF ne(1)] by blast
  obtain rs r st2 where R: "trailsFromHashers E Hash (drop k items) st1 = Inr (rs, Some r, st2)"
      "built E (map Hash (drop k items)) st1 rs r st2"
    using "3.IH"(2) [OF k_def [unfolded items_def] L(1) [unfolded items_def] refl refl,
        folded items_def, OF ne(2)] by blast
  have "built E (map Hash items) st (ls @ rs) (length st2)
      (link_roots (st2 @ [leaf_node (SimpleHashFromTwoHashes E (spn_Hash (st2 ! l)) (spn_Hash (st2 ! r)))])
        l r (length st2))"
    using L(2) R(2) n by (intro built_combine) (simp_all add: k_def take_map drop_map)
  moreover have "trailsFromHashers E Hash items st = Inr (ls @ rs, Some (length st2),
      link_roots (st2 @ [leaf_node (SimpleHashFromTwoHashes E (spn_Hash (st2 ! l)) (spn_Hash (st2 ! r)))])
        l r (length st2))"
    using trailsFromHashers.simps(3) [of E Hash x y zs st, folded items_def, folded k_def] L(1) R(1)
    by (simp add: deref_def Let_def)
  ultimately show ?case unfolding items_def [symmetric] by blast
qed simp

lemma SimpleProofsFromHashers_aunts:
  assumes "items \<noteq> []"
  shows "SimpleProofsFromHashers E Hash items =
    Inr (SimpleHashFromHashers E Hash items,
      map (\<lambda>i. \<lparr>Aunts = aunts E (map Hash items) i\<rparr>) [0..<length items])"
proof -
  obtain ts r st where t: "trailsFromHashers E Hash items [] = Inr (ts, Some r, st)" and
    b: "built E (map Hash items) [] ts r st"
    using trailsFromHashers_built [OF assms] by blast
  have len: "length ts = length items" using b by (simp add: built_def)
  have root: "st ! r = leaf_node (simpleHashFromHashes E (map Hash items))"
    using b by (simp add: built_def)
  have "FlattenAunts st (Some (ts ! i)) = Some (aunts E (map Hash items) i)" if "i < length items" for i
    using b that flatten_trail [of st "ts ! i" "aunts E (map Hash items) i" r "[]"] root
    by (simp add: built_def FlattenAunts_def leaf_node_def)
  then have "mapP (\<lambda>i. case FlattenAunts st (Some (ts ! i)) of None \<Rightarrow> Inl NoReturn | Some as \<Rightarrow> Inr \<lparr>Aunts = as\<rparr>)
      [0..<length items] = Inr (map (\<lambda>i. \<lparr>Aunts = aunts E (map Hash items) i\<rparr>) [0..<length items])"
    by (intro mapP_Inr) simp
  moreover have "mapP (\<lambda>t. case FlattenAunts st (Some t) of None \<Rightarrow> Inl NoReturn | Some as \<Rightarrow> Inr \<lparr>Aunts = as\<rparr>) ts =
      mapP (\<lambda>i. case FlattenAunts st (Some (ts ! i)) of None \<Rightarrow> Inl NoReturn | Some as \<Rightarrow> Inr \<lparr>Aunts = as\<rparr>)
        [0..<length items]"
    using mapP_map [of _ "(!) ts" "[0..<length items]"] map_nth [of ts] len by simp
  ultimately show ?thesis
    using t root len
    by (simp add: SimpleProofsFromHashers_def SimpleHashFromHashers_def leaf_node_def)
qed

section \<open>Soundness of proofs\<close>

text \<open>The strings hashed while building a tree, and while checking a proof.\<close>

function tree_inputs :: "'e crypto_env_scheme \<Rightarrow> bytes list \<Rightarrow> bytes list" where
  "tree_inputs E hs =
     (if length hs \<le> 1 then []
      else let k = (length hs + 1) div 2
        in (EncodeByteSlice E (simpleHashFromHashes E (take k hs))
              @ EncodeByteSlice E (simpleHashFromHashes E (drop k hs)))
           # tree_inputs E (take k hs) @ tree_inputs E (drop k hs))"
  by pat_completeness auto
termination
  by (relation "measure (\<lambda>(E, hs). length hs)") auto

declare tree_inputs.simps [simp del]

function proof_inputs :: "'e crypto_env_scheme \<Rightarrow> nat \<Rightarrow> nat \<Rightarrow> bytes \<Rightarrow> bytes list \<Rightarrow> bytes list" where
  "proof_inputs E i n leaf as =
     (if as = [] \<or> n \<le> 1 then []
      else let k = (n + 1) div 2
        in if i < k then
             (case computeHashFromAunts E (int i) (int k) leaf (butlast as) of None \<Rightarrow> []
              | Some h \<Rightarrow> (EncodeByteSlice E h @ EncodeByteSlice E (last as)) # proof_inputs E i k leaf (butlast as))
           else
             (case computeHashFromAunts E (int (i - k)) (int (n - k)) leaf (butlast as) of None \<Rightarrow> []
              | Some h \<Rightarrow> (EncodeByteSlice E (last as) @ EncodeByteSlice E h)
                   # proof_inputs E (i - k) (n - k) leaf (butlast as)))"
  by pat_completeness auto
termination
  by (relation "measure (\<lambda>(E, i, n, leaf, as). length as)") auto

declare proof_inputs.simps [simp del]

text \<open>A collision of the truncated hash between the two computations.\<close>

definition collision :: "'e crypto_env_scheme \<Rightarrow> bytes list \<Rightarrow> bytes list \<Rightarrow> bool" where
  "collision E xs ys \<longleftrightarrow> (\<exists>x \<in> set xs. \<exists>y \<in> set ys. x \<noteq> y \<and> tmhash_Sum E x = tmhash_Sum E y)"

lemma collision_mono: "collision E xs ys \<Longrightarrow> set xs \<subseteq> set xs' \<Longrightarrow> set ys \<subseteq> set ys' \<Longrightarrow> collision E xs' ys'"
  unfolding collision_def by blast

lemma two_hashes_eq:
  assumes "length_prefixed (EncodeByteSlice E)"
    and "SimpleHashFromTwoHashes E a b = SimpleHashFromTwoHashes E c d"
    and "EncodeByteSlice E a @ EncodeByteSlice E b \<in> set xs" "EncodeByteSlice E c @ EncodeByteSlice E d \<in> set ys"
  shows "(a = c \<and> b = d) \<or> collision E xs ys"
proof (cases "EncodeByteSlice E a @ EncodeByteSlice E b = EncodeByteSlice E c @ EncodeByteSlice E d")
  case True
  then have "a = c" "EncodeByteSlice E b @ [] = EncodeByteSlice E d @ []"
    using length_prefixedD [OF assms(1) True] by simp_all
  then show ?thesis using length_prefixedD [OF assms(1), of b "[]" d "[]"] by simp
next
  case False
  then show ?thesis
    using assms by (auto simp: collision_def SimpleHashFromTwoHashes_def)
qed

text \<open>One level of the tree: equal roots of a pair give equal halves, or a collision here or below.\<close>

lemma proof_step:
  assumes "length_prefixed (EncodeByteSlice E)"
    and "SimpleHashFromTwoHashes E a b = SimpleHashFromTwoHashes E c d"
    and "EncodeByteSlice E c @ EncodeByteSlice E d \<in> set T" "EncodeByteSlice E a @ EncodeByteSlice E b \<in> set P"
    and "a = c \<Longrightarrow> b = d \<Longrightarrow> Q \<or> collision E T' P'" "set T' \<subseteq> set T" "set P' \<subseteq> set P"
  shows "Q \<or> collision E T P"
proof -
  have "(c = a \<and> d = b) \<or> collision E T P"
    using assms by (intro two_hashes_eq) simp_all
  then show ?thesis using assms(5-7) collision_mono [of E T' P' T P] by blast
qed

lemma proof_sound:
  assumes "length_prefixed (EncodeByteSlice E)"
  shows "i < length hs \<Longrightarrow> int (length hs) < MaxInt64 \<Longrightarrow>
    computeHashFromAunts E (int i) (int (length hs)) leaf as = Some (simpleHashFromHashes E hs) \<Longrightarrow>
    (leaf = hs ! i \<and> as = aunts E hs i) \<or> collision E (tree_inputs E hs) (proof_inputs E i (length hs) leaf as)"
proof (induction hs arbitrary: i as rule: length_induct)
  case (1 hs)
  show ?case
  proof (cases "length hs \<le> 1")
    case True
    then obtain h where "hs = [h]" using "1.prems"(1) by (cases hs) auto
    then show ?thesis using "1.prems" compute_single [of E leaf as] by (auto split: if_splits)
  next
    case False
    define k where "k = (length hs + 1) div 2"
    have n: "2 \<le> length hs" using False by simp
    have k: "0 < k" "k < length hs" using half_bounds [OF n] by (simp_all add: k_def)
    note C = "1.prems"(3) [unfolded compute_split [OF n "1.prems"(2,1), folded k_def]
        simpleHash_split [OF n, folded k_def]]
    have "as \<noteq> []" using C by (auto split: if_splits)
    then obtain bs b where as: "as = bs @ [b]" by (cases as rule: rev_cases) auto
    define T where "T = tree_inputs E hs"
    define P where "P = proof_inputs E i (length hs) leaf as"
    have T: "T = (EncodeByteSlice E (simpleHashFromHashes E (take k hs))
          @ EncodeByteSlice E (simpleHashFromHashes E (drop k hs)))
        # tree_inputs E (take k hs) @ tree_inputs E (drop k hs)"
      unfolding T_def using False by (subst tree_inputs.simps) (simp add: k_def Let_def)
    have IH: "j < length xs \<Longrightarrow> length xs < length hs \<Longrightarrow>
        computeHashFromAunts E (int j) (int (length xs)) leaf bs = Some (simpleHashFromHashes E xs) \<Longrightarrow>
        (leaf = xs ! j \<and> bs = aunts E xs j) \<or>
          collision E (tree_inputs E xs) (proof_inputs E j (length xs) leaf bs)" for j xs
      using "1.IH" "1.prems"(2) by force
    show ?thesis
    proof (cases "i < k")
      case True
      with C as obtain h where h: "computeHashFromAunts E (int i) (int k) leaf bs = Some h"
        "SimpleHashFromTwoHashes E h b =
           SimpleHashFromTwoHashes E (simpleHashFromHashes E (take k hs)) (simpleHashFromHashes E (drop k hs))"
        by auto
      have P: "P = (EncodeByteSlice E h @ EncodeByteSlice E b) # proof_inputs E i k leaf bs"
        unfolding P_def as using h(1) True False by (subst proof_inputs.simps) (simp add: k_def Let_def)
      have A: "aunts E hs i = aunts E (take k hs) i @ [simpleHashFromHashes E (drop k hs)]"
        using True by (simp add: aunts_split [OF n] k_def Let_def)
      show ?thesis unfolding T_def [symmetric] P_def [symmetric]
      proof (rule proof_step [OF assms h(2)])
        assume "h = simpleHashFromHashes E (take k hs)" "b = simpleHashFromHashes E (drop k hs)"
        then show "leaf = hs ! i \<and> as = aunts E hs i \<or>
            collision E (tree_inputs E (take k hs)) (proof_inputs E i k leaf bs)"
          using IH [of i "take k hs"] h(1) True k by (auto simp: A as)
      qed (auto simp: T P)
    next
      case F: False
      with C as obtain h where h: "computeHashFromAunts E (int (i - k)) (int (length hs - k)) leaf bs = Some h"
        "SimpleHashFromTwoHashes E b h =
           SimpleHashFromTwoHashes E (simpleHashFromHashes E (take k hs)) (simpleHashFromHashes E (drop k hs))"
        by auto
      have P: "P = (EncodeByteSlice E b @ EncodeByteSlice E h) # proof_inputs E (i - k) (length hs - k) leaf bs"
        unfolding P_def as using h(1) F False
        by (subst proof_inputs.simps) (simp add: k_def Let_def del: of_nat_diff)
      have A: "aunts E hs i = aunts E (drop k hs) (i - k) @ [simpleHashFromHashes E (take k hs)]"
        using F by (simp add: aunts_split [OF n] k_def Let_def)
      show ?thesis unfolding T_def [symmetric] P_def [symmetric]
      proof (rule proof_step [OF assms h(2)])
        assume "b = simpleHashFromHashes E (take k hs)" "h = simpleHashFromHashes E (drop k hs)"
        then show "leaf = hs ! i \<and> as = aunts E hs i \<or>
            collision E (tree_inputs E (drop k hs)) (proof_inputs E (i - k) (length hs - k) leaf bs)"
          using IH [of "i - k" "drop k hs"] h(1) F k "1.prems"(1) by (auto simp: A as simp del: of_nat_diff)
      qed (auto simp: T P)
    qed
  qed
qed

section \<open>Maps\<close>

lemma KVPairs_Less_iff: "KVPairs_Less a b \<longleftrightarrow> (kv_Key a, kv_Value a) < (kv_Key b, kv_Value b)"
  by (auto simp: KVPairs_Less_def Let_def bytes_compare_cases split: if_splits)

lemma KVPairs_Sort_cong:
  assumes "mset xs = mset ys"
  shows "KVPairs_Sort xs = KVPairs_Sort ys"
  unfolding KVPairs_Sort_def
proof (rule sort_key_inj_key_eq)
  show "mset xs = mset (sort_key (\<lambda>kv. (kv_Key kv, kv_Value kv)) ys)" using assms by simp
  show "inj_on (\<lambda>kv. (kv_Key kv, kv_Value kv)) (set xs)" by (auto intro: inj_onI)
qed simp

lemma fold_sm_Set:
  "fold (\<lambda>(k, v) sm. sm_Set sm k v) m sm =
     \<lparr>sm_kvs = sm_kvs sm @ map (\<lambda>(k, v). \<lparr>kv_Key = k, kv_Value = v\<rparr>) m,
      sm_sorted = (m = [] \<and> sm_sorted sm)\<rparr>"
  by (induction m arbitrary: sm) (auto simp: sm_Set_def)

section \<open>Properties\<close>

text \<open>
  Every proof that \<open>SimpleProofsFromHashers\<close> produces through its linked nodes verifies:
  the function returns, its root is the one \<open>SimpleHashFromHashers\<close> computes, and proof
  \<open>i\<close> passes \<open>Verify\<close> for item \<open>i\<close> at position \<open>i\<close>.
\<close>

lemma SimpleProofs_verify:
  assumes "items \<noteq> []" "int (length items) < MaxInt64"
  shows "\<exists>root proofs. SimpleProofsFromHashers E Hash items = Inr (root, proofs) \<and>
    root = SimpleHashFromHashers E Hash items \<and> length proofs = length items \<and>
    (\<forall>i < length items. sp_Verify E (proofs ! i) (int i) (int (length items)) (Hash (items ! i)) root)"
  using assms compute_aunts [of _ "map Hash items" E]
  by (simp add: SimpleProofsFromHashers_aunts sp_Verify_def SimpleHashFromHashers_def)

text \<open>
  C32: a proof that verifies against the root of a tree for position \<open>i\<close> of its \<open>n\<close> leaves
  carries that very leaf and its very aunts, unless the strings hashed while building the
  tree and while checking the proof contain a collision of the hash function.
\<close>

theorem SimpleProof_sound:
  assumes "length_prefixed (EncodeByteSlice E)" "i < length items" "int (length items) < MaxInt64"
    and "sp_Verify E sp (int i) (int (length items)) leaf (SimpleHashFromHashers E Hash items)"
  shows "(leaf = Hash (items ! i) \<and> Aunts sp = aunts E (map Hash items) i) \<or>
    collision E (tree_inputs E (map Hash items)) (proof_inputs E i (length items) leaf (Aunts sp))"
  using proof_sound [OF assms(1), of i "map Hash items" leaf "Aunts sp"] assms(2-4)
  by (simp add: sp_Verify_def SimpleHashFromHashers_def split: option.splits)

theorem SimpleProof_sound_witness:
  "(''b'' = ''b'' \<and> [''a''] = aunts demo_crypto [''a'', ''b''] 1) \<or>
    collision demo_crypto (tree_inputs demo_crypto [''a'', ''b'']) (proof_inputs demo_crypto 1 2 ''b'' [''a''])"
proof -
  have "sp_Verify demo_crypto \<lparr>Aunts = [''a'']\<rparr> (int 1) (int (length [''a'', ''b''])) ''b''
      (SimpleHashFromHashers demo_crypto (\<lambda>b. b) [''a'', ''b''])"
    using compute_split [of 2 1 demo_crypto "''b''" "[''a'']"] compute_single [of demo_crypto "''b''" "[]"]
    by (simp add: sp_Verify_def SimpleHashFromHashers_def int64_defs)
  from SimpleProof_sound [OF _ _ _ this] show ?thesis
    by (simp add: unary_prefix_length_prefixed int64_defs numeral_2_eq_2)
qed

text \<open>
  The root of a map does not depend on the order in which Go happens to enumerate it.
\<close>

lemma SimpleHashFromMap_order_independent:
  assumes "mset m = mset m'"
  shows "SimpleHashFromMap E m = SimpleHashFromMap E m'"
proof -
  have "mset (map (\<lambda>(k, v). \<lparr>kv_Key = k, kv_Value = v\<rparr>) m) =
      mset (map (\<lambda>(k, v). \<lparr>kv_Key = k, kv_Value = v\<rparr>) m')"
    using assms by simp
  from KVPairs_Sort_cong [OF this] show ?thesis
    by (simp add: SimpleHashFromMap_def fold_sm_Set newSimpleMap_def sm_Hash_def sm_Sort_def Let_def)
qed

end
