(* ===== verification/Core_Types.thy ===== *)
theory Core_Types
  imports Bit_Array Merkle
begin

text \<open>
  The data of the \<^verbatim>\<open>types\<close> and \<^verbatim>\<open>state\<close> packages: one record per struct, with the
  source's fields. Field names carry a prefix where several structs share one. Times are
  nanoseconds since the Unix epoch. Memo fields that hold a hash or bit array computed
  from the other fields are left out. At the end stands the environment \<open>ext\<close>: what the code takes
  from amino, from the clock-free part of the JSON codec and from the ABCI application.
\<close>

type_synonym time = int
type_synonym address = bytes
type_synonym tx = bytes

section \<open>Parts\<close>

record part =
  part_Index :: int
  part_Bytes :: bytes
  part_Proof :: SimpleProof

record part_set_header =
  psh_Total :: int
  psh_Hash :: bytes

record part_set =
  ps_total :: int
  ps_hash :: bytes
  ps_parts :: "part option list"
  ps_partsBitArray :: "bit_array option"
  ps_count :: int

section \<open>Validators\<close>

record validator =
  v_Address :: address
  v_PubKey :: "pub_key option"
  VotingPower :: int
  Accum :: int

text \<open>\<open>totalVotingPower\<close> is the cached sum; 0 means not computed.\<close>

record validator_set =
  Validators :: "validator list"
  Proposer :: "validator option"
  totalVotingPower :: int

section \<open>Votes, proposals, heartbeats\<close>

record block_id =
  bid_Hash :: bytes
  bid_PartsHeader :: part_set_header

record vote =
  ValidatorAddress :: address
  ValidatorIndex :: int
  vote_Height :: int
  vote_Round :: int
  vote_Timestamp :: time
  vote_Type :: int
  vote_BlockID :: block_id
  vote_Signature :: "signature option"

record proposal =
  prop_Height :: int
  prop_Round :: int
  prop_Timestamp :: time
  BlockPartsHeader :: part_set_header
  POLRound :: int
  POLBlockID :: block_id
  prop_Signature :: "signature option"

record heartbeat =
  hb_ValidatorAddress :: address
  hb_ValidatorIndex :: int
  hb_Height :: int
  hb_Round :: int
  hb_Sequence :: int
  hb_Signature :: "signature option"

record duplicate_vote_evidence =
  dve_PubKey :: "pub_key option"
  VoteA :: vote
  VoteB :: vote

section \<open>Blocks\<close>

record commit =
  commit_BlockID :: block_id
  Precommits :: "vote option list"

record tx_bucket =
  BucketId :: bytes
  Txs :: "tx list"

record data =
  TxBuckets :: "tx_bucket list"

record header =
  hdr_ChainID :: bytes
  hdr_Height :: int
  hdr_Time :: time
  hdr_NumTxs :: int
  hdr_LastBlockID :: block_id
  hdr_TotalTxs :: int
  hdr_LastBucketHashes :: "(bytes \<times> bytes) list option"
  hdr_DataHash :: bytes
  hdr_ValidatorsHash :: bytes
  hdr_ConsensusHash :: bytes
  hdr_AppHash :: bytes
  hdr_LastResultsHash :: bytes

record block =
  blk_Header :: "header option"
  blk_Data :: "data option"
  blk_Commit :: "commit option"

record block_meta =
  bm_BlockID :: block_id
  bm_Header :: "header option"

section \<open>Consensus parameters\<close>

record block_size =
  bs_MaxBytes :: int
  bs_MaxTxs :: int
  bs_MaxGas :: int

record tx_size =
  ts_MaxBytes :: int
  ts_MaxGas :: int

record consensus_params =
  cp_BlockSize :: block_size
  cp_TxSize :: tx_size
  BlockPartSizeBytes :: int
  MaxAge :: int

record abci_consensus_params =
  acp_BlockSize :: "block_size option"
  acp_TxSize :: "tx_size option"
  acp_BlockGossip :: "int option"

section \<open>Results and responses of the application\<close>

record abci_result =
  res_Code :: int
  res_Data :: bytes

record response_deliver_tx =
  rdt_Code :: int
  rdt_Data :: bytes

record abci_pub_key =
  apk_Type :: bytes
  apk_Data :: bytes

record abci_validator =
  av_Address :: address
  av_PubKey :: abci_pub_key
  av_Power :: int

record response_end_block =
  ValidatorUpdates :: "abci_validator list"
  ConsensusParamUpdates :: "abci_consensus_params option"

record response_get_validator_set =
  rgv_ValidatorSet :: "abci_validator list"

record abci_responses =
  ar_DeliverTx :: "response_deliver_tx option list"
  ar_EndBlock :: "response_end_block option"
  ar_GetValidatorSet :: "response_get_validator_set option"

section \<open>The state\<close>

record state =
  st_ChainID :: bytes
  LastBlockHeight :: int
  LastBlockTotalTx :: int
  st_LastBlockID :: block_id
  LastBlockTime :: time
  st_Validators :: "validator_set option"
  LastValidators :: "validator_set option"
  LastHeightValidatorsChanged :: int
  st_ConsensusParams :: consensus_params
  LastHeightConsensusParamsChanged :: int
  st_LastResultsHash :: bytes
  st_AppHash :: bytes

record validators_info =
  vi_ValidatorSet :: "validator_set option"
  vi_LastHeightChanged :: int

record consensus_params_info =
  cpi_ConsensusParams :: consensus_params
  cpi_LastHeightChanged :: int

section \<open>Canonical JSON\<close>

text \<open>A time formatted with millisecond precision is represented by its millisecond.\<close>

record canonical_block_id =
  cbid_Hash :: bytes
  cbid_PartsHash :: bytes
  cbid_PartsTotal :: int

record canonical_vote =
  cv_ChainID :: bytes
  cv_Type :: bytes
  cv_BlockID :: canonical_block_id
  cv_Height :: int
  cv_Round :: int
  cv_Timestamp :: int
  cv_VoteType :: int

record canonical_proposal =
  cpr_ChainID :: bytes
  cpr_Type :: bytes
  cpr_BlockPartsHash :: bytes
  cpr_BlockPartsTotal :: int
  cpr_Height :: int
  cpr_POLBlockID :: canonical_block_id
  cpr_POLRound :: int
  cpr_Round :: int
  cpr_Timestamp :: int

record canonical_heartbeat =
  chb_ChainID :: bytes
  chb_Type :: bytes
  chb_Height :: int
  chb_Round :: int
  chb_Sequence :: int
  chb_ValidatorAddress :: address
  chb_ValidatorIndex :: int

section \<open>The environment\<close>

text \<open>
  \<open>amino_item\<close> lists the values the code hands to amino; \<open>amino_type\<close> the types it decodes
  into. Encoding a value of these types does not fail; decoding may.
\<close>

datatype amino_item =
    AmString bytes | AmInt int | AmTime time | AmBytes bytes
  | AmBlockID block_id | AmPartSetHeader part_set_header | AmVote "vote option"
  | AmValidator address "pub_key option" int | AmResult abci_result
  | AmEvidence duplicate_vote_evidence
  | AmBlock block | AmBlockMeta block_meta | AmPart part | AmCommit commit | AmTxBucket tx_bucket
  | AmState state | AmValidatorsInfo validators_info | AmConsensusParamsInfo consensus_params_info
  | AmABCIResponses abci_responses

datatype amino_type =
    TyBlock | TyBlockMeta | TyPart | TyCommit | TyTxBucket
  | TyState | TyValidatorsInfo | TyConsensusParamsInfo | TyABCIResponses

datatype json_item =
    JsVote canonical_vote | JsProposal canonical_proposal | JsHeartbeat canonical_heartbeat

record ext = crypto_env +
  MarshalBinaryBare :: "amino_item \<Rightarrow> bytes"
  MarshalBinary :: "amino_item \<Rightarrow> bytes"
  UnmarshalBinaryBare :: "amino_type \<Rightarrow> bytes \<Rightarrow> amino_item option"
  UnmarshalBinary :: "amino_type \<Rightarrow> bytes \<Rightarrow> amino_item option"
  UnmarshalBinaryReader :: "amino_type \<Rightarrow> int \<Rightarrow> bytes \<Rightarrow> amino_item option"
  MarshalJSON :: "json_item \<Rightarrow> bytes"
  UnmarshalJSON_vote :: "bytes \<Rightarrow> canonical_vote option"
  UnmarshalJSON_proposal :: "bytes \<Rightarrow> canonical_proposal option"

section \<open>Hashing amino items\<close>

text \<open>\<open>hasher.Hash\<close>: nil pointers, empty strings and empty slices hash as the empty string.\<close>

fun item_empty :: "amino_item \<Rightarrow> bool" where
  "item_empty (AmString s) \<longleftrightarrow> s = []"
| "item_empty (AmBytes b) \<longleftrightarrow> b = []"
| "item_empty (AmVote v) \<longleftrightarrow> v = None"
| "item_empty _ \<longleftrightarrow> False"

definition aminoHash :: "'e ext_scheme \<Rightarrow> amino_item \<Rightarrow> bytes" where
  "aminoHash E item = tmhash_Sum E (if item_empty item then [] else MarshalBinaryBare E item)"

end
