(* ===== verification/Priority_Heap.thy ===== *)
theory Priority_Heap
  imports DMC_Prelude "HOL-Library.Multiset"
begin

text \<open>
  \<^verbatim>\<open>libs/common/heap.go\<close> with the sift functions of \<^verbatim>\<open>container/heap\<close> it calls. The
  queue is the slice of items in heap order. An item's priority is compared through its
  \<open>Less\<close> method at the time of the comparison, so \<open>Less\<close> is an argument of the operations;
  it may panic.
\<close>

type_synonym 'a less = "'a \<Rightarrow> 'a \<Rightarrow> bool or_panic"

definition swap :: "'a list \<Rightarrow> nat \<Rightarrow> nat \<Rightarrow> 'a list" where
  "swap pq i j = pq[i := pq ! j, j := pq ! i]"

section \<open>container/heap\<close>

text \<open>\<open>up(h, j)\<close>: \<open>(j - 1) / 2\<close> truncates to 0 at the root, where the loop stops.\<close>

function heap_up :: "'a less \<Rightarrow> 'a list \<Rightarrow> nat \<Rightarrow> 'a list or_panic" where
  "heap_up Less pq j =
     (let i = (j - 1) div 2 in
      if i = j then Inr pq
      else bindP (Less (pq ! j) (pq ! i)) (\<lambda>b.
        if \<not> b then Inr pq else heap_up Less (swap pq i j) i))"
  by pat_completeness auto
termination
  by (relation "measure (\<lambda>(Less, pq, j). j)") auto

declare heap_up.simps [simp del]

text \<open>\<open>down(h, i, n)\<close>: the slice and the final position.\<close>

function heap_down :: "'a less \<Rightarrow> 'a list \<Rightarrow> nat \<Rightarrow> nat \<Rightarrow> ('a list \<times> nat) or_panic" where
  "heap_down Less pq i n =
     (let j1 = 2 * i + 1 in
      if j1 \<ge> n then Inr (pq, i)
      else
        bindP (if j1 + 1 < n then Less (pq ! (j1 + 1)) (pq ! j1) else Inr False) (\<lambda>b2.
        let j = (if b2 then j1 + 1 else j1) in
        bindP (Less (pq ! j) (pq ! i)) (\<lambda>b.
        if \<not> b then Inr (pq, i) else heap_down Less (swap pq i j) j n)))"
  by pat_completeness auto
termination
  by (relation "measure (\<lambda>(Less, pq, i, n). n - i)") (auto split: if_splits)

declare heap_down.simps [simp del]

definition heap_Fix :: "'a less \<Rightarrow> 'a list \<Rightarrow> nat \<Rightarrow> 'a list or_panic" where
  "heap_Fix Less pq i =
     bindP (heap_down Less pq i (length pq)) (\<lambda>(pq', i').
       if i' > i then Inr pq' else heap_up Less pq' i)"

section \<open>Heap\<close>

definition NewHeap :: "'a list" where
  "NewHeap = []"

definition heap_Len :: "'a list \<Rightarrow> int" where
  "heap_Len pq = int (length pq)"

definition PushComparable :: "'a less \<Rightarrow> 'a list \<Rightarrow> 'a \<Rightarrow> 'a list or_panic" where
  "PushComparable Less pq x = heap_up Less (pq @ [x]) (length pq)"

definition heap_Peek :: "'a list \<Rightarrow> 'a option" where
  "heap_Peek pq = (if length pq = 0 then None else Some (pq ! 0))"

text \<open>\<open>Update\<close> replaces the value of the first item and sifts it.\<close>

definition heap_Update :: "'a less \<Rightarrow> 'a list \<Rightarrow> 'a \<Rightarrow> 'a list or_panic" where
  "heap_Update Less pq x =
     bindP (slice_at pq 0) (\<lambda>_. heap_Fix Less (pq[0 := x]) 0)"

text \<open>\<open>heap.Pop\<close> swaps the first item with the last, sifts and cuts the slice.\<close>

definition heap_Pop :: "'a less \<Rightarrow> 'a list \<Rightarrow> ('a \<times> 'a list) or_panic" where
  "heap_Pop Less pq =
     (if pq = [] then Inl IndexOutOfRange
      else let n = length pq - 1 in
        bindP (heap_down Less (swap pq 0 n) 0 n) (\<lambda>(pq', _). Inr (pq' ! n, take n pq')))"

lemma swap_length [simp]: "length (swap pq i j) = length pq"
  by (simp add: swap_def)

lemma swap_mset: "i < length pq \<Longrightarrow> j < length pq \<Longrightarrow> mset (swap pq i j) = mset pq"
  unfolding swap_def by (metis mset_swap)

lemma swap_nth:
  "i < length pq \<Longrightarrow> j < length pq \<Longrightarrow> k < length pq \<Longrightarrow>
   swap pq i j ! k = (if k = i then pq ! j else if k = j then pq ! i else pq ! k)"
  by (auto simp: swap_def nth_list_update)

text \<open>The tree behind the slice.\<close>

definition parent :: "nat \<Rightarrow> nat" where
  "parent j = (j - 1) div 2"

lemma parent_less: "0 < j \<Longrightarrow> parent j < j"
  by (auto simp: parent_def)

lemma parent_iff: "0 < c \<Longrightarrow> parent c = i \<longleftrightarrow> c = 2 * i + 1 \<or> c = 2 * i + 2"
  by (auto simp: parent_def)

section \<open>Heap order\<close>

text \<open>
  The priorities the clients use: a strict order on the items' keys, whose \<open>Less\<close> does not
  panic on two different items of the queue.
\<close>

locale heap_order =
  fixes lt :: "'a \<Rightarrow> 'a \<Rightarrow> bool"
  assumes asym: "lt a b \<Longrightarrow> \<not> lt b a"
    and not_trans: "\<not> lt a b \<Longrightarrow> \<not> lt b c \<Longrightarrow> \<not> lt a c"
begin

definition agrees :: "'a less \<Rightarrow> 'a list \<Rightarrow> bool" where
  "agrees Less pq \<longleftrightarrow> distinct pq \<and> (\<forall>x \<in> set pq. \<forall>y \<in> set pq. x \<noteq> y \<longrightarrow> Less x y = Inr (lt x y))"

text \<open>Every node not smaller than its parent, except possibly at the nodes of \<open>X\<close>.\<close>

definition heap_but :: "nat set \<Rightarrow> 'a list \<Rightarrow> bool" where
  "heap_but X pq \<longleftrightarrow> (\<forall>j. 0 < j \<longrightarrow> j < length pq \<longrightarrow> j \<notin> X \<longrightarrow> \<not> lt (pq ! j) (pq ! (parent j)))"

abbreviation heap :: "'a list \<Rightarrow> bool" where
  "heap pq \<equiv> heap_but {} pq"

lemma lt_trans: "lt a b \<Longrightarrow> lt b c \<Longrightarrow> lt a c"
  using asym not_trans by blast

lemma agrees_perm: "agrees Less pq \<Longrightarrow> mset pq' = mset pq \<Longrightarrow> agrees Less pq'"
  unfolding agrees_def by (metis mset_eq_imp_distinct_iff mset_eq_setD)

lemma heap_root_least: "heap pq \<Longrightarrow> j < length pq \<Longrightarrow> \<not> lt (pq ! j) (pq ! 0)"
proof (induction j rule: less_induct)
  case (less j)
  show ?case
  proof (cases "j = 0")
    case True
    then show ?thesis using asym by auto
  next
    case False
    then have "\<not> lt (pq ! j) (pq ! (parent j))" using less.prems by (simp add: heap_but_def)
    moreover have "\<not> lt (pq ! (parent j)) (pq ! 0)"
      using False less.prems parent_less [of j] by (intro less.IH) auto
    ultimately show ?thesis using not_trans by blast
  qed
qed

lemma agrees_less:
  "agrees Less pq \<Longrightarrow> i < length pq \<Longrightarrow> j < length pq \<Longrightarrow> i \<noteq> j \<Longrightarrow> Less (pq ! i) (pq ! j) = Inr (lt (pq ! i) (pq ! j))"
  unfolding agrees_def by (metis nth_eq_iff_index_eq nth_mem)

lemma heap_butD: "heap_but X pq \<Longrightarrow> 0 < c \<Longrightarrow> c < length pq \<Longrightarrow> c \<notin> X \<Longrightarrow> \<not> lt (pq ! c) (pq ! (parent c))"
  by (simp add: heap_but_def)

text \<open>The invariant of \<open>up\<close>: only the edge above \<open>j\<close> may be wrong, and \<open>j\<close>'s children fit under \<open>j\<close>'s parent.\<close>

definition up_inv :: "'a list \<Rightarrow> nat \<Rightarrow> bool" where
  "up_inv pq j \<longleftrightarrow> j < length pq \<and> heap_but {j} pq \<and>
     (\<forall>c. 0 < j \<longrightarrow> 0 < c \<longrightarrow> parent c = j \<longrightarrow> c < length pq \<longrightarrow> \<not> lt (pq ! c) (pq ! (parent j)))"

lemma up_swap_edge:
  assumes inv: "up_inv pq j" and j: "0 < j" and i: "i = parent j" and T: "lt (pq ! j) (pq ! i)"
    and c: "0 < c" "c < length pq" "c \<noteq> i" and d: "d = parent c"
  shows "\<not> lt (swap pq i j ! c) (swap pq i j ! d)"
proof -
  have b: "j < length pq" "i < j" "d < c" using inv j c parent_less by (auto simp: up_inv_def i d)
  have nth: "swap pq i j ! k = (if k = i then pq ! j else if k = j then pq ! i else pq ! k)" if "k < length pq" for k
    using b that by (intro swap_nth) auto
  have ok: "\<not> lt (pq ! c) (pq ! d)" if "c \<noteq> j"
    using inv that c by (auto simp: up_inv_def d heap_but_def)
  consider "c = j" | "d = j" | "d = i" "c \<noteq> j" | "c \<noteq> j" "d \<noteq> i" "d \<noteq> j" by blast
  then show ?thesis
  proof cases
    case 1
    then show ?thesis using T nth [of c] nth [of d] c b asym i d by auto
  next
    case 2
    then have "\<not> lt (pq ! c) (pq ! i)" using inv j c unfolding up_inv_def i d by blast
    then show ?thesis using nth [of c] nth [of d] c b 2 by auto
  next
    case 3
    then have "\<not> lt (pq ! c) (pq ! j)" using ok T asym lt_trans by blast
    then show ?thesis using nth [of c] nth [of d] c b 3 by auto
  next
    case 4
    then show ?thesis using nth [of c] nth [of d] c b ok by auto
  qed
qed

lemma up_inv_swap:
  assumes inv: "up_inv pq j" and j: "0 < j" and i: "i = parent j" and T: "lt (pq ! j) (pq ! i)"
  shows "up_inv (swap pq i j) i"
proof -
  have b: "j < length pq" "i < j" using inv j parent_less by (auto simp: up_inv_def i)
  have edges: "heap_but {i} (swap pq i j)"
    using up_swap_edge [OF inv j i T] by (auto simp: heap_but_def)
  have "\<not> lt (swap pq i j ! c) (swap pq i j ! d)"
    if "0 < i" "0 < c" "parent c = i" "c < length pq" "d = parent i" for c d
  proof -
    have d: "d < i" using that parent_less by simp
    have up: "\<not> lt (pq ! i) (pq ! d)"
      using inv that b by (auto simp: up_inv_def heap_but_def)
    have "\<not> lt (pq ! c) (pq ! i)" if "c \<noteq> j"
      using inv that \<open>0 < c\<close> \<open>parent c = i\<close> \<open>c < length pq\<close> heap_butD [of "{j}" pq c] by (simp add: up_inv_def)
    then have "\<not> lt (swap pq i j ! c) (pq ! d)"
      using swap_nth [of i pq j c] b that up not_trans parent_less [of c] by auto
    then show ?thesis using swap_nth [of i pq j d] b d by auto
  qed
  then show ?thesis using edges b by (simp add: up_inv_def)
qed

lemma heap_up_spec:
  "agrees Less pq \<Longrightarrow> up_inv pq j \<Longrightarrow> \<exists>pq'. heap_up Less pq j = Inr pq' \<and> mset pq' = mset pq \<and> heap pq'"
proof (induction j arbitrary: pq rule: less_induct)
  case (less j)
  define i where "i = parent j"
  have jl: "j < length pq" using less.prems(2) by (simp add: up_inv_def)
  show ?case
  proof (cases "j = 0")
    case True
    then have "heap pq" using less.prems(2) by (auto simp: heap_but_def up_inv_def)
    then show ?thesis using True by (subst heap_up.simps) simp
  next
    case False
    have ij: "i < j" "i < length pq" using False jl parent_less [of j] by (auto simp: i_def)
    have "Less (pq ! j) (pq ! i) = Inr (lt (pq ! j) (pq ! i))"
      using agrees_less [OF less.prems(1) jl ij(2)] ij by simp
    then have step: "heap_up Less pq j = (if lt (pq ! j) (pq ! i) then heap_up Less (swap pq i j) i else Inr pq)"
      using ij by (subst heap_up.simps) (simp add: Let_def i_def parent_def)
    show ?thesis
    proof (cases "lt (pq ! j) (pq ! i)")
      case F: False
      have "\<not> lt (pq ! c) (pq ! (parent c))" if "0 < c" "c < length pq" for c
        using F less.prems(2) that by (cases "c = j") (auto simp: up_inv_def i_def heap_but_def)
      then show ?thesis using F step by (simp add: heap_but_def)
    next
      case True
      have m: "mset (swap pq i j) = mset pq" using swap_mset ij jl by blast
      have "up_inv (swap pq i j) i" using up_inv_swap [OF less.prems(2) _ i_def True] False by simp
      then show ?thesis
        using less.IH [OF ij(1) agrees_perm [OF less.prems(1) m]] True step m by auto
    qed
  qed
qed

text \<open>The invariant of \<open>down\<close>: only the edges below \<open>i\<close> may be wrong, and \<open>i\<close>'s children fit under \<open>i\<close>'s parent.\<close>

definition down_inv :: "'a list \<Rightarrow> nat \<Rightarrow> bool" where
  "down_inv pq i \<longleftrightarrow> i < length pq \<and> heap_but {c. parent c = i} pq \<and>
     (\<forall>c. 0 < i \<longrightarrow> 0 < c \<longrightarrow> parent c = i \<longrightarrow> c < length pq \<longrightarrow> \<not> lt (pq ! c) (pq ! (parent i)))"

lemma down_inv_swap:
  assumes inv: "down_inv pq i" and j: "0 < j" "parent j = i" "j < length pq"
    and T: "lt (pq ! j) (pq ! i)"
    and least: "\<And>c. 0 < c \<Longrightarrow> parent c = i \<Longrightarrow> c < length pq \<Longrightarrow> \<not> lt (pq ! c) (pq ! j)"
  shows "down_inv (swap pq i j) j"
proof -
  have b: "i < j" "i < length pq" using inv j parent_less by (auto simp: down_inv_def)
  have nth: "swap pq i j ! k = (if k = i then pq ! j else if k = j then pq ! i else pq ! k)" if "k < length pq" for k
    using b j that by (intro swap_nth) auto
  have ok: "\<not> lt (pq ! c) (pq ! (parent c))" if "0 < c" "c < length pq" "parent c \<noteq> i" for c
    using inv that by (auto simp: down_inv_def heap_but_def)
  have "\<not> lt (swap pq i j ! c) (swap pq i j ! d)"
    if c: "0 < c" "c < length pq" "d = parent c" "parent c \<noteq> j" for c d
  proof -
    have d: "d < c" "d \<noteq> j" using c parent_less by auto
    consider "c = j" | "c = i" | "d = i" "c \<noteq> j" | "d \<noteq> i" "c \<noteq> i" "c \<noteq> j" by blast
    then show ?thesis
    proof cases
      case 1
      then show ?thesis using nth [of c] nth [of d] c b j T asym by auto
    next
      case 2
      then have "\<not> lt (pq ! j) (pq ! d)" using inv c j by (auto simp: down_inv_def)
      then show ?thesis using 2 nth [of c] nth [of d] c d b by auto
    next
      case 3
      then show ?thesis using least [of c] 3 nth [of c] nth [of d] c d b by auto
    next
      case 4
      then show ?thesis using nth [of c] nth [of d] c d ok [of c] by auto
    qed
  qed
  then have "heap_but {c. parent c = j} (swap pq i j)" by (simp add: heap_but_def)
  moreover have "\<not> lt (swap pq i j ! c) (swap pq i j ! i)"
    if "0 < c" "parent c = j" "c < length pq" for c
    using ok [of c] nth [of c] nth [of i] that b parent_less [of c] by auto
  ultimately show ?thesis using j b by (simp add: down_inv_def)
qed

lemma heap_down_spec:
  "agrees Less pq \<Longrightarrow> down_inv pq i \<Longrightarrow>
   \<exists>pq' i'. heap_down Less pq i (length pq) = Inr (pq', i') \<and> mset pq' = mset pq \<and> heap pq'"
proof (induction "length pq - i" arbitrary: pq i rule: less_induct)
  case less
  note inv = less.prems(2)
  have il: "i < length pq" using inv by (simp add: down_inv_def)
  define j1 where "j1 = 2 * i + 1"
  have heapI: "heap pq" if "\<And>c. 0 < c \<Longrightarrow> parent c = i \<Longrightarrow> c < length pq \<Longrightarrow> \<not> lt (pq ! c) (pq ! i)"
    unfolding heap_but_def
  proof (intro allI impI)
    fix c assume c: "0 < c" "c < length pq"
    show "\<not> lt (pq ! c) (pq ! parent c)"
      using inv c that [of c] heap_butD [of "{c. parent c = i}" pq c]
      by (cases "parent c = i") (auto simp: down_inv_def)
  qed
  show ?case
  proof (cases "j1 < length pq")
    case False
    then have "heap pq" by (intro heapI) (auto simp: j1_def parent_iff)
    then show ?thesis using False by (subst heap_down.simps) (simp add: j1_def)
  next
    case True
    define b2 where "b2 \<longleftrightarrow> j1 + 1 < length pq \<and> lt (pq ! (j1 + 1)) (pq ! j1)"
    define j where "j = (if b2 then j1 + 1 else j1)"
    have j: "0 < j" "parent j = i" "j < length pq" "i < j"
      using True by (auto simp: j_def j1_def b2_def parent_iff)
    have least: "\<not> lt (pq ! c) (pq ! j)" if "0 < c" "parent c = i" "c < length pq" for c
      using that asym by (auto simp: j_def b2_def j1_def parent_iff)
    have "(if j1 + 1 < length pq then Less (pq ! (j1 + 1)) (pq ! j1) else Inr False) = Inr b2"
      using agrees_less [OF less.prems(1), of "j1 + 1" j1] True by (simp add: b2_def)
    moreover have "Less (pq ! j) (pq ! i) = Inr (lt (pq ! j) (pq ! i))"
      using agrees_less [OF less.prems(1), of j i] j il by simp
    ultimately have step: "heap_down Less pq i (length pq) =
        (if lt (pq ! j) (pq ! i) then heap_down Less (swap pq i j) j (length pq) else Inr (pq, i))"
      using True by (subst heap_down.simps) (simp add: Let_def j1_def [symmetric, simplified] j_def [symmetric])
    show ?thesis
    proof (cases "lt (pq ! j) (pq ! i)")
      case F: False
      then have "heap pq" using least not_trans by (intro heapI) blast
      then show ?thesis using F step by simp
    next
      case T: True
      have m: "mset (swap pq i j) = mset pq" using swap_mset il j by blast
      show ?thesis
        using less.hyps [of "swap pq i j" j] agrees_perm [OF less.prems(1) m] down_inv_swap [OF inv j(1-3) T least]
          T step m j il by auto
    qed
  qed
qed

text \<open>What the client calls promise: pushing keeps the heap, and so does \<open>Update\<close> after the root's key changed.\<close>

lemma Push_spec:
  assumes "agrees Less (pq @ [x])" "heap pq"
  shows "\<exists>pq'. PushComparable Less pq x = Inr pq' \<and> mset pq' = add_mset x (mset pq) \<and> heap pq'"
proof -
  have edge: "(pq @ [x]) ! c = pq ! c" "(pq @ [x]) ! parent c = pq ! parent c" if "0 < c" "c < length pq" for c
    using that parent_less [of c] by (simp_all add: nth_append)
  have "parent c \<noteq> length pq" if "0 < c" "c < Suc (length pq)" for c
    using that parent_less [of c] by auto
  then have "up_inv (pq @ [x]) (length pq)"
    using assms(2) edge by (auto simp: up_inv_def heap_but_def less_Suc_eq)
  then show ?thesis
    using heap_up_spec [OF assms(1)] by (simp add: PushComparable_def)
qed

lemma Update_spec:
  assumes "agrees Less pq" "pq \<noteq> []" "heap_but {c. parent c = 0} pq"
  shows "\<exists>pq'. heap_Update Less pq (pq ! 0) = Inr pq' \<and> mset pq' = mset pq \<and> heap pq'"
proof -
  have "down_inv pq 0" using assms(2,3) by (simp add: down_inv_def)
  then obtain pq' i' where d: "heap_down Less pq 0 (length pq) = Inr (pq', i')" "mset pq' = mset pq" "heap pq'"
    using heap_down_spec [OF assms(1)] by blast
  moreover have "heap_up Less pq' 0 = Inr pq'" by (subst heap_up.simps) simp
  moreover have "slice_at pq 0 = Inr (pq ! 0)" using assms(2) by (simp add: slice_at_def)
  ultimately show ?thesis by (simp add: heap_Update_def heap_Fix_def)
qed

end

end
