(* ===== verification/Validator_Set.thy ===== *)
theory Validator_Set
  imports Core_Types Priority_Heap
begin

text \<open>
  \<^verbatim>\<open>types/validator.go\<close> and \<^verbatim>\<open>types/validator_set.go\<close>: clipped 64-bit arithmetic, the
  validator set sorted by address, and the rotation of the proposer. The heap of
  \<open>IncrementAccum\<close> holds pointers to the validators of the set; here it holds their positions,
  and its comparisons read the validators as they are at that moment. The proposer is
  kept as the value it had when it was chosen. In Go it is a pointer to a validator of the set, or of the set this
  one is a copy of; its accum is that of the value, because the code calls \<open>IncrementAccum\<close> with at least one turn,
  which chooses the proposer anew, and on sets of which no copy is in use.
\<close>

section \<open>Clipped arithmetic\<close>

definition safeMul :: "int \<Rightarrow> int \<Rightarrow> int \<times> bool" where
  "safeMul a b =
     (if a = 0 \<or> b = 0 then (0, False)
      else if a = 1 then (b, False)
      else if b = 1 then (a, False)
      else if a = MinInt64 \<or> b = MinInt64 then (- 1, True)
      else let c = wrap64 (a * b) in (c, go_quot c b \<noteq> a))"

definition safeAdd :: "int \<Rightarrow> int \<Rightarrow> int \<times> bool" where
  "safeAdd a b =
     (if b > 0 \<and> a > wrap64 (MaxInt64 - b) then (- 1, True)
      else if b < 0 \<and> a < wrap64 (MinInt64 - b) then (- 1, True)
      else (wrap64 (a + b), False))"

definition safeSub :: "int \<Rightarrow> int \<Rightarrow> int \<times> bool" where
  "safeSub a b =
     (if b > 0 \<and> a < wrap64 (MinInt64 + b) then (- 1, True)
      else if b < 0 \<and> a > wrap64 (MaxInt64 + b) then (- 1, True)
      else (wrap64 (a - b), False))"

definition safeMulClip :: "int \<Rightarrow> int \<Rightarrow> int" where
  "safeMulClip a b =
     (let (c, overflow) = safeMul a b in
      if overflow then
        if (a < 0 \<or> b < 0) \<and> \<not> (a < 0 \<and> b < 0) then MinInt64 else MaxInt64
      else c)"

definition safeAddClip :: "int \<Rightarrow> int \<Rightarrow> int" where
  "safeAddClip a b =
     (let (c, overflow) = safeAdd a b in
      if overflow then if b < 0 then MinInt64 else MaxInt64 else c)"

definition safeSubClip :: "int \<Rightarrow> int \<Rightarrow> int" where
  "safeSubClip a b =
     (let (c, overflow) = safeSub a b in
      if overflow then if b > 0 then MinInt64 else MaxInt64 else c)"

section \<open>Validators\<close>

definition NewValidator :: "'e crypto_env_scheme \<Rightarrow> pub_key \<Rightarrow> int \<Rightarrow> validator" where
  "NewValidator E pubKey votingPower =
     \<lparr>v_Address = pk_Address E pubKey, v_PubKey = Some pubKey, VotingPower = votingPower, Accum = 0\<rparr>"

definition CompareAccum :: "validator \<Rightarrow> validator \<Rightarrow> validator or_panic" where
  "CompareAccum v other =
     (if Accum v > Accum other then Inr v
      else if Accum v < Accum other then Inr other
      else
        let result = bytes_compare (v_Address v) (v_Address other) in
        if result < 0 then Inr v
        else if result > 0 then Inr other
        else Inl (PanicSanity ''Cannot compare identical validators''))"

definition Validator_Hash :: "'e ext_scheme \<Rightarrow> validator \<Rightarrow> bytes" where
  "Validator_Hash E v = aminoHash E (AmValidator (v_Address v) (v_PubKey v) (VotingPower v))"

definition accum_Less :: "validator \<Rightarrow> validator \<Rightarrow> bool or_panic" where
  "accum_Less ac other = bindP (CompareAccum ac other) (\<lambda>larger. Inr (v_Address larger = v_Address ac))"

section \<open>The set\<close>

definition vs_Size :: "validator_set \<Rightarrow> int" where
  "vs_Size vs = int (length (Validators vs))"

definition sum_powers :: "validator list \<Rightarrow> int" where
  "sum_powers vals = fold (\<lambda>v acc. safeAddClip acc (VotingPower v)) vals 0"

text \<open>The sum is cached in the set, which \<open>TotalVotingPower\<close> returns updated.\<close>

definition TotalVotingPower :: "validator_set \<Rightarrow> int \<times> validator_set" where
  "TotalVotingPower vs =
     (if totalVotingPower vs = 0
      then let t = sum_powers (Validators vs) in (t, vs\<lparr>totalVotingPower := t\<rparr>)
      else (totalVotingPower vs, vs))"

definition total_power :: "validator_set \<Rightarrow> int" where
  "total_power vs = fst (TotalVotingPower vs)"

definition position_Less :: "validator list \<Rightarrow> nat less" where
  "position_Less vals i j = accum_Less (vals ! i) (vals ! j)"

definition add_accum :: "int \<Rightarrow> validator \<Rightarrow> validator" where
  "add_accum ntimes v = v\<lparr>Accum := safeAddClip (Accum v) (safeMulClip (VotingPower v) ntimes)\<rparr>"

definition sub_accum :: "int \<Rightarrow> validator \<Rightarrow> validator" where
  "sub_accum tot v = v\<lparr>Accum := safeSubClip (Accum v) tot\<rparr>"

definition push_validator :: "int \<Rightarrow> nat \<Rightarrow> validator list \<times> nat list \<Rightarrow> (validator list \<times> nat list) or_panic" where
  "push_validator ntimes i = (\<lambda>(vals, pq).
     let vals' = vals[i := add_accum ntimes (vals ! i)] in
     bindP (PushComparable (position_Less vals') pq i) (\<lambda>pq'. Inr (vals', pq')))"

text \<open>The second loop, with the turns that are left; the last one sets the proposer.\<close>

fun decrement_loop ::
  "int \<Rightarrow> nat \<Rightarrow> validator list \<Rightarrow> nat list \<Rightarrow> validator option \<Rightarrow> (validator list \<times> validator option) or_panic" where
  "decrement_loop tot 0 vals pq prop = Inr (vals, prop)"
| "decrement_loop tot (Suc r) vals pq prop =
     (case heap_Peek pq of None \<Rightarrow> Inl TypeAssertion
      | Some m \<Rightarrow>
          let vals' = vals[m := sub_accum tot (vals ! m)] in
          if r = 0 then decrement_loop tot r vals' pq (Some (vals' ! m))
          else bindP (heap_Update (position_Less vals') pq m) (\<lambda>pq'.
            decrement_loop tot r vals' pq' prop))"

definition IncrementAccum :: "validator_set \<Rightarrow> int \<Rightarrow> validator_set or_panic" where
  "IncrementAccum vs ntimes =
     bindP (foldP (push_validator ntimes) [0..<length (Validators vs)] (Validators vs, NewHeap)) (\<lambda>(vals, pq).
     bindP (decrement_loop (total_power vs) (nat ntimes) vals pq (Proposer vs)) (\<lambda>(vals', prop).
       Inr (vs\<lparr>Validators := vals', Proposer := prop,
               totalVotingPower := if nat ntimes = 0 then totalVotingPower vs else total_power vs\<rparr>)))"

definition NewValidatorSet :: "validator list option \<Rightarrow> validator_set or_panic" where
  "NewValidatorSet vals =
     (let vs = \<lparr>Validators = sort_key v_Address (case vals of None \<Rightarrow> [] | Some l \<Rightarrow> l),
                Proposer = None, totalVotingPower = 0\<rparr>
      in if vals \<noteq> None then IncrementAccum vs 1 else Inr vs)"

definition search_address :: "validator list \<Rightarrow> address \<Rightarrow> nat" where
  "search_address vals addr =
     sort_Search (length vals) (\<lambda>i. bytes_compare addr (v_Address (vals ! i)) \<le> 0)"

definition HasAddress :: "validator_set \<Rightarrow> address \<Rightarrow> bool" where
  "HasAddress vs addr =
     (let idx = search_address (Validators vs) addr
      in idx < length (Validators vs) \<and> v_Address (Validators vs ! idx) = addr)"

definition GetByAddress :: "validator_set \<Rightarrow> address \<Rightarrow> int \<times> validator option" where
  "GetByAddress vs addr =
     (let idx = search_address (Validators vs) addr in
      if idx < length (Validators vs) \<and> v_Address (Validators vs ! idx) = addr
      then (int idx, Some (Validators vs ! idx)) else (- 1, None))"

definition GetByIndex :: "validator_set \<Rightarrow> int \<Rightarrow> address \<times> validator option" where
  "GetByIndex vs index =
     (if index < 0 \<or> index \<ge> int (length (Validators vs)) then ([], None)
      else let v = Validators vs ! nat index in (v_Address v, Some v))"

definition findProposer :: "validator_set \<Rightarrow> validator option" where
  "findProposer vs =
     fold (\<lambda>v proposer.
       case proposer of None \<Rightarrow> Some v
       | Some p \<Rightarrow> if bytes_compare (v_Address v) (v_Address p) = - 1 then Some v else Some p)
       (Validators vs) None"

definition GetProposer :: "validator_set \<Rightarrow> validator option \<times> validator_set" where
  "GetProposer vs =
     (if length (Validators vs) = 0 then (None, vs)
      else case Proposer vs of
        None \<Rightarrow> let p = findProposer vs in (p, vs\<lparr>Proposer := p\<rparr>)
      | Some p \<Rightarrow> (Some p, vs))"

definition vs_Hash :: "'e ext_scheme \<Rightarrow> validator_set \<Rightarrow> bytes" where
  "vs_Hash E vs =
     (if length (Validators vs) = 0 then []
      else SimpleHashFromHashers E (Validator_Hash E) (Validators vs))"

definition vs_Add :: "validator_set \<Rightarrow> validator \<Rightarrow> bool \<times> validator_set" where
  "vs_Add vs v =
     (let vals = Validators vs; idx = search_address vals (v_Address v) in
      if idx \<ge> length vals
      then (True, vs\<lparr>Validators := vals @ [v], Proposer := None, totalVotingPower := 0\<rparr>)
      else if v_Address (vals ! idx) = v_Address v then (False, vs)
      else (True, vs\<lparr>Validators := take idx vals @ [v] @ drop idx vals, Proposer := None, totalVotingPower := 0\<rparr>))"

definition vs_Update :: "validator_set \<Rightarrow> validator \<Rightarrow> bool \<times> validator_set" where
  "vs_Update vs v =
     (case GetByAddress vs (v_Address v) of
        (_, None) \<Rightarrow> (False, vs)
      | (index, Some _) \<Rightarrow>
          (True, vs\<lparr>Validators := (Validators vs)[nat index := v], Proposer := None, totalVotingPower := 0\<rparr>))"

definition vs_Remove :: "validator_set \<Rightarrow> address \<Rightarrow> validator option \<times> bool \<times> validator_set" where
  "vs_Remove vs addr =
     (let vals = Validators vs; idx = search_address vals addr in
      if idx \<ge> length vals \<or> v_Address (vals ! idx) \<noteq> addr then (None, False, vs)
      else (Some (vals ! idx), True,
        vs\<lparr>Validators := take idx vals @ drop (idx + 1) vals, Proposer := None, totalVotingPower := 0\<rparr>))"

section \<open>Clipping is saturation\<close>

definition clip64 :: "int \<Rightarrow> int" where
  "clip64 x = max MinInt64 (min MaxInt64 x)"

lemma clip64_id: "in64 x \<Longrightarrow> clip64 x = x"
  by (simp add: clip64_def in64_def)

lemma safeAddClip_eq: "in64 a \<Longrightarrow> in64 b \<Longrightarrow> safeAddClip a b = clip64 (a + b)"
  by (auto simp: safeAddClip_def safeAdd_def clip64_def in64_def int64_defs wrap64_id)

lemma safeSubClip_eq: "in64 a \<Longrightarrow> in64 b \<Longrightarrow> safeSubClip a b = clip64 (a - b)"
  by (auto simp: safeSubClip_def safeSub_def clip64_def in64_def int64_defs wrap64_id)

lemma wrap64_diff: "\<exists>k. wrap64 x = x - k * 18446744073709551616"
proof
  show "wrap64 x = x - ((x + 9223372036854775808) div 18446744073709551616) * 18446744073709551616"
    unfolding wrap64_def using mult_div_mod_eq [of 18446744073709551616 "x + 9223372036854775808"] by linarith
qed

lemma go_quot_exact: "b \<noteq> 0 \<Longrightarrow> go_quot (a * b) b = a"
proof -
  assume b: "b \<noteq> 0"
  then have "sgn b * sgn b = 1" by (auto simp: sgn_if)
  then show ?thesis using b
    by (simp add: go_quot_def sgn_mult abs_mult mult.assoc mult.left_commute [of "sgn b"] sgn_mult_abs)
qed

lemma go_quot_near: "b \<noteq> 0 \<Longrightarrow> \<bar>c - go_quot c b * b\<bar> < \<bar>b\<bar>"
proof -
  assume b: "b \<noteq> 0"
  have e: "\<bar>c\<bar> = \<bar>b\<bar> * (\<bar>c\<bar> div \<bar>b\<bar>) + \<bar>c\<bar> mod \<bar>b\<bar>" by simp
  have m: "0 \<le> \<bar>c\<bar> mod \<bar>b\<bar>" "\<bar>c\<bar> mod \<bar>b\<bar> < \<bar>b\<bar>" using b by simp_all
  have "c - go_quot c b * b = sgn c * (\<bar>c\<bar> mod \<bar>b\<bar>)"
  proof -
    have "sgn b * b = \<bar>b\<bar>" by (simp add: abs_sgn mult.commute)
    then have "go_quot c b * b = sgn c * (\<bar>b\<bar> * (\<bar>c\<bar> div \<bar>b\<bar>))"
      by (simp add: go_quot_def mult.assoc mult.left_commute)
    moreover have "c = sgn c * \<bar>c\<bar>" by (simp add: sgn_mult_abs)
    ultimately show ?thesis using e by (metis add_diff_cancel_left' distrib_left)
  qed
  then show ?thesis using m b by (auto simp: abs_mult sgn_if)
qed

lemma safeMul_overflow:
  assumes "in64 a" "in64 b" "a \<noteq> MinInt64" "b \<noteq> MinInt64" "b \<noteq> 0"
  shows "go_quot (wrap64 (a * b)) b = a \<longleftrightarrow> in64 (a * b)"
proof
  assume q: "go_quot (wrap64 (a * b)) b = a"
  obtain k where k: "wrap64 (a * b) = a * b - k * 18446744073709551616" using wrap64_diff by blast
  have "\<bar>b\<bar> \<le> 9223372036854775807" using assms(2,4) by (auto simp: in64_def int64_defs abs_le_iff)
  moreover have "\<bar>k * 18446744073709551616\<bar> < \<bar>b\<bar>"
    using go_quot_near [OF assms(5), of "wrap64 (a * b)"] q k by simp
  ultimately have "\<bar>k\<bar> * 18446744073709551616 < 18446744073709551616" by (simp add: abs_mult)
  then have "k = 0" by linarith
  then show "in64 (a * b)" using k in64_wrap64 [of "a * b"] by simp
next
  assume "in64 (a * b)"
  then show "go_quot (wrap64 (a * b)) b = a" using go_quot_exact [OF assms(5)] by (simp add: wrap64_id)
qed

lemma clip64_big: "\<not> in64 x \<Longrightarrow> clip64 x = (if x < 0 then MinInt64 else MaxInt64)"
  by (auto simp: clip64_def in64_def int64_defs)

lemma safeMulClip_eq:
  assumes "in64 a" "in64 b"
  shows "safeMulClip a b = clip64 (a * b)"
proof -
  consider "a = 0 \<or> b = 0 \<or> a = 1 \<or> b = 1" | "a \<notin> {0, 1}" "b \<notin> {0, 1}" "a = MinInt64 \<or> b = MinInt64" |
    "a \<notin> {0, 1}" "b \<notin> {0, 1}" "a \<noteq> MinInt64" "b \<noteq> MinInt64" by blast
  then show ?thesis
  proof cases
    case 1
    then show ?thesis using assms by (auto simp: safeMulClip_def safeMul_def clip64_id in64_def int64_defs)
  next
    case 2
    have "\<not> in64 (a * b)"
    proof (cases "a = MinInt64")
      case True
      then show ?thesis using 2(2) by (auto simp: in64_def int64_defs)
    next
      case False
      then have "b = MinInt64" using 2(3) by simp
      then show ?thesis using 2(1) by (auto simp: in64_def int64_defs)
    qed
    then show ?thesis using 2 by (auto simp: safeMulClip_def safeMul_def clip64_big mult_less_0_iff)
  next
    case 3
    then show ?thesis
      using safeMul_overflow [OF assms 3(3,4)]
      by (auto simp: safeMulClip_def safeMul_def Let_def clip64_id clip64_big mult_less_0_iff wrap64_id)
  qed
qed

section \<open>The total\<close>

text \<open>Powers of a set: not negative, and their sum fits a 64-bit integer.\<close>

definition powers_ok :: "validator list \<Rightarrow> bool" where
  "powers_ok vals \<longleftrightarrow> (\<forall>v \<in> set vals. 0 \<le> VotingPower v) \<and> (\<Sum>v\<leftarrow>vals. VotingPower v) \<le> MaxInt64"

definition cache_ok :: "validator_set \<Rightarrow> bool" where
  "cache_ok vs \<longleftrightarrow> totalVotingPower vs = 0 \<or> totalVotingPower vs = sum_powers (Validators vs)"

lemma sum_powers_acc:
  "\<forall>v \<in> set vals. 0 \<le> VotingPower v \<Longrightarrow> 0 \<le> acc \<Longrightarrow> acc + (\<Sum>v\<leftarrow>vals. VotingPower v) \<le> MaxInt64 \<Longrightarrow>
   fold (\<lambda>v acc. safeAddClip acc (VotingPower v)) vals acc = acc + (\<Sum>v\<leftarrow>vals. VotingPower v)"
proof (induction vals arbitrary: acc)
  case (Cons v vals)
  have nn: "0 \<le> (\<Sum>v\<leftarrow>vals. VotingPower v)" using Cons.prems(1) by (intro sum_list_nonneg) auto
  then have "safeAddClip acc (VotingPower v) = acc + VotingPower v"
    using Cons.prems by (subst safeAddClip_eq) (auto simp: in64_def int64_defs clip64_def)
  then show ?case using Cons by simp
qed simp

lemma sum_powers_eq: "powers_ok vals \<Longrightarrow> sum_powers vals = (\<Sum>v\<leftarrow>vals. VotingPower v)"
  using sum_powers_acc [of vals 0] by (simp add: powers_ok_def sum_powers_def)

lemma total_power_eq: "cache_ok vs \<Longrightarrow> total_power vs = sum_powers (Validators vs)"
  by (auto simp: cache_ok_def total_power_def TotalVotingPower_def Let_def)

text \<open>The memo does not show: storing the sum changes no later result.\<close>

lemma TotalVotingPower_memo:
  "cache_ok vs \<Longrightarrow> TotalVotingPower vs = (t, vs') \<Longrightarrow>
   cache_ok vs' \<and> total_power vs' = total_power vs \<and> Validators vs' = Validators vs \<and> Proposer vs' = Proposer vs"
  by (auto simp: cache_ok_def total_power_def TotalVotingPower_def Let_def split: if_splits)

section \<open>The set as a map from addresses\<close>

definition sorted_vals :: "validator list \<Rightarrow> bool" where
  "sorted_vals vals \<longleftrightarrow> sorted_wrt (<) (map v_Address vals)"

definition vs_wf :: "validator_set \<Rightarrow> bool" where
  "vs_wf vs \<longleftrightarrow> sorted_vals (Validators vs) \<and> cache_ok vs"

definition vs_lookup :: "validator_set \<Rightarrow> address \<Rightarrow> validator option" where
  "vs_lookup vs addr = snd (GetByAddress vs addr)"

lemma sorted_vals_nth:
  "sorted_vals vals \<Longrightarrow> i < j \<Longrightarrow> j < length vals \<Longrightarrow> v_Address (vals ! i) < v_Address (vals ! j)"
  by (simp add: sorted_vals_def sorted_wrt_iff_nth_less)

lemma sorted_vals_inj:
  "sorted_vals vals \<Longrightarrow> i < length vals \<Longrightarrow> j < length vals \<Longrightarrow> v_Address (vals ! i) = v_Address (vals ! j) \<Longrightarrow> i = j"
  using sorted_vals_nth [of vals i j] sorted_vals_nth [of vals j i] by (cases i j rule: linorder_cases) auto

lemma search_address_spec:
  fixes addr :: address
  assumes "sorted_vals vals"
  defines "k \<equiv> search_address vals addr"
  shows "k \<le> length vals" "\<And>j. j < k \<Longrightarrow> v_Address (vals ! j) < addr"
    "\<And>j. k \<le> j \<Longrightarrow> j < length vals \<Longrightarrow> addr \<le> v_Address (vals ! j)"
proof -
  let ?f = "\<lambda>i. bytes_compare addr (v_Address (vals ! i)) \<le> 0"
  have mono: "\<forall>a b. a \<le> b \<and> b < length vals \<and> ?f a \<longrightarrow> ?f b"
  proof (intro allI impI)
    fix a b assume ab: "a \<le> b \<and> b < length vals \<and> ?f a"
    then have "v_Address (vals ! a) \<le> v_Address (vals ! b)"
      using sorted_vals_nth [OF assms(1), of a b] by (cases "a = b") auto
    then show "?f b" using ab order.trans by auto
  qed
  note S = sort_Search_spec [OF mono, folded search_address_def, folded k_def]
  show "k \<le> length vals" by (rule S(1))
  show "v_Address (vals ! j) < addr" if "j < k" for j using S(2) [OF that] by simp
  show "addr \<le> v_Address (vals ! j)" if "k \<le> j" "j < length vals" for j
    using S(3) mono that by (metis bytes_compare_le order.strict_trans1)
qed

lemma search_hit:
  "sorted_vals vals \<Longrightarrow> i < length vals \<Longrightarrow> search_address vals (v_Address (vals ! i)) = i"
proof -
  assume s: "sorted_vals vals" and i: "i < length vals"
  note K = search_address_spec [OF s, where addr = "v_Address (vals ! i)"]
  have "\<not> i < search_address vals (v_Address (vals ! i))" using K(2) [of i] by auto
  moreover have "\<not> search_address vals (v_Address (vals ! i)) < i"
    using K(3) [OF order.refl] sorted_vals_nth [OF s _ i] i by (meson leD order.strict_trans)
  ultimately show ?thesis by simp
qed

lemma GetByAddress_hit:
  "sorted_vals (Validators vs) \<Longrightarrow> i < length (Validators vs) \<Longrightarrow>
   GetByAddress vs (v_Address (Validators vs ! i)) = (int i, Some (Validators vs ! i))"
  by (simp add: GetByAddress_def search_hit Let_def)

lemma GetByAddress_Some:
  "GetByAddress vs a = (i, Some v) \<Longrightarrow> \<exists>k. i = int k \<and> k < length (Validators vs) \<and> Validators vs ! k = v \<and> v_Address v = a"
  by (auto simp: GetByAddress_def Let_def split: if_splits)

lemma GetByAddress_None: "GetByAddress vs a = (i, None) \<longleftrightarrow> i = - 1 \<and> vs_lookup vs a = None"
  by (auto simp: GetByAddress_def vs_lookup_def Let_def split: if_splits)

lemma lookup_iff:
  "sorted_vals (Validators vs) \<Longrightarrow> vs_lookup vs a = Some v \<longleftrightarrow> v \<in> set (Validators vs) \<and> v_Address v = a"
proof
  assume "vs_lookup vs a = Some v"
  then show "v \<in> set (Validators vs) \<and> v_Address v = a"
    using GetByAddress_Some [of vs a "fst (GetByAddress vs a)" v]
    by (auto simp: vs_lookup_def prod_eq_iff)
next
  assume s: "sorted_vals (Validators vs)" and "v \<in> set (Validators vs) \<and> v_Address v = a"
  then obtain i where "i < length (Validators vs)" "Validators vs ! i = v" "v_Address v = a"
    by (auto simp: in_set_conv_nth)
  then show "vs_lookup vs a = Some v" using GetByAddress_hit [OF s, of i] by (simp add: vs_lookup_def)
qed

lemma lookup_None_iff:
  "sorted_vals (Validators vs) \<Longrightarrow> vs_lookup vs a = None \<longleftrightarrow> (\<forall>v \<in> set (Validators vs). v_Address v \<noteq> a)"
  using lookup_iff [of vs a] by (metis not_None_eq)

lemma vs_Add_None:
  assumes wf: "vs_wf vs" and n: "vs_lookup vs (v_Address v) = None"
  shows "\<exists>k. vs_Add vs v = (True, vs\<lparr>Validators := take k (Validators vs) @ v # drop k (Validators vs),
      Proposer := None, totalVotingPower := 0\<rparr>) \<and>
    sorted_vals (take k (Validators vs) @ v # drop k (Validators vs))"
proof (intro exI conjI)
  let ?vals = "Validators vs"
  define k where "k = search_address ?vals (v_Address v)"
  have s: "sorted_vals ?vals" using wf by (simp add: vs_wf_def)
  note K = search_address_spec [OF s, where addr = "v_Address v", folded k_def]
  have ne: "v_Address (?vals ! j) \<noteq> v_Address v" if "j < length ?vals" for j
    using n that lookup_None_iff [OF s] by simp
  show "vs_Add vs v = (True, vs\<lparr>Validators := take k ?vals @ v # drop k ?vals, Proposer := None, totalVotingPower := 0\<rparr>)"
    using ne by (auto simp: vs_Add_def k_def [symmetric] Let_def)
  have "\<forall>x \<in> set (take k ?vals). v_Address x < v_Address v"
    using K(1,2) by (auto simp: in_set_conv_nth)
  moreover have "\<forall>x \<in> set (drop k ?vals). v_Address v < v_Address x"
  proof
    fix x assume "x \<in> set (drop k ?vals)"
    then obtain i where "x = ?vals ! (k + i)" "k + i < length ?vals" by (auto simp: in_set_conv_nth)
    then show "v_Address v < v_Address x" using K(3) [of "k + i"] ne [of "k + i"] by simp
  qed
  ultimately show "sorted_vals (take k ?vals @ v # drop k ?vals)"
    using s unfolding sorted_vals_def
    by (subst (asm) append_take_drop_id [of k, symmetric])
      (auto simp: sorted_wrt_append simp del: append_take_drop_id dest: order.strict_trans)
qed

lemma vs_Add_Some: "vs_lookup vs (v_Address v) \<noteq> None \<Longrightarrow> vs_Add vs v = (False, vs)"
  by (auto simp: vs_lookup_def GetByAddress_def vs_Add_def Let_def split: if_splits)

lemma lookup_ext:
  "sorted_vals (Validators vs) \<Longrightarrow> (\<And>a v. m a = Some v \<longleftrightarrow> v \<in> set (Validators vs) \<and> v_Address v = a) \<Longrightarrow> vs_lookup vs = m"
  using lookup_iff [of vs] by (intro ext) (metis option.exhaust)

text \<open>
  The contract that the execution of blocks relies on when it applies validator updates:
  adding, replacing and removing by key, each reporting whether it did something.
\<close>

locale keyed_set =
  fixes inv :: "'s \<Rightarrow> bool"
    and lookup :: "'s \<Rightarrow> 'k \<Rightarrow> 'v option"
    and key :: "'v \<Rightarrow> 'k"
    and add :: "'s \<Rightarrow> 'v \<Rightarrow> bool \<times> 's"
    and update :: "'s \<Rightarrow> 'v \<Rightarrow> bool \<times> 's"
    and remove :: "'s \<Rightarrow> 'k \<Rightarrow> bool \<times> 's"
  assumes add_law: "inv s \<Longrightarrow> add s v = (b, s') \<Longrightarrow>
      inv s' \<and> (b \<longleftrightarrow> lookup s (key v) = None) \<and> lookup s' = (if b then (lookup s)(key v \<mapsto> v) else lookup s)"
    and update_law: "inv s \<Longrightarrow> update s v = (b, s') \<Longrightarrow>
      inv s' \<and> (b \<longleftrightarrow> lookup s (key v) \<noteq> None) \<and> lookup s' = (if b then (lookup s)(key v \<mapsto> v) else lookup s)"
    and remove_law: "inv s \<Longrightarrow> remove s k = (b, s') \<Longrightarrow>
      inv s' \<and> (b \<longleftrightarrow> lookup s k \<noteq> None) \<and> lookup s' = (lookup s)(k := None)"
begin

text \<open>One update as the execution applies it: \<open>gone v\<close> asks for a removal.\<close>

definition apply_one :: "('v \<Rightarrow> bool) \<Rightarrow> 's \<Rightarrow> 'v \<Rightarrow> bool \<times> 's" where
  "apply_one gone s v =
     (if lookup s (key v) = None then add s v
      else if gone v then remove s (key v) else update s v)"

definition upd_map :: "('v \<Rightarrow> bool) \<Rightarrow> 'v \<Rightarrow> ('k \<rightharpoonup> 'v) \<Rightarrow> ('k \<rightharpoonup> 'v)" where
  "upd_map gone v m = (if m (key v) \<noteq> None \<and> gone v then m(key v := None) else m(key v \<mapsto> v))"

lemma apply_one_spec:
  assumes "inv s"
  shows "\<exists>s'. apply_one gone s v = (True, s') \<and> inv s' \<and> lookup s' = upd_map gone v (lookup s)"
proof -
  obtain b s' where a: "apply_one gone s v = (b, s')" by (cases "apply_one gone s v")
  then have "b \<and> inv s' \<and> lookup s' = upd_map gone v (lookup s)"
    using add_law [OF assms, of v b s'] update_law [OF assms, of v b s'] remove_law [OF assms, of "key v" b s']
    by (auto simp: apply_one_def upd_map_def split: if_splits)
  then show ?thesis using a by simp
qed

end

lemma vs_Add_law:
  assumes wf: "vs_wf vs" and a: "vs_Add vs v = (b, vs')"
  shows "vs_wf vs' \<and> (b \<longleftrightarrow> vs_lookup vs (v_Address v) = None) \<and>
    vs_lookup vs' = (if b then (vs_lookup vs)(v_Address v \<mapsto> v) else vs_lookup vs)"
proof (cases "vs_lookup vs (v_Address v) = None")
  case True
  have s: "sorted_vals (Validators vs)" using wf by (simp add: vs_wf_def)
  obtain k where k: "b" "vs' = vs\<lparr>Validators := take k (Validators vs) @ v # drop k (Validators vs),
      Proposer := None, totalVotingPower := 0\<rparr>"
      "sorted_vals (take k (Validators vs) @ v # drop k (Validators vs))"
    using vs_Add_None [OF wf True] a by auto
  have "set (take k (Validators vs)) \<union> set (drop k (Validators vs)) = set (Validators vs)"
    by (metis append_take_drop_id set_append)
  then have mem: "set (Validators vs') = insert v (set (Validators vs))" using k(2) by auto
  have "vs_lookup vs' = (vs_lookup vs)(v_Address v \<mapsto> v)"
    using k lookup_iff [OF s] lookup_None_iff [OF s] True mem by (intro lookup_ext) auto
  then show ?thesis using k True by (simp add: vs_wf_def cache_ok_def)
next
  case False
  then show ?thesis using vs_Add_Some [OF False] a wf by auto
qed

lemma vs_Update_law:
  assumes wf: "vs_wf vs" and a: "vs_Update vs v = (b, vs')"
  shows "vs_wf vs' \<and> (b \<longleftrightarrow> vs_lookup vs (v_Address v) \<noteq> None) \<and>
    vs_lookup vs' = (if b then (vs_lookup vs)(v_Address v \<mapsto> v) else vs_lookup vs)"
proof (cases "GetByAddress vs (v_Address v)")
  case (Pair i o')
  have s: "sorted_vals (Validators vs)" using wf by (simp add: vs_wf_def)
  show ?thesis
  proof (cases o')
    case None
    then show ?thesis using Pair a wf by (auto simp: vs_Update_def vs_lookup_def)
  next
    case (Some u)
    then obtain k where k: "i = int k" "k < length (Validators vs)" "Validators vs ! k = u" "v_Address u = v_Address v"
      using GetByAddress_Some [of vs "v_Address v" i u] Pair by auto
    have vs': "b" "vs' = vs\<lparr>Validators := (Validators vs)[k := v], Proposer := None, totalVotingPower := 0\<rparr>"
      using Pair Some a k(1) by (auto simp: vs_Update_def)
    have "map v_Address ((Validators vs)[k := v]) = map v_Address (Validators vs)"
      using k by (intro nth_equalityI) (auto simp: nth_list_update)
    then have s': "sorted_vals (Validators vs')" using s vs' by (simp add: sorted_vals_def)
    have mem: "x \<in> set (Validators vs') \<longleftrightarrow> x = v \<or> (x \<in> set (Validators vs) \<and> v_Address x \<noteq> v_Address v)" for x
    proof -
      have "x \<in> set (Validators vs') \<longleftrightarrow> (\<exists>j < length (Validators vs). x = (if j = k then v else Validators vs ! j))"
        using vs' by (auto simp: in_set_conv_nth nth_list_update)
      also have "\<dots> \<longleftrightarrow> x = v \<or> (\<exists>j < length (Validators vs). j \<noteq> k \<and> x = Validators vs ! j)" using k by auto
      also have "\<dots> \<longleftrightarrow> x = v \<or> (x \<in> set (Validators vs) \<and> v_Address x \<noteq> v_Address v)"
      proof -
        have "j \<noteq> k \<longleftrightarrow> v_Address (Validators vs ! j) \<noteq> v_Address v" if "j < length (Validators vs)" for j
          using sorted_vals_inj [OF s that k(2)] k by auto
        then show ?thesis by (auto simp: in_set_conv_nth)
      qed
      finally show ?thesis .
    qed
    have "vs_lookup vs' = (vs_lookup vs)(v_Address v \<mapsto> v)"
      using lookup_iff [OF s] mem s' by (intro lookup_ext) auto
    then show ?thesis using vs' s' Pair Some by (simp add: vs_wf_def cache_ok_def vs_lookup_def)
  qed
qed

lemma vs_Remove_law:
  assumes wf: "vs_wf vs" and a: "vs_Remove vs addr = (o', b, vs')"
  shows "vs_wf vs' \<and> (b \<longleftrightarrow> vs_lookup vs addr \<noteq> None) \<and> vs_lookup vs' = (vs_lookup vs)(addr := None)"
proof (cases "vs_lookup vs addr")
  case None
  then have "b = False" "vs' = vs"
    using a by (auto simp: vs_Remove_def vs_lookup_def GetByAddress_def Let_def split: if_splits)
  then show ?thesis using wf None by auto
next
  case (Some u)
  let ?vals = "Validators vs"
  have s: "sorted_vals ?vals" using wf by (simp add: vs_wf_def)
  obtain k where k: "k < length ?vals" "?vals ! k = u" "v_Address u = addr" "search_address ?vals addr = k"
    using Some lookup_iff [OF s, of addr u] search_hit [OF s] by (auto simp: in_set_conv_nth)
  have vs': "b" "vs' = vs\<lparr>Validators := take k ?vals @ drop (Suc k) ?vals, Proposer := None, totalVotingPower := 0\<rparr>"
    using a k by (auto simp: vs_Remove_def Let_def split: if_splits)
  have split: "?vals = take k ?vals @ u # drop (Suc k) ?vals" using k id_take_nth_drop [of k ?vals] by simp
  have srt: "sorted_wrt (<) (map v_Address (take k ?vals @ u # drop (Suc k) ?vals))"
    using s split by (simp add: sorted_vals_def)
  then have s': "sorted_vals (Validators vs')" using vs' by (simp add: sorted_vals_def sorted_wrt_append)
  have "set ?vals = insert u (set (take k ?vals) \<union> set (drop (Suc k) ?vals))"
    by (subst split) simp
  moreover have "v_Address x \<noteq> addr" if "x \<in> set (take k ?vals) \<union> set (drop (Suc k) ?vals)" for x
    using srt that k(3) by (auto simp: sorted_wrt_append)
  ultimately have "x \<in> set (Validators vs') \<longleftrightarrow> x \<in> set ?vals \<and> v_Address x \<noteq> addr" for x
    using vs' k(3) by auto
  then have "vs_lookup vs' = (vs_lookup vs)(addr := None)"
    using lookup_iff [OF s] s' by (intro lookup_ext) auto
  then show ?thesis using vs' s' Some by (simp add: vs_wf_def cache_ok_def)
qed

interpretation vset: keyed_set vs_wf vs_lookup v_Address vs_Add vs_Update "\<lambda>vs a. snd (vs_Remove vs a)"
proof unfold_locales
  fix vs k b vs' assume wf: "vs_wf vs" and "snd (vs_Remove vs k) = (b, vs')"
  then have "vs_Remove vs k = (fst (vs_Remove vs k), b, vs')" by (metis prod.collapse)
  then show "vs_wf vs' \<and> (b \<longleftrightarrow> vs_lookup vs k \<noteq> None) \<and> vs_lookup vs' = (vs_lookup vs)(k := None)"
    by (rule vs_Remove_law [OF wf])
qed (auto dest: vs_Add_law vs_Update_law)

section \<open>Properties\<close>

text \<open>
  The clipped operations compute the exact sum, difference and product, saturated at the
  bounds of a 64-bit integer, for all pairs of 64-bit operands: the overflow tests, written
  with wrapping arithmetic, miss no overflow and report no false one.
\<close>

lemma clip_arithmetic_saturates:
  assumes "in64 a" "in64 b"
  shows "safeAddClip a b = clip64 (a + b) \<and> safeSubClip a b = clip64 (a - b) \<and> safeMulClip a b = clip64 (a * b)"
  using assms by (simp add: safeAddClip_eq safeSubClip_eq safeMulClip_eq)

end
