(* ===== verification/Proposer_Rotation.thy ===== *)
theory Proposer_Rotation
  imports Validator_Set
begin

text \<open>
  \<open>IncrementAccum\<close>, which chooses the proposer: the heap it uses is replaced by a direct choice
  of the validator with the greatest accum (ties by address), and on that reference the
  rotation is shown fair.
\<close>

section \<open>The order of the heap\<close>

definition accum_key :: "validator \<Rightarrow> int \<times> address" where
  "accum_key v = (- Accum v, v_Address v)"

definition before :: "validator \<Rightarrow> validator \<Rightarrow> bool" where
  "before a b \<longleftrightarrow> accum_key a < accum_key b"

lemma accum_Less_before: "v_Address a \<noteq> v_Address b \<Longrightarrow> accum_Less a b = Inr (before a b)"
  by (auto simp: accum_Less_def CompareAccum_def before_def accum_key_def Let_def bytes_compare_cases)

interpretation acc: heap_order "\<lambda>i j. before (vals ! i) (vals ! j)" for vals :: "validator list"
  by unfold_locales (auto simp: before_def)

definition distinct_addresses :: "validator list \<Rightarrow> bool" where
  "distinct_addresses vals \<longleftrightarrow> distinct (map v_Address vals)"

lemma distinct_addressesD:
  "distinct_addresses vals \<Longrightarrow> i < length vals \<Longrightarrow> j < length vals \<Longrightarrow> i \<noteq> j \<Longrightarrow> v_Address (vals ! i) \<noteq> v_Address (vals ! j)"
  by (auto simp: distinct_addresses_def distinct_conv_nth)

lemma distinct_addresses_cong: "map v_Address vals' = map v_Address vals \<Longrightarrow> distinct_addresses vals \<Longrightarrow> distinct_addresses vals'"
  by (simp add: distinct_addresses_def)

lemma sorted_vals_distinct: "sorted_vals vals \<Longrightarrow> distinct_addresses vals"
  unfolding sorted_vals_def distinct_addresses_def by (simp add: strict_sorted_iff)

lemma agreesI:
  "distinct_addresses vals \<Longrightarrow> distinct pq \<Longrightarrow> set pq \<subseteq> {0..<length vals} \<Longrightarrow> acc.agrees vals (position_Less vals) pq"
  unfolding acc.agrees_def position_Less_def
  using accum_Less_before distinct_addressesD by (metis atLeastLessThan_iff subset_iff)

section \<open>The reference\<close>

text \<open>The position of the validator with the greatest accum, the least address among equals.\<close>

definition mostest :: "validator list \<Rightarrow> nat" where
  "mostest vals = hd (sort_key (\<lambda>i. accum_key (vals ! i)) [0..<length vals])"

fun rotate_ref :: "int \<Rightarrow> nat \<Rightarrow> validator list \<Rightarrow> validator option \<Rightarrow> validator list \<times> validator option" where
  "rotate_ref tot 0 vals prop = (vals, prop)"
| "rotate_ref tot (Suc r) vals prop =
     (let m = mostest vals; vals' = vals[m := sub_accum tot (vals ! m)]
      in rotate_ref tot r vals' (Some (vals' ! m)))"

definition IncrementAccum_ref :: "validator_set \<Rightarrow> int \<Rightarrow> validator_set" where
  "IncrementAccum_ref vs n =
     (let (vals, prop) = rotate_ref (total_power vs) (nat n) (map (add_accum n) (Validators vs)) (Proposer vs)
      in vs\<lparr>Validators := vals, Proposer := prop,
            totalVotingPower := if nat n = 0 then totalVotingPower vs else total_power vs\<rparr>)"

lemma mostest_spec:
  assumes "vals \<noteq> []"
  shows "mostest vals < length vals" "\<And>j. j < length vals \<Longrightarrow> \<not> before (vals ! j) (vals ! mostest vals)"
proof -
  define xs where "xs = sort_key (\<lambda>i. accum_key (vals ! i)) [0..<length vals]"
  have xs: "set xs = {0..<length vals}" "sorted (map (\<lambda>i. accum_key (vals ! i)) xs)" by (simp_all add: xs_def)
  then have ne: "xs \<noteq> []" using assms by auto
  then show "mostest vals < length vals"
    using xs(1) hd_in_set [OF ne] by (simp add: mostest_def xs_def [symmetric])
  show "\<not> before (vals ! j) (vals ! mostest vals)" if "j < length vals" for j
  proof -
    have "j \<in> set xs" using that xs(1) by simp
    then have "accum_key (vals ! hd xs) \<le> accum_key (vals ! j)"
      using xs(2) ne by (cases xs) auto
    then show ?thesis by (simp add: before_def mostest_def xs_def [symmetric])
  qed
qed

lemma mostest_unique:
  assumes "distinct_addresses vals" "m < length vals" "\<And>j. j < length vals \<Longrightarrow> \<not> before (vals ! j) (vals ! m)"
  shows "m = mostest vals"
proof -
  have ne: "vals \<noteq> []" using assms(2) by auto
  have "accum_key (vals ! m) = accum_key (vals ! mostest vals)"
    using mostest_spec(1) [OF ne] mostest_spec(2) [OF ne assms(2)] assms(3) [of "mostest vals"]
    by (simp add: before_def)
  then have "v_Address (vals ! m) = v_Address (vals ! mostest vals)" by (simp add: accum_key_def)
  then show ?thesis using distinct_addressesD [OF assms(1,2) mostest_spec(1) [OF ne]] by blast
qed

section \<open>The heap computes the reference\<close>

lemma add_accum_simps [simp]: "v_Address (add_accum n v) = v_Address v" "VotingPower (add_accum n v) = VotingPower v"
  "v_Address (sub_accum t v) = v_Address v" "VotingPower (sub_accum t v) = VotingPower v"
  by (simp_all add: add_accum_def sub_accum_def)

text \<open>The queue after the first \<open>k\<close> pushes.\<close>

definition pushed :: "int \<Rightarrow> validator list \<Rightarrow> nat \<Rightarrow> validator list \<times> nat list \<Rightarrow> bool" where
  "pushed n vals0 k = (\<lambda>(vals, pq).
     vals = map (add_accum n) (take k vals0) @ drop k vals0 \<and> mset pq = mset [0..<k] \<and> acc.heap_but vals {} pq)"

lemma mset_upt_set: "mset pq = mset [0..<k] \<Longrightarrow> set pq = {0..<k} \<and> distinct pq \<and> length pq = k"
  by (metis distinct_upt length_upt minus_nat.diff_0 mset_eq_imp_distinct_iff mset_eq_length mset_eq_setD set_upt)

lemma push_step:
  assumes d: "distinct_addresses vals0" and k: "k < length vals0" and p: "pushed n vals0 k (vals, pq)"
  shows "\<exists>st. push_validator n k (vals, pq) = Inr st \<and> pushed n vals0 (Suc k) st"
proof -
  define vals' where "vals' = vals[k := add_accum n (vals ! k)]"
  have v: "vals = map (add_accum n) (take k vals0) @ drop k vals0" and m: "mset pq = mset [0..<k]"
    and h: "acc.heap_but vals {} pq" using p unfolding pushed_def prod.case by blast+
  note q = mset_upt_set [OF m]
  have v': "vals' = map (add_accum n) (take (Suc k) vals0) @ drop (Suc k) vals0"
    using k by (simp add: vals'_def v list_update_append nth_append take_Suc_conv_app_nth Cons_nth_drop_Suc [symmetric])
  have addr: "map v_Address vals' = map v_Address vals0"
    unfolding v' by (simp add: comp_def) (metis append_take_drop_id map_append)
  have len: "length vals' = length vals0" using addr by (metis length_map)
  have same: "vals' ! x = vals ! x" if "x \<in> set pq" for x using that q by (simp add: vals'_def)
  have "set pq \<union> {k} \<subseteq> {0..<length vals'}" "distinct (pq @ [k])" using q k len by auto
  then have ag: "acc.agrees vals' (position_Less vals') (pq @ [k])"
    using distinct_addresses_cong [OF addr d] by (intro agreesI) auto
  have "acc.heap_but vals' {} pq"
    using h same unfolding acc.heap_but_def by (metis (no_types, lifting) nth_mem order.strict_trans parent_less)
  then obtain pq' where "PushComparable (position_Less vals') pq k = Inr pq'" "mset pq' = add_mset k (mset pq)"
      "acc.heap_but vals' {} pq'"
    using acc.Push_spec [OF ag] by blast
  then show ?thesis
    using v' m by (simp add: push_validator_def vals'_def [symmetric] pushed_def)
qed

lemma push_all:
  assumes d: "distinct_addresses vals"
  shows "k \<le> length vals \<Longrightarrow> \<exists>st. foldP (push_validator n) [0..<k] (vals, NewHeap) = Inr st \<and> pushed n vals k st"
proof (induction k)
  case 0
  then show ?case by (simp add: pushed_def NewHeap_def acc.heap_but_def)
next
  case (Suc k)
  then obtain vals' pq where "foldP (push_validator n) [0..<k] (vals, NewHeap) = Inr (vals', pq)" "pushed n vals k (vals', pq)"
    by (metis Suc_leD surj_pair)
  then show ?case using push_step [OF d, of k n vals' pq] Suc.prems by auto
qed

lemma decrement_loop_ref:
  "distinct_addresses vals \<Longrightarrow> vals \<noteq> [] \<Longrightarrow> mset pq = mset [0..<length vals] \<Longrightarrow> acc.heap_but vals {} pq \<Longrightarrow>
   decrement_loop tot r vals pq pr = Inr (rotate_ref tot r vals pr)"
proof (induction r arbitrary: vals pq pr)
  case (Suc r)
  note q = mset_upt_set [OF Suc.prems(3)]
  have ne: "pq \<noteq> []" using Suc.prems(2) q by auto
  define m where "m = pq ! 0"
  have m: "m < length vals" using q ne Suc.prems(2) nth_mem [of 0 pq] by (simp add: m_def)
  have "\<not> before (vals ! j) (vals ! m)" if "j < length vals" for j
  proof -
    have "j \<in> set pq" using that q by simp
    then obtain i where "i < length pq" "pq ! i = j" by (auto simp: in_set_conv_nth)
    then show ?thesis using acc.heap_root_least [OF Suc.prems(4)] by (auto simp: m_def)
  qed
  then have mm: "m = mostest vals" by (rule mostest_unique [OF Suc.prems(1) m])
  define vals' where "vals' = vals[m := sub_accum tot (vals ! m)]"
  have addr: "map v_Address vals' = map v_Address vals"
    using m by (intro nth_equalityI) (auto simp: vals'_def nth_list_update)
  have d': "distinct_addresses vals'" by (rule distinct_addresses_cong [OF addr Suc.prems(1)])
  have peek: "heap_Peek pq = Some m" using ne by (simp add: heap_Peek_def m_def)
  show ?case
  proof (cases "r = 0")
    case True
    then show ?thesis using peek mm by (simp add: Let_def)
  next
    case False
    have "acc.agrees vals' (position_Less vals') pq" using q d' by (intro agreesI) (auto simp: vals'_def)
    moreover have "acc.heap_but vals' {c. parent c = 0} pq"
      unfolding acc.heap_but_def
    proof (intro allI impI)
      fix c assume c: "0 < c" "c < length pq" "c \<notin> {c. parent c = 0}"
      then have "pq ! c \<noteq> m" "pq ! parent c \<noteq> m" "parent c < length pq"
        using q ne Suc.prems(2) parent_less [of c] nth_eq_iff_index_eq [of pq c 0] nth_eq_iff_index_eq [of pq "parent c" 0]
        by (auto simp: m_def)
      then show "\<not> before (vals' ! (pq ! c)) (vals' ! (pq ! parent c))"
        using Suc.prems(4) c by (simp add: vals'_def acc.heap_but_def)
    qed
    ultimately obtain pq' where "heap_Update (position_Less vals') pq m = Inr pq'" "mset pq' = mset pq" "acc.heap_but vals' {} pq'"
      using acc.Update_spec [of vals' "position_Less vals'" pq] ne by (auto simp: m_def)
    moreover have "decrement_loop tot r vals' pq' pr = Inr (rotate_ref tot r vals' pr)"
      using calculation Suc.prems(2,3) by (intro Suc.IH d') (auto simp: vals'_def)
    moreover have "rotate_ref tot r vals' pr = rotate_ref tot r vals' (Some (vals' ! m))"
      using False by (cases r) simp_all
    moreover have "rotate_ref tot (Suc r) vals pr = rotate_ref tot r vals' (Some (vals' ! m))"
      by (simp add: Let_def mm vals'_def)
    ultimately show ?thesis using peek False by (simp add: Let_def vals'_def)
  qed
qed simp

lemma IncrementAccum_eq:
  assumes d: "distinct_addresses (Validators vs)" and ne: "Validators vs \<noteq> []"
  shows "IncrementAccum vs n = Inr (IncrementAccum_ref vs n)"
proof -
  let ?vals = "Validators vs"
  obtain vals pq where p: "foldP (push_validator n) [0..<length ?vals] (?vals, NewHeap) = Inr (vals, pq)"
      "pushed n ?vals (length ?vals) (vals, pq)"
    using push_all [OF d, of "length ?vals" n] by auto
  then have v: "vals = map (add_accum n) ?vals" "mset pq = mset [0..<length vals]" "acc.heap_but vals {} pq"
    unfolding pushed_def prod.case by auto
  have "distinct_addresses vals" using d by (simp add: v(1) distinct_addresses_def comp_def)
  then have "decrement_loop (total_power vs) (nat n) vals pq (Proposer vs) =
      Inr (rotate_ref (total_power vs) (nat n) vals (Proposer vs))"
    using v ne by (intro decrement_loop_ref) auto
  then show ?thesis
    using p(1) v(1) by (simp add: IncrementAccum_def IncrementAccum_ref_def split: prod.splits)
qed

section \<open>Fairness\<close>

text \<open>The sums of the accums, without clipping: they add up to zero, and none is below \<open>- tot\<close>.\<close>

definition balanced :: "int \<Rightarrow> validator list \<Rightarrow> bool" where
  "balanced tot vals \<longleftrightarrow> (\<Sum>v\<leftarrow>vals. Accum v) = 0 \<and> (\<forall>v \<in> set vals. - tot \<le> Accum v)"

lemma elem_le_sum_list: "\<forall>x \<in> set xs. (0 :: int) \<le> x \<Longrightarrow> x \<in> set xs \<Longrightarrow> x \<le> sum_list xs"
proof (induction xs)
  case (Cons y ys)
  have "0 \<le> sum_list ys" using Cons.prems(1) by (intro sum_list_nonneg) auto
  then show ?case using Cons by (cases "x = y") auto
qed simp

lemma sum_list_add_const: "(\<Sum>v\<leftarrow>vals. f v + (c :: int)) = (\<Sum>v\<leftarrow>vals. f v) + int (length vals) * c"
  by (induction vals) (simp_all add: algebra_simps)

lemma sum_list_upd: "k < length xs \<Longrightarrow> sum_list (xs[k := x]) = sum_list xs + x - (xs ! k :: int)"
proof (induction xs arbitrary: k)
  case (Cons y ys)
  then show ?case by (cases k) simp_all
qed simp

lemma balanced_upper:
  assumes "balanced tot vals" "v \<in> set vals"
  shows "Accum v \<le> (int (length vals) - 1) * tot"
proof -
  have "Accum v + tot \<le> sum_list (map (\<lambda>v. Accum v + tot) vals)"
    using assms by (intro elem_le_sum_list) (auto simp: balanced_def algebra_simps)
  then have "Accum v + tot \<le> int (length vals) * tot"
    using assms(1) unfolding sum_list_add_const by (simp add: balanced_def)
  then show ?thesis by (simp add: left_diff_distrib)
qed

text \<open>The state of a rotation: distinct addresses, positive total, room for \<open>N\<close> times the total.\<close>

definition rotating :: "int \<Rightarrow> validator_set \<Rightarrow> bool" where
  "rotating tot vs \<longleftrightarrow> distinct_addresses (Validators vs) \<and> cache_ok vs \<and> powers_ok (Validators vs) \<and>
     tot = (\<Sum>v\<leftarrow>Validators vs. VotingPower v) \<and> 0 < tot \<and>
     int (length (Validators vs)) * tot \<le> MaxInt64 \<and> balanced tot (Validators vs)"

lemma rotating_bounds:
  assumes "rotating tot vs" "v \<in> set (Validators vs)"
  shows "0 \<le> VotingPower v" "- MaxInt64 \<le> Accum v" "Accum v + VotingPower v \<le> MaxInt64" "VotingPower v \<le> MaxInt64"
proof -
  define c where "c = int (length (Validators vs)) * tot"
  show p: "0 \<le> VotingPower v" using assms by (auto simp: rotating_def powers_ok_def)
  have q: "VotingPower v \<le> tot"
    using assms elem_le_sum_list [of "map VotingPower (Validators vs)" "VotingPower v"]
    by (auto simp: rotating_def powers_ok_def)
  have lo: "- tot \<le> Accum v" using assms by (auto simp: rotating_def balanced_def)
  have cap: "c \<le> MaxInt64" "tot \<le> MaxInt64" using assms(1) by (auto simp: rotating_def powers_ok_def c_def)
  have hi: "Accum v + tot \<le> c"
    using assms balanced_upper [of tot "Validators vs" v] by (auto simp: rotating_def c_def left_diff_distrib)
  show "- MaxInt64 \<le> Accum v" "Accum v + VotingPower v \<le> MaxInt64" "VotingPower v \<le> MaxInt64"
    using q lo cap hi by linarith+
qed

lemma add_accum_exact:
  assumes "rotating tot vs" "v \<in> set (Validators vs)"
  shows "Accum (add_accum 1 v) = Accum v + VotingPower v"
proof -
  have "in64 (VotingPower v)" "in64 (Accum v)" "in64 (Accum v + VotingPower v)"
    using rotating_bounds [OF assms] by (auto simp: in64_def int64_defs)
  then show ?thesis
    by (simp add: add_accum_def safeMulClip_eq safeAddClip_eq clip64_id in64_def int64_defs)
qed

text \<open>After the additions the greatest accum is positive, because the accums sum up to the total.\<close>

lemma round_positive:
  assumes R: "rotating tot vs"
  defines "W \<equiv> map (add_accum 1) (Validators vs)"
  shows "mostest W < length (Validators vs)" "(\<Sum>v\<leftarrow>W. Accum v) = tot" "0 < Accum (W ! mostest W)"
    "Accum (W ! mostest W) \<le> MaxInt64"
proof -
  have ne: "W \<noteq> []" using R by (auto simp: rotating_def W_def)
  show m: "mostest W < length (Validators vs)" using mostest_spec(1) [OF ne] by (simp add: W_def)
  have "map Accum W = map (\<lambda>v. Accum v + VotingPower v) (Validators vs)"
    using add_accum_exact [OF R] by (simp add: W_def)
  then show sumW: "(\<Sum>v\<leftarrow>W. Accum v) = tot"
    using R by (simp add: rotating_def balanced_def sum_list_addf)
  show "0 < Accum (W ! mostest W)"
  proof (rule ccontr)
    assume "\<not> 0 < Accum (W ! mostest W)"
    moreover have "Accum (W ! i) \<le> Accum (W ! mostest W)" if "i < length W" for i
      using mostest_spec(2) [OF ne that] by (auto simp: before_def accum_key_def)
    ultimately have "\<forall>v \<in> set W. Accum v \<le> 0" by (fastforce simp: in_set_conv_nth)
    then have "(\<Sum>v\<leftarrow>W. Accum v) \<le> (\<Sum>v\<leftarrow>W. 0)" by (intro sum_list_mono) auto
    then show False using sumW R by (simp add: rotating_def)
  qed
  show "Accum (W ! mostest W) \<le> MaxInt64"
    using m add_accum_exact [OF R, of "Validators vs ! mostest W"] rotating_bounds(3) [OF R, of "Validators vs ! mostest W"]
    by (simp add: W_def)
qed

text \<open>One round: \<open>m\<close> proposes.\<close>

definition round_of :: "int \<Rightarrow> nat \<Rightarrow> validator_set \<Rightarrow> validator_set \<Rightarrow> bool" where
  "round_of tot m vs vs1 \<longleftrightarrow> m < length (Validators vs) \<and> Proposer vs1 = Some (Validators vs1 ! m) \<and>
    map v_Address (Validators vs1) = map v_Address (Validators vs) \<and>
    map VotingPower (Validators vs1) = map VotingPower (Validators vs) \<and>
    (\<forall>i < length (Validators vs). Accum (Validators vs1 ! i) =
       Accum (Validators vs ! i) + VotingPower (Validators vs ! i) - (if i = m then tot else 0))"

lemma IncrementAccum_round:
  assumes R: "rotating tot vs"
  shows "\<exists>vs1 m. IncrementAccum vs 1 = Inr vs1 \<and> totalVotingPower vs1 = tot \<and> round_of tot m vs vs1"
proof -
  let ?V = "Validators vs"
  define W where "W = map (add_accum 1) ?V"
  define m where "m = mostest W"
  define X where "X = W[m := sub_accum tot (W ! m)]"
  note P = round_positive [OF R, folded W_def, folded m_def]
  have ne: "?V \<noteq> []" using P(1) by auto
  have tp: "total_power vs = tot" using R by (simp add: rotating_def total_power_eq sum_powers_eq)
  have tot: "0 < tot" "tot \<le> MaxInt64" using R by (auto simp: rotating_def powers_ok_def)
  have sub: "Accum (X ! m) = Accum (W ! m) - tot"
    using P tot by (simp add: X_def W_def sub_accum_def safeSubClip_eq clip64_id in64_def int64_defs)
  have "Accum (X ! i) = Accum (?V ! i) + VotingPower (?V ! i) - (if i = m then tot else 0)" if "i < length ?V" for i
    using sub that add_accum_exact [OF R, of "?V ! i"] by (cases "i = m") (simp_all add: X_def W_def)
  moreover have "map v_Address X = map v_Address ?V" "map VotingPower X = map VotingPower ?V"
    using P(1) by (auto intro!: nth_equalityI simp: X_def W_def nth_list_update)
  ultimately have "round_of tot m vs (vs\<lparr>Validators := X, Proposer := Some (X ! m), totalVotingPower := tot\<rparr>)"
    using P(1) by (simp add: round_of_def)
  moreover have "IncrementAccum vs 1 = Inr (vs\<lparr>Validators := X, Proposer := Some (X ! m), totalVotingPower := tot\<rparr>)"
    using IncrementAccum_eq [of vs 1] R ne
    by (simp add: rotating_def IncrementAccum_ref_def tp [unfolded rotating_def] W_def [symmetric] m_def [symmetric] X_def [symmetric] Let_def)
  ultimately show ?thesis
    by (intro exI [of _ "vs\<lparr>Validators := X, Proposer := Some (X ! m), totalVotingPower := tot\<rparr>"] exI [of _ m]) simp
qed

lemma IncrementAccum_positive:
  assumes R: "rotating tot vs" and i: "IncrementAccum vs 1 = Inr vs1" "round_of tot m vs vs1"
  shows "- tot < Accum (Validators vs1 ! m)"
proof -
  define W where "W = map (add_accum 1) (Validators vs)"
  have ne: "Validators vs \<noteq> []" using R by (auto simp: rotating_def)
  have tp: "total_power vs = tot" using R by (simp add: rotating_def total_power_eq sum_powers_eq)
  have v1: "Validators vs1 = W[mostest W := sub_accum tot (W ! mostest W)]"
    using IncrementAccum_eq [of vs 1] R ne i(1)
    by (auto simp: rotating_def IncrementAccum_ref_def tp [unfolded rotating_def] W_def Let_def)
  note P = round_positive [OF R, folded W_def]
  have "m = mostest W"
  proof (rule ccontr)
    assume "m \<noteq> mostest W"
    then have "Accum (Validators vs1 ! m) = Accum (Validators vs ! m) + VotingPower (Validators vs ! m)"
      using v1 i(2) add_accum_exact [OF R, of "Validators vs ! m"] by (simp add: round_of_def W_def)
    then show False using i(2) R by (simp add: round_of_def rotating_def)
  qed
  moreover have "Accum (Validators vs1 ! mostest W) = Accum (W ! mostest W) - tot"
    using P R v1 by (simp add: W_def sub_accum_def safeSubClip_eq clip64_id in64_def int64_defs rotating_def powers_ok_def)
  ultimately show ?thesis using P(3) by simp
qed

lemma round_rotating:
  assumes R: "rotating tot vs" and i: "IncrementAccum vs 1 = Inr vs1" "totalVotingPower vs1 = tot"
    "round_of tot m vs vs1"
  shows "rotating tot vs1"
proof -
  let ?V = "Validators vs" and ?X = "Validators vs1"
  have same: "map v_Address ?X = map v_Address ?V" "map VotingPower ?X = map VotingPower ?V" "m < length ?V"
    using i(3) by (auto simp: round_of_def)
  have len: "length ?X = length ?V" using same(1) by (metis length_map)
  have acc: "Accum (?X ! j) = Accum (?V ! j) + VotingPower (?V ! j) - (if j = m then tot else 0)" if "j < length ?V" for j
    using i(3) that by (simp add: round_of_def)
  have "map Accum ?X = (map (\<lambda>v. Accum v + VotingPower v) ?V)[m := Accum (?V ! m) + VotingPower (?V ! m) - tot]"
    using acc len by (intro nth_equalityI) (auto simp: nth_list_update)
  then have "(\<Sum>v\<leftarrow>?X. Accum v) = 0"
    using R same(3) by (simp add: sum_list_upd rotating_def balanced_def sum_list_addf)
  moreover have "- tot \<le> Accum v" if v: "v \<in> set ?X" for v
  proof -
    obtain j where j: "j < length ?V" "v = ?X ! j" using v len by (auto simp: in_set_conv_nth)
    show ?thesis
    proof (cases "j = m")
      case True
      then show ?thesis using IncrementAccum_positive [OF R i(1,3)] j by simp
    next
      case False
      have "- tot \<le> Accum (?V ! j)" "0 \<le> VotingPower (?V ! j)"
        using R j(1) by (auto simp: rotating_def balanced_def powers_ok_def)
      then show ?thesis using acc [OF j(1)] False j(2) by simp
    qed
  qed
  ultimately have "balanced tot ?X" by (simp add: balanced_def)
  moreover have sp: "(\<Sum>v\<leftarrow>?X. VotingPower v) = (\<Sum>v\<leftarrow>?V. VotingPower v)" using same(2) by simp
  moreover have pw: "powers_ok ?X"
  proof -
    have "set (map VotingPower ?X) = set (map VotingPower ?V)" using same(2) by simp
    then have "\<forall>v \<in> set ?X. 0 \<le> VotingPower v" using R by (force simp: rotating_def powers_ok_def)
    then show ?thesis using R sp by (simp add: rotating_def powers_ok_def)
  qed
  moreover have "cache_ok vs1" using R i(2) sp pw by (auto simp: cache_ok_def rotating_def sum_powers_eq)
  ultimately show ?thesis using R len distinct_addresses_cong [OF same(1)] by (auto simp: rotating_def)
qed

text \<open>\<open>k\<close> rounds, with the addresses of the proposers.\<close>

fun rounds :: "nat \<Rightarrow> validator_set \<Rightarrow> (validator_set \<times> address list) or_panic" where
  "rounds 0 vs = Inr (vs, [])"
| "rounds (Suc k) vs =
     bindP (IncrementAccum vs 1) (\<lambda>vs1.
     bindP (deref (Proposer vs1)) (\<lambda>p.
     bindP (rounds k vs1) (\<lambda>(vs', ps). Inr (vs', v_Address p # ps))))"

lemma rounds_spec:
  "rotating tot vs \<Longrightarrow> \<exists>vs' ps. rounds k vs = Inr (vs', ps) \<and> rotating tot vs' \<and>
     map v_Address (Validators vs') = map v_Address (Validators vs) \<and>
     (\<forall>i < length (Validators vs). Accum (Validators vs' ! i) = Accum (Validators vs ! i) +
        int k * VotingPower (Validators vs ! i) - int (count_list ps (v_Address (Validators vs ! i))) * tot)"
proof (induction k arbitrary: vs)
  case (Suc k)
  obtain vs1 m where i: "IncrementAccum vs 1 = Inr vs1" "totalVotingPower vs1 = tot" and
    r: "round_of tot m vs vs1"
    using IncrementAccum_round [OF Suc.prems] by blast
  have R1: "rotating tot vs1" by (rule round_rotating [OF Suc.prems i r])
  have addr: "map v_Address (Validators vs1) = map v_Address (Validators vs)"
    and pow: "map VotingPower (Validators vs1) = map VotingPower (Validators vs)"
    and m: "m < length (Validators vs)" "Proposer vs1 = Some (Validators vs1 ! m)"
    using r by (auto simp: round_of_def)
  have len: "length (Validators vs1) = length (Validators vs)" using addr by (metis length_map)
  have at: "v_Address (Validators vs1 ! j) = v_Address (Validators vs ! j)"
    "VotingPower (Validators vs1 ! j) = VotingPower (Validators vs ! j)" if "j < length (Validators vs)" for j
    using addr pow that len by (metis nth_map)+
  obtain vs' ps where vs': "rounds k vs1 = Inr (vs', ps)" "rotating tot vs'"
      "map v_Address (Validators vs') = map v_Address (Validators vs1)" and
    a: "\<And>j. j < length (Validators vs1) \<Longrightarrow> Accum (Validators vs' ! j) = Accum (Validators vs1 ! j) +
        int k * VotingPower (Validators vs1 ! j) - int (count_list ps (v_Address (Validators vs1 ! j))) * tot"
    using Suc.IH [OF R1] by blast
  have eq: "v_Address (Validators vs ! m) = v_Address (Validators vs ! j) \<longleftrightarrow> m = j" if "j < length (Validators vs)" for j
    using Suc.prems distinct_addressesD [of "Validators vs" m j] m(1) that by (auto simp: rotating_def)
  have "Accum (Validators vs' ! j) = Accum (Validators vs ! j) + int (Suc k) * VotingPower (Validators vs ! j) -
      int (count_list (v_Address (Validators vs1 ! m) # ps) (v_Address (Validators vs ! j))) * tot"
    if j: "j < length (Validators vs)" for j
  proof -
    have "Accum (Validators vs1 ! j) = Accum (Validators vs ! j) + VotingPower (Validators vs ! j) - (if j = m then tot else 0)"
      using r j by (simp add: round_of_def)
    then show ?thesis
      using a [of j] j len at [OF j] at [OF m(1)] eq [OF j] by (cases "m = j") (simp_all add: algebra_simps)
  qed
  then show ?case using i m vs' addr by (intro exI [of _ vs'] exI) auto
qed auto

section \<open>Properties\<close>

text \<open>
  C28: \<open>IncrementAccum\<close>, with its heap of pointers whose keys change under it, does not panic on
  a non-empty set with distinct addresses and computes exactly the reference: every accum
  grows by its (clipped) share, then as often as asked the validator with the greatest accum,
  the least address among equals, pays the total power, and the last one is the proposer.
\<close>

theorem IncrementAccum_is_reference:
  assumes "distinct_addresses (Validators vs)" "Validators vs \<noteq> []"
  shows "IncrementAccum vs n = Inr (IncrementAccum_ref vs n)"
  by (rule IncrementAccum_eq [OF assms])

definition demo_val :: "string \<Rightarrow> int \<Rightarrow> validator" where
  "demo_val a p = \<lparr>v_Address = a, v_PubKey = Some (PubKeyEd25519 a), VotingPower = p, Accum = 0\<rparr>"

definition demo_set :: validator_set where
  "demo_set = \<lparr>Validators = [demo_val ''a'' 3, demo_val ''b'' 1], Proposer = None, totalVotingPower = 0\<rparr>"

theorem IncrementAccum_is_reference_witness:
  "IncrementAccum demo_set 5 = Inr (IncrementAccum_ref demo_set 5)"
  by (rule IncrementAccum_is_reference) (simp_all add: demo_set_def demo_val_def distinct_addresses_def)

text \<open>
  C18: the rotation is fair. Let the accums of a set sum up to 0 and not be below \<open>- tot\<close>, with a total power \<open>tot\<close>
  that fits 64 bits multiplied by the number of validators (\<open>rotating\<close>). Then over \<open>k\<close> consecutive rounds, which do
  not panic, a validator with power \<open>p\<close> proposes \<open>k * p / tot\<close> times, up to the number of validators, and its accum
  changes by exactly \<open>k * p\<close> less \<open>tot\<close> for each proposal and stays between \<open>- tot\<close> and the number of other validators
  times \<open>tot\<close>: the clipped 64-bit arithmetic never clips.
\<close>

theorem Proposer_rotation_fair:
  assumes "rotating tot vs"
  shows "\<exists>vs' ps. rounds k vs = Inr (vs', ps) \<and> length ps = k \<and>
    (\<forall>v \<in> set (Validators vs).
       \<bar>int (count_list ps (v_Address v)) * tot - int k * VotingPower v\<bar> \<le> int (length (Validators vs)) * tot) \<and>
    length (Validators vs') = length (Validators vs) \<and>
    (\<forall>i < length (Validators vs). Accum (Validators vs' ! i) = Accum (Validators vs ! i) +
        int k * VotingPower (Validators vs ! i) - int (count_list ps (v_Address (Validators vs ! i))) * tot \<and>
      - tot \<le> Accum (Validators vs' ! i) \<and> Accum (Validators vs' ! i) \<le> (int (length (Validators vs)) - 1) * tot)"
proof -
  let ?N = "int (length (Validators vs))"
  have lenps: "rounds k vs = Inr (vs', ps) \<Longrightarrow> length ps = k" for k vs vs' ps
    by (induction k arbitrary: vs vs' ps) (auto simp: bindP_eq_Inr split: prod.splits)
  obtain vs' ps where r: "rounds k vs = Inr (vs', ps)" "rotating tot vs'"
      "map v_Address (Validators vs') = map v_Address (Validators vs)" and
    a: "\<And>i. i < length (Validators vs) \<Longrightarrow> Accum (Validators vs' ! i) = Accum (Validators vs ! i) +
        int k * VotingPower (Validators vs ! i) - int (count_list ps (v_Address (Validators vs ! i))) * tot"
    using rounds_spec [OF assms, of k] by blast
  have len: "length (Validators vs') = length (Validators vs)" using r(3) by (metis length_map)
  have bound: "- tot \<le> Accum v \<and> Accum v \<le> ?N * tot - tot" if "rotating tot w" "v \<in> set (Validators w)"
      "length (Validators w) = length (Validators vs)" for w v
    using that balanced_upper [of tot "Validators w" v] by (auto simp: rotating_def balanced_def left_diff_distrib)
  have "\<bar>int (count_list ps (v_Address v)) * tot - int k * VotingPower v\<bar> \<le> ?N * tot"
    if v: "v \<in> set (Validators vs)" for v
  proof -
    obtain i where i: "i < length (Validators vs)" "v = Validators vs ! i" using v by (auto simp: in_set_conv_nth)
    have "int (count_list ps (v_Address v)) * tot - int k * VotingPower v = Accum v - Accum (Validators vs' ! i)"
      using a [OF i(1)] i(2) by simp
    moreover have "- tot \<le> Accum v \<and> Accum v \<le> ?N * tot - tot" using bound [OF assms v] by simp
    moreover have "- tot \<le> Accum (Validators vs' ! i) \<and> Accum (Validators vs' ! i) \<le> ?N * tot - tot"
      using bound [OF r(2), of "Validators vs' ! i"] i len by simp
    ultimately show ?thesis by linarith
  qed
  moreover have "- tot \<le> Accum (Validators vs' ! i) \<and> Accum (Validators vs' ! i) \<le> (?N - 1) * tot" if "i < length (Validators vs)" for i
    using bound [OF r(2), of "Validators vs' ! i"] that len by (simp add: left_diff_distrib)
  ultimately show ?thesis using r(1) lenps len a by (intro exI [of _ vs'] exI [of _ ps]) auto
qed

theorem Proposer_rotation_fair_witness:
  "\<exists>vs' ps. rounds 8 demo_set = Inr (vs', ps) \<and> length ps = 8 \<and> \<bar>int (count_list ps ''a'') * 4 - 24\<bar> \<le> 8"
proof -
  have "rotating 4 demo_set"
    by (simp add: rotating_def demo_set_def demo_val_def distinct_addresses_def cache_ok_def powers_ok_def balanced_def int64_defs)
  from Proposer_rotation_fair [OF this, of 8] show ?thesis by (auto simp: demo_set_def demo_val_def)
qed

end
