(* ===== verification/Part_Set.thy ===== *)
theory Part_Set
  imports Core_Types
begin

text \<open>
  \<^verbatim>\<open>types/part_set.go\<close>: a serialized block is cut into parts with Merkle proofs, and a
  peer reassembles it from parts received in any order.
\<close>

section \<open>Operations\<close>

datatype part_set_error = ErrPartSetUnexpectedIndex | ErrPartSetInvalidProof

definition part_Hash :: "'e crypto_env_scheme \<Rightarrow> part \<Rightarrow> bytes" where
  "part_Hash E p = tmhash_Sum E (part_Bytes p)"

definition psh_IsZero :: "part_set_header \<Rightarrow> bool" where
  "psh_IsZero psh \<longleftrightarrow> psh_Total psh = 0"

definition psh_Equals :: "part_set_header \<Rightarrow> part_set_header \<Rightarrow> bool" where
  "psh_Equals psh other \<longleftrightarrow> psh_Total psh = psh_Total other \<and> psh_Hash psh = psh_Hash other"

definition zero_psh :: part_set_header where
  "zero_psh = \<lparr>psh_Total = 0, psh_Hash = []\<rparr>"

definition cut_part :: "bytes \<Rightarrow> int \<Rightarrow> int \<Rightarrow> part or_panic" where
  "cut_part bz partSize i =
     bindP (go_slice bz (i * partSize) (min (int (length bz)) ((i + 1) * partSize)))
       (\<lambda>b. Inr \<lparr>part_Index = i, part_Bytes = b, part_Proof = \<lparr>Aunts = []\<rparr>\<rparr>)"

definition mark_index :: "int \<Rightarrow> bit_array option \<Rightarrow> bit_array option or_panic" where
  "mark_index i bA = bindP (SetIndex bA i True) (\<lambda>(_, bA'). Inr bA')"

definition NewPartSetFromData :: "'e crypto_env_scheme \<Rightarrow> bytes \<Rightarrow> int \<Rightarrow> part_set or_panic" where
  "NewPartSetFromData E bz partSize =
     (if partSize = 0 then Inl (PanicMsg ''integer divide by zero'')
      else
        let tot = go_quot (int (length bz) + partSize - 1) partSize in
        if tot < 0 then Inl (PanicMsg ''makeslice: len out of range'')
        else
          bindP (mapP (cut_part bz partSize) [0..tot - 1]) (\<lambda>parts.
          bindP (foldP mark_index [0..tot - 1] (NewBitArray tot)) (\<lambda>bA.
          bindP (SimpleProofsFromHashers E (part_Hash E) parts) (\<lambda>(root, proofs).
          bindP (mapP (\<lambda>p. bindP (slice_at proofs (part_Index p)) (\<lambda>pf. Inr (p\<lparr>part_Proof := pf\<rparr>))) parts) (\<lambda>parts'.
            Inr \<lparr>ps_total = tot, ps_hash = root, ps_parts = map Some parts',
                 ps_partsBitArray = bA, ps_count = tot\<rparr>)))))"

definition NewPartSetFromHeader :: "part_set_header \<Rightarrow> part_set or_panic" where
  "NewPartSetFromHeader header =
     (if psh_Total header < 0 then Inl (PanicMsg ''makeslice: len out of range'')
      else Inr \<lparr>ps_total = psh_Total header, ps_hash = psh_Hash header,
                ps_parts = replicate (nat (psh_Total header)) None,
                ps_partsBitArray = NewBitArray (psh_Total header), ps_count = 0\<rparr>)"

definition ps_Header :: "part_set option \<Rightarrow> part_set_header" where
  "ps_Header ps = (case ps of None \<Rightarrow> zero_psh | Some s \<Rightarrow> \<lparr>psh_Total = ps_total s, psh_Hash = ps_hash s\<rparr>)"

definition HasHeader :: "part_set option \<Rightarrow> part_set_header \<Rightarrow> bool" where
  "HasHeader ps header = (case ps of None \<Rightarrow> False | Some s \<Rightarrow> psh_Equals (ps_Header (Some s)) header)"

definition ps_HashesTo :: "part_set option \<Rightarrow> bytes \<Rightarrow> bool" where
  "ps_HashesTo ps hash = (case ps of None \<Rightarrow> False | Some s \<Rightarrow> ps_hash s = hash)"

definition ps_Count :: "part_set option \<Rightarrow> int" where
  "ps_Count ps = (case ps of None \<Rightarrow> 0 | Some s \<Rightarrow> ps_count s)"

definition ps_Total :: "part_set option \<Rightarrow> int" where
  "ps_Total ps = (case ps of None \<Rightarrow> 0 | Some s \<Rightarrow> ps_total s)"

definition AddPart ::
  "'e crypto_env_scheme \<Rightarrow> part_set \<Rightarrow> part \<Rightarrow> (bool \<times> part_set_error option \<times> part_set) or_panic" where
  "AddPart E ps part =
     (if part_Index part \<ge> ps_total ps then Inr (False, Some ErrPartSetUnexpectedIndex, ps)
      else
        bindP (slice_at (ps_parts ps) (part_Index part)) (\<lambda>slot.
        if slot \<noteq> None then Inr (False, None, ps)
        else if \<not> sp_Verify E (part_Proof part) (part_Index part) (ps_total ps) (part_Hash E part) (ps_hash ps)
        then Inr (False, Some ErrPartSetInvalidProof, ps)
        else
          bindP (mark_index (part_Index part) (ps_partsBitArray ps)) (\<lambda>bA.
            Inr (True, None, ps\<lparr>ps_parts := (ps_parts ps)[nat (part_Index part) := Some part],
                                ps_partsBitArray := bA, ps_count := ps_count ps + 1\<rparr>))))"

definition GetPart :: "part_set \<Rightarrow> int \<Rightarrow> part option or_panic" where
  "GetPart ps index = slice_at (ps_parts ps) index"

definition IsComplete :: "part_set \<Rightarrow> bool" where
  "IsComplete ps \<longleftrightarrow> ps_count ps = ps_total ps"

section \<open>The reader\<close>

record part_set_reader =
  psr_i :: nat
  psr_parts :: "part option list"
  psr_reader :: bytes

definition NewPartSetReader :: "part option list \<Rightarrow> part_set_reader or_panic" where
  "NewPartSetReader parts =
     bindP (slice_at parts 0) (\<lambda>slot. bindP (deref slot) (\<lambda>p.
       Inr \<lparr>psr_i = 0, psr_parts = parts, psr_reader = part_Bytes p\<rparr>))"

definition GetReader :: "part_set \<Rightarrow> part_set_reader or_panic" where
  "GetReader ps =
     (if \<not> IsComplete ps then Inl (PanicSanity ''Cannot GetReader() on incomplete PartSet'')
      else NewPartSetReader (ps_parts ps))"

text \<open>
  \<open>Read\<close> into a buffer of length \<open>n\<close>: the bytes read, whether the error is \<open>io.EOF\<close>, and the
  reader afterwards. A \<open>bytes.Reader\<close> at its end returns \<open>io.EOF\<close>.
\<close>

function psr_Read :: "part_set_reader \<Rightarrow> nat \<Rightarrow> (bytes \<times> bool \<times> part_set_reader) or_panic" where
  "psr_Read r n =
     (let readerLen = length (psr_reader r) in
      if n \<le> readerLen then
        if readerLen = 0 then Inr ([], True, r)
        else Inr (take n (psr_reader r), False, r\<lparr>psr_reader := drop n (psr_reader r)\<rparr>)
      else if 0 < readerLen then
        bindP (psr_Read (r\<lparr>psr_reader := []\<rparr>) (n - readerLen)) (\<lambda>(b2, eof, r').
          Inr (psr_reader r @ b2, eof, r'))
      else
        let r1 = r\<lparr>psr_i := psr_i r + 1\<rparr> in
        if psr_i r1 \<ge> length (psr_parts r1) then Inr ([], True, r1)
        else bindP (deref (psr_parts r1 ! psr_i r1)) (\<lambda>p.
          psr_Read (r1\<lparr>psr_reader := part_Bytes p\<rparr>) n))"
  by pat_completeness auto
termination
  by (relation "measures [\<lambda>(r, n). length (psr_parts r) - psr_i r, \<lambda>(r, n). n]") auto

declare psr_Read.simps [simp del]

section \<open>Reading\<close>

definition remaining :: "part_set_reader \<Rightarrow> bytes" where
  "remaining r = psr_reader r @ concat (map (\<lambda>slot. part_Bytes (the slot)) (drop (psr_i r + 1) (psr_parts r)))"

definition readable :: "part_set_reader \<Rightarrow> bool" where
  "readable r \<longleftrightarrow> None \<notin> set (psr_parts r)"

lemma remaining_next:
  assumes "psr_i r + 1 < length (psr_parts r)" "psr_reader r = []"
  shows "remaining (r\<lparr>psr_i := psr_i r + 1, psr_reader := part_Bytes (the (psr_parts r ! (psr_i r + 1)))\<rparr>) = remaining r"
  using assms by (simp add: remaining_def Cons_nth_drop_Suc [symmetric])

text \<open>\<open>Read\<close> delivers the next bytes of the concatenated parts, and \<open>io.EOF\<close> exactly when they run short.\<close>

lemma psr_Read_spec:
  "readable r \<Longrightarrow> 0 < n \<Longrightarrow> \<exists>r'. psr_Read r n = Inr (take n (remaining r), length (remaining r) < n, r') \<and>
     readable r' \<and> remaining r' = drop n (remaining r)"
proof (induction r n rule: psr_Read.induct)
  case (1 r n)
  define l where "l = length (psr_reader r)"
  consider (enough) "n \<le> l" | (some) "0 < l" "l < n" | (none) "l = 0" using \<open>0 < n\<close> by linarith
  then show ?case
  proof cases
    case enough
    then show ?thesis using "1.prems"
      by (subst psr_Read.simps) (auto simp: l_def Let_def remaining_def readable_def)
  next
    case some
    have "readable (r\<lparr>psr_reader := []\<rparr>)" using "1.prems" by (simp add: readable_def)
    then obtain r' where r': "psr_Read (r\<lparr>psr_reader := []\<rparr>) (n - l) =
        Inr (take (n - l) (remaining (r\<lparr>psr_reader := []\<rparr>)), length (remaining (r\<lparr>psr_reader := []\<rparr>)) < n - l, r')"
        "readable r'" "remaining r' = drop (n - l) (remaining (r\<lparr>psr_reader := []\<rparr>))"
      using "1.IH"(1) [OF l_def _ some(1)] some(2) by auto
    have rem: "remaining r = psr_reader r @ remaining (r\<lparr>psr_reader := []\<rparr>)" by (simp add: remaining_def)
    have "psr_Read r n = bindP (psr_Read (r\<lparr>psr_reader := []\<rparr>) (n - l)) (\<lambda>(b2, eof, r'). Inr (psr_reader r @ b2, eof, r'))"
      using some by (subst psr_Read.simps) (simp add: l_def Let_def)
    then show ?thesis using r' some unfolding rem by (auto simp: l_def)
  next
    case none
    then have e: "psr_reader r = []" by (simp add: l_def)
    show ?thesis
    proof (cases "psr_i r + 1 < length (psr_parts r)")
      case True
      define s where "s = psr_parts r ! (psr_i r + 1)"
      have "s \<in> set (psr_parts r)" using True by (simp add: s_def)
      then have "s \<noteq> None" using "1.prems"(1) unfolding readable_def by metis
      then obtain p where p: "s = Some p" by blast
      define r1 where "r1 = r\<lparr>psr_i := psr_i r + 1, psr_reader := part_Bytes p\<rparr>"
      have rem: "remaining r1 = remaining r"
        using remaining_next [OF True e] p by (simp add: r1_def s_def)
      have "readable r1" using "1.prems" by (simp add: readable_def r1_def)
      moreover have "psr_Read r n = psr_Read r1 n"
        using True p "1.prems" e by (subst psr_Read.simps) (simp add: Let_def s_def r1_def)
      moreover have "\<exists>r'. psr_Read r1 n = Inr (take n (remaining r1), length (remaining r1) < n, r') \<and>
          readable r' \<and> remaining r' = drop n (remaining r1)"
        using "1.IH"(2) [OF refl _ _ refl, of p] True p "1.prems" e \<open>readable r1\<close>
        by (simp add: s_def r1_def)
      ultimately show ?thesis unfolding rem by simp
    next
      case False
      then have "remaining r = []" using e by (simp add: remaining_def)
      moreover have "psr_Read r n = Inr ([], True, r\<lparr>psr_i := psr_i r + 1\<rparr>)"
        using False e "1.prems" by (subst psr_Read.simps) (simp add: Let_def)
      ultimately show ?thesis using "1.prems" e False by (simp add: readable_def remaining_def)
    qed
  qed
qed

section \<open>Cutting\<close>

definition chunk :: "nat \<Rightarrow> bytes \<Rightarrow> nat \<Rightarrow> bytes" where
  "chunk k bz i = take k (drop (i * k) bz)"

definition n_parts :: "nat \<Rightarrow> bytes \<Rightarrow> nat" where
  "n_parts k bz = (length bz + k - 1) div k"

lemma concat_chunks: "concat (map (chunk k bz) [0..<m]) = take (m * k) bz"
proof (induction m)
  case (Suc m)
  then show ?case by (simp add: chunk_def take_add add.commute [of k])
qed simp

lemma n_parts_cover: "0 < k \<Longrightarrow> length bz \<le> n_parts k bz * k"
proof -
  assume k: "0 < k"
  have "length bz + k - 1 = n_parts k bz * k + (length bz + k - 1) mod k" by (simp add: n_parts_def)
  moreover have "(length bz + k - 1) mod k < k" using k by simp
  ultimately show ?thesis using k by linarith
qed

lemma concat_all_chunks: "0 < k \<Longrightarrow> concat (map (chunk k bz) [0..<n_parts k bz]) = bz"
  by (simp add: concat_chunks n_parts_cover)

lemma n_parts_pos: "0 < k \<Longrightarrow> bz \<noteq> [] \<Longrightarrow> 0 < n_parts k bz"
  using n_parts_cover [of k bz] by (cases "n_parts k bz") auto

lemma n_parts_last: "0 < k \<Longrightarrow> i < n_parts k bz \<Longrightarrow> i * k < length bz"
proof -
  assume k: "0 < k" and i: "i < n_parts k bz"
  then have "(i + 1) * k \<le> n_parts k bz * k" by (intro mult_right_mono) simp_all
  also have "\<dots> \<le> length bz + k - 1" by (simp add: n_parts_def)
  finally show ?thesis using k by simp
qed

lemma cut_part_chunk:
  assumes "0 < k" "i < n_parts k bz"
  shows "cut_part bz (int k) (int i) =
    Inr \<lparr>part_Index = int i, part_Bytes = chunk k bz i, part_Proof = \<lparr>Aunts = []\<rparr>\<rparr>"
proof -
  have lo: "i * k < length bz" using n_parts_last [OF assms] .
  define hi where "hi = min (length bz) ((i + 1) * k)"
  have "min (int (length bz)) ((int i + 1) * int k) = int hi"
    by (simp add: hi_def of_nat_min algebra_simps)
  moreover have "go_slice bz (int (i * k)) (int hi) = Inr (take (hi - i * k) (drop (i * k) bz))"
    using lo by (intro go_slice_nat) (simp_all add: hi_def)
  moreover have "take (hi - i * k) (drop (i * k) bz) = chunk k bz i"
    using lo by (auto simp: chunk_def hi_def min_def)
  ultimately show ?thesis by (simp add: cut_part_def)
qed

lemma mark_index_put:
  "ba_wf a \<Longrightarrow> int k < Bits a \<Longrightarrow> mark_index (int k) (Some a) = Inr (Some (ba_put k True a))"
  by (simp add: mark_index_def SetIndex_def setIndex_put)

lemma mark_all:
  "ba_wf a \<Longrightarrow> \<forall>k \<in> set ks. int k < Bits a \<Longrightarrow>
     foldP mark_index (map int ks) (Some a) = Inr (Some (ba.put_all ks a))"
  by (induction ks arbitrary: a) (simp_all add: mark_index_put ba_put_wf)

text \<open>The part set made from data, written out.\<close>

definition data_hashes :: "'e crypto_env_scheme \<Rightarrow> nat \<Rightarrow> bytes \<Rightarrow> bytes list" where
  "data_hashes E k bz = map (\<lambda>i. tmhash_Sum E (chunk k bz i)) [0..<n_parts k bz]"

definition data_part :: "'e crypto_env_scheme \<Rightarrow> nat \<Rightarrow> bytes \<Rightarrow> nat \<Rightarrow> part" where
  "data_part E k bz i = \<lparr>part_Index = int i, part_Bytes = chunk k bz i,
     part_Proof = \<lparr>Aunts = aunts E (data_hashes E k bz) i\<rparr>\<rparr>"

definition data_set :: "'e crypto_env_scheme \<Rightarrow> nat \<Rightarrow> bytes \<Rightarrow> bit_array \<Rightarrow> part_set" where
  "data_set E k bz ba =
     \<lparr>ps_total = int (n_parts k bz), ps_hash = simpleHashFromHashes E (data_hashes E k bz),
      ps_parts = map (\<lambda>i. Some (data_part E k bz i)) [0..<n_parts k bz],
      ps_partsBitArray = Some ba, ps_count = int (n_parts k bz)\<rparr>"

lemma mapP_upt: "(\<And>i. i < n \<Longrightarrow> f (int i) = Inr (g i)) \<Longrightarrow> mapP f [0..int n - 1] = Inr (map g [0..<n])"
  using upto_nat [of 0 n] mapP_Inr [of "[0..<n]" "\<lambda>i. f (int i)" g] by (simp add: mapP_map)

lemma NewPartSetFromData_eq:
  assumes k: "0 < k" and bz: "bz \<noteq> []"
  shows "\<exists>ba. NewPartSetFromData E bz (int k) = Inr (data_set E k bz ba) \<and>
    ba_wf ba \<and> Bits ba = int (n_parts k bz) \<and> (\<forall>j < n_parts k bz. ba_test ba j)"
proof -
  define n where "n = n_parts k bz"
  have n: "0 < n" using n_parts_pos [OF k bz] by (simp add: n_def)
  have tot: "go_quot (int (length bz) + int k - 1) (int k) = int n"
    using k by (simp add: go_quot_nonneg n_def n_parts_def zdiv_int of_nat_diff)
  define q where "q i = \<lparr>part_Index = int i, part_Bytes = chunk k bz i, part_Proof = \<lparr>Aunts = []\<rparr>\<rparr>" for i
  define ps where "ps = map q [0..<n]"
  have cut: "mapP (cut_part bz (int k)) [0..int n - 1] = Inr ps"
    unfolding ps_def using k by (intro mapP_upt) (simp add: cut_part_chunk q_def n_def)
  obtain z where z: "NewBitArray (int n) = Some z" using n by (simp add: NewBitArray_def)
  note zwf = NewBitArray_wf [OF z] and zb = NewBitArray_Bits [OF z]
  define ba where "ba = ba.put_all [0..<n] z"
  have mark: "foldP mark_index [0..int n - 1] (NewBitArray (int n)) = Inr (Some ba)"
    using mark_all [OF zwf, of "[0..<n]"] zb upto_nat [of 0 n] by (simp add: z ba_def)
  have hs: "map (part_Hash E) ps = data_hashes E k bz"
    by (simp add: ps_def q_def part_Hash_def data_hashes_def n_def)
  have "ps \<noteq> []" using n by (simp add: ps_def)
  then have pfs: "SimpleProofsFromHashers E (part_Hash E) ps =
      Inr (simpleHashFromHashes E (data_hashes E k bz), map (\<lambda>i. \<lparr>Aunts = aunts E (data_hashes E k bz) i\<rparr>) [0..<n])"
    using SimpleProofsFromHashers_aunts [of ps E "part_Hash E"] hs
    by (simp add: SimpleHashFromHashers_def ps_def)
  have "mapP (\<lambda>p. bindP (slice_at (map (\<lambda>i. \<lparr>Aunts = aunts E (data_hashes E k bz) i\<rparr>) [0..<n]) (part_Index p))
      (\<lambda>pf. Inr (p\<lparr>part_Proof := pf\<rparr>))) ps = Inr (map (data_part E k bz) [0..<n])"
    unfolding ps_def mapP_map by (intro mapP_Inr) (simp add: q_def slice_at_def data_part_def)
  then have "NewPartSetFromData E bz (int k) = Inr (data_set E k bz ba)"
    using k tot cut mark pfs
    by (simp add: NewPartSetFromData_def Let_def data_set_def n_def comp_def)
  moreover have "ba_wf ba" "Bits ba = int n" "\<forall>j < n. ba_test ba j"
    using ba.put_all_wf [OF zwf, of "[0..<n]"] ba.put_all_size [of "[0..<n]" z]
      ba.get_put_all [OF zwf, of "[0..<n]"] zb n
    by (auto simp: ba_def ba_wf_def)
  ultimately show ?thesis unfolding n_def by blast
qed

section \<open>The invariant\<close>

definition ps_wf :: "'e crypto_env_scheme \<Rightarrow> part_set \<Rightarrow> bool" where
  "ps_wf E ps \<longleftrightarrow>
     0 \<le> ps_total ps \<and> length (ps_parts ps) = nat (ps_total ps) \<and>
     (case ps_partsBitArray ps of None \<Rightarrow> ps_total ps = 0
      | Some ba \<Rightarrow> ba_wf ba \<and> Bits ba = ps_total ps \<and>
          (\<forall>k < length (ps_parts ps). ba_test ba k \<longleftrightarrow> ps_parts ps ! k \<noteq> None)) \<and>
     ps_count ps = int (length (filter (\<lambda>s. s \<noteq> None) (ps_parts ps))) \<and>
     (\<forall>k < length (ps_parts ps). \<forall>p. ps_parts ps ! k = Some p \<longrightarrow>
        part_Index p = int k \<and>
        sp_Verify E (part_Proof p) (int k) (ps_total ps) (part_Hash E p) (ps_hash ps))"

lemma NewPartSetFromHeader_wf: "NewPartSetFromHeader h = Inr ps \<Longrightarrow> ps_wf E ps"
  using NewBitArray_test [of "psh_Total h"] NewBitArray_wf [of "psh_Total h"] NewBitArray_Bits [of "psh_Total h"]
  by (auto simp: NewPartSetFromHeader_def ps_wf_def NewBitArray_def split: if_splits option.splits)

lemma length_filter_all: "length (filter P xs) = length xs \<longleftrightarrow> (\<forall>x \<in> set xs. P x)"
proof (induction xs)
  case (Cons x xs)
  have "length (filter P xs) \<noteq> Suc (length xs)" by (metis Suc_n_not_le_n length_filter_le)
  then show ?case using Cons by auto
qed simp

lemma IsComplete_iff: "ps_wf E ps \<Longrightarrow> IsComplete ps \<longleftrightarrow> None \<notin> set (ps_parts ps)"
proof -
  assume w: "ps_wf E ps"
  have "IsComplete ps \<longleftrightarrow> length (filter (\<lambda>s. s \<noteq> None) (ps_parts ps)) = length (ps_parts ps)"
    using w by (auto simp: IsComplete_def ps_wf_def)
  also have "\<dots> \<longleftrightarrow> (\<forall>s \<in> set (ps_parts ps). s \<noteq> None)"
    by (rule length_filter_all)
  finally show ?thesis by auto
qed

lemma filter_update_None:
  "k < length xs \<Longrightarrow> xs ! k = None \<Longrightarrow>
   length (filter (\<lambda>s. s \<noteq> None) (xs[k := Some p])) = Suc (length (filter (\<lambda>s. s \<noteq> None) xs))"
proof (induction xs arbitrary: k)
  case (Cons x xs)
  then show ?case by (cases k) auto
qed simp

text \<open>What \<open>AddPart\<close> does with a part whose index is not negative, case by case.\<close>

lemma AddPart_cases:
  assumes "ps_wf E ps" "part_Index p = int k"
  shows "AddPart E ps p =
    (if int k \<ge> ps_total ps then Inr (False, Some ErrPartSetUnexpectedIndex, ps)
     else if ps_parts ps ! k \<noteq> None then Inr (False, None, ps)
     else if \<not> sp_Verify E (part_Proof p) (int k) (ps_total ps) (part_Hash E p) (ps_hash ps)
     then Inr (False, Some ErrPartSetInvalidProof, ps)
     else Inr (True, None, ps\<lparr>ps_parts := (ps_parts ps)[k := Some p],
       ps_partsBitArray := map_option (ba_put k True) (ps_partsBitArray ps), ps_count := ps_count ps + 1\<rparr>))"
proof (cases "int k < ps_total ps")
  case True
  then obtain ba where ba: "ps_partsBitArray ps = Some ba" "ba_wf ba" "Bits ba = ps_total ps"
    using assms(1) by (auto simp: ps_wf_def split: option.splits)
  have "slice_at (ps_parts ps) (int k) = Inr (ps_parts ps ! k)"
    using True assms(1) by (simp add: slice_at_def ps_wf_def)
  then show ?thesis using True assms(2) ba by (simp add: AddPart_def mark_index_put)
qed (simp add: AddPart_def assms(2))

lemma add_slot_wf:
  assumes w: "ps_wf E ps" and p: "part_Index p = int k" and k: "int k < ps_total ps" "ps_parts ps ! k = None"
    and v: "sp_Verify E (part_Proof p) (int k) (ps_total ps) (part_Hash E p) (ps_hash ps)"
  shows "ps_wf E (ps\<lparr>ps_parts := (ps_parts ps)[k := Some p],
       ps_partsBitArray := map_option (ba_put k True) (ps_partsBitArray ps), ps_count := ps_count ps + 1\<rparr>)"
proof -
  obtain ba where ba: "ps_partsBitArray ps = Some ba" "ba_wf ba" "Bits ba = ps_total ps"
      "\<And>j. j < length (ps_parts ps) \<Longrightarrow> ba_test ba j \<longleftrightarrow> ps_parts ps ! j \<noteq> None"
    using w k by (auto simp: ps_wf_def split: option.splits)
  have len: "length (ps_parts ps) = nat (ps_total ps)" "k < length (ps_parts ps)"
    using w k by (auto simp: ps_wf_def)
  have "ba_test (ba_put k True ba) j \<longleftrightarrow> (ps_parts ps)[k := Some p] ! j \<noteq> None" if "j < length (ps_parts ps)" for j
    using that ba len ba_test_put [of ba k j True] k by (cases "j = k") auto
  then show ?thesis
    using w ba len p k v filter_update_None [OF len(2) k(2), of p]
    by (auto simp: ps_wf_def ba_put_wf nth_list_update)
qed

lemma AddPart_wf: "ps_wf E ps \<Longrightarrow> 0 \<le> part_Index p \<Longrightarrow> AddPart E ps p = Inr (b, e, ps') \<Longrightarrow> ps_wf E ps'"
  using AddPart_cases [of E ps p "nat (part_Index p)"] add_slot_wf [of E ps p "nat (part_Index p)"]
  by (auto split: if_splits)

lemma AddPart_keeps: "ps_wf E ps \<Longrightarrow> 0 \<le> part_Index p \<Longrightarrow> AddPart E ps p = Inr (b, e, ps') \<Longrightarrow>
    ps_total ps' = ps_total ps \<and> ps_hash ps' = ps_hash ps"
  using AddPart_cases [of E ps p "nat (part_Index p)"] by (auto split: if_splits)

section \<open>Receiving parts\<close>

text \<open>A node adds the parts it receives one after the other.\<close>

definition add_parts :: "'e crypto_env_scheme \<Rightarrow> part list \<Rightarrow> part_set \<Rightarrow> part_set or_panic" where
  "add_parts E ps s = foldP (\<lambda>p s. bindP (AddPart E s p) (\<lambda>(_, _, s'). Inr s')) ps s"

lemma add_parts_simps [simp]:
  "add_parts E [] s = Inr s"
  "add_parts E (p # ps) s = bindP (AddPart E s p) (\<lambda>(_, _, s'). add_parts E ps s')"
  by (auto simp: add_parts_def bindP_def split: sum.split)

lemma AddPart_step:
  assumes "ps_wf E s" "0 \<le> part_Index p"
  obtains b e s' where "AddPart E s p = Inr (b, e, s')" "ps_wf E s'"
    "ps_total s' = ps_total s" "ps_hash s' = ps_hash s"
    "\<And>k. k < length (ps_parts s) \<Longrightarrow> ps_parts s' ! k = ps_parts s ! k \<or> (ps_parts s ! k = None \<and> ps_parts s' ! k = Some p)"
    "\<And>k. part_Index p = int k \<Longrightarrow> int k < ps_total s \<Longrightarrow>
       sp_Verify E (part_Proof p) (int k) (ps_total s) (part_Hash E p) (ps_hash s) \<Longrightarrow> ps_parts s' ! k \<noteq> None"
proof -
  obtain k where k: "part_Index p = int k" using assms(2) by (metis nonneg_int_cases)
  note C = AddPart_cases [OF assms(1) k]
  then obtain b e s' where a: "AddPart E s p = Inr (b, e, s')" by (auto split: if_splits)
  show ?thesis
  proof (rule that [OF a])
    show "ps_wf E s'" by (rule AddPart_wf [OF assms a])
    show "ps_total s' = ps_total s" "ps_hash s' = ps_hash s" using AddPart_keeps [OF assms a] by simp_all
    show "ps_parts s' ! j = ps_parts s ! j \<or> (ps_parts s ! j = None \<and> ps_parts s' ! j = Some p)"
      if "j < length (ps_parts s)" for j
      using C a that by (cases "j = k") (auto split: if_splits)
    show "ps_parts s' ! j \<noteq> None" if "part_Index p = int j" "int j < ps_total s"
        "sp_Verify E (part_Proof p) (int j) (ps_total s) (part_Hash E p) (ps_hash s)" for j
      using C a that k assms(1) by (auto simp: ps_wf_def split: if_splits)
  qed
qed

lemma add_parts_inv:
  "ps_wf E s \<Longrightarrow> \<forall>p \<in> set ps. 0 \<le> part_Index p \<Longrightarrow> \<exists>s'. add_parts E ps s = Inr s' \<and> ps_wf E s' \<and>
     ps_total s' = ps_total s \<and> ps_hash s' = ps_hash s \<and>
     (\<forall>k < length (ps_parts s). \<forall>q. ps_parts s' ! k = Some q \<longrightarrow> q \<in> set ps \<or> ps_parts s ! k = Some q) \<and>
     (\<forall>k < length (ps_parts s). ps_parts s ! k \<noteq> None \<longrightarrow> ps_parts s' ! k \<noteq> None) \<and>
     (\<forall>p \<in> set ps. \<forall>k. part_Index p = int k \<longrightarrow> int k < ps_total s \<longrightarrow>
        sp_Verify E (part_Proof p) (int k) (ps_total s) (part_Hash E p) (ps_hash s) \<longrightarrow> ps_parts s' ! k \<noteq> None)"
proof (induction ps arbitrary: s)
  case (Cons p ps)
  have "0 \<le> part_Index p" using Cons.prems(2) by simp
  then obtain b e s1 where a: "AddPart E s p = Inr (b, e, s1)" and wf: "ps_wf E s1" and
    t: "ps_total s1 = ps_total s" "ps_hash s1 = ps_hash s" and
    old: "\<And>k. k < length (ps_parts s) \<Longrightarrow>
      ps_parts s1 ! k = ps_parts s ! k \<or> (ps_parts s ! k = None \<and> ps_parts s1 ! k = Some p)" and
    new: "\<And>k. part_Index p = int k \<Longrightarrow> int k < ps_total s \<Longrightarrow>
      sp_Verify E (part_Proof p) (int k) (ps_total s) (part_Hash E p) (ps_hash s) \<Longrightarrow> ps_parts s1 ! k \<noteq> None"
    using AddPart_step [OF Cons.prems(1), of p] by metis
  have len: "length (ps_parts s1) = length (ps_parts s)" "length (ps_parts s) = nat (ps_total s)"
    using Cons.prems(1) wf t by (auto simp: ps_wf_def)
  obtain s' where s': "add_parts E ps s1 = Inr s'" "ps_wf E s'"
      "ps_total s' = ps_total s" "ps_hash s' = ps_hash s"
    and from_list: "\<And>k q. k < length (ps_parts s) \<Longrightarrow> ps_parts s' ! k = Some q \<Longrightarrow> q \<in> set ps \<or> ps_parts s1 ! k = Some q"
    and kept: "\<And>k. k < length (ps_parts s) \<Longrightarrow> ps_parts s1 ! k \<noteq> None \<Longrightarrow> ps_parts s' ! k \<noteq> None"
    and added: "\<And>p k. p \<in> set ps \<Longrightarrow> part_Index p = int k \<Longrightarrow> int k < ps_total s \<Longrightarrow>
        sp_Verify E (part_Proof p) (int k) (ps_total s) (part_Hash E p) (ps_hash s) \<Longrightarrow> ps_parts s' ! k \<noteq> None"
    using Cons.IH [OF wf] Cons.prems(2) t len by auto
  have "q \<in> set (p # ps) \<or> ps_parts s ! k = Some q" if "k < length (ps_parts s)" "ps_parts s' ! k = Some q" for k q
    using from_list [OF that] old [OF that(1)] by auto
  moreover have "ps_parts s' ! k \<noteq> None" if "k < length (ps_parts s)" "ps_parts s ! k \<noteq> None" for k
    using kept [OF that(1)] old [OF that(1)] that(2) by auto
  moreover have "ps_parts s' ! k \<noteq> None" if "r \<in> set (p # ps)" "part_Index r = int k" "int k < ps_total s"
      "sp_Verify E (part_Proof r) (int k) (ps_total s) (part_Hash E r) (ps_hash s)" for r k
    using added [of r k] kept [of k] new [of k] that len(2) by auto
  ultimately show ?case using s' a by (intro exI [of _ s'] conjI allI ballI impI) (simp, simp, simp, simp, blast+)
qed auto

text \<open>The strings hashed by the sender and by the receiver.\<close>

definition own_inputs :: "'e crypto_env_scheme \<Rightarrow> nat \<Rightarrow> bytes \<Rightarrow> bytes list" where
  "own_inputs E k bz = tree_inputs E (data_hashes E k bz) @ map (chunk k bz) [0..<n_parts k bz]"

definition offered_inputs :: "'e crypto_env_scheme \<Rightarrow> nat \<Rightarrow> part list \<Rightarrow> bytes list" where
  "offered_inputs E n ps =
     concat (map (\<lambda>p. part_Bytes p # proof_inputs E (nat (part_Index p)) n (part_Hash E p) (Aunts (part_Proof p))) ps)"

lemma accepted_part_is_original:
  assumes "length_prefixed (EncodeByteSlice E)" "i < n_parts k bz" "int (n_parts k bz) < MaxInt64"
    and "p \<in> set ps" "part_Index p = int i"
    and "sp_Verify E (part_Proof p) (int i) (int (n_parts k bz)) (part_Hash E p) (simpleHashFromHashes E (data_hashes E k bz))"
  shows "part_Bytes p = chunk k bz i \<or> collision E (own_inputs E k bz) (offered_inputs E (n_parts k bz) ps)"
proof -
  let ?hs = "data_hashes E k bz"
  have len: "length ?hs = n_parts k bz" "?hs ! i = tmhash_Sum E (chunk k bz i)"
    using assms(2) by (simp_all add: data_hashes_def)
  have sub: "set (proof_inputs E i (n_parts k bz) (part_Hash E p) (Aunts (part_Proof p))) \<subseteq> set (offered_inputs E (n_parts k bz) ps)"
    "part_Bytes p \<in> set (offered_inputs E (n_parts k bz) ps)"
    using assms(4,5) by (force simp: offered_inputs_def)+
  have own: "set (tree_inputs E ?hs) \<subseteq> set (own_inputs E k bz)" "chunk k bz i \<in> set (own_inputs E k bz)"
    using assms(2) by (auto simp: own_inputs_def)
  have "(part_Hash E p = ?hs ! i \<and> Aunts (part_Proof p) = aunts E ?hs i) \<or>
      collision E (tree_inputs E ?hs) (proof_inputs E i (length ?hs) (part_Hash E p) (Aunts (part_Proof p)))"
    using assms(2,3,6) len by (intro proof_sound [OF assms(1)]) (simp_all add: sp_Verify_def split: option.splits)
  then show ?thesis
  proof
    assume "part_Hash E p = ?hs ! i \<and> Aunts (part_Proof p) = aunts E ?hs i"
    then have "tmhash_Sum E (chunk k bz i) = tmhash_Sum E (part_Bytes p)" using len by (simp add: part_Hash_def)
    then show ?thesis using sub(2) own(2) unfolding collision_def by metis
  next
    assume "collision E (tree_inputs E ?hs) (proof_inputs E i (length ?hs) (part_Hash E p) (Aunts (part_Proof p)))"
    then show ?thesis using collision_mono sub own len by (metis (no_types, lifting))
  qed
qed

lemma complete_set_reads:
  assumes "ps_wf E s" "IsComplete s" "0 < length (ps_parts s)"
    and "\<And>k p. k < length (ps_parts s) \<Longrightarrow> ps_parts s ! k = Some p \<Longrightarrow> part_Bytes p = f k"
    and "bz = concat (map f [0..<length (ps_parts s)])"
  shows "\<exists>r r'. GetReader s = Inr r \<and> psr_Read r (length bz + 1) = Inr (bz, True, r')"
proof -
  have all: "None \<notin> set (ps_parts s)" using assms(1,2) IsComplete_iff by blast
  then have some: "\<exists>p. ps_parts s ! k = Some p" if "k < length (ps_parts s)" for k
    using that by (metis not_None_eq nth_mem)
  obtain p where p: "ps_parts s ! 0 = Some p" using some assms(3) by blast
  define r where "r = \<lparr>psr_i = 0, psr_parts = ps_parts s, psr_reader = part_Bytes p\<rparr>"
  have g: "GetReader s = Inr r"
    using assms(2,3) p by (simp add: GetReader_def NewPartSetReader_def slice_at_def r_def)
  have "map (\<lambda>slot. part_Bytes (the slot)) (ps_parts s) = map f [0..<length (ps_parts s)]"
    using some assms(4) by (intro nth_equalityI) auto
  moreover obtain xs where "ps_parts s = Some p # xs" using p assms(3) by (cases "ps_parts s") auto
  then have "remaining r = concat (map (\<lambda>slot. part_Bytes (the slot)) (ps_parts s))"
    by (simp add: remaining_def r_def)
  ultimately have "remaining r = bz" by (simp add: assms(5))
  then show ?thesis
    using g psr_Read_spec [of r "length bz + 1"] all by (auto simp: readable_def r_def)
qed

section \<open>Properties\<close>

text \<open>
  C29: whatever sequence of parts (with non-negative indices) is offered to a part set that was
  created from the header of some data, \<open>AddPart\<close> never panics, and if the set becomes
  complete then its reader returns exactly the data, unless the hashed strings contain a
  collision.
\<close>

theorem PartSet_reassembly_sound:
  assumes "length_prefixed (EncodeByteSlice E)" "bz \<noteq> []" "0 < k" "int (n_parts k bz) < MaxInt64"
    and "NewPartSetFromData E bz (int k) = Inr src"
    and "NewPartSetFromHeader (ps_Header (Some src)) = Inr s0"
    and "\<forall>p \<in> set ps. 0 \<le> part_Index p"
  shows "\<exists>s. add_parts E ps s0 = Inr s \<and>
    (IsComplete s \<longrightarrow>
      (\<exists>r r'. GetReader s = Inr r \<and> psr_Read r (length bz + 1) = Inr (bz, True, r')) \<or>
      collision E (own_inputs E k bz) (offered_inputs E (n_parts k bz) ps))"
proof -
  let ?n = "n_parts k bz" and ?C = "collision E (own_inputs E k bz) (offered_inputs E (n_parts k bz) ps)"
  obtain ba where src: "src = data_set E k bz ba"
    using NewPartSetFromData_eq [OF assms(3,2), of E] assms(5) by auto
  have s0: "ps_wf E s0" "ps_total s0 = int ?n" "ps_hash s0 = simpleHashFromHashes E (data_hashes E k bz)"
      "ps_parts s0 = replicate ?n None"
    using NewPartSetFromHeader_wf [OF assms(6), of E] assms(6)
    by (auto simp: src data_set_def ps_Header_def NewPartSetFromHeader_def)
  obtain s where s: "add_parts E ps s0 = Inr s" "ps_wf E s" "ps_total s = int ?n"
      "ps_hash s = simpleHashFromHashes E (data_hashes E k bz)"
    and mem: "\<And>j q. j < ?n \<Longrightarrow> ps_parts s ! j = Some q \<Longrightarrow> q \<in> set ps"
    using add_parts_inv [OF s0(1) assms(7)] s0(2-4) by auto
  have len: "length (ps_parts s) = ?n" using s(2,3) by (simp add: ps_wf_def)
  have bytes: "part_Bytes q = chunk k bz j" if "\<not> ?C" "j < ?n" "ps_parts s ! j = Some q" for j q
  proof -
    have "part_Index q = int j"
      "sp_Verify E (part_Proof q) (int j) (int ?n) (part_Hash E q) (simpleHashFromHashes E (data_hashes E k bz))"
      using s(2-4) that(2,3) len by (auto simp: ps_wf_def)
    then show ?thesis
      using accepted_part_is_original [OF assms(1) that(2) assms(4) mem [OF that(2,3)]] that(1) by blast
  qed
  have "(\<exists>r r'. GetReader s = Inr r \<and> psr_Read r (length bz + 1) = Inr (bz, True, r')) \<or> ?C" if "IsComplete s"
  proof (cases ?C)
    case False
    have "\<exists>r r'. GetReader s = Inr r \<and> psr_Read r (length bz + 1) = Inr (bz, True, r')"
      using bytes [OF False] len n_parts_pos [OF assms(3,2)] concat_all_chunks [OF assms(3), of bz]
      by (intro complete_set_reads [OF s(2) that, where f = "chunk k bz"]) auto
    then show ?thesis ..
  qed simp
  then show ?thesis using s(1) by blast
qed

theorem PartSet_reassembly_sound_witness:
  "\<exists>src s0 s. NewPartSetFromData demo_crypto ''abcd'' (int 2) = Inr src \<and>
    NewPartSetFromHeader (ps_Header (Some src)) = Inr s0 \<and>
    add_parts demo_crypto [\<lparr>part_Index = 1, part_Bytes = ''cd'', part_Proof = \<lparr>Aunts = [''ab'']\<rparr>\<rparr>] s0 = Inr s"
proof -
  obtain src where src: "NewPartSetFromData demo_crypto ''abcd'' (int 2) = Inr src" "ps_total src = 2"
    using NewPartSetFromData_eq [of 2 "''abcd''" demo_crypto] by (auto simp: data_set_def n_parts_def)
  then obtain s0 where s0: "NewPartSetFromHeader (ps_Header (Some src)) = Inr s0"
    by (simp add: NewPartSetFromHeader_def ps_Header_def)
  have "\<exists>s. add_parts demo_crypto [\<lparr>part_Index = 1, part_Bytes = ''cd'', part_Proof = \<lparr>Aunts = [''ab'']\<rparr>\<rparr>] s0 = Inr s \<and>
    (IsComplete s \<longrightarrow>
      (\<exists>r r'. GetReader s = Inr r \<and> psr_Read r (length ''abcd'' + 1) = Inr (''abcd'', True, r')) \<or>
      collision demo_crypto (own_inputs demo_crypto 2 ''abcd'') (offered_inputs demo_crypto (n_parts 2 ''abcd'')
        [\<lparr>part_Index = 1, part_Bytes = ''cd'', part_Proof = \<lparr>Aunts = [''ab'']\<rparr>\<rparr>]))"
    by (rule PartSet_reassembly_sound [OF _ _ _ _ src(1) s0])
      (simp_all add: unary_prefix_length_prefixed n_parts_def int64_defs)
  then show ?thesis using src s0 by blast
qed

text \<open>
  C30: adding the parts of the sender in any order, with any repetitions, as long as each
  occurs, completes the receiver's set, with exactly the sender's parts.
\<close>

theorem PartSet_gossip_completes:
  assumes "bz \<noteq> []" "0 < k" "int (n_parts k bz) < MaxInt64"
    and "NewPartSetFromData E bz (int k) = Inr src"
    and "NewPartSetFromHeader (ps_Header (Some src)) = Inr s0"
    and "Some ` set ps = set (ps_parts src)"
  shows "\<exists>s. add_parts E ps s0 = Inr s \<and> IsComplete s \<and> ps_parts s = ps_parts src"
proof -
  let ?n = "n_parts k bz" and ?root = "simpleHashFromHashes E (data_hashes E k bz)"
  obtain ba where src: "src = data_set E k bz ba"
    using NewPartSetFromData_eq [OF assms(2,1), of E] assms(4) by auto
  have ps: "set ps = data_part E k bz ` {0..<?n}"
    using assms(6) by (auto simp: src data_set_def image_image [symmetric] inj_image_eq_iff)
  have s0: "ps_wf E s0" "ps_total s0 = int ?n" "ps_hash s0 = ?root" "ps_parts s0 = replicate ?n None"
    using NewPartSetFromHeader_wf [OF assms(5), of E] assms(5)
    by (auto simp: src data_set_def ps_Header_def NewPartSetFromHeader_def)
  have pos: "\<forall>p \<in> set ps. 0 \<le> part_Index p" using ps by (auto simp: data_part_def)
  obtain s where s: "add_parts E ps s0 = Inr s" "ps_wf E s" "ps_total s = int ?n"
    and mem: "\<And>j q. j < ?n \<Longrightarrow> ps_parts s ! j = Some q \<Longrightarrow> q \<in> set ps"
    and got: "\<And>p j. p \<in> set ps \<Longrightarrow> part_Index p = int j \<Longrightarrow> j < ?n \<Longrightarrow>
      sp_Verify E (part_Proof p) (int j) (int ?n) (part_Hash E p) ?root \<Longrightarrow> ps_parts s ! j \<noteq> None"
    using add_parts_inv [OF s0(1) pos] s0(2-4) by auto
  have len: "length (ps_parts s) = ?n" using s(2,3) by (simp add: ps_wf_def)
  have at: "ps_parts s ! j = Some (data_part E k bz j)" if j: "j < ?n" for j
  proof -
    have "sp_Verify E (part_Proof (data_part E k bz j)) (int j) (int ?n) (part_Hash E (data_part E k bz j)) ?root"
      using compute_aunts [of j "data_hashes E k bz" E] j assms(3)
      by (simp add: sp_Verify_def data_part_def part_Hash_def data_hashes_def)
    then have "ps_parts s ! j \<noteq> None"
      using ps j by (intro got [of "data_part E k bz j"]) (auto simp: data_part_def)
    then obtain q where q: "ps_parts s ! j = Some q" by blast
    then have "part_Index q = int j" using s(2) j len by (auto simp: ps_wf_def)
    then show ?thesis using mem [OF j q] ps q by (auto simp: data_part_def)
  qed
  then have "ps_parts s = ps_parts src"
    using len by (intro nth_equalityI) (simp_all add: src data_set_def)
  moreover have "IsComplete s" using IsComplete_iff [OF s(2)] at len by (metis in_set_conv_nth option.discI)
  ultimately show ?thesis using s(1) by blast
qed

theorem PartSet_gossip_completes_witness:
  "\<exists>src s0 s. NewPartSetFromData demo_crypto ''abcd'' (int 2) = Inr src \<and>
    NewPartSetFromHeader (ps_Header (Some src)) = Inr s0 \<and>
    add_parts demo_crypto [data_part demo_crypto 2 ''abcd'' 1, data_part demo_crypto 2 ''abcd'' 0,
      data_part demo_crypto 2 ''abcd'' 1] s0 = Inr s \<and> IsComplete s"
proof -
  let ?ps = "[data_part demo_crypto 2 ''abcd'' 1, data_part demo_crypto 2 ''abcd'' 0, data_part demo_crypto 2 ''abcd'' 1]"
  obtain ba where src: "NewPartSetFromData demo_crypto ''abcd'' (int 2) = Inr (data_set demo_crypto 2 ''abcd'' ba)"
    using NewPartSetFromData_eq [of 2 "''abcd''" demo_crypto] by auto
  then obtain s0 where s0: "NewPartSetFromHeader (ps_Header (Some (data_set demo_crypto 2 ''abcd'' ba))) = Inr s0"
    by (simp add: NewPartSetFromHeader_def ps_Header_def data_set_def)
  have "Some ` set ?ps = set (ps_parts (data_set demo_crypto 2 ''abcd'' ba))"
    by (simp add: data_set_def n_parts_def upt_rec insert_commute)
  then have "\<exists>s. add_parts demo_crypto ?ps s0 = Inr s \<and> IsComplete s \<and>
      ps_parts s = ps_parts (data_set demo_crypto 2 ''abcd'' ba)"
    by (intro PartSet_gossip_completes [OF _ _ _ src s0]) (simp_all add: n_parts_def int64_defs)
  then show ?thesis using src s0 by blast
qed

text \<open>
  A part with a negative index passes the guard of \<open>AddPart\<close> and makes the slice access panic.
\<close>

lemma AddPart_negative_index_panics:
  "ps_wf E ps \<Longrightarrow> part_Index p < 0 \<Longrightarrow> AddPart E ps p = Inl IndexOutOfRange"
  by (simp add: AddPart_def slice_at_def ps_wf_def)

end
