(* ===== verification/Votes.thy ===== *)
theory Votes
  imports Validator_Set Part_Set
begin

text \<open>
  \<^verbatim>\<open>types/canonical_json.go\<close>, \<^verbatim>\<open>types/vote.go\<close>, \<^verbatim>\<open>types/proposal.go\<close>,
  \<^verbatim>\<open>types/heartbeat.go\<close>, \<^verbatim>\<open>types/evidence.go\<close>, the block ids and commits of
  \<^verbatim>\<open>types/block.go\<close>, and the two commit verifiers of \<^verbatim>\<open>types/validator_set.go\<close>. A commit is
  accepted exactly when validators holding more than two thirds of the power signed it, and
  two accepted commits share signers holding more than one third.
\<close>

section \<open>Block ids\<close>

definition bid_IsZero :: "block_id \<Rightarrow> bool" where
  "bid_IsZero b \<longleftrightarrow> length (bid_Hash b) = 0 \<and> psh_IsZero (bid_PartsHeader b)"

definition bid_Equals :: "block_id \<Rightarrow> block_id \<Rightarrow> bool" where
  "bid_Equals b other \<longleftrightarrow> bid_Hash b = bid_Hash other \<and> psh_Equals (bid_PartsHeader b) (bid_PartsHeader other)"

definition bid_Key :: "'e ext_scheme \<Rightarrow> block_id \<Rightarrow> bytes" where
  "bid_Key E b = bid_Hash b @ MarshalBinaryBare E (AmPartSetHeader (bid_PartsHeader b))"

definition zero_bid :: block_id where
  "zero_bid = \<lparr>bid_Hash = [], bid_PartsHeader = zero_psh\<rparr>"

section \<open>Canonical JSON and the bytes that are signed\<close>

definition CanonicalTime :: "time \<Rightarrow> int" where
  "CanonicalTime t = t div 1000000"

definition CanonicalBlockID :: "block_id \<Rightarrow> canonical_block_id" where
  "CanonicalBlockID b = \<lparr>cbid_Hash = bid_Hash b, cbid_PartsHash = psh_Hash (bid_PartsHeader b),
     cbid_PartsTotal = psh_Total (bid_PartsHeader b)\<rparr>"

definition CanonicalVote :: "bytes \<Rightarrow> vote \<Rightarrow> canonical_vote" where
  "CanonicalVote chainID v = \<lparr>cv_ChainID = chainID, cv_Type = ''vote'', cv_BlockID = CanonicalBlockID (vote_BlockID v),
     cv_Height = vote_Height v, cv_Round = vote_Round v, cv_Timestamp = CanonicalTime (vote_Timestamp v),
     cv_VoteType = vote_Type v\<rparr>"

definition CanonicalProposal :: "bytes \<Rightarrow> proposal \<Rightarrow> canonical_proposal" where
  "CanonicalProposal chainID p = \<lparr>cpr_ChainID = chainID, cpr_Type = ''proposal'',
     cpr_BlockPartsHash = psh_Hash (BlockPartsHeader p), cpr_BlockPartsTotal = psh_Total (BlockPartsHeader p),
     cpr_Height = prop_Height p, cpr_POLBlockID = CanonicalBlockID (POLBlockID p), cpr_POLRound = POLRound p,
     cpr_Round = prop_Round p, cpr_Timestamp = CanonicalTime (prop_Timestamp p)\<rparr>"

definition CanonicalHeartbeat :: "bytes \<Rightarrow> heartbeat \<Rightarrow> canonical_heartbeat" where
  "CanonicalHeartbeat chainID h = \<lparr>chb_ChainID = chainID, chb_Type = ''heartbeat'', chb_Height = hb_Height h,
     chb_Round = hb_Round h, chb_Sequence = hb_Sequence h, chb_ValidatorAddress = hb_ValidatorAddress h,
     chb_ValidatorIndex = hb_ValidatorIndex h\<rparr>"

definition vote_SignBytes :: "'e ext_scheme \<Rightarrow> bytes \<Rightarrow> vote \<Rightarrow> bytes" where
  "vote_SignBytes E chainID v = MarshalJSON E (JsVote (CanonicalVote chainID v))"

definition prop_SignBytes :: "'e ext_scheme \<Rightarrow> bytes \<Rightarrow> proposal \<Rightarrow> bytes" where
  "prop_SignBytes E chainID p = MarshalJSON E (JsProposal (CanonicalProposal chainID p))"

definition hb_SignBytes :: "'e ext_scheme \<Rightarrow> bytes \<Rightarrow> heartbeat \<Rightarrow> bytes" where
  "hb_SignBytes E chainID h = MarshalJSON E (JsHeartbeat (CanonicalHeartbeat chainID h))"

section \<open>Votes and proposals\<close>

definition VoteTypePrevote :: int where "VoteTypePrevote = 1"
definition VoteTypePrecommit :: int where "VoteTypePrecommit = 2"

definition IsVoteTypeValid :: "int \<Rightarrow> bool" where
  "IsVoteTypeValid t \<longleftrightarrow> t = VoteTypePrevote \<or> t = VoteTypePrecommit"

datatype vote_error =
    ErrVoteUnexpectedStep | ErrVoteInvalidValidatorIndex | ErrVoteInvalidValidatorAddress
  | ErrVoteInvalidSignature | ErrVoteInvalidBlockHash | ErrVoteNonDeterministicSignature
  | ErrVoteNil | ErrVoteConflictingVotes duplicate_vote_evidence

definition NewConflictingVoteError :: "validator \<Rightarrow> vote \<Rightarrow> vote \<Rightarrow> vote_error" where
  "NewConflictingVoteError val voteA voteB =
     ErrVoteConflictingVotes \<lparr>dve_PubKey = v_PubKey val, VoteA = voteA, VoteB = voteB\<rparr>"

definition vote_Verify :: "'e ext_scheme \<Rightarrow> bytes \<Rightarrow> vote \<Rightarrow> pub_key option \<Rightarrow> vote_error option or_panic" where
  "vote_Verify E chainID v pubKey =
     bindP (deref pubKey) (\<lambda>k.
       if pk_Address E k \<noteq> ValidatorAddress v then Inr (Some ErrVoteInvalidValidatorAddress)
       else if \<not> VerifyBytes E k (vote_SignBytes E chainID v) (vote_Signature v) then Inr (Some ErrVoteInvalidSignature)
       else Inr None)"

definition NewProposal :: "time \<Rightarrow> int \<Rightarrow> int \<Rightarrow> part_set_header \<Rightarrow> int \<Rightarrow> block_id \<Rightarrow> proposal" where
  "NewProposal now height round blockPartsHeader polRound polBlockID =
     \<lparr>prop_Height = height, prop_Round = round, prop_Timestamp = now, BlockPartsHeader = blockPartsHeader,
      POLRound = polRound, POLBlockID = polBlockID, prop_Signature = None\<rparr>"

section \<open>Evidence of a double vote\<close>

datatype evidence_error =
    HRSMismatch | AddressMismatch | IndexMismatch | SameBlockID | KeyMismatch | BadSignatureA | BadSignatureB

definition dve_Verify :: "'e ext_scheme \<Rightarrow> bytes \<Rightarrow> duplicate_vote_evidence \<Rightarrow> pub_key \<Rightarrow> evidence_error option" where
  "dve_Verify E chainID dve pubKey =
     (let a = VoteA dve; b = VoteB dve in
      if vote_Height a \<noteq> vote_Height b \<or> vote_Round a \<noteq> vote_Round b \<or> vote_Type a \<noteq> vote_Type b then Some HRSMismatch
      else if ValidatorAddress a \<noteq> ValidatorAddress b then Some AddressMismatch
      else if ValidatorIndex a \<noteq> ValidatorIndex b then Some IndexMismatch
      else if bid_Equals (vote_BlockID a) (vote_BlockID b) then Some SameBlockID
      else if pk_Address E pubKey \<noteq> ValidatorAddress a then Some KeyMismatch
      else if \<not> VerifyBytes E pubKey (vote_SignBytes E chainID a) (vote_Signature a) then Some BadSignatureA
      else if \<not> VerifyBytes E pubKey (vote_SignBytes E chainID b) (vote_Signature b) then Some BadSignatureB
      else None)"

definition dve_Height :: "duplicate_vote_evidence \<Rightarrow> int" where
  "dve_Height dve = vote_Height (VoteA dve)"

definition dve_Address :: "'e ext_scheme \<Rightarrow> duplicate_vote_evidence \<Rightarrow> bytes or_panic" where
  "dve_Address E dve = bindP (deref (dve_PubKey dve)) (\<lambda>k. Inr (pk_Address E k))"

definition dve_Hash :: "'e ext_scheme \<Rightarrow> duplicate_vote_evidence \<Rightarrow> bytes" where
  "dve_Hash E dve = aminoHash E (AmEvidence dve)"

definition dve_Equal :: "'e ext_scheme \<Rightarrow> duplicate_vote_evidence \<Rightarrow> duplicate_vote_evidence \<Rightarrow> bool" where
  "dve_Equal E dve ev \<longleftrightarrow> dve_Hash E dve = dve_Hash E ev"

definition evl_Has :: "'e ext_scheme \<Rightarrow> duplicate_vote_evidence list \<Rightarrow> duplicate_vote_evidence \<Rightarrow> bool" where
  "evl_Has E evl evidence \<longleftrightarrow> list_ex (\<lambda>ev. dve_Equal E ev evidence) evl"

section \<open>Commits\<close>

text \<open>Go's zero time is the first of January of year 1.\<close>

definition zero_time :: time where
  "zero_time = - 62135596800000000000"

definition empty_precommit :: vote where
  "empty_precommit = \<lparr>ValidatorAddress = [], ValidatorIndex = 0, vote_Height = 0, vote_Round = 0,
     vote_Timestamp = zero_time, vote_Type = VoteTypePrecommit, vote_BlockID = zero_bid, vote_Signature = None\<rparr>"

definition FirstPrecommit :: "commit \<Rightarrow> vote option" where
  "FirstPrecommit c =
     (if Precommits c = [] then None
      else case find (\<lambda>p. p \<noteq> None) (Precommits c) of Some (Some v) \<Rightarrow> Some v | _ \<Rightarrow> Some empty_precommit)"

definition commit_Height :: "commit \<Rightarrow> int" where
  "commit_Height c = (case FirstPrecommit c of None \<Rightarrow> 0 | Some v \<Rightarrow> vote_Height v)"

definition commit_Round :: "commit \<Rightarrow> int" where
  "commit_Round c = (case FirstPrecommit c of None \<Rightarrow> 0 | Some v \<Rightarrow> vote_Round v)"

definition commit_Size :: "commit option \<Rightarrow> int" where
  "commit_Size c = (case c of None \<Rightarrow> 0 | Some c \<Rightarrow> int (length (Precommits c)))"

definition set_present :: "nat \<times> vote option \<Rightarrow> bit_array option \<Rightarrow> bit_array option or_panic" where
  "set_present = (\<lambda>(i, p) b. bindP (SetIndex b (int i) (p \<noteq> None)) (\<lambda>(_, b'). Inr b'))"

definition commit_BitArray :: "commit \<Rightarrow> bit_array option or_panic" where
  "commit_BitArray c =
     foldP set_present (enumerate 0 (Precommits c)) (NewBitArray (int (length (Precommits c))))"

definition commit_GetByIndex :: "commit \<Rightarrow> int \<Rightarrow> vote option or_panic" where
  "commit_GetByIndex c index = slice_at (Precommits c) index"

definition commit_IsCommit :: "commit \<Rightarrow> bool" where
  "commit_IsCommit c \<longleftrightarrow> length (Precommits c) \<noteq> 0"

datatype commit_error =
    CommitNilBlock | NoPrecommits | WrongSetSize | WrongHeight | WrongRound | NotPrecommit
  | InvalidCommitSignature | InsufficientPower | InsufficientOldPower | InsufficientCurPower

fun validate_precommits :: "int \<Rightarrow> int \<Rightarrow> vote option list \<Rightarrow> commit_error option" where
  "validate_precommits height round [] = None"
| "validate_precommits height round (None # ps) = validate_precommits height round ps"
| "validate_precommits height round (Some p # ps) =
     (if vote_Type p \<noteq> VoteTypePrecommit then Some NotPrecommit
      else if vote_Height p \<noteq> height then Some WrongHeight
      else if vote_Round p \<noteq> round then Some WrongRound
      else validate_precommits height round ps)"

definition commit_ValidateBasic :: "commit \<Rightarrow> commit_error option" where
  "commit_ValidateBasic c =
     (if bid_IsZero (commit_BlockID c) then Some CommitNilBlock
      else if length (Precommits c) = 0 then Some NoPrecommits
      else validate_precommits (commit_Height c) (commit_Round c) (Precommits c))"

definition commit_Hash :: "'e ext_scheme \<Rightarrow> commit \<Rightarrow> bytes" where
  "commit_Hash E c = SimpleHashFromHashers E (\<lambda>p. aminoHash E (AmVote p)) (Precommits c)"

section \<open>Verifying a commit\<close>

text \<open>
  The loops return the tally, or the error with which the function returns. A nil
  validator or a validator without key is a nil dereference.
\<close>

definition two_thirds :: "int \<Rightarrow> int" where
  "two_thirds tot = go_quot (wrap64 (tot * 2)) 3"

fun tally_commit ::
  "'e ext_scheme \<Rightarrow> bytes \<Rightarrow> validator_set \<Rightarrow> block_id \<Rightarrow> int \<Rightarrow> int \<Rightarrow> nat \<Rightarrow> vote option list \<Rightarrow> int
   \<Rightarrow> (commit_error + int) or_panic" where
  "tally_commit E chainID vs blockID height round idx [] tally = Inr (Inr tally)"
| "tally_commit E chainID vs blockID height round idx (None # ps) tally =
     tally_commit E chainID vs blockID height round (idx + 1) ps tally"
| "tally_commit E chainID vs blockID height round idx (Some p # ps) tally =
     (if vote_Height p \<noteq> height then Inr (Inl WrongHeight)
      else if vote_Round p \<noteq> round then Inr (Inl WrongRound)
      else if vote_Type p \<noteq> VoteTypePrecommit then Inr (Inl NotPrecommit)
      else bindP (deref (snd (GetByIndex vs (int idx)))) (\<lambda>val.
        bindP (deref (v_PubKey val)) (\<lambda>k.
        if \<not> VerifyBytes E k (vote_SignBytes E chainID p) (vote_Signature p) then Inr (Inl InvalidCommitSignature)
        else if \<not> bid_Equals blockID (vote_BlockID p)
        then tally_commit E chainID vs blockID height round (idx + 1) ps tally
        else tally_commit E chainID vs blockID height round (idx + 1) ps (wrap64 (tally + VotingPower val)))))"

definition VerifyCommit ::
  "'e ext_scheme \<Rightarrow> validator_set \<Rightarrow> bytes \<Rightarrow> block_id \<Rightarrow> int \<Rightarrow> commit \<Rightarrow> commit_error option or_panic" where
  "VerifyCommit E vs chainID blockID height c =
     (if vs_Size vs \<noteq> int (length (Precommits c)) then Inr (Some WrongSetSize)
      else if height \<noteq> commit_Height c then Inr (Some WrongHeight)
      else bindP (tally_commit E chainID vs blockID height (commit_Round c) 0 (Precommits c) 0) (\<lambda>r.
        case r of Inl e \<Rightarrow> Inr (Some e)
        | Inr tallied \<Rightarrow>
            if tallied > two_thirds (total_power vs) then Inr None else Inr (Some InsufficientPower)))"

fun tally_any ::
  "'e ext_scheme \<Rightarrow> bytes \<Rightarrow> validator_set \<Rightarrow> validator_set \<Rightarrow> block_id \<Rightarrow> int \<Rightarrow> int \<Rightarrow> nat \<Rightarrow> vote option list
   \<Rightarrow> int set \<Rightarrow> int \<Rightarrow> int \<Rightarrow> (commit_error + int \<times> int) or_panic" where
  "tally_any E chainID vs newSet blockID height round idx [] seen old cur = Inr (Inr (old, cur))"
| "tally_any E chainID vs newSet blockID height round idx (None # ps) seen old cur =
     tally_any E chainID vs newSet blockID height round (idx + 1) ps seen old cur"
| "tally_any E chainID vs newSet blockID height round idx (Some p # ps) seen old cur =
     (if vote_Height p \<noteq> height then Inr (Inl WrongHeight)
      else if vote_Round p \<noteq> round then Inr (Inl WrongRound)
      else if vote_Type p \<noteq> VoteTypePrecommit then Inr (Inl NotPrecommit)
      else if \<not> bid_Equals blockID (vote_BlockID p)
      then tally_any E chainID vs newSet blockID height round (idx + 1) ps seen old cur
      else case GetByAddress vs (ValidatorAddress p) of
        (_, None) \<Rightarrow> tally_any E chainID vs newSet blockID height round (idx + 1) ps seen old cur
      | (vi, Some ov) \<Rightarrow>
          if vi \<in> seen then tally_any E chainID vs newSet blockID height round (idx + 1) ps seen old cur
          else bindP (deref (v_PubKey ov)) (\<lambda>ok.
            if \<not> VerifyBytes E ok (vote_SignBytes E chainID p) (vote_Signature p) then Inr (Inl InvalidCommitSignature)
            else bindP (deref (snd (GetByIndex newSet (int idx)))) (\<lambda>cv.
              bindP (deref (v_PubKey cv)) (\<lambda>ck.
              tally_any E chainID vs newSet blockID height round (idx + 1) ps (insert vi seen)
                (wrap64 (old + VotingPower ov))
                (if pk_Equals ck (Some ok) then wrap64 (cur + VotingPower cv) else cur)))))"

definition VerifyCommitAny ::
  "'e ext_scheme \<Rightarrow> validator_set \<Rightarrow> validator_set \<Rightarrow> bytes \<Rightarrow> block_id \<Rightarrow> int \<Rightarrow> commit \<Rightarrow> commit_error option or_panic" where
  "VerifyCommitAny E vs newSet chainID blockID height c =
     (if vs_Size newSet \<noteq> int (length (Precommits c)) then Inr (Some WrongSetSize)
      else if height \<noteq> commit_Height c then Inr (Some WrongHeight)
      else bindP (tally_any E chainID vs newSet blockID height (commit_Round c) 0 (Precommits c) {} 0 0) (\<lambda>r.
        case r of Inl e \<Rightarrow> Inr (Some e)
        | Inr (old, cur) \<Rightarrow>
            if old \<le> two_thirds (total_power vs) then Inr (Some InsufficientOldPower)
            else if cur \<le> two_thirds (total_power newSet) then Inr (Some InsufficientCurPower)
            else Inr None))"

section \<open>Voting power of a set of validators\<close>

definition voting_power :: "validator list \<Rightarrow> nat set \<Rightarrow> int" where
  "voting_power vals S = (\<Sum>i \<in> S \<inter> {..<length vals}. VotingPower (vals ! i))"

lemma voting_power_empty [simp]: "voting_power vals {} = 0"
  by (simp add: voting_power_def)

lemma voting_power_insert:
  assumes "i < length vals" "i \<notin> S"
  shows "voting_power vals (insert i S) = voting_power vals S + VotingPower (vals ! i)"
proof -
  have "insert i S \<inter> {..<length vals} = insert i (S \<inter> {..<length vals})" using assms(1) by auto
  then show ?thesis using assms by (simp add: voting_power_def)
qed

lemma voting_power_all: "voting_power vals {..<length vals} = (\<Sum>v\<leftarrow>vals. VotingPower v)"
  by (simp add: voting_power_def sum_list_sum_nth atLeast0LessThan)

lemma voting_power_mono:
  assumes "powers_ok vals" "S \<subseteq> T"
  shows "voting_power vals S \<le> voting_power vals T"
  unfolding voting_power_def
proof (rule sum_mono2)
  show "0 \<le> VotingPower (vals ! i)" if "i \<in> T \<inter> {..<length vals} - S \<inter> {..<length vals}" for i
    using assms(1) that by (auto simp: powers_ok_def)
qed (use assms(2) in auto)

lemma voting_power_nonneg: "powers_ok vals \<Longrightarrow> 0 \<le> voting_power vals S"
  using voting_power_mono [of vals "{}" S] by simp

lemma voting_power_le_total:
  assumes "powers_ok vals"
  shows "voting_power vals S \<le> (\<Sum>v\<leftarrow>vals. VotingPower v)"
proof -
  have "voting_power vals S = voting_power vals (S \<inter> {..<length vals})" by (simp add: voting_power_def)
  also have "\<dots> \<le> voting_power vals {..<length vals}" by (rule voting_power_mono [OF assms]) auto
  finally show ?thesis by (simp add: voting_power_all)
qed

lemma voting_power_in64: "powers_ok vals \<Longrightarrow> in64 (voting_power vals S)"
  using voting_power_nonneg [of vals S] voting_power_le_total [of vals S]
  by (simp add: powers_ok_def in64_def int64_defs)

lemma voting_power_inter:
  assumes "powers_ok vals"
  shows "voting_power vals S + voting_power vals T \<le> (\<Sum>v\<leftarrow>vals. VotingPower v) + voting_power vals (S \<inter> T)"
proof -
  let ?L = "{..<length vals}"
  have "voting_power vals S + voting_power vals T = voting_power vals (S \<union> T) + voting_power vals (S \<inter> T)"
    using sum.union_inter [of "S \<inter> ?L" "T \<inter> ?L" "\<lambda>i. VotingPower (vals ! i)"]
    by (simp add: voting_power_def Int_Un_distrib2 [symmetric] Int_ac)
  then show ?thesis using voting_power_le_total [OF assms, of "S \<union> T"] by simp
qed

text \<open>The threshold of the code is two thirds as long as twice the total does not overflow.\<close>

definition quorum_ok :: "validator_set \<Rightarrow> bool" where
  "quorum_ok vs \<longleftrightarrow> powers_ok (Validators vs) \<and> cache_ok vs \<and> 2 * (\<Sum>v\<leftarrow>Validators vs. VotingPower v) \<le> MaxInt64"

lemma quorum_total: "quorum_ok vs \<Longrightarrow> total_power vs = (\<Sum>v\<leftarrow>Validators vs. VotingPower v)"
  by (simp add: quorum_ok_def total_power_eq sum_powers_eq)

lemma two_thirds_less:
  assumes "quorum_ok vs"
  shows "two_thirds (total_power vs) < t \<longleftrightarrow> 2 * total_power vs < 3 * t"
proof -
  have "0 \<le> total_power vs"
    using assms voting_power_nonneg [of "Validators vs" "{..<length (Validators vs)}"]
    by (simp add: quorum_total voting_power_all quorum_ok_def)
  moreover have "in64 (total_power vs * 2)"
    using assms calculation by (simp add: quorum_total quorum_ok_def in64_def int64_defs)
  ultimately show ?thesis by (auto simp: two_thirds_def go_quot_nonneg)
qed

section \<open>What an accepted commit proves\<close>

lemma bid_Equals_iff [simp]: "bid_Equals a b \<longleftrightarrow> a = b"
  by (auto simp: bid_Equals_def psh_Equals_def intro: block_id.equality part_set_header.equality)

definition keyed :: "validator_set \<Rightarrow> bool" where
  "keyed vs \<longleftrightarrow> (\<forall>v \<in> set (Validators vs). v_PubKey v \<noteq> None)"

lemma keyedD: "keyed vs \<Longrightarrow> i < length (Validators vs) \<Longrightarrow> \<exists>k. v_PubKey (Validators vs ! i) = Some k"
  unfolding keyed_def using nth_mem by blast

definition signed_by :: "'e ext_scheme \<Rightarrow> bytes \<Rightarrow> validator \<Rightarrow> vote \<Rightarrow> bool" where
  "signed_by E chainID val v \<longleftrightarrow>
     (\<exists>k. v_PubKey val = Some k \<and> VerifyBytes E k (vote_SignBytes E chainID v) (vote_Signature v))"

text \<open>A precommit of the commit's step that the validator of its position signed.\<close>

definition good_precommit :: "'e ext_scheme \<Rightarrow> bytes \<Rightarrow> validator_set \<Rightarrow> int \<Rightarrow> int \<Rightarrow> nat \<Rightarrow> vote \<Rightarrow> bool" where
  "good_precommit E chainID vs height round i p \<longleftrightarrow>
     vote_Height p = height \<and> vote_Round p = round \<and> vote_Type p = VoteTypePrecommit \<and>
     signed_by E chainID (Validators vs ! i) p"

definition all_good :: "'e ext_scheme \<Rightarrow> bytes \<Rightarrow> validator_set \<Rightarrow> int \<Rightarrow> int \<Rightarrow> vote option list \<Rightarrow> nat \<Rightarrow> bool" where
  "all_good E chainID vs height round ps idx \<longleftrightarrow>
     (\<forall>i p. idx \<le> i \<longrightarrow> i < length ps \<longrightarrow> ps ! i = Some p \<longrightarrow> good_precommit E chainID vs height round i p)"

definition voters_for :: "block_id \<Rightarrow> vote option list \<Rightarrow> nat set" where
  "voters_for b ps = {i. i < length ps \<and> (\<exists>p. ps ! i = Some p \<and> vote_BlockID p = b)}"

lemma tally_commit_spec:
  assumes "powers_ok (Validators vs)" "length ps = length (Validators vs)" "idx \<le> length ps"
  shows "(all_good E chainID vs height round ps idx \<longrightarrow>
      tally_commit E chainID vs b height round idx (drop idx ps) (voting_power (Validators vs) (voters_for b ps \<inter> {..<idx})) =
        Inr (Inr (voting_power (Validators vs) (voters_for b ps)))) \<and>
    (keyed vs \<longrightarrow> \<not> all_good E chainID vs height round ps idx \<longrightarrow>
      (\<exists>e. tally_commit E chainID vs b height round idx (drop idx ps) (voting_power (Validators vs) (voters_for b ps \<inter> {..<idx})) =
        Inr (Inl e)))"
  using assms(3)
proof (induction rule: inc_induct)
  case base
  have "voters_for b ps \<inter> {..<length ps} = voters_for b ps" by (auto simp: voters_for_def)
  then show ?case by (simp add: all_good_def)
next
  case (step n)
  let ?vals = "Validators vs" and ?S = "voters_for b ps"
  have n: "n < length ?vals" using step assms(2) by simp
  have d: "drop n ps = ps ! n # drop (Suc n) ps" using step by (simp add: Cons_nth_drop_Suc)
  have good: "all_good E chainID vs height round ps n \<longleftrightarrow>
      (\<forall>p. ps ! n = Some p \<longrightarrow> good_precommit E chainID vs height round n p) \<and> all_good E chainID vs height round ps (Suc n)"
    using step(2) unfolding all_good_def by (metis Suc_leD le_neq_implies_less Suc_leI order_refl)
  have out: "?S \<inter> {..<Suc n} = (if n \<in> ?S then insert n (?S \<inter> {..<n}) else ?S \<inter> {..<n})"
    by (auto simp: less_Suc_eq)
  show ?case
  proof (cases "ps ! n")
    case None
    then have "?S \<inter> {..<Suc n} = ?S \<inter> {..<n}" unfolding out by (simp add: voters_for_def)
    then show ?thesis using step.IH None good by (simp add: d)
  next
    case (Some p)
    have get: "snd (GetByIndex vs (int n)) = Some (?vals ! n)" using n by (simp add: GetByIndex_def Let_def)
    have mem: "n \<in> ?S \<longleftrightarrow> vote_BlockID p = b" using step(2) Some by (auto simp: voters_for_def)
    have w: "wrap64 (voting_power ?vals (?S \<inter> {..<n}) + VotingPower (?vals ! n)) = voting_power ?vals (insert n (?S \<inter> {..<n}))"
      using wrap64_id [OF voting_power_in64 [OF assms(1), of "insert n (?S \<inter> {..<n})"]] n by (simp add: voting_power_insert)
    show ?thesis
    proof (cases "good_precommit E chainID vs height round n p")
      case True
      then have "tally_commit E chainID vs b height round n (drop n ps) (voting_power ?vals (?S \<inter> {..<n})) =
          tally_commit E chainID vs b height round (Suc n) (drop (Suc n) ps) (voting_power ?vals (?S \<inter> {..<Suc n}))"
        using get mem w unfolding out
        by (cases "vote_BlockID p = b") (auto simp: d Some good_precommit_def signed_by_def)
      then show ?thesis using step.IH good True Some by simp
    next
      case False
      then have "keyed vs \<longrightarrow> (\<exists>e. tally_commit E chainID vs b height round n (drop n ps) (voting_power ?vals (?S \<inter> {..<n})) = Inr (Inl e))"
        using keyedD [of vs n, OF _ n] get
        by (cases "v_PubKey (?vals ! n)") (auto simp: d Some good_precommit_def signed_by_def simp del: tally_commit.simps(1,2))
      then show ?thesis using False good Some by blast
    qed
  qed
qed

definition commit_signers :: "'e ext_scheme \<Rightarrow> bytes \<Rightarrow> validator_set \<Rightarrow> block_id \<Rightarrow> int \<Rightarrow> commit \<Rightarrow> nat set" where
  "commit_signers E chainID vs b height c =
     {i. i < length (Precommits c) \<and> (\<exists>p. Precommits c ! i = Some p \<and> vote_BlockID p = b \<and>
        good_precommit E chainID vs height (commit_Round c) i p)}"

lemma VerifyCommit_good:
  assumes "quorum_ok vs" "length (Precommits c) = length (Validators vs)" "commit_Height c = height"
    and g: "all_good E chainID vs height (commit_Round c) (Precommits c) 0"
  shows "VerifyCommit E vs chainID b height c =
    Inr (if 2 * total_power vs < 3 * voting_power (Validators vs) (commit_signers E chainID vs b height c) then None else Some InsufficientPower)"
proof -
  have S: "commit_signers E chainID vs b height c = voters_for b (Precommits c)"
    using g by (auto simp: commit_signers_def voters_for_def all_good_def)
  have P: "powers_ok (Validators vs)" using assms(1) by (simp add: quorum_ok_def)
  have "tally_commit E chainID vs b height (commit_Round c) 0 (Precommits c) 0 =
      Inr (Inr (voting_power (Validators vs) (commit_signers E chainID vs b height c)))"
    using tally_commit_spec [OF P assms(2), of 0 E chainID height "commit_Round c" b] g by (simp add: S)
  then show ?thesis using assms(2,3) two_thirds_less [OF assms(1)] by (simp add: VerifyCommit_def vs_Size_def)
qed

lemma VerifyCommit_cases:
  assumes "keyed vs" "quorum_ok vs"
  shows "VerifyCommit E vs chainID b height c = Inr None \<longleftrightarrow>
    length (Precommits c) = length (Validators vs) \<and> commit_Height c = height \<and>
    all_good E chainID vs height (commit_Round c) (Precommits c) 0 \<and>
    2 * total_power vs < 3 * voting_power (Validators vs) (commit_signers E chainID vs b height c)" (is ?A)
    and "\<exists>e. VerifyCommit E vs chainID b height c = Inr e" (is ?B)
proof -
  let ?g = "all_good E chainID vs height (commit_Round c) (Precommits c) 0"
  have P: "powers_ok (Validators vs)" using assms(2) by (simp add: quorum_ok_def)
  note T = tally_commit_spec [OF P, of "Precommits c" 0 E chainID height "commit_Round c" b, simplified] assms(1)
  show ?A
  proof (cases "length (Precommits c) = length (Validators vs) \<and> height = commit_Height c \<and> ?g")
    case True
    then have l: "length (Precommits c) = length (Validators vs)" and h: "commit_Height c = height" and g: ?g by blast+
    show ?thesis unfolding VerifyCommit_good [OF assms(2) l h g] using l h g by simp
  next
    case False
    then show ?thesis using T by (auto simp: VerifyCommit_def vs_Size_def)
  qed
  show ?B
    using T by (cases ?g) (auto simp: VerifyCommit_def vs_Size_def)
qed

text \<open>\<open>VerifyCommitAny\<close>: the validators of the known set, and of the new set, it counts.\<close>

definition step_ok :: "int \<Rightarrow> int \<Rightarrow> block_id \<Rightarrow> vote \<Rightarrow> bool" where
  "step_ok height round b p \<longleftrightarrow>
     vote_Height p = height \<and> vote_Round p = round \<and> vote_Type p = VoteTypePrecommit \<and> vote_BlockID p = b"

definition old_signers :: "'e ext_scheme \<Rightarrow> bytes \<Rightarrow> validator_set \<Rightarrow> block_id \<Rightarrow> int \<Rightarrow> commit \<Rightarrow> nat set" where
  "old_signers E chainID vs b height c =
     {j. j < length (Validators vs) \<and> (\<exists>p. Some p \<in> set (Precommits c) \<and> step_ok height (commit_Round c) b p \<and>
        ValidatorAddress p = v_Address (Validators vs ! j) \<and> signed_by E chainID (Validators vs ! j) p)}"

definition new_signers :: "'e ext_scheme \<Rightarrow> bytes \<Rightarrow> validator_set \<Rightarrow> validator_set \<Rightarrow> block_id \<Rightarrow> int \<Rightarrow> commit \<Rightarrow> nat set" where
  "new_signers E chainID vs newSet b height c =
     {i. i < length (Precommits c) \<and> (\<exists>p j. Precommits c ! i = Some p \<and> step_ok height (commit_Round c) b p \<and>
        signed_by E chainID (Validators newSet ! i) p \<and> j < length (Validators vs) \<and>
        v_Address (Validators vs ! j) = ValidatorAddress p \<and>
        v_PubKey (Validators newSet ! i) = v_PubKey (Validators vs ! j))}"

lemma tally_any_sound:
  assumes P: "powers_ok (Validators vs)" "powers_ok (Validators newSet)"
    and len: "length (Precommits c) = length (Validators newSet)"
  shows "idx \<le> length (Precommits c) \<Longrightarrow>
    tally_any E chainID vs newSet b height (commit_Round c) idx (drop idx (Precommits c)) (int ` J)
      (voting_power (Validators vs) J) (voting_power (Validators newSet) K) = Inr (Inr (old, cur)) \<Longrightarrow>
    J \<subseteq> old_signers E chainID vs b height c \<Longrightarrow> K \<subseteq> new_signers E chainID vs newSet b height c \<inter> {..<idx} \<Longrightarrow>
    \<exists>J' K'. old = voting_power (Validators vs) J' \<and> J' \<subseteq> old_signers E chainID vs b height c \<and>
      cur = voting_power (Validators newSet) K' \<and> K' \<subseteq> new_signers E chainID vs newSet b height c"
proof (induction "length (Precommits c) - idx" arbitrary: idx J K)
  case 0
  then show ?case by auto
next
  case (Suc n)
  let ?ps = "Precommits c" and ?os = "old_signers E chainID vs b height c" and ?ns = "new_signers E chainID vs newSet b height c"
  have i: "idx < length ?ps" "n = length ?ps - Suc idx" "Suc idx \<le> length ?ps" using Suc.hyps(2) by auto
  have d: "drop idx ?ps = ?ps ! idx # drop (Suc idx) ?ps" using i by (simp add: Cons_nth_drop_Suc)
  have K: "K \<subseteq> ?ns \<inter> {..<Suc idx}" "idx \<notin> K" using Suc.prems(4) by auto
  note skip = Suc.hyps(1) [OF i(2,3) _ Suc.prems(3) K(1)]
  show ?case
  proof (cases "?ps ! idx")
    case None
    then show ?thesis using skip Suc.prems(2) by (simp add: d)
  next
    case (Some p)
    obtain vi ov where g: "GetByAddress vs (ValidatorAddress p) = (vi, ov)" by fastforce
    have st: "vote_Height p = height" "vote_Round p = commit_Round c" "vote_Type p = VoteTypePrecommit"
      using Suc.prems(2) by (simp_all add: d Some split: if_splits)
    show ?thesis
    proof (cases "vote_BlockID p \<noteq> b \<or> ov = None \<or> vi \<in> int ` J")
      case True
      then show ?thesis using skip Suc.prems(2) st g by (cases ov) (auto simp: d Some split: if_splits)
    next
      case False
      then obtain v where v: "ov = Some v" "vote_BlockID p = b" "vi \<notin> int ` J" by auto
      obtain j where j: "vi = int j" "j < length (Validators vs)" "Validators vs ! j = v" "v_Address v = ValidatorAddress p"
        using GetByAddress_Some g v(1) by blast
      let ?w = "Validators newSet ! idx"
      have get: "snd (GetByIndex newSet (int idx)) = Some ?w" using i len by (simp add: GetByIndex_def Let_def)
      obtain k ck where k: "v_PubKey v = Some k" "v_PubKey ?w = Some ck"
          "VerifyBytes E k (vote_SignBytes E chainID p) (vote_Signature p)"
        using Suc.prems(2) st v g get by (auto simp: d Some bindP_eq_Inr split: if_splits)
      have jJ: "j \<notin> J" using v(3) j(1) by blast
      define K' where "K' = (if ck = k then insert idx K else K)"
      have w: "wrap64 (voting_power (Validators vs) J + VotingPower v) = voting_power (Validators vs) (insert j J)"
          "(if ck = k then wrap64 (voting_power (Validators newSet) K + VotingPower ?w) else voting_power (Validators newSet) K) =
             voting_power (Validators newSet) K'"
        using wrap64_id [OF voting_power_in64 [OF P(1), of "insert j J"]] wrap64_id [OF voting_power_in64 [OF P(2), of "insert idx K"]]
          jJ j i K len by (simp_all add: voting_power_insert K'_def)
      have run: "tally_any E chainID vs newSet b height (commit_Round c) (Suc idx) (drop (Suc idx) ?ps) (int ` insert j J)
          (voting_power (Validators vs) (insert j J)) (voting_power (Validators newSet) K') = Inr (Inr (old, cur))"
        using Suc.prems(2) st v g get k w by (simp add: d Some j(1) eq_commute [of k])
      have "Some p \<in> set ?ps" using i(1) Some nth_mem by metis
      then have J': "insert j J \<subseteq> ?os"
        using Suc.prems(3) j k st v by (auto simp: old_signers_def step_ok_def signed_by_def)
      have "K' \<subseteq> ?ns \<inter> {..<Suc idx}"
      proof (cases "ck = k")
        case True
        have "idx \<in> ?ns" unfolding new_signers_def
          using i(1) Some st v(2) k j True by (auto simp: step_ok_def signed_by_def)
        then show ?thesis using K True by (simp add: K'_def)
      qed (use K in \<open>simp add: K'_def\<close>)
      from Suc.hyps(1) [OF i(2,3) run J' this] show ?thesis .
    qed
  qed
qed

section \<open>Properties\<close>

text \<open>
  C4: \<open>VerifyCommit\<close> never panics on a set whose validators have keys, and accepts a commit
  exactly when it has one slot per validator, is for the height, every precommit in it is of
  its step and signed by the validator of its slot, and those for the block id hold more than
  two thirds of the total power.
\<close>

theorem VerifyCommit_iff_two_thirds:
  assumes "keyed vs" "quorum_ok vs"
  shows "(\<exists>e. VerifyCommit E vs chainID b height c = Inr e) \<and>
    (VerifyCommit E vs chainID b height c = Inr None \<longleftrightarrow>
      length (Precommits c) = length (Validators vs) \<and> commit_Height c = height \<and>
      all_good E chainID vs height (commit_Round c) (Precommits c) 0 \<and>
      2 * (\<Sum>v\<leftarrow>Validators vs. VotingPower v) < 3 * voting_power (Validators vs) (commit_signers E chainID vs b height c))"
  unfolding quorum_total [OF assms(2), symmetric]
  by (intro conjI VerifyCommit_cases [OF assms])

definition demo_ext :: ext where
  "demo_ext = \<lparr>sha256 = (\<lambda>b. b), ripemd160 = (\<lambda>b. b), ed25519_Verify = (\<lambda>k m s. s = k @ m),
     secp256k1_ParsePubKey = Some, secp256k1_ParseDERSignature = Some,
     secp256k1_Verify = (\<lambda>s m k. s = k @ m), EncodeByteSlice = unary_prefix,
     MarshalBinaryBare = (\<lambda>i. case i of AmPartSetHeader h \<Rightarrow> (if h = zero_psh then [] else unary_prefix (psh_Hash h) @ show_int (psh_Total h)) | _ \<Rightarrow> ''x''),
     MarshalBinary = (\<lambda>i. ''x''), UnmarshalBinaryBare = (\<lambda>t b. None), UnmarshalBinary = (\<lambda>t b. None),
     UnmarshalBinaryReader = (\<lambda>t n b. None),
     MarshalJSON = (\<lambda>j. case j of JsVote v \<Rightarrow> cbid_Hash (cv_BlockID v) | _ \<Rightarrow> ''y''),
     UnmarshalJSON_vote = (\<lambda>b. None), UnmarshalJSON_proposal = (\<lambda>b. None)\<rparr>"

lemma demo_ext_simps [simp]:
  "ed25519_Verify demo_ext = (\<lambda>k m s. s = k @ m)"
  "MarshalJSON demo_ext (JsVote v) = cbid_Hash (cv_BlockID v)"
  "sha256 demo_ext = (\<lambda>b. b)"
  "MarshalBinaryBare demo_ext (AmPartSetHeader h) = (if h = zero_psh then [] else unary_prefix (psh_Hash h) @ show_int (psh_Total h))"
  by (simp_all add: demo_ext_def)

definition demo_validator :: "string \<Rightarrow> int \<Rightarrow> validator" where
  "demo_validator a p = \<lparr>v_Address = a, v_PubKey = Some (PubKeyEd25519 a), VotingPower = p, Accum = 0\<rparr>"

definition demo_validators :: validator_set where
  "demo_validators = \<lparr>Validators = [demo_validator ''a'' 3, demo_validator ''b'' 1, demo_validator ''c'' 1], Proposer = None, totalVotingPower = 0\<rparr>"

definition demo_bid :: "string \<Rightarrow> block_id" where
  "demo_bid h = \<lparr>bid_Hash = h, bid_PartsHeader = \<lparr>psh_Total = 1, psh_Hash = h\<rparr>\<rparr>"

definition demo_vote :: "int \<Rightarrow> string \<Rightarrow> string \<Rightarrow> vote" where
  "demo_vote i a h = \<lparr>ValidatorAddress = a, ValidatorIndex = i, vote_Height = 1, vote_Round = 0, vote_Timestamp = 0,
     vote_Type = 2, vote_BlockID = demo_bid h, vote_Signature = Some (SignatureEd25519 (a @ h))\<rparr>"

definition demo_commit :: "string \<Rightarrow> commit" where
  "demo_commit h = \<lparr>commit_BlockID = demo_bid h, Precommits = [Some (demo_vote 0 ''a'' h), Some (demo_vote 1 ''b'' h), None]\<rparr>"

lemmas demo_commit_defs = demo_validators_def demo_validator_def demo_bid_def demo_vote_def demo_commit_def

lemma demo_set_ok: "keyed demo_validators" "quorum_ok demo_validators"
  by (simp_all add: demo_commit_defs keyed_def quorum_ok_def powers_ok_def cache_ok_def int64_defs)

lemma demo_total: "total_power demo_validators = 5"
  by (simp add: quorum_total [OF demo_set_ok(2)]) (simp add: demo_commit_defs)

lemma demo_commit_step:
  "commit_Height (demo_commit h) = 1" "commit_Round (demo_commit h) = 0"
  by (simp_all add: demo_commit_defs commit_Height_def commit_Round_def FirstPrecommit_def)

lemma demo_commit_accepted: "VerifyCommit demo_ext demo_validators ''chain'' (demo_bid h) 1 (demo_commit h) = Inr None"
  unfolding VerifyCommit_def demo_commit_step demo_total
  by (simp add: demo_commit_defs vs_Size_def GetByIndex_def VoteTypePrecommit_def vote_SignBytes_def
      CanonicalVote_def CanonicalBlockID_def wrap64_def two_thirds_def go_quot_def)

theorem VerifyCommit_iff_two_thirds_witness:
  "10 < 3 * voting_power (Validators demo_validators) (commit_signers demo_ext ''chain'' demo_validators (demo_bid ''h'') 1 (demo_commit ''h''))"
proof -
  have "(\<Sum>v\<leftarrow>Validators demo_validators. VotingPower v) = 5" by (simp add: demo_commit_defs)
  with VerifyCommit_iff_two_thirds [OF demo_set_ok, of demo_ext "''chain''" "demo_bid ''h''" 1 "demo_commit ''h''"]
  show ?thesis by (simp add: demo_commit_accepted)
qed

text \<open>
  C5: quorum intersection. If commits for two block ids at one height are accepted by the same
  set, the validators whose valid precommits are in both hold more than a third of the power.
\<close>

theorem VerifyCommit_quorums_intersect:
  assumes "keyed vs" "quorum_ok vs"
    and "VerifyCommit E vs chainID b height c = Inr None" "VerifyCommit E vs chainID b' height c' = Inr None"
  shows "(\<Sum>v\<leftarrow>Validators vs. VotingPower v) <
    3 * voting_power (Validators vs) (commit_signers E chainID vs b height c \<inter> commit_signers E chainID vs b' height c')"
proof -
  have "powers_ok (Validators vs)" using assms(2) by (simp add: quorum_ok_def)
  then have "voting_power (Validators vs) (commit_signers E chainID vs b height c) +
      voting_power (Validators vs) (commit_signers E chainID vs b' height c') \<le> (\<Sum>v\<leftarrow>Validators vs. VotingPower v) +
      voting_power (Validators vs) (commit_signers E chainID vs b height c \<inter> commit_signers E chainID vs b' height c')"
    by (rule voting_power_inter)
  moreover have "2 * total_power vs < 3 * voting_power (Validators vs) (commit_signers E chainID vs b height c)"
      "2 * total_power vs < 3 * voting_power (Validators vs) (commit_signers E chainID vs b' height c')"
    using assms(3,4) VerifyCommit_cases(1) [OF assms(1,2)] by blast+
  ultimately show ?thesis using quorum_total [OF assms(2)] by linarith
qed

theorem VerifyCommit_quorums_intersect_witness:
  "5 < 3 * voting_power (Validators demo_validators)
     (commit_signers demo_ext ''chain'' demo_validators (demo_bid ''h'') 1 (demo_commit ''h'') \<inter>
      commit_signers demo_ext ''chain'' demo_validators (demo_bid ''k'') 1 (demo_commit ''k''))"
proof -
  have "(\<Sum>v\<leftarrow>Validators demo_validators. VotingPower v) = 5" by (simp add: demo_commit_defs)
  with VerifyCommit_quorums_intersect [OF demo_set_ok demo_commit_accepted demo_commit_accepted, of "''h''" "''k''"]
  show ?thesis by simp
qed

text \<open>
  C20: what \<open>VerifyCommitAny\<close> proves to a light client that knows an older set: validators holding
  more than two thirds of the old power, found by address, signed precommits for the block, and
  validators with the same keys hold more than two thirds of the new power.
\<close>

theorem VerifyCommitAny_sound:
  assumes "quorum_ok vs" "quorum_ok newSet" "VerifyCommitAny E vs newSet chainID b height c = Inr None"
  shows "2 * (\<Sum>v\<leftarrow>Validators vs. VotingPower v) < 3 * voting_power (Validators vs) (old_signers E chainID vs b height c) \<and>
    2 * (\<Sum>v\<leftarrow>Validators newSet. VotingPower v) < 3 * voting_power (Validators newSet) (new_signers E chainID vs newSet b height c)"
proof -
  have P: "powers_ok (Validators vs)" "powers_ok (Validators newSet)" using assms(1,2) by (simp_all add: quorum_ok_def)
  obtain old cur where r: "tally_any E chainID vs newSet b height (commit_Round c) 0 (Precommits c) {} 0 0 = Inr (Inr (old, cur))"
      "two_thirds (total_power vs) < old" "two_thirds (total_power newSet) < cur" "length (Precommits c) = length (Validators newSet)"
    using assms(3)
    by (cases "tally_any E chainID vs newSet b height (commit_Round c) 0 (Precommits c) {} 0 0")
      (auto simp: VerifyCommitAny_def vs_Size_def split: if_splits sum.splits)
  obtain J K where "old = voting_power (Validators vs) J" "J \<subseteq> old_signers E chainID vs b height c"
      "cur = voting_power (Validators newSet) K" "K \<subseteq> new_signers E chainID vs newSet b height c"
    using tally_any_sound [OF P r(4), of 0 E chainID b height "{}" "{}" old cur] r(1) by auto
  then have "old \<le> voting_power (Validators vs) (old_signers E chainID vs b height c)"
      "cur \<le> voting_power (Validators newSet) (new_signers E chainID vs newSet b height c)"
    using voting_power_mono P by simp_all
  then show ?thesis
    using r(2,3) unfolding two_thirds_less [OF assms(1)] two_thirds_less [OF assms(2)]
      quorum_total [OF assms(1), symmetric] quorum_total [OF assms(2), symmetric] by linarith
qed

lemma demo_lookup:
  "GetByAddress demo_validators ''a'' = (0, Some (demo_validator ''a'' 3))"
  "GetByAddress demo_validators ''b'' = (1, Some (demo_validator ''b'' 1))"
proof -
  have "sorted_vals (Validators demo_validators)" by (simp add: demo_commit_defs sorted_vals_def)
  note G = GetByAddress_hit [OF this, of 0] GetByAddress_hit [OF this, of 1]
  show "GetByAddress demo_validators ''a'' = (0, Some (demo_validator ''a'' 3))"
    using G(1) by (simp add: demo_validators_def demo_validator_def)
  show "GetByAddress demo_validators ''b'' = (1, Some (demo_validator ''b'' 1))"
    using G(2) by (simp add: demo_validators_def demo_validator_def)
qed

theorem VerifyCommitAny_sound_witness:
  "10 < 3 * voting_power (Validators demo_validators) (old_signers demo_ext ''chain'' demo_validators (demo_bid ''h'') 1 (demo_commit ''h''))"
proof -
  have "snd (GetByIndex demo_validators 0) = Some (demo_validator ''a'' 3)" "snd (GetByIndex demo_validators 1) = Some (demo_validator ''b'' 1)"
      "vs_Size demo_validators = 3"
    by (simp_all add: demo_validators_def GetByIndex_def vs_Size_def Let_def)
  then have "VerifyCommitAny demo_ext demo_validators demo_validators ''chain'' (demo_bid ''h'') 1 (demo_commit ''h'') = Inr None"
    unfolding VerifyCommitAny_def demo_commit_step demo_total
    by (simp add: demo_commit_def demo_vote_def demo_bid_def demo_lookup VoteTypePrecommit_def vote_SignBytes_def
        demo_validator_def CanonicalVote_def CanonicalBlockID_def wrap64_def two_thirds_def go_quot_def)
  from VerifyCommitAny_sound [OF demo_set_ok(2) demo_set_ok(2) this] show ?thesis
    by (simp add: demo_validators_def demo_validator_def)
qed

end
