(* ===== verification/Dmc_Tx.thy ===== *)
theory Dmc_Tx
  imports Votes
begin

text \<open>
  \<^verbatim>\<open>abci/app/dmccoin/tx.go\<close>: the transactions of the coin application and their stateless checks,
  with the account data of \<^verbatim>\<open>account.go\<close>. Amounts are \<open>uint64\<close> and kept as 64-bit words. The codecs
  (go-wire, the JSON decoder applied to a transaction or an account) extend the environment; a JSON
  error is ignored by every caller, so decoding returns the struct it leaves behind; go-wire returns an
  error, or a transaction, which may be nil.
\<close>

section \<open>Data\<close>

record tx_input =
  in_Address :: bytes
  in_Coins :: "64 word"
  in_Sequence :: int
  in_Signature :: "signature option"
  in_PubKey :: "pub_key option"

record tx_output =
  out_Address :: bytes
  out_Coins :: "64 word"

record tx_utxo =
  utxo_Address :: bytes
  utxo_Balance :: "64 word"

record dmc_tx =
  dtx_Fee :: "64 word"
  dtx_Input :: tx_input
  dtx_Output :: tx_output

record app_tx =
  atx_Gas :: int
  atx_Fee :: "64 word"
  atx_Name :: bytes
  atx_Input :: tx_input
  atx_Data :: bytes

datatype coin_tx = TxUTXO tx_utxo | AppTx app_tx | DMCTx dmc_tx

record account =
  acc_PubKey :: "pub_key option"
  acc_Height :: int
  acc_Balance :: "64 word"
  acc_Address :: bytes

text \<open>
  \<open>data_String\<close> is the text of a \<open>data.Bytes\<close>, which go-wire defines. The verbs \<open>%s\<close> and \<open>%x\<close> of \<open>fmt\<close> format a
  value with a \<open>String\<close> method as that text.
\<close>

record dmc_ext = ext +
  pk_Bytes :: "pub_key \<Rightarrow> bytes"
  wire_BinaryBytes :: "coin_tx \<Rightarrow> bytes"
  wire_BinaryRipemd160 :: "bytes \<Rightarrow> bytes"
  wire_ReadTx :: "bytes \<Rightarrow> coin_tx option option"
  wire_JSONAccount :: "account \<Rightarrow> bytes"
  json_Account :: "bytes \<Rightarrow> account"
  json_TxUTXO :: "bytes \<Rightarrow> tx_utxo"
  json_DMCTx :: "bytes \<Rightarrow> dmc_tx"
  json_MarshalTxUTXO :: "tx_utxo \<Rightarrow> bytes"
  data_String :: "bytes \<Rightarrow> bytes"

section \<open>Inputs and outputs\<close>

definition in_ValidateBasic :: "'e dmc_ext_scheme \<Rightarrow> tx_input \<Rightarrow> int or_panic" where
  "in_ValidateBasic E txIn =
     (if length (in_Address txIn) \<noteq> 64 then Inr 0
      else if in_Coins txIn > 100 \<or> in_Coins txIn < 0 then Inr 0
      else if in_Coins txIn = 0 then Inr 0
      else if in_Sequence txIn \<le> 0 then Inr 0
      else bindP (deref (in_PubKey txIn)) (\<lambda>k.
        if in_Sequence txIn = 1 \<and> length (pk_Bytes E k) = 0 then Inr 0
        else if in_Sequence txIn > 1 \<and> length (pk_Bytes E k) > 0 then Inr 0
        else Inr 1))"

definition NewTxInput :: "'e dmc_ext_scheme \<Rightarrow> pub_key \<Rightarrow> 64 word \<Rightarrow> int \<Rightarrow> tx_input" where
  "NewTxInput E pubKey coins sequence =
     \<lparr>in_Address = pk_Address E pubKey, in_Coins = coins, in_Sequence = sequence, in_Signature = None,
      in_PubKey = (if sequence = 1 then Some pubKey else None)\<rparr>"

text \<open>\<^verbatim>\<open>bytes.SplitN(s, "/", 2)\<close>.\<close>

definition SplitN_slash :: "bytes \<Rightarrow> bytes list" where
  "SplitN_slash s =
     (if CHR ''/'' \<in> set s
      then [takeWhile (\<lambda>c. c \<noteq> CHR ''/'') s, tl (dropWhile (\<lambda>c. c \<noteq> CHR ''/'') s)] else [s])"

definition ChainAndAddress :: "tx_output \<Rightarrow> bytes option \<times> bytes \<times> int" where
  "ChainAndAddress txOut =
     (let spl = SplitN_slash (out_Address txOut) in
      if 20 < length (out_Address txOut) \<and> length spl \<noteq> 2 then (None, [], 0)
      else
        let (chainPrefix, address) =
          (if 20 < length (out_Address txOut) then (Some (spl ! 0), spl ! 1) else (None, out_Address txOut)) in
        if length address \<noteq> 20 then (None, [], 0) else (chainPrefix, address, 1))"

definition out_ValidateBasic :: "tx_output \<Rightarrow> int" where
  "out_ValidateBasic txOut =
     (let (_, _, r) = ChainAndAddress txOut in
      if r = 0 then r
      else if out_Coins txOut > 100 then 0
      else if out_Coins txOut = 0 then 0
      else 1)"

section \<open>Sign bytes and ids\<close>

text \<open>\<open>DMCTx\<close> blanks the signature before encoding; \<open>AppTx\<close> keeps it; \<open>TxUTXO\<close> signs nothing.\<close>

fun tx_SignBytes :: "'e dmc_ext_scheme \<Rightarrow> coin_tx \<Rightarrow> bytes" where
  "tx_SignBytes E (TxUTXO t) = []"
| "tx_SignBytes E (DMCTx t) = wire_BinaryBytes E (DMCTx (t\<lparr>dtx_Input := (dtx_Input t)\<lparr>in_Signature := None\<rparr>\<rparr>))"
| "tx_SignBytes E (AppTx t) = wire_BinaryBytes E (AppTx t)"

definition dtx_SetSignature :: "dmc_tx \<Rightarrow> bytes \<Rightarrow> signature \<Rightarrow> bool \<times> dmc_tx" where
  "dtx_SetSignature t addr sig =
     (if in_Address (dtx_Input t) = addr then (True, t\<lparr>dtx_Input := (dtx_Input t)\<lparr>in_Signature := Some sig\<rparr>\<rparr>)
      else (False, t))"

definition atx_SetSignature :: "app_tx \<Rightarrow> signature \<Rightarrow> bool \<times> app_tx" where
  "atx_SetSignature t sig = (True, t\<lparr>atx_Input := (atx_Input t)\<lparr>in_Signature := Some sig\<rparr>\<rparr>)"

definition TxID :: "'e dmc_ext_scheme \<Rightarrow> coin_tx \<Rightarrow> bytes" where
  "TxID E t = wire_BinaryRipemd160 E (tx_SignBytes E t)"

section \<open>Lemmas\<close>

lemma takeWhile_append_sep: "c \<notin> set p \<Longrightarrow> takeWhile (\<lambda>x. x \<noteq> c) (p @ c # a) = p"
  by (induction p) auto

lemma dropWhile_append_sep: "c \<notin> set p \<Longrightarrow> dropWhile (\<lambda>x. x \<noteq> c) (p @ c # a) = c # a"
  by (induction p) auto

lemma SplitN_prefix: "CHR ''/'' \<notin> set p \<Longrightarrow> SplitN_slash (p @ CHR ''/'' # a) = [p, a]"
  by (simp add: SplitN_slash_def takeWhile_append_sep dropWhile_append_sep)

lemma SplitN_two:
  assumes "length (SplitN_slash s) = 2"
  shows "\<exists>p a. CHR ''/'' \<notin> set p \<and> s = p @ CHR ''/'' # a \<and> SplitN_slash s = [p, a]"
proof -
  have "CHR ''/'' \<in> set s" using assms by (auto simp: SplitN_slash_def split: if_splits)
  then obtain p a where "s = p @ CHR ''/'' # a" "CHR ''/'' \<notin> set p" using split_list_first by metis
  then show ?thesis using SplitN_prefix by blast
qed

text \<open>
  The addresses an output may have. \<open>ChainAndAddress\<close> accepts exactly the 20-byte addresses and,
  among longer ones, a chain id without a slash, a slash and 20 bytes, and returns those two pieces.
\<close>

lemma ChainAndAddress_iff:
  "ChainAndAddress txOut = (chain, address, 1) \<longleftrightarrow>
    length address = 20 \<and>
    (case chain of None \<Rightarrow> out_Address txOut = address
     | Some p \<Rightarrow> CHR ''/'' \<notin> set p \<and> out_Address txOut = p @ CHR ''/'' # address)"
proof (cases "20 < length (out_Address txOut)")
  case False
  then show ?thesis by (auto simp: ChainAndAddress_def Let_def split: option.splits)
next
  case long: True
  show ?thesis
  proof (cases "length (SplitN_slash (out_Address txOut)) = 2")
    case True
    then obtain p a where p: "CHR ''/'' \<notin> set p" "out_Address txOut = p @ CHR ''/'' # a" "SplitN_slash (out_Address txOut) = [p, a]"
      using SplitN_two by blast
    have "p' = p \<and> a' = a" if "CHR ''/'' \<notin> set p'" "out_Address txOut = p' @ CHR ''/'' # a'" for p' a'
      using SplitN_prefix [OF that(1), of a'] p(3) that(2) by simp
    then show ?thesis using long p by (auto simp: ChainAndAddress_def Let_def split: option.splits)
  next
    case False
    then show ?thesis using long SplitN_prefix by (force simp: ChainAndAddress_def Let_def split: option.splits)
  qed
qed

text \<open>
  Only the first transaction of an account passes its own check. As the amino encoding of a key is
  never empty, a valid input has sequence number 1; an otherwise valid input without a key makes the
  check panic; and an input that \<open>NewTxInput\<close> builds for an Ed25519 key is never valid, as its
  address is not 64 bytes long.
\<close>

lemma TxInput_only_first:
  assumes "\<forall>k. pk_Bytes E k \<noteq> []"
  shows "(in_ValidateBasic E txIn = Inr 1 \<longrightarrow> in_Sequence txIn = 1) \<and>
    (length (in_Address txIn) = 64 \<and> 0 < in_Coins txIn \<and> in_Coins txIn \<le> 100 \<and> 0 < in_Sequence txIn \<and> in_PubKey txIn = None \<longrightarrow>
      in_ValidateBasic E txIn = Inl NilDereference) \<and>
    in_ValidateBasic E (NewTxInput E (PubKeyEd25519 k) c n) = Inr 0"
proof -
  have "length (pk_Address E (PubKeyEd25519 k)) \<noteq> 64" by (simp add: tmhash_Sum_def tmhash_Size_def)
  then have "in_ValidateBasic E (NewTxInput E (PubKeyEd25519 k) c n) = Inr 0" by (simp add: in_ValidateBasic_def NewTxInput_def)
  then show ?thesis using assms by (cases "in_PubKey txIn") (auto simp: in_ValidateBasic_def not_less)
qed

definition demo_dmc :: dmc_ext where
  "demo_dmc = ext.extend demo_ext (dmc_ext.fields (\<lambda>k. ''k'') (\<lambda>t. []) (\<lambda>b. b) (\<lambda>b. None)
     (\<lambda>a. acc_Address a) (\<lambda>b. \<lparr>acc_PubKey = None, acc_Height = 0, acc_Balance = 0, acc_Address = b\<rparr>)
     (\<lambda>b. \<lparr>utxo_Address = b, utxo_Balance = 0\<rparr>)
     (\<lambda>b. \<lparr>dtx_Fee = 0, dtx_Input = \<lparr>in_Address = take 1 b, in_Coins = 1, in_Sequence = 1, in_Signature = None, in_PubKey = None\<rparr>,
        dtx_Output = \<lparr>out_Address = drop 1 b, out_Coins = 1\<rparr>\<rparr>)
     utxo_Address (\<lambda>b. b))"

definition demo_input :: "int \<Rightarrow> pub_key option \<Rightarrow> tx_input" where
  "demo_input n k = \<lparr>in_Address = replicate 64 (CHR ''a''), in_Coins = 5, in_Sequence = n, in_Signature = None, in_PubKey = k\<rparr>"

end
