(* ===== verification/Blocks.thy ===== *)
theory Blocks
  imports Dmc_Tx
begin

text \<open>
  \<^verbatim>\<open>types/tx.go\<close>, \<^verbatim>\<open>types/block.go\<close> and \<^verbatim>\<open>types/block_meta.go\<close>: transactions with their Merkle proofs, the
  buckets a block groups them into, blocks and their hashes. A nil byte slice is the empty one.
  \<^verbatim>\<open>Block.Hash\<close> fills in a missing \<open>DataHash\<close> before it hashes; \<open>blk_Hash\<close> is the value and
  \<open>blk_hashed\<close> the effect on a block that is kept.
\<close>

section \<open>Transactions\<close>

definition tx_Hash :: "'e ext_scheme \<Rightarrow> tx \<Rightarrow> bytes" where
  "tx_Hash E t = tmhash_Sum E t"

fun Txs_Hash :: "'e ext_scheme \<Rightarrow> tx list \<Rightarrow> bytes" where
  "Txs_Hash E [] = []"
| "Txs_Hash E [t] = tx_Hash E t"
| "Txs_Hash E txs =
     (let k = (length txs + 1) div 2
      in SimpleHashFromTwoHashes E (Txs_Hash E (take k txs)) (Txs_Hash E (drop k txs)))"

fun index_from :: "int \<Rightarrow> (tx \<Rightarrow> bool) \<Rightarrow> tx list \<Rightarrow> int" where
  "index_from i P [] = - 1"
| "index_from i P (t # ts) = (if P t then i else index_from (i + 1) P ts)"

definition Txs_Index :: "tx list \<Rightarrow> tx \<Rightarrow> int" where
  "Txs_Index txs t = index_from 0 (\<lambda>x. x = t) txs"

definition IndexByHash :: "'e ext_scheme \<Rightarrow> tx list \<Rightarrow> bytes \<Rightarrow> int" where
  "IndexByHash E txs hash = index_from 0 (\<lambda>x. tx_Hash E x = hash) txs"

record tx_proof =
  tp_Index :: int
  tp_Total :: int
  tp_RootHash :: bytes
  tp_Data :: tx
  tp_Proof :: SimpleProof

definition Txs_Proof :: "'e ext_scheme \<Rightarrow> tx list \<Rightarrow> int \<Rightarrow> tx_proof or_panic" where
  "Txs_Proof E txs i =
     bindP (SimpleProofsFromHashers E (tx_Hash E) txs) (\<lambda>(root, proofs).
     bindP (slice_at txs i) (\<lambda>t.
     bindP (slice_at proofs i) (\<lambda>p.
       Inr \<lparr>tp_Index = i, tp_Total = int (length txs), tp_RootHash = root, tp_Data = t, tp_Proof = p\<rparr>)))"

definition LeafHash :: "'e ext_scheme \<Rightarrow> tx_proof \<Rightarrow> bytes" where
  "LeafHash E tp = tx_Hash E (tp_Data tp)"

datatype tx_proof_error = DifferentDataHash | NegativeIndex | NonPositiveTotal | NotConsistent

definition tp_Validate :: "'e ext_scheme \<Rightarrow> tx_proof \<Rightarrow> bytes \<Rightarrow> tx_proof_error option" where
  "tp_Validate E tp dataHash =
     (if dataHash \<noteq> tp_RootHash tp then Some DifferentDataHash
      else if tp_Index tp < 0 then Some NegativeIndex
      else if tp_Total tp \<le> 0 then Some NonPositiveTotal
      else if \<not> sp_Verify E (tp_Proof tp) (tp_Index tp) (tp_Total tp) (LeafHash E tp) (tp_RootHash tp) then Some NotConsistent
      else None)"

section \<open>Buckets\<close>

definition TxBuckets_Hash :: "'e ext_scheme \<Rightarrow> tx_bucket list \<Rightarrow> bytes" where
  "TxBuckets_Hash E buckets =
     fst (fold (\<lambda>bucket (combinedHash, i).
         (if i = (0::nat) then sha256 E [CHR 0x00]
          else SimpleHashFromTwoHashes E combinedHash (Txs_Hash E (Txs bucket)), Suc i))
       buckets ([], 0))"

definition data_Hash :: "'e ext_scheme \<Rightarrow> data option \<Rightarrow> bytes" where
  "data_Hash E d = (case d of None \<Rightarrow> Txs_Hash E [] | Some dat \<Rightarrow> TxBuckets_Hash E (TxBuckets dat))"

definition TotalTxsInBuckets :: "data option \<Rightarrow> int" where
  "TotalTxsInBuckets d = (case d of None \<Rightarrow> 0 | Some dat \<Rightarrow> fold (\<lambda>b n. n + int (length (Txs b))) (TxBuckets dat) 0)"

text \<open>
  The two segments of a transaction: the first two hexadecimal digits of the texts of its addresses, which is
  what \<open>%x\<close> prints of a \<open>data.Bytes\<close>.
\<close>

definition getBucketId :: "'e dmc_ext_scheme \<Rightarrow> tx \<Rightarrow> int \<Rightarrow> (bytes \<times> bytes) or_panic" where
  "getBucketId E t height =
     (if go_rem height 100 = 1 \<and> height > 1 then
        bindP (go_slice (utxo_Address (json_TxUTXO E t)) 0 2) (\<lambda>segment. Inr (segment, []))
      else
        bindP (go_slice (hex_EncodeToString (data_String E (in_Address (dtx_Input (json_DMCTx E t))))) 0 2) (\<lambda>segment1.
        bindP (go_slice (hex_EncodeToString (data_String E (out_Address (dtx_Output (json_DMCTx E t))))) 0 2) (\<lambda>segment2.
          Inr (segment1, segment2))))"

definition empty_buckets :: "tx_bucket list" where
  "empty_buckets = map (\<lambda>i. \<lparr>BucketId = show_hex i, Txs = []\<rparr>) [0..<255]"

definition place_tx :: "'e dmc_ext_scheme \<Rightarrow> int \<Rightarrow> tx \<Rightarrow> tx_bucket list \<Rightarrow> tx_bucket list or_panic" where
  "place_tx E height t buckets =
     bindP (getBucketId E t height) (\<lambda>(segment0, segment1).
       Inr (map (\<lambda>b. if BucketId b = segment0 \<or> BucketId b = segment1 then b\<lparr>Txs := Txs b @ [t]\<rparr> else b) buckets))"

section \<open>Blocks\<close>

definition zero_header :: header where
  "zero_header = \<lparr>hdr_ChainID = [], hdr_Height = 0, hdr_Time = zero_time, hdr_NumTxs = 0, hdr_LastBlockID = zero_bid,
     hdr_TotalTxs = 0, hdr_LastBucketHashes = None, hdr_DataHash = [], hdr_ValidatorsHash = [], hdr_ConsensusHash = [],
     hdr_AppHash = [], hdr_LastResultsHash = []\<rparr>"

definition fillHeader :: "'e ext_scheme \<Rightarrow> block \<Rightarrow> block" where
  "fillHeader E b =
     (case blk_Header b of None \<Rightarrow> b
      | Some h \<Rightarrow> if hdr_DataHash h = [] then b\<lparr>blk_Header := Some (h\<lparr>hdr_DataHash := data_Hash E (blk_Data b)\<rparr>)\<rparr> else b)"

definition MakeBlock :: "'e dmc_ext_scheme \<Rightarrow> time \<Rightarrow> int \<Rightarrow> tx list \<Rightarrow> commit option \<Rightarrow> block or_panic" where
  "MakeBlock E now height txs c =
     bindP (foldP (place_tx E height) txs empty_buckets) (\<lambda>buckets.
       Inr (fillHeader E \<lparr>blk_Header = Some (zero_header\<lparr>hdr_Height := height, hdr_Time := now, hdr_NumTxs := int (length txs)\<rparr>),
         blk_Data = Some \<lparr>TxBuckets = buckets\<rparr>, blk_Commit = c\<rparr>))"

datatype block_error = NilBlock | WrongNumTxs | BadCommit commit_error | WrongDataHash

definition blk_ValidateBasic :: "'e ext_scheme \<Rightarrow> block option \<Rightarrow> block_error option or_panic" where
  "blk_ValidateBasic E bo =
     (case bo of None \<Rightarrow> Inr (Some NilBlock)
      | Some b \<Rightarrow>
          bindP (deref (blk_Header b)) (\<lambda>h.
          if hdr_NumTxs h \<noteq> TotalTxsInBuckets (blk_Data b) then Inr (Some WrongNumTxs)
          else
            bindP (if hdr_Height h \<noteq> 1 then bindP (deref (blk_Commit b)) (\<lambda>c. Inr (commit_ValidateBasic c)) else Inr None) (\<lambda>err.
            case err of Some e \<Rightarrow> Inr (Some (BadCommit e))
            | None \<Rightarrow> if hdr_DataHash h \<noteq> data_Hash E (blk_Data b) then Inr (Some WrongDataHash) else Inr None)))"

definition hdr_Hash :: "'e ext_scheme \<Rightarrow> header option \<Rightarrow> bytes" where
  "hdr_Hash E ho =
     (case ho of None \<Rightarrow> []
      | Some h \<Rightarrow>
          if length (hdr_ValidatorsHash h) = 0 then []
          else SimpleHashFromMap E
            [(''ChainID'', aminoHash E (AmString (hdr_ChainID h))),
             (''Height'', aminoHash E (AmInt (hdr_Height h))),
             (''Time'', aminoHash E (AmTime (hdr_Time h))),
             (''NumTxs'', aminoHash E (AmInt (hdr_NumTxs h))),
             (''TotalTxs'', aminoHash E (AmInt (hdr_TotalTxs h))),
             (''LastBlockID'', aminoHash E (AmBlockID (hdr_LastBlockID h))),
             (''Data'', aminoHash E (AmBytes (hdr_DataHash h))),
             (''Validators'', aminoHash E (AmBytes (hdr_ValidatorsHash h))),
             (''App'', aminoHash E (AmBytes (hdr_AppHash h))),
             (''Consensus'', aminoHash E (AmBytes (hdr_ConsensusHash h))),
             (''Results'', aminoHash E (AmBytes (hdr_LastResultsHash h)))])"

definition blk_Hash :: "'e ext_scheme \<Rightarrow> block option \<Rightarrow> bytes" where
  "blk_Hash E bo =
     (case bo of None \<Rightarrow> []
      | Some b \<Rightarrow>
          if blk_Header b = None \<or> blk_Data b = None \<or> blk_Commit b = None then []
          else hdr_Hash E (blk_Header (fillHeader E b)))"

definition MakePartSet :: "'e ext_scheme \<Rightarrow> block option \<Rightarrow> int \<Rightarrow> part_set option or_panic" where
  "MakePartSet E bo partSize =
     (case bo of None \<Rightarrow> Inr None
      | Some b \<Rightarrow> bindP (NewPartSetFromData E (MarshalBinary E (AmBlock b)) partSize) (\<lambda>ps. Inr (Some ps)))"

definition blk_HashesTo :: "'e ext_scheme \<Rightarrow> block option \<Rightarrow> bytes \<Rightarrow> bool" where
  "blk_HashesTo E bo hash =
     (if length hash = 0 then False else if bo = None then False else blk_Hash E bo = hash)"

definition blk_Size :: "'e ext_scheme \<Rightarrow> block \<Rightarrow> int" where
  "blk_Size E b = int (length (MarshalBinaryBare E (AmBlock b)))"

text \<open>The block after a call of \<open>Hash\<close>.\<close>

definition blk_hashed :: "'e ext_scheme \<Rightarrow> block \<Rightarrow> block" where
  "blk_hashed E b = (if blk_Header b = None \<or> blk_Data b = None \<or> blk_Commit b = None then b else fillHeader E b)"

definition NewBlockMeta :: "'e ext_scheme \<Rightarrow> block \<Rightarrow> part_set option \<Rightarrow> block_meta" where
  "NewBlockMeta E b blockParts =
     \<lparr>bm_BlockID = \<lparr>bid_Hash = blk_Hash E (Some b), bid_PartsHeader = ps_Header blockParts\<rparr>, bm_Header = blk_Header (blk_hashed E b)\<rparr>"

section \<open>Lemmas\<close>

lemma show_hex_inject [simp]: "show_hex m = show_hex n \<longleftrightarrow> m = n"
proof
  assume "show_hex m = show_hex n"
  then have "read_base 16 (show_base 16 m) = read_base 16 (show_base 16 n)" by (simp add: show_hex_def)
  then show "m = n" by (simp add: read_show_base)
qed simp

lemma filter_upt_two: "a < n \<Longrightarrow> b < n \<Longrightarrow> length (filter (\<lambda>i. i = a \<or> i = b) [0..<n]) = card {a, b}"
proof -
  assume "a < n" "b < n"
  then have "{i. i < n \<and> (i = a \<or> i = b)} = {a, b}" by auto
  then show ?thesis by (simp add: length_filter_conv_card cong: conj_cong)
qed

lemma Txs_Hash_eq: "Txs_Hash E txs = SimpleHashFromHashers E (tx_Hash E) txs"
proof (induction E txs rule: Txs_Hash.induct)
  case (3 E t u ts)
  let ?x = "t # u # ts"
  let ?k = "(length ?x + 1) div 2"
  have "Txs_Hash E ?x = SimpleHashFromTwoHashes E (Txs_Hash E (take ?k ?x)) (Txs_Hash E (drop ?k ?x))" by (simp add: Let_def)
  also have "\<dots> = SimpleHashFromTwoHashes E (SimpleHashFromHashers E (tx_Hash E) (take ?k ?x)) (SimpleHashFromHashers E (tx_Hash E) (drop ?k ?x))"
    using 3 by simp
  also have "\<dots> = SimpleHashFromHashers E (tx_Hash E) ?x"
    unfolding SimpleHashFromHashers_def using simpleHash_split [of "map (tx_Hash E) ?x" E] by (simp only: length_map take_map drop_map) simp
  finally show ?case .
qed (simp_all add: SimpleHashFromHashers_def)

lemma TxBuckets_Hash_Cons:
  "TxBuckets_Hash E (b # bs) = fold (\<lambda>b h. SimpleHashFromTwoHashes E h (Txs_Hash E (Txs b))) bs (sha256 E [CHR 0x00])"
proof -
  have "fst (fold (\<lambda>bucket (h, i). (if i = (0::nat) then sha256 E [CHR 0x00] else SimpleHashFromTwoHashes E h (Txs_Hash E (Txs bucket)), Suc i)) bs (h, Suc n)) =
      fold (\<lambda>b h. SimpleHashFromTwoHashes E h (Txs_Hash E (Txs b))) bs h" for h n
    by (induction bs arbitrary: h n) simp_all
  then show ?thesis by (simp add: TxBuckets_Hash_def)
qed

lemma TotalTxs_sum [simp]: "TotalTxsInBuckets (Some dat) = (\<Sum>b\<leftarrow>TxBuckets dat. int (length (Txs b)))"
proof -
  have "fold (\<lambda>b n. n + int (length (Txs b))) bs n = n + (\<Sum>b\<leftarrow>bs. int (length (Txs b)))" for bs :: "tx_bucket list" and n
    by (induction bs arbitrary: n) simp_all
  then show ?thesis by (simp add: TotalTxsInBuckets_def)
qed

lemma fillHeader_simps [simp]:
  "blk_Data (fillHeader E b) = blk_Data b" "blk_Commit (fillHeader E b) = blk_Commit b"
  "blk_Header (fillHeader E b) = None \<longleftrightarrow> blk_Header b = None"
  "fillHeader E (fillHeader E b) = fillHeader E b"
  by (auto simp: fillHeader_def split: option.splits)

text \<open>Filling in the data hash does not change the hash of a block.\<close>

lemma blk_Hash_fill [simp]: "blk_Hash E (Some (fillHeader E b)) = blk_Hash E (Some b)"
  by (simp add: blk_Hash_def)

lemma blk_hashed_simps [simp]:
  "blk_Data (blk_hashed E b) = blk_Data b" "blk_Commit (blk_hashed E b) = blk_Commit b"
  "blk_Header (blk_hashed E b) = None \<longleftrightarrow> blk_Header b = None" "blk_hashed E (blk_hashed E b) = blk_hashed E b"
  "blk_Hash E (Some (blk_hashed E b)) = blk_Hash E (Some b)"
  by (auto simp: blk_hashed_def)

text \<open>The number of buckets \<open>MakeBlock\<close> puts a transaction into.\<close>

definition bucket_count :: "'e dmc_ext_scheme \<Rightarrow> int \<Rightarrow> tx \<Rightarrow> nat" where
  "bucket_count E height t =
     (case getBucketId E t height of Inl p \<Rightarrow> 0
      | Inr (s0, s1) \<Rightarrow> length (filter (\<lambda>i. show_hex i = s0 \<or> show_hex i = s1) [0..<255]))"

lemma place_tx_total:
  assumes "place_tx E height t bs = Inr bs'" "map BucketId bs = map show_hex [0..<255]"
  shows "map BucketId bs' = map show_hex [0..<255] \<and>
    (\<Sum>b\<leftarrow>bs'. int (length (Txs b))) = (\<Sum>b\<leftarrow>bs. int (length (Txs b))) + int (bucket_count E height t)"
proof -
  obtain s0 s1 where g: "getBucketId E t height = Inr (s0, s1)" and
    bs': "bs' = map (\<lambda>b. if BucketId b = s0 \<or> BucketId b = s1 then b\<lparr>Txs := Txs b @ [t]\<rparr> else b) bs"
    using assms(1) by (auto simp: place_tx_def bindP_eq_Inr)
  have ids: "map BucketId bs' = map BucketId bs" by (simp add: bs' comp_def)
  have sums: "(\<Sum>b\<leftarrow>map (\<lambda>b. if BucketId b = s0 \<or> BucketId b = s1 then b\<lparr>Txs := Txs b @ [t]\<rparr> else b) xs. int (length (Txs b))) =
      (\<Sum>b\<leftarrow>xs. int (length (Txs b))) + int (length (filter (\<lambda>x. x = s0 \<or> x = s1) (map BucketId xs)))" for xs
    by (induction xs) simp_all
  have "length (filter (\<lambda>x. x = s0 \<or> x = s1) (map show_hex [0..<255])) = bucket_count E height t"
    by (simp add: bucket_count_def g filter_map comp_def)
  then show ?thesis using ids sums [of bs] assms(2) by (simp only: bs')
qed

lemma place_all_total:
  assumes "foldP (place_tx E height) txs bs = Inr bs'" "map BucketId bs = map show_hex [0..<255]"
  shows "(\<Sum>b\<leftarrow>bs'. int (length (Txs b))) = (\<Sum>b\<leftarrow>bs. int (length (Txs b))) + (\<Sum>t\<leftarrow>txs. int (bucket_count E height t))"
  using assms
proof (induction txs arbitrary: bs)
  case (Cons t ts)
  then obtain b1 where b: "place_tx E height t bs = Inr b1" "foldP (place_tx E height) ts b1 = Inr bs'" by (auto simp: bindP_eq_Inr)
  note p = place_tx_total [OF b(1) Cons.prems(2)]
  show ?case using Cons.IH [OF b(2)] p by simp
qed simp

lemma empty_buckets_simps [simp]:
  "map BucketId empty_buckets = map show_hex [0..<255]" "(\<Sum>b\<leftarrow>empty_buckets. int (length (Txs b))) = 0"
  by (simp_all add: empty_buckets_def comp_def)

lemma demo_buckets:
  fixes E :: "'e dmc_ext_scheme"
  assumes "json_DMCTx E = json_DMCTx demo_dmc" "data_String E = data_String demo_dmc"
  shows "getBucketId E [CHR 0x10, CHR 0x10] 1 = Inr (show_hex 16, show_hex 16)" "getBucketId E [CHR 0x10, CHR 0x20] 1 = Inr (show_hex 16, show_hex 32)"
    "bucket_count E 1 [CHR 0x10, CHR 0x10] = 1" "bucket_count E 1 [CHR 0x10, CHR 0x20] = 2"
proof -
  have j: "json_DMCTx E = (\<lambda>b. \<lparr>dtx_Fee = 0, dtx_Input = \<lparr>in_Address = take 1 b, in_Coins = 1, in_Sequence = 1, in_Signature = None, in_PubKey = None\<rparr>,
        dtx_Output = \<lparr>out_Address = drop 1 b, out_Coins = 1\<rparr>\<rparr>)"
    and d: "data_String E = (\<lambda>b. b)" unfolding assms by (simp_all add: demo_dmc_def ext.defs dmc_ext.defs)
  have x: "show_hex 16 = ''10''" "show_hex 32 = ''20''" by (simp_all add: show_hex_def show_base.simps digit_char_def char_of_def bit_0)
  show g: "getBucketId E [CHR 0x10, CHR 0x10] 1 = Inr (show_hex 16, show_hex 16)" "getBucketId E [CHR 0x10, CHR 0x20] 1 = Inr (show_hex 16, show_hex 32)"
    unfolding x by (simp_all add: getBucketId_def j d go_rem_def hex_EncodeToString_def digit_char_def go_slice_def char_of_def bit_0)
  show "bucket_count E 1 [CHR 0x10, CHR 0x10] = 1" "bucket_count E 1 [CHR 0x10, CHR 0x20] = 2"
    unfolding bucket_count_def g by (simp_all only: sum.case prod.case show_hex_inject) (subst filter_upt_two; simp)+
qed

section \<open>Properties\<close>

text \<open>
  A proof of inclusion that \<open>Txs.Proof\<close> makes for a transaction of a list validates against the
  hash of the list, which is the Merkle root of the transactions' hashes.
\<close>

lemma TxProof_roundtrip:
  assumes "i < length txs" "int (length txs) < MaxInt64"
  shows "\<exists>tp. Txs_Proof E txs (int i) = Inr tp \<and> tp_Data tp = txs ! i \<and> tp_Validate E tp (Txs_Hash E txs) = None"
proof -
  have ne: "txs \<noteq> []" using assms(1) by auto
  show ?thesis
    using assms compute_aunts [of i "map (tx_Hash E) txs" E]
    by (simp add: Txs_Proof_def SimpleProofsFromHashers_aunts [OF ne] slice_at_def tp_Validate_def LeafHash_def
        sp_Verify_def Txs_Hash_eq SimpleHashFromHashers_def ne)
qed

text \<open>
  C31: the hash of a block does not bind the transactions of its first bucket: replacing them by any
  others, as many, changes neither the hash of the block nor the verdict of \<open>ValidateBasic\<close>.
\<close>

theorem Block_Hash_misses_first_bucket:
  assumes "blk_Data b = Some \<lparr>TxBuckets = bucket # bs\<rparr>" "length txs = length (Txs bucket)"
    and "b' = b\<lparr>blk_Data := Some \<lparr>TxBuckets = bucket\<lparr>Txs := txs\<rparr> # bs\<rparr>\<rparr>"
  shows "blk_Hash E (Some b') = blk_Hash E (Some b) \<and> blk_ValidateBasic E (Some b') = blk_ValidateBasic E (Some b)"
proof -
  have d: "data_Hash E (blk_Data b') = data_Hash E (blk_Data b)" using assms by (simp add: data_Hash_def TxBuckets_Hash_Cons)
  have n: "TotalTxsInBuckets (blk_Data b') = TotalTxsInBuckets (blk_Data b)" using assms by simp
  have h: "blk_Header b' = blk_Header b" "blk_Commit b' = blk_Commit b" "blk_Data b' = None \<longleftrightarrow> blk_Data b = None" using assms by simp_all
  then have "blk_Header (fillHeader E b') = blk_Header (fillHeader E b)" by (simp add: fillHeader_def d split: option.splits)
  then have "blk_Hash E (Some b') = blk_Hash E (Some b)" by (simp add: blk_Hash_def h)
  moreover have "blk_ValidateBasic E (Some b') = blk_ValidateBasic E (Some b)"
    unfolding blk_ValidateBasic_def option.case h(1,2) d n ..
  ultimately show ?thesis ..
qed

definition demo_block :: "tx list \<Rightarrow> block" where
  "demo_block txs = fillHeader demo_ext \<lparr>blk_Header = Some (zero_header\<lparr>hdr_Height := 1, hdr_NumTxs := 1, hdr_ValidatorsHash := ''v''\<rparr>),
     blk_Data = Some \<lparr>TxBuckets = [\<lparr>BucketId = ''0'', Txs = txs\<rparr>]\<rparr>, blk_Commit = Some \<lparr>commit_BlockID = zero_bid, Precommits = []\<rparr>\<rparr>"

theorem Block_Hash_misses_first_bucket_witness:
  "demo_block [''pay a''] \<noteq> demo_block [''pay b''] \<and> blk_Hash demo_ext (Some (demo_block [''pay a''])) = blk_Hash demo_ext (Some (demo_block [''pay b''])) \<and>
    blk_ValidateBasic demo_ext (Some (demo_block [''pay b''])) = Inr None"
proof -
  have e: "demo_block [''pay a''] = (demo_block [''pay b''])\<lparr>blk_Data := Some \<lparr>TxBuckets = [\<lparr>BucketId = ''0'', Txs = [''pay a'']\<rparr>]\<rparr>\<rparr>"
    by (simp add: demo_block_def fillHeader_def zero_header_def data_Hash_def TxBuckets_Hash_Cons)
  show ?thesis
    using Block_Hash_misses_first_bucket [of "demo_block [''pay b'']" "\<lparr>BucketId = ''0'', Txs = [''pay b'']\<rparr>" "[]" "[''pay a'']" "demo_block [''pay a'']" demo_ext] e
    by (simp add: demo_block_def fillHeader_def zero_header_def blk_ValidateBasic_def data_Hash_def TxBuckets_Hash_Cons)
qed

end
