(* ===== verification/Chain_Params.thy ===== *)
theory Chain_Params
  imports Blocks Validator_Set
begin

text \<open>
  \<^verbatim>\<open>types/params.go\<close>, \<^verbatim>\<open>types/results.go\<close>, \<^verbatim>\<open>types/genesis.go\<close> and \<^verbatim>\<open>types/protobuf.go\<close>: consensus parameters,
  results of transactions, the genesis document, and the conversions to and from the messages of
  the application interface, whose size fields are 32 bits wide.
\<close>

section \<open>Consensus parameters\<close>

definition MaxBlockSizeBytes :: int where "MaxBlockSizeBytes = 104857600"

definition DefaultBlockSize :: block_size where
  "DefaultBlockSize = \<lparr>bs_MaxBytes = 22020096, bs_MaxTxs = 10000, bs_MaxGas = - 1\<rparr>"

definition DefaultTxSize :: tx_size where
  "DefaultTxSize = \<lparr>ts_MaxBytes = 10240, ts_MaxGas = - 1\<rparr>"

definition DefaultBlockGossip :: int where "DefaultBlockGossip = 65536"

definition DefaultEvidenceParams :: int where "DefaultEvidenceParams = 100000"

definition DefaultConsensusParams :: consensus_params where
  "DefaultConsensusParams = \<lparr>cp_BlockSize = DefaultBlockSize, cp_TxSize = DefaultTxSize,
     BlockPartSizeBytes = DefaultBlockGossip, MaxAge = DefaultEvidenceParams\<rparr>"

datatype params_error = MaxBytesNotPositive | PartSizeNotPositive | MaxBytesTooBig

definition cp_Validate :: "consensus_params \<Rightarrow> params_error option" where
  "cp_Validate p =
     (if bs_MaxBytes (cp_BlockSize p) \<le> 0 then Some MaxBytesNotPositive
      else if BlockPartSizeBytes p \<le> 0 then Some PartSizeNotPositive
      else if bs_MaxBytes (cp_BlockSize p) > MaxBlockSizeBytes then Some MaxBytesTooBig
      else None)"

definition cp_Hash :: "'e ext_scheme \<Rightarrow> consensus_params \<Rightarrow> bytes" where
  "cp_Hash E p = SimpleHashFromMap E
     [(''block_gossip_part_size_bytes'', aminoHash E (AmInt (BlockPartSizeBytes p))),
      (''block_size_max_bytes'', aminoHash E (AmInt (bs_MaxBytes (cp_BlockSize p)))),
      (''block_size_max_gas'', aminoHash E (AmInt (bs_MaxGas (cp_BlockSize p)))),
      (''block_size_max_txs'', aminoHash E (AmInt (bs_MaxTxs (cp_BlockSize p)))),
      (''tx_size_max_bytes'', aminoHash E (AmInt (ts_MaxBytes (cp_TxSize p)))),
      (''tx_size_max_gas'', aminoHash E (AmInt (ts_MaxGas (cp_TxSize p))))]"

text \<open>Only the positive fields of the update are taken over.\<close>

definition pos_or :: "int \<Rightarrow> int \<Rightarrow> int" where
  "pos_or new old = (if new > 0 then new else old)"

definition cp_Update :: "consensus_params \<Rightarrow> abci_consensus_params option \<Rightarrow> consensus_params" where
  "cp_Update p p2o =
     (case p2o of None \<Rightarrow> p
      | Some p2 \<Rightarrow>
          let bs = cp_BlockSize p; ts = cp_TxSize p in
          p\<lparr>cp_BlockSize := (case acp_BlockSize p2 of None \<Rightarrow> bs
              | Some b \<Rightarrow> \<lparr>bs_MaxBytes = pos_or (bs_MaxBytes b) (bs_MaxBytes bs), bs_MaxTxs = pos_or (bs_MaxTxs b) (bs_MaxTxs bs),
                  bs_MaxGas = pos_or (bs_MaxGas b) (bs_MaxGas bs)\<rparr>),
            cp_TxSize := (case acp_TxSize p2 of None \<Rightarrow> ts
              | Some t \<Rightarrow> \<lparr>ts_MaxBytes = pos_or (ts_MaxBytes t) (ts_MaxBytes ts), ts_MaxGas = pos_or (ts_MaxGas t) (ts_MaxGas ts)\<rparr>),
            BlockPartSizeBytes := (case acp_BlockGossip p2 of None \<Rightarrow> BlockPartSizeBytes p | Some g \<Rightarrow> pos_or g (BlockPartSizeBytes p))\<rparr>)"

section \<open>Results\<close>

definition res_Hash :: "'e ext_scheme \<Rightarrow> abci_result \<Rightarrow> bytes" where
  "res_Hash E a = aminoHash E (AmResult a)"

definition NewResultFromResponse :: "response_deliver_tx option \<Rightarrow> abci_result or_panic" where
  "NewResultFromResponse r = bindP (deref r) (\<lambda>d. Inr \<lparr>res_Code = rdt_Code d, res_Data = rdt_Data d\<rparr>)"

definition NewResults :: "response_deliver_tx option list \<Rightarrow> abci_result list or_panic" where
  "NewResults del = mapP NewResultFromResponse del"

definition results_Hash :: "'e ext_scheme \<Rightarrow> abci_result list \<Rightarrow> bytes" where
  "results_Hash E a = SimpleHashFromHashers E (res_Hash E) a"

definition ProveResult :: "'e ext_scheme \<Rightarrow> abci_result list \<Rightarrow> int \<Rightarrow> SimpleProof or_panic" where
  "ProveResult E a i = bindP (SimpleProofsFromHashers E (res_Hash E) a) (\<lambda>(_, proofs). slice_at proofs i)"

section \<open>The genesis document\<close>

record genesis_validator =
  gv_PubKey :: "pub_key option"
  gv_Power :: int
  gv_Name :: bytes

record genesis_doc =
  GenesisTime :: time
  gd_ChainID :: bytes
  gd_ConsensusParams :: "consensus_params option"
  gd_Validators :: "genesis_validator list"
  gd_AppHash :: bytes
  AppStateJSON :: bytes
  AppOptions :: bytes

definition gd_AppState :: "genesis_doc \<Rightarrow> bytes" where
  "gd_AppState d = (if length (AppOptions d) > 0 then AppOptions d else AppStateJSON d)"

definition genesis_val :: "'e crypto_env_scheme \<Rightarrow> genesis_validator \<Rightarrow> validator or_panic" where
  "genesis_val E v = bindP (deref (gv_PubKey v)) (\<lambda>k. Inr (NewValidator E k (gv_Power v)))"

definition ValidatorHash :: "'e ext_scheme \<Rightarrow> genesis_doc \<Rightarrow> bytes or_panic" where
  "ValidatorHash E d =
     bindP (mapP (genesis_val E) (gd_Validators d)) (\<lambda>vals.
     bindP (NewValidatorSet (Some vals)) (\<lambda>vset. Inr (vs_Hash E vset)))"

datatype genesis_error = EmptyChainID | BadParams params_error | NoValidators | ZeroPower

definition ValidateAndComplete :: "time \<Rightarrow> genesis_doc \<Rightarrow> genesis_error option \<times> genesis_doc" where
  "ValidateAndComplete now d =
     (if gd_ChainID d = [] then (Some EmptyChainID, d)
      else
        let (err, d1) = (case gd_ConsensusParams d of
            None \<Rightarrow> (None, d\<lparr>gd_ConsensusParams := Some DefaultConsensusParams\<rparr>)
          | Some p \<Rightarrow> (map_option BadParams (cp_Validate p), d)) in
        if err \<noteq> None then (err, d1)
        else if gd_Validators d1 = [] then (Some NoValidators, d1)
        else if \<exists>v \<in> set (gd_Validators d1). gv_Power v = 0 then (Some ZeroPower, d1)
        else (None, if GenesisTime d1 = zero_time then d1\<lparr>GenesisTime := now\<rparr> else d1))"

section \<open>Conversions\<close>

definition wrap32 :: "int \<Rightarrow> int" where
  "wrap32 x = (x + 2147483648) mod 4294967296 - 2147483648"

record abci_header =
  ah_ChainID :: bytes
  ah_Height :: int
  ah_Time :: int
  ah_NumTxs :: int
  ah_TotalTxs :: int
  ah_LastBlockHash :: bytes
  ah_ValidatorsHash :: bytes
  ah_AppHash :: bytes

definition TM2PB_Header :: "header \<Rightarrow> abci_header" where
  "TM2PB_Header h = \<lparr>ah_ChainID = hdr_ChainID h, ah_Height = hdr_Height h, ah_Time = hdr_Time h div 1000000000,
     ah_NumTxs = wrap32 (hdr_NumTxs h), ah_TotalTxs = hdr_TotalTxs h, ah_LastBlockHash = bid_Hash (hdr_LastBlockID h),
     ah_ValidatorsHash = hdr_ValidatorsHash h, ah_AppHash = hdr_AppHash h\<rparr>"

definition no_abci_key :: abci_pub_key where
  "no_abci_key = \<lparr>apk_Type = [], apk_Data = []\<rparr>"

definition TM2PB_Validator :: "validator \<Rightarrow> abci_validator" where
  "TM2PB_Validator v = \<lparr>av_Address = v_Address v, av_PubKey = no_abci_key, av_Power = VotingPower v\<rparr>"

fun TM2PB_PubKey :: "pub_key \<Rightarrow> abci_pub_key" where
  "TM2PB_PubKey (PubKeyEd25519 k) = \<lparr>apk_Type = ''ed25519'', apk_Data = k\<rparr>"
| "TM2PB_PubKey (PubKeySecp256k1 k) = \<lparr>apk_Type = ''secp256k1'', apk_Data = k\<rparr>"

definition TM2PB_Validators :: "validator_set \<Rightarrow> abci_validator list" where
  "TM2PB_Validators vs = map TM2PB_Validator (Validators vs)"

definition TM2PB_ConsensusParams :: "consensus_params \<Rightarrow> abci_consensus_params" where
  "TM2PB_ConsensusParams p =
     \<lparr>acp_BlockSize = Some \<lparr>bs_MaxBytes = wrap32 (bs_MaxBytes (cp_BlockSize p)), bs_MaxTxs = wrap32 (bs_MaxTxs (cp_BlockSize p)),
        bs_MaxGas = bs_MaxGas (cp_BlockSize p)\<rparr>,
      acp_TxSize = Some \<lparr>ts_MaxBytes = wrap32 (ts_MaxBytes (cp_TxSize p)), ts_MaxGas = ts_MaxGas (cp_TxSize p)\<rparr>,
      acp_BlockGossip = Some (wrap32 (BlockPartSizeBytes p))\<rparr>"

definition TM2PB_ValidatorFromPubKeyAndPower :: "'e crypto_env_scheme \<Rightarrow> pub_key \<Rightarrow> int \<Rightarrow> abci_validator" where
  "TM2PB_ValidatorFromPubKeyAndPower E k pow =
     \<lparr>av_Address = pk_Address E k, av_PubKey = TM2PB_PubKey k, av_Power = pow\<rparr>"

datatype pubkey_error = InvalidKeySize | UnknownKeyType

definition PB2TM_PubKey :: "abci_pub_key \<Rightarrow> pubkey_error + pub_key" where
  "PB2TM_PubKey k =
     (if apk_Type k = ''ed25519'' then (if length (apk_Data k) \<noteq> 32 then Inl InvalidKeySize else Inr (PubKeyEd25519 (apk_Data k)))
      else if apk_Type k = ''secp256k1'' then (if length (apk_Data k) \<noteq> 33 then Inl InvalidKeySize else Inr (PubKeySecp256k1 (apk_Data k)))
      else Inl UnknownKeyType)"

definition PB2TM_Validators :: "abci_validator list \<Rightarrow> validator list" where
  "PB2TM_Validators vals = map (\<lambda>v. \<lparr>v_Address = av_Address v, v_PubKey = None, VotingPower = av_Power v, Accum = 0\<rparr>) vals"

definition PB2TM_ConsensusParams :: "abci_consensus_params \<Rightarrow> consensus_params or_panic" where
  "PB2TM_ConsensusParams csp =
     bindP (deref (acp_BlockSize csp)) (\<lambda>b.
     bindP (deref (acp_TxSize csp)) (\<lambda>t.
     bindP (deref (acp_BlockGossip csp)) (\<lambda>g.
       Inr \<lparr>cp_BlockSize = b, cp_TxSize = t, BlockPartSizeBytes = g, MaxAge = 0\<rparr>)))"

section \<open>Lemmas\<close>

lemma wrap32_id: "- 2147483648 \<le> x \<Longrightarrow> x < 2147483648 \<Longrightarrow> wrap32 x = x"
  by (simp add: wrap32_def)

text \<open>An update of valid parameters can be refused for one reason only.\<close>

lemma cp_Update_valid:
  "cp_Validate p = None \<Longrightarrow> cp_Validate (cp_Update p u) =
    (if bs_MaxBytes (cp_BlockSize (cp_Update p u)) > MaxBlockSizeBytes then Some MaxBytesTooBig else None)"
  by (auto simp: cp_Validate_def cp_Update_def pos_or_def Let_def split: option.splits if_splits)

lemma DefaultConsensusParams_valid [simp]: "cp_Validate DefaultConsensusParams = None"
  by (simp add: cp_Validate_def DefaultConsensusParams_def DefaultBlockSize_def DefaultBlockGossip_def MaxBlockSizeBytes_def)

lemma ValidateAndComplete_ok:
  assumes "ValidateAndComplete now d = (None, d')"
  shows "gd_ChainID d' \<noteq> []" "\<exists>p. gd_ConsensusParams d' = Some p \<and> cp_Validate p = None"
    "gd_Validators d' = gd_Validators d" "gd_Validators d' \<noteq> []" "v \<in> set (gd_Validators d') \<Longrightarrow> gv_Power v \<noteq> 0"
  using assms by (auto simp: ValidateAndComplete_def Let_def split: option.splits if_splits)

lemma PubKey_roundtrip:
  "PB2TM_PubKey (TM2PB_PubKey k) = Inr k \<longleftrightarrow> (case k of PubKeyEd25519 b \<Rightarrow> length b = 32 | PubKeySecp256k1 b \<Rightarrow> length b = 33)"
  by (cases k) (auto simp: PB2TM_PubKey_def)

lemma ConsensusParams_roundtrip:
  assumes "cp_Validate p = None" "BlockPartSizeBytes p < 2147483648"
    and "0 \<le> bs_MaxTxs (cp_BlockSize p)" "bs_MaxTxs (cp_BlockSize p) < 2147483648"
    and "0 \<le> ts_MaxBytes (cp_TxSize p)" "ts_MaxBytes (cp_TxSize p) < 2147483648"
  shows "PB2TM_ConsensusParams (TM2PB_ConsensusParams p) = Inr (p\<lparr>MaxAge := 0\<rparr>)"
  using assms by (simp add: cp_Validate_def MaxBlockSizeBytes_def PB2TM_ConsensusParams_def TM2PB_ConsensusParams_def wrap32_id split: if_splits)

end
