(* ===== verification/Timeouts.thy ===== *)
theory Timeouts
  imports Core_Types
begin

text \<open>
  The clockwork of consensus: the steps of a round (\<^verbatim>\<open>consensus/types/round_state.go\<close>), their order
  (\<open>CompareHRS\<close> of \<^verbatim>\<open>consensus/state.go\<close>), the timeouts of the configuration (\<^verbatim>\<open>config/config.go\<close>)
  and the ticker that schedules and fires them (\<^verbatim>\<open>consensus/ticker.go\<close>).
\<close>

section \<open>Steps\<close>

definition RoundStepNewHeight :: int where "RoundStepNewHeight = 1"
definition RoundStepNewRound :: int where "RoundStepNewRound = 2"
definition RoundStepPropose :: int where "RoundStepPropose = 3"
definition RoundStepPrevote :: int where "RoundStepPrevote = 4"
definition RoundStepPrevoteWait :: int where "RoundStepPrevoteWait = 5"
definition RoundStepPrecommit :: int where "RoundStepPrecommit = 6"
definition RoundStepPrecommitWait :: int where "RoundStepPrecommitWait = 7"
definition RoundStepCommit :: int where "RoundStepCommit = 8"

lemmas steps = RoundStepNewHeight_def RoundStepNewRound_def RoundStepPropose_def RoundStepPrevote_def
  RoundStepPrevoteWait_def RoundStepPrecommit_def RoundStepPrecommitWait_def RoundStepCommit_def

definition CompareHRS :: "int \<Rightarrow> int \<Rightarrow> int \<Rightarrow> int \<Rightarrow> int \<Rightarrow> int \<Rightarrow> int" where
  "CompareHRS h1 r1 s1 h2 r2 s2 =
     (if h1 < h2 then - 1 else if h1 > h2 then 1
      else if r1 < r2 then - 1 else if r1 > r2 then 1
      else if s1 < s2 then - 1 else if s1 > s2 then 1
      else 0)"

lemma CompareHRS_iff:
  "CompareHRS h1 r1 s1 h2 r2 s2 < 0 \<longleftrightarrow> (h1, r1, s1) < (h2, r2, s2)"
  "CompareHRS h1 r1 s1 h2 r2 s2 = 0 \<longleftrightarrow> (h1, r1, s1) = (h2, r2, s2)"
  "CompareHRS h1 r1 s1 h2 r2 s2 > 0 \<longleftrightarrow> (h2, r2, s2) < (h1, r1, s1)"
  by (auto simp: CompareHRS_def)

section \<open>The configuration\<close>

type_synonym duration = int

definition Millisecond :: duration where "Millisecond = 1000000"
definition Second :: duration where "Second = 1000000000"

record consensus_config =
  TimeoutPropose :: int
  TimeoutProposeDelta :: int
  TimeoutPrevote :: int
  TimeoutPrevoteDelta :: int
  TimeoutPrecommit :: int
  TimeoutPrecommitDelta :: int
  TimeoutCommit :: int
  SkipTimeoutCommit :: bool
  CreateEmptyBlocks :: bool
  CreateEmptyBlocksInterval :: int
  PeerGossipSleepDuration :: int
  PeerQueryMaj23SleepDuration :: int

definition DefaultConsensusConfig :: consensus_config where
  "DefaultConsensusConfig =
     \<lparr>TimeoutPropose = 3000, TimeoutProposeDelta = 500, TimeoutPrevote = 1000, TimeoutPrevoteDelta = 500,
      TimeoutPrecommit = 1000, TimeoutPrecommitDelta = 500, TimeoutCommit = 1000, SkipTimeoutCommit = False,
      CreateEmptyBlocks = True, CreateEmptyBlocksInterval = 0, PeerGossipSleepDuration = 100,
      PeerQueryMaj23SleepDuration = 2000\<rparr>"

definition WaitForTxs :: "consensus_config \<Rightarrow> bool" where
  "WaitForTxs cfg \<longleftrightarrow> \<not> CreateEmptyBlocks cfg \<or> CreateEmptyBlocksInterval cfg > 0"

definition EmptyBlocksInterval :: "consensus_config \<Rightarrow> duration" where
  "EmptyBlocksInterval cfg = wrap64 (CreateEmptyBlocksInterval cfg * Second)"

definition round_timeout :: "int \<Rightarrow> int \<Rightarrow> int \<Rightarrow> duration" where
  "round_timeout base delta round = wrap64 (wrap64 (base + wrap64 (delta * round)) * Millisecond)"

definition cfg_Propose :: "consensus_config \<Rightarrow> int \<Rightarrow> duration" where
  "cfg_Propose cfg = round_timeout (TimeoutPropose cfg) (TimeoutProposeDelta cfg)"

definition cfg_Prevote :: "consensus_config \<Rightarrow> int \<Rightarrow> duration" where
  "cfg_Prevote cfg = round_timeout (TimeoutPrevote cfg) (TimeoutPrevoteDelta cfg)"

definition cfg_Precommit :: "consensus_config \<Rightarrow> int \<Rightarrow> duration" where
  "cfg_Precommit cfg = round_timeout (TimeoutPrecommit cfg) (TimeoutPrecommitDelta cfg)"

definition cfg_Commit :: "consensus_config \<Rightarrow> time \<Rightarrow> time" where
  "cfg_Commit cfg t = t + wrap64 (TimeoutCommit cfg * Millisecond)"

text \<open>Rounds wait longer and longer, as long as the duration fits the machine word.\<close>

lemma round_timeout_mono:
  assumes "0 \<le> base" "0 \<le> delta" "0 \<le> r" "r \<le> r'" "(base + delta * r') * Millisecond \<le> MaxInt64"
  shows "round_timeout base delta r \<le> round_timeout base delta r'"
proof -
  have m: "base + delta * r \<le> base + delta * r'" "0 \<le> delta * r" "delta * r \<le> delta * r'"
    using assms by (auto intro: mult_left_mono)
  moreover have "round_timeout base delta q = (base + delta * q) * Millisecond" if "0 \<le> delta * q" "delta * q \<le> delta * r'" for q
    using that assms by (simp add: round_timeout_def Millisecond_def int64_defs)
  ultimately show ?thesis by (simp add: Millisecond_def)
qed

section \<open>The ticker\<close>

record timeout_info =
  ti_Duration :: duration
  ti_Height :: int
  ti_Round :: int
  ti_Step :: int

text \<open>
  \<open>tk_ti\<close> is the variable of \<open>timeoutRoutine\<close>, \<open>tk_tick\<close> the channel it reads, \<open>tk_timer\<close> whether the timer
  runs, and \<open>tk_tock\<close> what was sent to consensus so far.
\<close>

record ticker =
  tk_ti :: timeout_info
  tk_tick :: "timeout_info list"
  tk_timer :: bool
  tk_tock :: "timeout_info list"

definition zero_timeout :: timeout_info where
  "zero_timeout = \<lparr>ti_Duration = 0, ti_Height = 0, ti_Round = 0, ti_Step = 0\<rparr>"

definition NewTimeoutTicker :: ticker where
  "NewTimeoutTicker = \<lparr>tk_ti = zero_timeout, tk_tick = [], tk_timer = False, tk_tock = []\<rparr>"

definition ScheduleTimeout :: "timeout_info \<Rightarrow> ticker \<Rightarrow> ticker" where
  "ScheduleTimeout ti t = t\<lparr>tk_tick := tk_tick t @ [ti]\<rparr>"

definition tick_ignored :: "timeout_info \<Rightarrow> timeout_info \<Rightarrow> bool" where
  "tick_ignored ti newti \<longleftrightarrow>
     (if ti_Height newti < ti_Height ti then True
      else if ti_Height newti = ti_Height ti then
        if ti_Round newti < ti_Round ti then True
        else if ti_Round newti = ti_Round ti then ti_Step ti > 0 \<and> ti_Step newti \<le> ti_Step ti
        else False
      else False)"

definition receive_tick :: "ticker \<Rightarrow> ticker" where
  "receive_tick t =
     (case tk_tick t of [] \<Rightarrow> t
      | newti # rest \<Rightarrow>
          if tick_ignored (tk_ti t) newti then t\<lparr>tk_tick := rest\<rparr>
          else t\<lparr>tk_tick := rest, tk_ti := newti, tk_timer := True\<rparr>)"

definition timer_fires :: "ticker \<Rightarrow> ticker" where
  "timer_fires t = (if tk_timer t then t\<lparr>tk_timer := False, tk_tock := tk_tock t @ [tk_ti t]\<rparr> else t)"

datatype ticker_event = Schedule timeout_info | Tick | Timer

fun ticker_step :: "ticker_event \<Rightarrow> ticker \<Rightarrow> ticker" where
  "ticker_step (Schedule ti) t = ScheduleTimeout ti t"
| "ticker_step Tick t = receive_tick t"
| "ticker_step Timer t = timer_fires t"

definition ti_hrs :: "timeout_info \<Rightarrow> int \<times> int \<times> int" where
  "ti_hrs ti = (ti_Height ti, ti_Round ti, ti_Step ti)"

text \<open>What fired is in order and older than the pending timeout; everything pending was scheduled.\<close>

definition ticker_inv :: "timeout_info set \<Rightarrow> ticker \<Rightarrow> bool" where
  "ticker_inv S t \<longleftrightarrow> sorted_wrt (<) (map ti_hrs (tk_tock t)) \<and> set (tk_tick t) \<subseteq> S \<and> set (tk_tock t) \<subseteq> S \<and>
     (tk_timer t \<longrightarrow> tk_ti t \<in> S) \<and> (tk_ti t \<in> S \<or> tk_ti t = zero_timeout \<and> tk_tock t = []) \<and>
     (\<forall>x \<in> set (tk_tock t). if tk_timer t then ti_hrs x < ti_hrs (tk_ti t) else ti_hrs x \<le> ti_hrs (tk_ti t))"

lemma tick_taken:
  assumes "\<not> tick_ignored ti newti" "0 < ti_Step newti" "0 \<le> ti_Step ti"
  shows "ti_hrs ti < ti_hrs newti"
  using assms by (auto simp: tick_ignored_def ti_hrs_def split: if_splits)

lemma ticker_step_inv:
  assumes i: "ticker_inv S t" and S: "\<forall>ti \<in> S. 0 < ti_Step ti" and e: "\<And>ti. e = Schedule ti \<Longrightarrow> ti \<in> S"
  shows "ticker_inv S (ticker_step e t)"
proof (cases e)
  case (Schedule ti)
  then show ?thesis using i e by (auto simp: ticker_inv_def ScheduleTimeout_def)
next
  case Timer
  then show ?thesis using i by (auto simp: ticker_inv_def timer_fires_def sorted_wrt_append)
next
  case Tick
  show ?thesis
  proof (cases "tk_tick t")
    case Nil
    then show ?thesis using i Tick by (simp add: receive_tick_def)
  next
    case (Cons newti rest)
    then have n: "newti \<in> S" "set rest \<subseteq> S" using i by (auto simp: ticker_inv_def)
    have nn: "0 \<le> ti_Step (tk_ti t)" using i S by (auto simp: ticker_inv_def zero_timeout_def intro: less_imp_le)
    have "ti_hrs x < ti_hrs newti" if "\<not> tick_ignored (tk_ti t) newti" "x \<in> set (tk_tock t)" for x
    proof -
      have "ti_hrs x \<le> ti_hrs (tk_ti t)" using i that(2) by (cases "tk_timer t") (auto simp: ticker_inv_def intro: less_imp_le)
      then show ?thesis using tick_taken [OF that(1)] S n(1) nn by (meson le_less_trans)
    qed
    then show ?thesis using i Tick Cons n by (auto simp: ticker_inv_def receive_tick_def)
  qed
qed

text \<open>
  C25: Whatever consensus schedules and whenever the timer goes off, the timeouts that fire were
  scheduled and fire in strictly increasing order of height, round and step.
\<close>

theorem Ticker_in_order:
  assumes "\<forall>ti. Schedule ti \<in> set es \<longrightarrow> 0 < ti_Step ti"
  shows "sorted_wrt (<) (map ti_hrs (tk_tock (fold ticker_step es NewTimeoutTicker))) \<and>
    (\<forall>ti \<in> set (tk_tock (fold ticker_step es NewTimeoutTicker)). Schedule ti \<in> set es)"
proof -
  let ?S = "{ti. Schedule ti \<in> set es}"
  have "ticker_inv ?S (fold ticker_step ds t)" if "ticker_inv ?S t" "set ds \<subseteq> set es" for ds t
    using that
  proof (induction ds arbitrary: t)
    case (Cons d ds)
    have "ticker_inv ?S (ticker_step d t)" by (rule ticker_step_inv [OF Cons.prems(1)]) (use assms Cons.prems(2) in auto)
    then show ?case using Cons by simp
  qed simp
  moreover have "ticker_inv ?S NewTimeoutTicker" by (simp add: ticker_inv_def NewTimeoutTicker_def)
  ultimately have "ticker_inv ?S (fold ticker_step es NewTimeoutTicker)" by blast
  then show ?thesis by (auto simp: ticker_inv_def)
qed

definition demo_timeout :: "int \<Rightarrow> int \<Rightarrow> timeout_info" where
  "demo_timeout r s = \<lparr>ti_Duration = 1, ti_Height = 1, ti_Round = r, ti_Step = s\<rparr>"

definition demo_ticks :: "ticker_event list" where
  "demo_ticks = [Schedule (demo_timeout 0 3), Tick, Schedule (demo_timeout 1 1), Timer, Tick, Schedule (demo_timeout 0 5), Tick, Timer]"

theorem Ticker_in_order_witness:
  "map ti_hrs (tk_tock (fold ticker_step demo_ticks NewTimeoutTicker)) = [(1, 0, 3), (1, 1, 1)] \<and>
   sorted_wrt (<) (map ti_hrs (tk_tock (fold ticker_step demo_ticks NewTimeoutTicker))) \<and>
   set (tk_tock (fold ticker_step demo_ticks NewTimeoutTicker)) \<subseteq> {ti. Schedule ti \<in> set demo_ticks}"
proof -
  have "\<forall>ti. Schedule ti \<in> set demo_ticks \<longrightarrow> 0 < ti_Step ti" by (auto simp: demo_ticks_def demo_timeout_def)
  note T = Ticker_in_order [OF this]
  have "map ti_hrs (tk_tock (fold ticker_step demo_ticks NewTimeoutTicker)) = [(1, 0, 3), (1, 1, 1)]"
    by (simp add: demo_ticks_def demo_timeout_def NewTimeoutTicker_def ScheduleTimeout_def receive_tick_def timer_fires_def
        tick_ignored_def zero_timeout_def ti_hrs_def)
  then show ?thesis using T by auto
qed

end
