(* ===== verification/Vote_Set.thy ===== *)
theory Vote_Set
  imports Votes
begin

text \<open>
  \<^verbatim>\<open>types/vote_set.go\<close>: the votes of one height, round and type. The maps from block keys and
  from peers are HOL maps; the \<open>blockVotes\<close> a key points to are stored back after they change.
  The reads of \<open>TotalVotingPower\<close> do not store the memo of the validator set: lemma
  \<open>TotalVotingPower_memo\<close> shows that storing it is not observable.
\<close>

section \<open>Votes for one block\<close>

record block_votes =
  bv_peerMaj23 :: bool
  bv_bitArray :: "bit_array option"
  bv_votes :: "vote option list"
  bv_sum :: int

definition newBlockVotes :: "bool \<Rightarrow> int \<Rightarrow> block_votes" where
  "newBlockVotes peerMaj23 numValidators =
     \<lparr>bv_peerMaj23 = peerMaj23, bv_bitArray = NewBitArray numValidators,
      bv_votes = replicate (nat numValidators) None, bv_sum = 0\<rparr>"

definition bv_addVerifiedVote :: "block_votes \<Rightarrow> vote \<Rightarrow> int \<Rightarrow> block_votes or_panic" where
  "bv_addVerifiedVote bv v votingPower =
     bindP (slice_at (bv_votes bv) (ValidatorIndex v)) (\<lambda>existing.
       if existing \<noteq> None then Inr bv
       else bindP (mark_index (ValidatorIndex v) (bv_bitArray bv)) (\<lambda>bA.
         Inr (bv\<lparr>bv_bitArray := bA, bv_votes := (bv_votes bv)[nat (ValidatorIndex v) := Some v],
                 bv_sum := wrap64 (bv_sum bv + votingPower)\<rparr>)))"

definition bv_getByIndex :: "block_votes option \<Rightarrow> int \<Rightarrow> vote option or_panic" where
  "bv_getByIndex bv index = (case bv of None \<Rightarrow> Inr None | Some b \<Rightarrow> slice_at (bv_votes b) index)"

section \<open>The vote set\<close>

record vote_set =
  vts_chainID :: bytes
  vts_height :: int
  vts_round :: int
  vts_type :: int
  vts_valSet :: validator_set
  vts_votesBitArray :: "bit_array option"
  vts_votes :: "vote option list"
  vts_sum :: int
  vts_maj23 :: "block_id option"
  vts_votesByBlock :: "bytes \<rightharpoonup> block_votes"
  vts_peerMaj23s :: "bytes \<rightharpoonup> block_id"

definition NewVoteSet :: "bytes \<Rightarrow> int \<Rightarrow> int \<Rightarrow> int \<Rightarrow> validator_set \<Rightarrow> vote_set or_panic" where
  "NewVoteSet chainID height round t valSet =
     (if height = 0 then Inl (PanicSanity ''Cannot make VoteSet for height == 0, doesn't make sense.'')
      else Inr \<lparr>vts_chainID = chainID, vts_height = height, vts_round = round, vts_type = t, vts_valSet = valSet,
        vts_votesBitArray = NewBitArray (vs_Size valSet), vts_votes = replicate (nat (vs_Size valSet)) None,
        vts_sum = 0, vts_maj23 = None, vts_votesByBlock = Map.empty, vts_peerMaj23s = Map.empty\<rparr>)"

definition vts_Height :: "vote_set option \<Rightarrow> int" where
  "vts_Height s = (case s of None \<Rightarrow> 0 | Some s \<Rightarrow> vts_height s)"

definition vts_Round :: "vote_set option \<Rightarrow> int" where
  "vts_Round s = (case s of None \<Rightarrow> - 1 | Some s \<Rightarrow> vts_round s)"

definition vts_Type :: "vote_set option \<Rightarrow> int" where
  "vts_Type s = (case s of None \<Rightarrow> 0 | Some s \<Rightarrow> vts_type s)"

definition vts_Size :: "vote_set option \<Rightarrow> int" where
  "vts_Size s = (case s of None \<Rightarrow> 0 | Some s \<Rightarrow> vs_Size (vts_valSet s))"

definition getVote :: "'e ext_scheme \<Rightarrow> vote_set \<Rightarrow> int \<Rightarrow> bytes \<Rightarrow> vote option or_panic" where
  "getVote E s valIndex blockKey =
     bindP (slice_at (vts_votes s) valIndex) (\<lambda>existing.
       case existing of
         Some ex \<Rightarrow> if bid_Key E (vote_BlockID ex) = blockKey then Inr (Some ex)
                    else bv_getByIndex (vts_votesByBlock s blockKey) valIndex
       | None \<Rightarrow> bv_getByIndex (vts_votesByBlock s blockKey) valIndex)"

text \<open>
  \<open>addVerifiedVote\<close> in three steps, as the function has them: the entry in \<open>votes\<close> with the
  conflicting vote found there, the entry in \<open>votesByBlock\<close>, the quorum.
\<close>

definition store_vote :: "vote \<Rightarrow> vote_set \<Rightarrow> vote_set or_panic" where
  "store_vote v s =
     bindP (mark_index (ValidatorIndex v) (vts_votesBitArray s)) (\<lambda>bA.
       Inr (s\<lparr>vts_votes := (vts_votes s)[nat (ValidatorIndex v) := Some v], vts_votesBitArray := bA\<rparr>))"

definition record_vote :: "'e ext_scheme \<Rightarrow> vote_set \<Rightarrow> vote \<Rightarrow> bytes \<Rightarrow> int \<Rightarrow> (vote option \<times> vote_set) or_panic" where
  "record_vote E s v blockKey votingPower =
     bindP (slice_at (vts_votes s) (ValidatorIndex v)) (\<lambda>existing.
       case existing of
         Some ex \<Rightarrow>
           if bid_Equals (vote_BlockID ex) (vote_BlockID v)
           then Inl (PanicSanity ''addVerifiedVote does not expect duplicate votes'')
           else if vts_maj23 s \<noteq> None \<and> bid_Key E (the (vts_maj23 s)) = blockKey
           then bindP (store_vote v s) (\<lambda>s'. Inr (Some ex, s'))
           else Inr (Some ex, s)
       | None \<Rightarrow>
           bindP (store_vote v s) (\<lambda>s'. Inr (None, s'\<lparr>vts_sum := wrap64 (vts_sum s' + votingPower)\<rparr>)))"

fun copy_votes :: "vote option list \<Rightarrow> vote option list \<Rightarrow> vote option list or_panic" where
  "copy_votes [] vs = Inr vs"
| "copy_votes (None # bs) (v # vs) = bindP (copy_votes bs vs) (\<lambda>r. Inr (v # r))"
| "copy_votes (Some b # bs) (v # vs) = bindP (copy_votes bs vs) (\<lambda>r. Inr (Some b # r))"
| "copy_votes (None # bs) [] = copy_votes bs []"
| "copy_votes (Some b # bs) [] = Inl IndexOutOfRange"

definition count_vote :: "vote_set \<Rightarrow> vote \<Rightarrow> bytes \<Rightarrow> int \<Rightarrow> block_votes \<Rightarrow> vote_set or_panic" where
  "count_vote s v blockKey votingPower votesByBlock =
     (let origSum = bv_sum votesByBlock; quorum = wrap64 (two_thirds (total_power (vts_valSet s)) + 1) in
      bindP (bv_addVerifiedVote votesByBlock v votingPower) (\<lambda>bv.
      let s1 = s\<lparr>vts_votesByBlock := (vts_votesByBlock s)(blockKey \<mapsto> bv)\<rparr> in
      if origSum < quorum \<and> quorum \<le> bv_sum bv \<and> vts_maj23 s1 = None
      then bindP (copy_votes (bv_votes bv) (vts_votes s1)) (\<lambda>votes.
        Inr (s1\<lparr>vts_maj23 := Some (vote_BlockID v), vts_votes := votes\<rparr>))
      else Inr s1))"

definition addVerifiedVote ::
  "'e ext_scheme \<Rightarrow> vote_set \<Rightarrow> vote \<Rightarrow> bytes \<Rightarrow> int \<Rightarrow> (bool \<times> vote option \<times> vote_set) or_panic" where
  "addVerifiedVote E s v blockKey votingPower =
     bindP (record_vote E s v blockKey votingPower) (\<lambda>(conflicting, s1).
       case vts_votesByBlock s1 blockKey of
         Some bv \<Rightarrow>
           if conflicting \<noteq> None \<and> \<not> bv_peerMaj23 bv then Inr (False, conflicting, s1)
           else bindP (count_vote s1 v blockKey votingPower bv) (\<lambda>s2. Inr (True, conflicting, s2))
       | None \<Rightarrow>
           if conflicting \<noteq> None then Inr (False, conflicting, s1)
           else bindP (count_vote s1 v blockKey votingPower (newBlockVotes False (vs_Size (vts_valSet s1)))) (\<lambda>s2.
             Inr (True, conflicting, s2)))"

definition add_from :: "'e ext_scheme \<Rightarrow> vote_set \<Rightarrow> vote \<Rightarrow> validator \<Rightarrow> (bool \<times> vote_error option \<times> vote_set) or_panic" where
  "add_from E s v val =
     (let valIndex = ValidatorIndex v; blockKey = bid_Key E (vote_BlockID v) in
      bindP (getVote E s valIndex blockKey) (\<lambda>known.
        case known of
          Some existing \<Rightarrow> bindP (deref (vote_Signature existing)) (\<lambda>sig.
            if sig_Equals sig (vote_Signature v) then Inr (False, None, s)
            else Inr (False, Some ErrVoteNonDeterministicSignature, s))
        | None \<Rightarrow>
            bindP (vote_Verify E (vts_chainID s) v (v_PubKey val)) (\<lambda>err.
              if err \<noteq> None then Inr (False, err, s)
              else bindP (addVerifiedVote E s v blockKey (VotingPower val)) (\<lambda>(added, conflicting, s').
                case conflicting of
                  Some c \<Rightarrow> Inr (added, Some (NewConflictingVoteError val c v), s')
                | None \<Rightarrow>
                    if \<not> added then Inl (PanicSanity ''Expected to add non-conflicting vote'')
                    else Inr (added, None, s')))))"

definition vts_addVote :: "'e ext_scheme \<Rightarrow> vote_set \<Rightarrow> vote option \<Rightarrow> (bool \<times> vote_error option \<times> vote_set) or_panic" where
  "vts_addVote E s vo =
     (case vo of None \<Rightarrow> Inr (False, Some ErrVoteNil, s)
      | Some v \<Rightarrow>
          let valIndex = ValidatorIndex v; valAddr = ValidatorAddress v in
          if valIndex < 0 then Inr (False, Some ErrVoteInvalidValidatorIndex, s)
          else if length valAddr = 0 then Inr (False, Some ErrVoteInvalidValidatorAddress, s)
          else if vote_Height v \<noteq> vts_height s \<or> vote_Round v \<noteq> vts_round s \<or> vote_Type v \<noteq> vts_type s
          then Inr (False, Some ErrVoteUnexpectedStep, s)
          else case GetByIndex (vts_valSet s) valIndex of
            (_, None) \<Rightarrow> Inr (False, Some ErrVoteInvalidValidatorIndex, s)
          | (lookupAddr, Some val) \<Rightarrow>
              if valAddr \<noteq> lookupAddr then Inr (False, Some ErrVoteInvalidValidatorAddress, s)
              else add_from E s v val)"

definition vts_AddVote :: "'e ext_scheme \<Rightarrow> vote_set option \<Rightarrow> vote option \<Rightarrow> (bool \<times> vote_error option \<times> vote_set) or_panic" where
  "vts_AddVote E s v =
     (case s of None \<Rightarrow> Inl (PanicSanity ''AddVote() on nil VoteSet'') | Some s \<Rightarrow> vts_addVote E s v)"

datatype peer_error = ErrConflictingBlockID

definition vts_SetPeerMaj23 ::
  "'e ext_scheme \<Rightarrow> vote_set option \<Rightarrow> bytes \<Rightarrow> block_id \<Rightarrow> (peer_error option \<times> vote_set) or_panic" where
  "vts_SetPeerMaj23 E so peerID blockID =
     (case so of None \<Rightarrow> Inl (PanicSanity ''SetPeerMaj23() on nil VoteSet'')
      | Some s \<Rightarrow>
          let blockKey = bid_Key E blockID in
          case vts_peerMaj23s s peerID of
            Some existing \<Rightarrow>
              if bid_Equals existing blockID then Inr (None, s) else Inr (Some ErrConflictingBlockID, s)
          | None \<Rightarrow>
              let s1 = s\<lparr>vts_peerMaj23s := (vts_peerMaj23s s)(peerID \<mapsto> blockID)\<rparr> in
              case vts_votesByBlock s1 blockKey of
                Some bv \<Rightarrow>
                  if bv_peerMaj23 bv then Inr (None, s1)
                  else Inr (None, s1\<lparr>vts_votesByBlock := (vts_votesByBlock s1)(blockKey \<mapsto> bv\<lparr>bv_peerMaj23 := True\<rparr>)\<rparr>)
              | None \<Rightarrow>
                  Inr (None, s1\<lparr>vts_votesByBlock :=
                    (vts_votesByBlock s1)(blockKey \<mapsto> newBlockVotes True (vs_Size (vts_valSet s1)))\<rparr>))"

definition vts_BitArray :: "vote_set option \<Rightarrow> bit_array option" where
  "vts_BitArray s = (case s of None \<Rightarrow> None | Some s \<Rightarrow> vts_votesBitArray s)"

definition BitArrayByBlockID :: "'e ext_scheme \<Rightarrow> vote_set option \<Rightarrow> block_id \<Rightarrow> bit_array option" where
  "BitArrayByBlockID E s blockID =
     (case s of None \<Rightarrow> None
      | Some s \<Rightarrow> (case vts_votesByBlock s (bid_Key E blockID) of None \<Rightarrow> None | Some bv \<Rightarrow> bv_bitArray bv))"

definition vts_GetByIndex :: "vote_set option \<Rightarrow> int \<Rightarrow> vote option or_panic" where
  "vts_GetByIndex s valIndex = (case s of None \<Rightarrow> Inr None | Some s \<Rightarrow> slice_at (vts_votes s) valIndex)"

definition vts_GetByAddress :: "vote_set option \<Rightarrow> address \<Rightarrow> vote option or_panic" where
  "vts_GetByAddress s address =
     (case s of None \<Rightarrow> Inr None
      | Some s \<Rightarrow>
          (case GetByAddress (vts_valSet s) address of
             (_, None) \<Rightarrow> Inl (PanicSanity ''GetByAddress(address) returned nil'')
           | (valIndex, Some _) \<Rightarrow> slice_at (vts_votes s) valIndex))"

definition HasTwoThirdsMajority :: "vote_set option \<Rightarrow> bool" where
  "HasTwoThirdsMajority s = (case s of None \<Rightarrow> False | Some s \<Rightarrow> vts_maj23 s \<noteq> None)"

definition vts_IsCommit :: "vote_set option \<Rightarrow> bool" where
  "vts_IsCommit s = (case s of None \<Rightarrow> False
     | Some s \<Rightarrow> if vts_type s \<noteq> VoteTypePrecommit then False else vts_maj23 s \<noteq> None)"

definition HasTwoThirdsAny :: "vote_set option \<Rightarrow> bool" where
  "HasTwoThirdsAny s = (case s of None \<Rightarrow> False | Some s \<Rightarrow> vts_sum s > two_thirds (total_power (vts_valSet s)))"

definition HasAll :: "vote_set \<Rightarrow> bool" where
  "HasAll s \<longleftrightarrow> vts_sum s = total_power (vts_valSet s)"

definition TwoThirdsMajority :: "vote_set option \<Rightarrow> block_id \<times> bool" where
  "TwoThirdsMajority s =
     (case s of None \<Rightarrow> (zero_bid, False)
      | Some s \<Rightarrow> (case vts_maj23 s of Some b \<Rightarrow> (b, True) | None \<Rightarrow> (zero_bid, False)))"

definition MakeCommit :: "vote_set \<Rightarrow> commit or_panic" where
  "MakeCommit s =
     (if vts_type s \<noteq> VoteTypePrecommit
      then Inl (PanicSanity ''Cannot MakeCommit() unless VoteSet.Type is VoteTypePrecommit'')
      else case vts_maj23 s of
        None \<Rightarrow> Inl (PanicSanity ''Cannot MakeCommit() unless a blockhash has +2/3'')
      | Some b \<Rightarrow> Inr \<lparr>commit_BlockID = b, Precommits = vts_votes s\<rparr>)"

section \<open>The invariant\<close>

definition present :: "vote option list \<Rightarrow> nat set" where
  "present vs = {i. i < length vs \<and> vs ! i \<noteq> None}"

definition bits_match :: "bit_array option \<Rightarrow> vote option list \<Rightarrow> bool" where
  "bits_match bA vs \<longleftrightarrow> (case bA of None \<Rightarrow> vs = []
     | Some a \<Rightarrow> ba_wf a \<and> Bits a = int (length vs) \<and> (\<forall>i < length vs. ba_test a i \<longleftrightarrow> vs ! i \<noteq> None))"

text \<open>A vote of the set's step by the validator of its index, which signed it. The block ids voted for are in \<open>B\<close>.\<close>

definition vote_ok :: "'e ext_scheme \<Rightarrow> block_id set \<Rightarrow> vote_set \<Rightarrow> nat \<Rightarrow> vote \<Rightarrow> bool" where
  "vote_ok E B s i v \<longleftrightarrow> i < length (Validators (vts_valSet s)) \<and> ValidatorIndex v = int i \<and>
     vote_Height v = vts_height s \<and> vote_Round v = vts_round s \<and> vote_Type v = vts_type s \<and> vote_BlockID v \<in> B \<and>
     ValidatorAddress v = v_Address (Validators (vts_valSet s) ! i) \<and>
     (\<exists>k. v_PubKey (Validators (vts_valSet s) ! i) = Some k \<and> pk_Address E k = ValidatorAddress v \<and>
        VerifyBytes E k (vote_SignBytes E (vts_chainID s) v) (vote_Signature v))"

definition power_of :: "vote_set \<Rightarrow> nat set \<Rightarrow> int" where
  "power_of s = voting_power (Validators (vts_valSet s))"

definition bv_wf :: "'e ext_scheme \<Rightarrow> block_id set \<Rightarrow> vote_set \<Rightarrow> bytes \<Rightarrow> block_votes \<Rightarrow> bool" where
  "bv_wf E B s key bv \<longleftrightarrow> length (bv_votes bv) = length (Validators (vts_valSet s)) \<and>
     bits_match (bv_bitArray bv) (bv_votes bv) \<and> bv_sum bv = power_of s (present (bv_votes bv)) \<and>
     (\<forall>i v. i < length (bv_votes bv) \<longrightarrow> bv_votes bv ! i = Some v \<longrightarrow> vote_ok E B s i v \<and> bid_Key E (vote_BlockID v) = key)"

definition majority :: "vote_set \<Rightarrow> int \<Rightarrow> bool" where
  "majority s t \<longleftrightarrow> 2 * total_power (vts_valSet s) < 3 * t"

text \<open>
  The votes are counted, in total and per block; the first majority is recorded, and the
  votes that make it up are the canonical ones. Indices in \<open>I\<close> are being added.
\<close>

definition votes_wf :: "'e ext_scheme \<Rightarrow> block_id set \<Rightarrow> vote_set \<Rightarrow> bool" where
  "votes_wf E B s \<longleftrightarrow> length (vts_votes s) = length (Validators (vts_valSet s)) \<and>
     bits_match (vts_votesBitArray s) (vts_votes s) \<and> vts_sum s = power_of s (present (vts_votes s)) \<and>
     (\<forall>i v. i < length (vts_votes s) \<longrightarrow> vts_votes s ! i = Some v \<longrightarrow>
        vote_ok E B s i v \<and> vts_votesByBlock s (bid_Key E (vote_BlockID v)) \<noteq> None)"

definition blocks_wf :: "'e ext_scheme \<Rightarrow> block_id set \<Rightarrow> vote_set \<Rightarrow> bool" where
  "blocks_wf E B s \<longleftrightarrow> (\<forall>key bv. vts_votesByBlock s key = Some bv \<longrightarrow>
     bv_wf E B s key bv \<and> present (bv_votes bv) \<subseteq> present (vts_votes s))"

definition open_wf :: "'e ext_scheme \<Rightarrow> nat set \<Rightarrow> vote_set \<Rightarrow> bool" where
  "open_wf E I s \<longleftrightarrow> (vts_maj23 s = None \<longrightarrow>
     (\<forall>key bv. vts_votesByBlock s key = Some bv \<longrightarrow> \<not> majority s (bv_sum bv)) \<and>
     (\<forall>i v. i < length (vts_votes s) \<longrightarrow> i \<notin> I \<longrightarrow> vts_votes s ! i = Some v \<longrightarrow>
        (\<exists>bv. vts_votesByBlock s (bid_Key E (vote_BlockID v)) = Some bv \<and> i \<in> present (bv_votes bv))))"

definition decided_wf :: "'e ext_scheme \<Rightarrow> block_id set \<Rightarrow> vote_set \<Rightarrow> bool" where
  "decided_wf E B s \<longleftrightarrow> (\<forall>b. vts_maj23 s = Some b \<longrightarrow> b \<in> B \<and>
     (\<exists>bv. vts_votesByBlock s (bid_Key E b) = Some bv \<and> majority s (bv_sum bv) \<and>
        (\<forall>i \<in> present (bv_votes bv). \<exists>v. vts_votes s ! i = Some v \<and> bid_Key E (vote_BlockID v) = bid_Key E b)))"

definition vts_inv :: "'e ext_scheme \<Rightarrow> block_id set \<Rightarrow> nat set \<Rightarrow> vote_set \<Rightarrow> bool" where
  "vts_inv E B I s \<longleftrightarrow> votes_wf E B s \<and> blocks_wf E B s \<and> open_wf E I s \<and> decided_wf E B s"

lemmas vts_inv_defs = vts_inv_def votes_wf_def blocks_wf_def open_wf_def decided_wf_def

text \<open>What a vote set is of: fixed when it is made.\<close>

definition same_step :: "vote_set \<Rightarrow> vote_set \<Rightarrow> bool" where
  "same_step s s' \<longleftrightarrow> vts_chainID s' = vts_chainID s \<and> vts_height s' = vts_height s \<and> vts_round s' = vts_round s \<and>
     vts_type s' = vts_type s \<and> vts_valSet s' = vts_valSet s"

lemma same_step_ok:
  assumes "same_step s s'"
  shows "vote_ok E B s' = vote_ok E B s" "power_of s' = power_of s" "bv_wf E B s' = bv_wf E B s" "majority s' = majority s"
  using assms by (auto simp: same_step_def vote_ok_def power_of_def bv_wf_def majority_def fun_eq_iff)

lemma step_fields [simp]:
  "vote_ok E B (s\<lparr>vts_votesByBlock := x0\<rparr>) = vote_ok E B s" "power_of (s\<lparr>vts_votesByBlock := x0\<rparr>) = power_of s"
  "bv_wf E B (s\<lparr>vts_votesByBlock := x0\<rparr>) = bv_wf E B s" "majority (s\<lparr>vts_votesByBlock := x0\<rparr>) = majority s"
  "vote_ok E B (s\<lparr>vts_votes := x1\<rparr>) = vote_ok E B s" "power_of (s\<lparr>vts_votes := x1\<rparr>) = power_of s"
  "bv_wf E B (s\<lparr>vts_votes := x1\<rparr>) = bv_wf E B s" "majority (s\<lparr>vts_votes := x1\<rparr>) = majority s"
  "vote_ok E B (s\<lparr>vts_votesBitArray := x2\<rparr>) = vote_ok E B s" "power_of (s\<lparr>vts_votesBitArray := x2\<rparr>) = power_of s"
  "bv_wf E B (s\<lparr>vts_votesBitArray := x2\<rparr>) = bv_wf E B s" "majority (s\<lparr>vts_votesBitArray := x2\<rparr>) = majority s"
  "vote_ok E B (s\<lparr>vts_sum := x3\<rparr>) = vote_ok E B s" "power_of (s\<lparr>vts_sum := x3\<rparr>) = power_of s"
  "bv_wf E B (s\<lparr>vts_sum := x3\<rparr>) = bv_wf E B s" "majority (s\<lparr>vts_sum := x3\<rparr>) = majority s"
  "vote_ok E B (s\<lparr>vts_maj23 := x4\<rparr>) = vote_ok E B s" "power_of (s\<lparr>vts_maj23 := x4\<rparr>) = power_of s"
  "bv_wf E B (s\<lparr>vts_maj23 := x4\<rparr>) = bv_wf E B s" "majority (s\<lparr>vts_maj23 := x4\<rparr>) = majority s"
  "vote_ok E B (s\<lparr>vts_peerMaj23s := x5\<rparr>) = vote_ok E B s" "power_of (s\<lparr>vts_peerMaj23s := x5\<rparr>) = power_of s"
  "bv_wf E B (s\<lparr>vts_peerMaj23s := x5\<rparr>) = bv_wf E B s" "majority (s\<lparr>vts_peerMaj23s := x5\<rparr>) = majority s"
  by (simp_all add: vote_ok_def power_of_def bv_wf_def majority_def fun_eq_iff)

lemma blocksD: "blocks_wf E B s \<Longrightarrow> vts_votesByBlock s key = Some bv \<Longrightarrow>
   bv_wf E B s key bv \<and> present (bv_votes bv) \<subseteq> present (vts_votes s)"
  unfolding blocks_wf_def by blast

lemma openD: "open_wf E I s \<Longrightarrow> vts_maj23 s = None \<Longrightarrow> vts_votesByBlock s key = Some bv \<Longrightarrow> \<not> majority s (bv_sum bv)"
  unfolding open_wf_def by blast

lemma openD2: "open_wf E I s \<Longrightarrow> vts_maj23 s = None \<Longrightarrow> i < length (vts_votes s) \<Longrightarrow> i \<notin> I \<Longrightarrow> vts_votes s ! i = Some v \<Longrightarrow>
   \<exists>bv. vts_votesByBlock s (bid_Key E (vote_BlockID v)) = Some bv \<and> i \<in> present (bv_votes bv)"
  unfolding open_wf_def by blast

section \<open>Lemmas on its parts\<close>

lemma present_update: "i < length vs \<Longrightarrow> present (vs[i := Some v]) = insert i (present vs)"
  by (auto simp: present_def nth_list_update)

lemma present_replicate [simp]: "present (replicate n None) = {}"
  by (auto simp: present_def)

lemma present_less: "i \<in> present vs \<Longrightarrow> i < length vs"
  by (simp add: present_def)

lemma bits_match_new: "bits_match (NewBitArray (int n)) (replicate n None)"
proof (cases "NewBitArray (int n)")
  case None
  then show ?thesis by (simp add: bits_match_def NewBitArray_def split: if_splits)
next
  case (Some a)
  then show ?thesis
    using NewBitArray_wf [OF Some] NewBitArray_Bits [OF Some] NewBitArray_test [OF Some] by (simp add: bits_match_def)
qed

lemma bits_match_cong:
  assumes "bits_match bA vs" "length ws = length vs" "present ws = present vs"
  shows "bits_match bA ws"
proof -
  have "ws ! i \<noteq> None \<longleftrightarrow> vs ! i \<noteq> None" if "i < length vs" for i
    using assms(2,3) that by (auto simp: present_def set_eq_iff)
  then show ?thesis using assms by (cases bA) (auto simp: bits_match_def)
qed

lemma mark_match:
  assumes "bits_match bA vs" "i < length vs"
  shows "\<exists>bA'. mark_index (int i) bA = Inr bA' \<and> bits_match bA' (vs[i := Some v])"
proof (cases bA)
  case None
  then show ?thesis using assms by (simp add: bits_match_def)
next
  case (Some a)
  have a: "ba_wf a" "int i < Bits a" "Bits a = int (length vs)" using assms Some by (simp_all add: bits_match_def)
  have "mark_index (int i) bA = Inr (Some (ba_put i True a))"
    using setIndex_put [OF a(1,2), of True] Some by (simp add: mark_index_def SetIndex_def)
  moreover have "ba_test (ba_put i True a) j \<longleftrightarrow> vs[i := Some v] ! j \<noteq> None" if "j < length vs" for j
    using assms a that Some by (cases "j = i") (simp_all add: ba_test_put bits_match_def)
  ultimately show ?thesis using a ba_put_wf [OF a(1)] by (simp add: bits_match_def)
qed

lemma copy_votes_spec:
  "length bs = length vs \<Longrightarrow> \<exists>ws. copy_votes bs vs = Inr ws \<and> length ws = length vs \<and>
     (\<forall>i < length vs. ws ! i = (if bs ! i = None then vs ! i else bs ! i))"
proof (induction bs vs rule: copy_votes.induct)
  case (2 bs v vs)
  then obtain ws where "copy_votes bs vs = Inr ws \<and> length ws = length vs \<and>
     (\<forall>i < length vs. ws ! i = (if bs ! i = None then vs ! i else bs ! i))" by auto
  then show ?case by (auto simp: nth_Cons split: nat.splits)
next
  case (3 b bs v vs)
  then obtain ws where "copy_votes bs vs = Inr ws \<and> length ws = length vs \<and>
     (\<forall>i < length vs. ws ! i = (if bs ! i = None then vs ! i else bs ! i))" by auto
  then show ?case by (auto simp: nth_Cons split: nat.splits)
qed simp_all

lemma quorum_le:
  assumes "quorum_ok vs"
  shows "wrap64 (two_thirds (total_power vs) + 1) \<le> t \<longleftrightarrow> 2 * total_power vs < 3 * t"
proof -
  have "0 \<le> total_power vs"
    using assms voting_power_nonneg [of "Validators vs" "{..<length (Validators vs)}"]
    by (simp add: quorum_total voting_power_all quorum_ok_def)
  moreover have "2 * total_power vs \<le> MaxInt64" using assms by (simp add: quorum_total quorum_ok_def)
  ultimately have "in64 (two_thirds (total_power vs) + 1)"
    by (simp add: two_thirds_def go_quot_nonneg in64_def int64_defs)
  then show ?thesis using two_thirds_less [OF assms, of t] by (simp add: add1_zle_eq)
qed

lemma new_bv_wf: "n = length (Validators (vts_valSet s)) \<Longrightarrow> bv_wf E B s key (newBlockVotes p (int n))"
  by (simp add: bv_wf_def newBlockVotes_def bits_match_new power_of_def)

lemma bv_add_spec:
  assumes "bv_wf E B s key bv" "vote_ok E B s i v" "bid_Key E (vote_BlockID v) = key" "bv_votes bv ! i = None"
    and P: "powers_ok (Validators (vts_valSet s))"
  shows "\<exists>bv'. bv_addVerifiedVote bv v (VotingPower (Validators (vts_valSet s) ! i)) = Inr bv' \<and> bv_wf E B s key bv' \<and>
    bv_votes bv' = (bv_votes bv)[i := Some v]"
proof -
  let ?vals = "Validators (vts_valSet s)"
  have i: "i < length (bv_votes bv)" "i < length ?vals" "ValidatorIndex v = int i"
    using assms(1,2) by (simp_all add: vote_ok_def bv_wf_def)
  obtain bA where bA: "mark_index (int i) (bv_bitArray bv) = Inr bA" "bits_match bA ((bv_votes bv)[i := Some v])"
    using mark_match [of "bv_bitArray bv" "bv_votes bv" i v] assms(1) i by (auto simp: bv_wf_def)
  have "i \<notin> present (bv_votes bv)" using assms(4) by (simp add: present_def)
  then have "wrap64 (bv_sum bv + VotingPower (?vals ! i)) = power_of s (present ((bv_votes bv)[i := Some v]))"
    using wrap64_id [OF voting_power_in64 [OF P, of "insert i (present (bv_votes bv))"]] assms(1) i
    by (simp add: bv_wf_def power_of_def voting_power_insert present_update)
  moreover have "bv_addVerifiedVote bv v (VotingPower (?vals ! i)) =
      Inr (bv\<lparr>bv_bitArray := bA, bv_votes := (bv_votes bv)[i := Some v], bv_sum := wrap64 (bv_sum bv + VotingPower (?vals ! i))\<rparr>)"
    using i assms(4) bA by (simp add: bv_addVerifiedVote_def slice_at_def)
  moreover have "vote_ok E B s j w \<and> bid_Key E (vote_BlockID w) = key"
    if "j < length (bv_votes bv)" "(bv_votes bv)[i := Some v] ! j = Some w" for j w
    using that assms(1,2,3) by (cases "j = i") (auto simp: bv_wf_def)
  ultimately show ?thesis using bA assms(1) by (simp add: bv_wf_def)
qed

section \<open>Counting a vote keeps the invariant\<close>

text \<open>The set with an entry for the block key, as \<open>count_vote\<close> finds it.\<close>

abbreviation (input) track :: "bytes \<Rightarrow> block_votes \<Rightarrow> vote_set \<Rightarrow> vote_set" where
  "track key bv s \<equiv> s\<lparr>vts_votesByBlock := (vts_votesByBlock s)(key \<mapsto> bv)\<rparr>"

definition countable :: "'e ext_scheme \<Rightarrow> block_id set \<Rightarrow> nat set \<Rightarrow> vote_set \<Rightarrow> nat \<Rightarrow> vote \<Rightarrow> bytes \<Rightarrow> block_votes \<Rightarrow> bool" where
  "countable E B I s i v key bv \<longleftrightarrow> quorum_ok (vts_valSet s) \<and> vts_inv E B I (track key bv s) \<and> I \<subseteq> {i} \<and>
     vote_ok E B s i v \<and> bid_Key E (vote_BlockID v) = key \<and> bv_votes bv ! i = None \<and> i \<in> present (vts_votes s) \<and>
     (i \<in> I \<longrightarrow> vts_votes s ! i = Some v) \<and>
     (\<forall>b. vts_maj23 s = Some b \<longrightarrow> bid_Key E b = key \<longrightarrow> (\<exists>w. vts_votes s ! i = Some w \<and> bid_Key E (vote_BlockID w) = key))"

lemma countable_inv:
  assumes "countable E B I s i v key bv"
  shows "votes_wf E B (track key bv s)" "blocks_wf E B (track key bv s)" "open_wf E I (track key bv s)"
    "decided_wf E B (track key bv s)" "I \<subseteq> {i}"
  using assms unfolding countable_def vts_inv_def by blast+

lemma countable_bv:
  assumes "countable E B I s i v key bv"
  shows "bv_wf E B s key bv" "present (bv_votes bv) \<subseteq> present (vts_votes s)" "powers_ok (Validators (vts_valSet s))"
proof -
  note b = countable_inv(2) [OF assms]
  from blocksD [OF b, of key bv]
  show "bv_wf E B s key bv" "present (bv_votes bv) \<subseteq> present (vts_votes s)" by simp_all
qed (use assms in \<open>simp add: countable_def quorum_ok_def\<close>)

lemma track_wf:
  assumes c: "countable E B I s i v key bv" and bv': "bv_wf E B s key bv'" "bv_votes bv' = (bv_votes bv)[i := Some v]"
  shows "votes_wf E B (track key bv' s)" "blocks_wf E B (track key bv' s)" "decided_wf E B (track key bv' s)"
proof -
  note inv = countable_inv(1,2,4) [OF c]
  note bv = countable_bv [OF c]
  have i: "i < length (bv_votes bv)" using c bv(1) by (simp add: countable_def vote_ok_def bv_wf_def)
  have pr: "present (bv_votes bv') = insert i (present (bv_votes bv))" by (simp add: bv'(2) present_update i)
  have ip: "i \<in> present (vts_votes s)" using c by (simp add: countable_def)
  show "votes_wf E B (track key bv' s)" using inv(1) by (auto simp: votes_wf_def)
  show "blocks_wf E B (track key bv' s)"
    unfolding blocks_wf_def
  proof (intro allI impI)
    fix k x assume x: "vts_votesByBlock (track key bv' s) k = Some x"
    show "bv_wf E B (track key bv' s) k x \<and> present (bv_votes x) \<subseteq> present (vts_votes (track key bv' s))"
    proof (cases "k = key")
      case True
      with x have "x = bv'" by simp
      with True show ?thesis using bv'(1) pr bv(2) ip by simp
    next
      case False
      with x have "vts_votesByBlock (track key bv s) k = Some x" by simp
      from blocksD [OF inv(2) this] show ?thesis by simp
    qed
  qed
  have more: "majority s (bv_sum bv) \<Longrightarrow> majority s (bv_sum bv')"
    using bv(1,3) bv'(1) pr voting_power_mono [of "Validators (vts_valSet s)" "present (bv_votes bv)" "present (bv_votes bv')"]
    by (simp add: majority_def bv_wf_def power_of_def subset_insertI)
  show "decided_wf E B (track key bv' s)"
    unfolding decided_wf_def
  proof (intro allI impI conjI)
    fix b assume "vts_maj23 (track key bv' s) = Some b"
    then have b: "vts_maj23 s = Some b" by simp
    show "b \<in> B" using inv(3) b by (simp add: decided_wf_def)
    show "\<exists>x. vts_votesByBlock (track key bv' s) (bid_Key E b) = Some x \<and> majority (track key bv' s) (bv_sum x) \<and>
        (\<forall>j \<in> present (bv_votes x). \<exists>w. vts_votes (track key bv' s) ! j = Some w \<and> bid_Key E (vote_BlockID w) = bid_Key E b)"
    proof (cases "bid_Key E b = key")
      case True
      then have "majority s (bv_sum bv)" "\<forall>j \<in> present (bv_votes bv). \<exists>w. vts_votes s ! j = Some w \<and> bid_Key E (vote_BlockID w) = key"
        using inv(3) b unfolding decided_wf_def by simp_all
      moreover have "\<exists>w. vts_votes s ! i = Some w \<and> bid_Key E (vote_BlockID w) = key"
        using c b True by (simp add: countable_def)
      ultimately show ?thesis using True more pr by simp
    next
      case False
      then show ?thesis using inv(3) b by (simp add: decided_wf_def)
    qed
  qed
qed

lemma track_open:
  assumes c: "countable E B I s i v key bv" and bv': "bv_wf E B s key bv'" "bv_votes bv' = (bv_votes bv)[i := Some v]"
    and n: "vts_maj23 s = None \<Longrightarrow> \<not> majority s (bv_sum bv')"
  shows "open_wf E {} (track key bv' s)"
  unfolding open_wf_def
proof (intro impI conjI allI)
  note inv = countable_inv(3,5) [OF c]
  have i: "i < length (bv_votes bv)" using c countable_bv(1) [OF c] by (simp add: countable_def vote_ok_def bv_wf_def)
  have pr: "present (bv_votes bv') = insert i (present (bv_votes bv))" by (simp add: bv'(2) present_update i)
  assume "vts_maj23 (track key bv' s) = None"
  then have m: "vts_maj23 s = None" by simp
  fix k x assume "vts_votesByBlock (track key bv' s) k = Some x"
  then show "\<not> majority (track key bv' s) (bv_sum x)"
    using openD [OF inv(1), of k x] m n [OF m] by (cases "k = key") simp_all
next
  fix j w
  note inv = countable_inv(3,5) [OF c]
  have i: "i < length (bv_votes bv)" using c countable_bv(1) [OF c] by (simp add: countable_def vote_ok_def bv_wf_def)
  have pr: "present (bv_votes bv') = insert i (present (bv_votes bv))" by (simp add: bv'(2) present_update i)
  assume m: "vts_maj23 (track key bv' s) = None" and j: "j < length (vts_votes (track key bv' s))" "vts_votes (track key bv' s) ! j = Some w"
  show "\<exists>x. vts_votesByBlock (track key bv' s) (bid_Key E (vote_BlockID w)) = Some x \<and> j \<in> present (bv_votes x)"
  proof (cases "j \<in> I")
    case True
    then have "j = i" "w = v" using inv(2) c j by (auto simp: countable_def)
    then show ?thesis using c pr by (simp add: countable_def)
  next
    case False
    then obtain x where "vts_votesByBlock (track key bv s) (bid_Key E (vote_BlockID w)) = Some x" "j \<in> present (bv_votes x)"
      using openD2 [OF inv(1), of j w] m j False by auto
    then show ?thesis using pr by (cases "bid_Key E (vote_BlockID w) = key") auto
  qed
qed

lemma decide_inv:
  assumes w: "votes_wf E B s" "blocks_wf E B s"
    and bv: "vts_votesByBlock s (bid_Key E b) = Some bv" "b \<in> B" "majority s (bv_sum bv)"
    and ws: "length ws = length (vts_votes s)"
      "\<And>j. j < length (vts_votes s) \<Longrightarrow> ws ! j = (if bv_votes bv ! j = None then vts_votes s ! j else bv_votes bv ! j)"
  shows "vts_inv E B {} (s\<lparr>vts_maj23 := Some b, vts_votes := ws\<rparr>)"
proof -
  let ?s = "s\<lparr>vts_maj23 := Some b, vts_votes := ws\<rparr>"
  have b: "bv_wf E B s (bid_Key E b) bv" "present (bv_votes bv) \<subseteq> present (vts_votes s)" using w(2) bv(1) by (simp_all add: blocks_wf_def)
  have len: "length (bv_votes bv) = length (vts_votes s)" using b(1) w(1) by (simp add: bv_wf_def votes_wf_def)
  have pr: "present ws = present (vts_votes s)"
  proof -
    have "j \<in> present ws \<longleftrightarrow> j \<in> present (vts_votes s)" if "j < length (vts_votes s)" for j
      using b(2) ws(1) ws(2) [OF that] len that by (cases "bv_votes bv ! j") (auto simp: present_def)
    then show ?thesis using ws(1) present_less by (metis subsetI subset_antisym)
  qed
  have "votes_wf E B ?s"
    unfolding votes_wf_def
  proof (intro conjI allI impI)
    show "bits_match (vts_votesBitArray ?s) (vts_votes ?s)"
      using bits_match_cong [of "vts_votesBitArray s" "vts_votes s" ws] w(1) ws(1) pr by (simp add: votes_wf_def)
    fix j x assume "j < length (vts_votes ?s)" and x: "vts_votes ?s ! j = Some x"
    then have j: "j < length (vts_votes s)" using ws(1) by simp
    show "vote_ok E B ?s j x" "vts_votesByBlock ?s (bid_Key E (vote_BlockID x)) \<noteq> None"
      using x ws(2) [OF j] b(1) w(1) j len bv(1)
      by (auto simp: votes_wf_def bv_wf_def split: if_splits)
  qed (use w(1) ws(1) pr in \<open>simp_all add: votes_wf_def\<close>)
  moreover have "blocks_wf E B ?s" using w(2) pr by (simp add: blocks_wf_def)
  moreover have "\<exists>x. ws ! j = Some x \<and> bid_Key E (vote_BlockID x) = bid_Key E b" if "j \<in> present (bv_votes bv)" for j
    using that ws(2) [of j] len b(1) by (auto simp: present_def bv_wf_def)
  ultimately show ?thesis using bv by (simp add: vts_inv_def open_wf_def decided_wf_def)
qed

lemma count_vote_spec:
  assumes c: "countable E B I s i v key bv"
  shows "\<exists>s'. count_vote s v key (VotingPower (Validators (vts_valSet s) ! i)) bv = Inr s' \<and> vts_inv E B {} s' \<and>
    same_step s s' \<and> (vts_maj23 s \<noteq> None \<longrightarrow> vts_maj23 s' = vts_maj23 s)"
proof -
  let ?p = "VotingPower (Validators (vts_valSet s) ! i)"
  note bv = countable_bv [OF c]
  have Q: "quorum_ok (vts_valSet s)" and v: "vote_ok E B s i v" "bid_Key E (vote_BlockID v) = key" "bv_votes bv ! i = None"
    using c by (simp_all add: countable_def)
  obtain bv' where bv': "bv_addVerifiedVote bv v ?p = Inr bv'" "bv_wf E B s key bv'" "bv_votes bv' = (bv_votes bv)[i := Some v]"
    using bv_add_spec [OF bv(1) v(1) v(2,3) bv(3)] by blast
  have q: "wrap64 (two_thirds (total_power (vts_valSet s)) + 1) \<le> t \<longleftrightarrow> majority s t" for t
    using quorum_le [OF Q] by (simp add: majority_def)
  have below: "bv_sum bv < wrap64 (two_thirds (total_power (vts_valSet s)) + 1)" if "vts_maj23 s = None"
  proof -
    have "\<not> majority s (bv_sum bv)"
      using that openD [OF countable_inv(3) [OF c], of key bv] by (simp add: majority_def)
    then show ?thesis using q by (simp add: not_le [symmetric])
  qed
  note T = track_wf [OF c bv'(2,3)]
  show ?thesis
  proof (cases "vts_maj23 s = None \<and> majority s (bv_sum bv')")
    case True
    have len: "length (bv_votes bv') = length (vts_votes s)" using T(1) bv'(2) by (simp add: votes_wf_def bv_wf_def)
    obtain ws where ws: "copy_votes (bv_votes bv') (vts_votes s) = Inr ws" "length ws = length (vts_votes s)"
        "\<forall>j < length (vts_votes s). ws ! j = (if bv_votes bv' ! j = None then vts_votes s ! j else bv_votes bv' ! j)"
      using copy_votes_spec [OF len] by blast
    have "vts_inv E B {} ((track key bv' s)\<lparr>vts_maj23 := Some (vote_BlockID v), vts_votes := ws\<rparr>)"
      by (rule decide_inv [OF T(1,2), of _ bv']) (use True ws v in \<open>simp_all add: majority_def vote_ok_def\<close>)
    then show ?thesis
      using True ws bv'(1) below q by (simp add: count_vote_def Let_def same_step_def)
  next
    case False
    then have "count_vote s v key ?p bv = Inr (track key bv' s)" using bv'(1) q by (auto simp: count_vote_def Let_def)
    moreover have "open_wf E {} (track key bv' s)" by (rule track_open [OF c bv'(2,3)]) (use False in simp)
    ultimately show ?thesis using T by (simp add: vts_inv_def same_step_def)
  qed
qed

section \<open>Adding a vote keeps the invariant\<close>

definition entry :: "vote_set \<Rightarrow> bytes \<Rightarrow> block_votes" where
  "entry s key = (case vts_votesByBlock s key of None \<Rightarrow> newBlockVotes False (vs_Size (vts_valSet s)) | Some bv \<Rightarrow> bv)"

lemma entry_facts:
  assumes "vts_inv E B {} s" "quorum_ok (vts_valSet s)"
  shows "bv_wf E B s key (entry s key)" "present (bv_votes (entry s key)) \<subseteq> present (vts_votes s)"
    "vts_maj23 s = None \<Longrightarrow> \<not> majority s (bv_sum (entry s key))"
proof -
  have b: "blocks_wf E B s" "open_wf E {} s" using assms(1) by (simp_all add: vts_inv_def)
  have "0 \<le> total_power (vts_valSet s)"
    using assms(2) voting_power_nonneg [of "Validators (vts_valSet s)" "{..<length (Validators (vts_valSet s))}"]
    by (simp add: quorum_total voting_power_all quorum_ok_def)
  then have "\<not> majority s 0" by (simp add: majority_def)
  moreover have new: "bv_votes (newBlockVotes p n) = replicate (nat n) None" "bv_sum (newBlockVotes p n) = 0" for p n
    by (simp_all add: newBlockVotes_def)
  ultimately show "bv_wf E B s key (entry s key)" "present (bv_votes (entry s key)) \<subseteq> present (vts_votes s)"
    "vts_maj23 s = None \<Longrightarrow> \<not> majority s (bv_sum (entry s key))"
    using blocksD [OF b(1), of key] openD [OF b(2), of key] new_bv_wf [of "length (Validators (vts_valSet s))" s]
    by (auto simp: entry_def vs_Size_def split: option.splits)
qed

definition stored :: "vote_set \<Rightarrow> nat \<Rightarrow> vote \<Rightarrow> bytes \<Rightarrow> bit_array option \<Rightarrow> vote_set" where
  "stored s i v key bA = s\<lparr>vts_votes := (vts_votes s)[i := Some v], vts_votesBitArray := bA,
     vts_sum := power_of s (insert i (present (vts_votes s))),
     vts_votesByBlock := (vts_votesByBlock s)(key \<mapsto> entry s key)\<rparr>"

lemma stored_fields [simp]:
  "vote_ok E B (stored s i v key bA) = vote_ok E B s" "power_of (stored s i v key bA) = power_of s"
  "bv_wf E B (stored s i v key bA) = bv_wf E B s" "majority (stored s i v key bA) = majority s"
  "vts_maj23 (stored s i v key bA) = vts_maj23 s" "vts_votes (stored s i v key bA) = (vts_votes s)[i := Some v]"
  "vts_valSet (stored s i v key bA) = vts_valSet s" "vts_votesBitArray (stored s i v key bA) = bA"
  "vts_sum (stored s i v key bA) = power_of s (insert i (present (vts_votes s)))"
  "vts_votesByBlock (stored s i v key bA) k = (if k = key then Some (entry s key) else vts_votesByBlock s k)"
  by (simp_all add: stored_def)

lemma stored_inv:
  assumes inv: "vts_inv E B {} s" and Q: "quorum_ok (vts_valSet s)" and v: "vote_ok E B s i v" "bid_Key E (vote_BlockID v) = key"
    and bA: "bits_match bA ((vts_votes s)[i := Some v])"
    and c: "vts_votes s ! i = None \<or> (\<exists>b. vts_maj23 s = Some b \<and> bid_Key E b = key)"
  shows "vts_inv E B {i} (stored s i v key bA)"
proof -
  let ?s = "stored s i v key bA"
  have w: "votes_wf E B s" "blocks_wf E B s" "open_wf E {} s" "decided_wf E B s" using inv by (simp_all add: vts_inv_def)
  note ef = entry_facts [OF inv Q]
  have i: "i < length (vts_votes s)" using v(1) w(1) by (simp add: vote_ok_def votes_wf_def)
  note pr = present_update [OF i, of v]
  have "votes_wf E B ?s"
    unfolding votes_wf_def
  proof (intro conjI allI impI)
    fix j x assume j: "j < length (vts_votes ?s)" and x: "vts_votes ?s ! j = Some x"
    show "vote_ok E B ?s j x" "vts_votesByBlock ?s (bid_Key E (vote_BlockID x)) \<noteq> None"
      using j x v i w(1) by (cases "j = i"; auto simp: votes_wf_def)+
  qed (use w(1) i bA in \<open>simp_all add: votes_wf_def pr\<close>)
  moreover have "bv_wf E B s k x \<and> present (bv_votes x) \<subseteq> present (vts_votes s)" if "vts_votesByBlock ?s k = Some x" for k x
    using that ef(1,2) blocksD [OF w(2), of k x] by (cases "k = key") auto
  then have "blocks_wf E B ?s" unfolding blocks_wf_def by (simp add: pr subset_insertI2)
  moreover have "open_wf E {i} ?s"
    unfolding open_wf_def
  proof (intro impI conjI allI)
    fix k x assume "vts_maj23 ?s = None" "vts_votesByBlock ?s k = Some x"
    then show "\<not> majority ?s (bv_sum x)" using ef(3) openD [OF w(3), of k x] by (cases "k = key") auto
  next
    fix j x assume m: "vts_maj23 ?s = None" and j: "j < length (vts_votes ?s)" "j \<notin> {i}" "vts_votes ?s ! j = Some x"
    then obtain y where "vts_votesByBlock s (bid_Key E (vote_BlockID x)) = Some y" "j \<in> present (bv_votes y)"
      using openD2 [OF w(3), of j x] by auto
    then show "\<exists>y. vts_votesByBlock ?s (bid_Key E (vote_BlockID x)) = Some y \<and> j \<in> present (bv_votes y)"
      by (auto simp: entry_def)
  qed
  moreover have "decided_wf E B ?s"
    unfolding decided_wf_def
  proof (intro allI impI)
    fix b assume "vts_maj23 ?s = Some b"
    then have b: "vts_maj23 s = Some b" by simp
    then obtain x where x: "b \<in> B" "vts_votesByBlock s (bid_Key E b) = Some x" "majority s (bv_sum x)"
        "\<forall>j \<in> present (bv_votes x). \<exists>w. vts_votes s ! j = Some w \<and> bid_Key E (vote_BlockID w) = bid_Key E b"
      using w(4) unfolding decided_wf_def by blast
    have at: "vts_votesByBlock ?s (bid_Key E b) = Some x" using x(2) by (auto simp: entry_def)
    have "\<exists>y. vts_votes ?s ! j = Some y \<and> bid_Key E (vote_BlockID y) = bid_Key E b" if "j \<in> present (bv_votes x)" for j
    proof (cases "j = i")
      case True
      then have "vts_votes s ! i \<noteq> None" using x(4) that by auto
      then show ?thesis using True c b v(2) i by auto
    next
      case False
      then show ?thesis using x(4) that by simp
    qed
    then show "b \<in> B \<and> (\<exists>x. vts_votesByBlock ?s (bid_Key E b) = Some x \<and> majority ?s (bv_sum x) \<and>
        (\<forall>j \<in> present (bv_votes x). \<exists>y. vts_votes ?s ! j = Some y \<and> bid_Key E (vote_BlockID y) = bid_Key E b))"
      using x at by auto
  qed
  ultimately show ?thesis by (simp add: vts_inv_def)
qed

lemma getVote_None:
  assumes "getVote E s (int i) key = Inr None" "vts_inv E B {} s" "i < length (Validators (vts_valSet s))"
  shows "\<And>ex. vts_votes s ! i = Some ex \<Longrightarrow> bid_Key E (vote_BlockID ex) \<noteq> key" "bv_votes (entry s key) ! i = None"
proof -
  have w: "length (vts_votes s) = length (Validators (vts_valSet s))" "blocks_wf E B s"
    using assms(2) by (simp_all add: vts_inv_def votes_wf_def)
  show "bid_Key E (vote_BlockID ex) \<noteq> key" if "vts_votes s ! i = Some ex" for ex
    using assms(1,3) w(1) that by (auto simp: getVote_def slice_at_def)
  have n: "bv_getByIndex (vts_votesByBlock s key) (int i) = Inr None"
    using assms(1,3) w(1) by (auto simp: getVote_def slice_at_def split: option.splits if_splits)
  show "bv_votes (entry s key) ! i = None"
  proof (cases "vts_votesByBlock s key")
    case None
    then show ?thesis using assms(3) by (simp add: entry_def newBlockVotes_def vs_Size_def)
  next
    case (Some bv)
    then have "length (bv_votes bv) = length (Validators (vts_valSet s))" using blocksD [OF w(2)] by (simp add: bv_wf_def)
    then show ?thesis using n Some assms(3) by (simp add: bv_getByIndex_def slice_at_def entry_def)
  qed
qed

lemma store_vote_spec:
  assumes inv: "vts_inv E B {} s" and v: "vote_ok E B s i v"
  shows "\<exists>bA. store_vote v s = Inr (s\<lparr>vts_votes := (vts_votes s)[i := Some v], vts_votesBitArray := bA\<rparr>) \<and>
    bits_match bA ((vts_votes s)[i := Some v])"
proof -
  have "i < length (vts_votes s)" "bits_match (vts_votesBitArray s) (vts_votes s)" "ValidatorIndex v = int i"
    using inv v by (simp_all add: vts_inv_def votes_wf_def vote_ok_def)
  then show ?thesis using mark_match [of "vts_votesBitArray s" "vts_votes s" i v] by (auto simp: store_vote_def)
qed

text \<open>The first vote of a validator.\<close>

lemma add_first_spec:
  assumes inv: "vts_inv E B {} s" and Q: "quorum_ok (vts_valSet s)" and v: "vote_ok E B s i v"
    and key: "bid_Key E (vote_BlockID v) = key" and g: "getVote E s (int i) key = Inr None" and n: "vts_votes s ! i = None"
  shows "\<exists>s'. addVerifiedVote E s v key (VotingPower (Validators (vts_valSet s) ! i)) = Inr (True, None, s') \<and>
    vts_inv E B {} s' \<and> same_step s s' \<and> (vts_maj23 s \<noteq> None \<longrightarrow> vts_maj23 s' = vts_maj23 s)"
proof -
  let ?p = "VotingPower (Validators (vts_valSet s) ! i)"
  obtain bA where bA: "store_vote v s = Inr (s\<lparr>vts_votes := (vts_votes s)[i := Some v], vts_votesBitArray := bA\<rparr>)"
      "bits_match bA ((vts_votes s)[i := Some v])" using store_vote_spec [OF inv v] by blast
  have i: "i < length (Validators (vts_valSet s))" "i < length (vts_votes s)" "ValidatorIndex v = int i"
    using v inv by (simp_all add: vote_ok_def vts_inv_def votes_wf_def)
  have P: "powers_ok (Validators (vts_valSet s))" using Q by (simp add: quorum_ok_def)
  have "i \<notin> present (vts_votes s)" using n by (simp add: present_def)
  then have sum: "wrap64 (vts_sum s + ?p) = power_of s (insert i (present (vts_votes s)))"
    using wrap64_id [OF voting_power_in64 [OF P, of "insert i (present (vts_votes s))"]] inv i(1)
    by (simp add: vts_inv_def votes_wf_def power_of_def voting_power_insert)
  define s1 where "s1 = s\<lparr>vts_votes := (vts_votes s)[i := Some v], vts_votesBitArray := bA,
    vts_sum := power_of s (insert i (present (vts_votes s)))\<rparr>"
  have r: "record_vote E s v key ?p = Inr (None, s1)" using n i bA(1) sum by (simp add: record_vote_def slice_at_def s1_def)
  have t: "track key (entry s key) s1 = stored s i v key bA" by (simp add: s1_def stored_def)
  have "countable E B {i} s1 i v key (entry s key)"
    unfolding countable_def t
    using stored_inv [OF inv Q v key bA(2)] n Q v key i getVote_None(2) [OF g inv i(1)]
    by (simp add: s1_def present_update)
  from count_vote_spec [OF this] obtain s' where c: "count_vote s1 v key ?p (entry s key) = Inr s'" "vts_inv E B {} s'" "same_step s1 s'"
      "vts_maj23 s1 \<noteq> None \<longrightarrow> vts_maj23 s' = vts_maj23 s1" by (auto simp: s1_def)
  have "addVerifiedVote E s v key ?p = Inr (True, None, s')"
    using r c(1) by (cases "vts_votesByBlock s key") (simp_all add: addVerifiedVote_def s1_def entry_def)
  then show ?thesis using c by (simp add: s1_def same_step_def)
qed

text \<open>A vote that conflicts with the canonical one.\<close>

lemma add_conflicting_spec:
  assumes inv: "vts_inv E B {} s" and Q: "quorum_ok (vts_valSet s)" and v: "vote_ok E B s i v"
    and key: "bid_Key E (vote_BlockID v) = key" and g: "getVote E s (int i) key = Inr None" and n: "vts_votes s ! i = Some ex"
  shows "\<exists>a s'. addVerifiedVote E s v key (VotingPower (Validators (vts_valSet s) ! i)) = Inr (a, Some ex, s') \<and>
    vts_inv E B {} s' \<and> same_step s s' \<and> (vts_maj23 s \<noteq> None \<longrightarrow> vts_maj23 s' = vts_maj23 s)"
proof -
  let ?p = "VotingPower (Validators (vts_valSet s) ! i)"
  have i: "i < length (Validators (vts_valSet s))" "i < length (vts_votes s)" "ValidatorIndex v = int i"
    using v inv by (simp_all add: vote_ok_def vts_inv_def votes_wf_def)
  note gn = getVote_None [OF g inv i(1)]
  have ne: "vote_BlockID ex \<noteq> vote_BlockID v" using gn(1) [OF n] key by auto
  have "\<exists>s1. record_vote E s v key ?p = Inr (Some ex, s1) \<and> vts_inv E B {} s1 \<and> same_step s s1 \<and> vts_maj23 s1 = vts_maj23 s \<and>
      vts_votesByBlock s1 = vts_votesByBlock s \<and> vts_votes s1 ! i \<noteq> None \<and> length (vts_votes s1) = length (vts_votes s) \<and>
      (\<forall>b. vts_maj23 s = Some b \<longrightarrow> bid_Key E b = key \<longrightarrow> vts_votes s1 ! i = Some v)"
  proof (cases "vts_maj23 s \<noteq> None \<and> bid_Key E (the (vts_maj23 s)) = key")
    case True
    then obtain b where b: "vts_maj23 s = Some b" "bid_Key E b = key" by auto
    obtain bA where bA: "store_vote v s = Inr (s\<lparr>vts_votes := (vts_votes s)[i := Some v], vts_votesBitArray := bA\<rparr>)"
        "bits_match bA ((vts_votes s)[i := Some v])" using store_vote_spec [OF inv v] by blast
    have "vts_votesByBlock s key \<noteq> None" using inv b by (auto simp: vts_inv_def decided_wf_def)
    then have m: "(vts_votesByBlock s)(key \<mapsto> entry s key) = vts_votesByBlock s" by (auto simp: entry_def)
    have "insert i (present (vts_votes s)) = present (vts_votes s)" using n i by (auto simp: present_def)
    then have t: "stored s i v key bA = s\<lparr>vts_votes := (vts_votes s)[i := Some v], vts_votesBitArray := bA\<rparr>"
      using m inv by (simp add: stored_def vts_inv_def votes_wf_def)
    have "vts_inv E B {i} (stored s i v key bA)" by (rule stored_inv [OF inv Q v key bA(2)]) (use b in blast)
    then have "vts_inv E B {} (stored s i v key bA)" using b by (simp add: vts_inv_def open_wf_def)
    then show ?thesis using n i bA(1) ne b t by (simp add: record_vote_def slice_at_def same_step_def)
  next
    case False
    then show ?thesis using n i ne inv by (auto simp: record_vote_def slice_at_def same_step_def)
  qed
  then obtain s1 where r: "record_vote E s v key ?p = Inr (Some ex, s1)" "vts_inv E B {} s1" "same_step s s1" "vts_maj23 s1 = vts_maj23 s"
      "vts_votesByBlock s1 = vts_votesByBlock s" "vts_votes s1 ! i \<noteq> None" "length (vts_votes s1) = length (vts_votes s)"
      "\<forall>b. vts_maj23 s = Some b \<longrightarrow> bid_Key E b = key \<longrightarrow> vts_votes s1 ! i = Some v" by blast
  show ?thesis
  proof (cases "\<exists>bv. vts_votesByBlock s key = Some bv \<and> bv_peerMaj23 bv")
    case True
    then obtain bv where bv: "vts_votesByBlock s key = Some bv" "bv_peerMaj23 bv" by blast
    have "track key bv s1 = s1" using r(5) bv(1) by (simp add: fun_upd_idem)
    moreover have "vote_ok E B s1 i v" using v by (simp add: same_step_ok(1) [OF r(3)])
    ultimately have "countable E B {} s1 i v key bv"
      using r Q key i gn(2) bv by (simp add: countable_def entry_def present_def same_step_def)
    from count_vote_spec [OF this] obtain s' where c: "count_vote s1 v key ?p bv = Inr s'" "vts_inv E B {} s'" "same_step s1 s'"
        "vts_maj23 s1 \<noteq> None \<longrightarrow> vts_maj23 s' = vts_maj23 s1" using r(3) by (auto simp: same_step_def)
    moreover have "addVerifiedVote E s v key ?p = Inr (True, Some ex, s')" using c(1) r bv by (simp add: addVerifiedVote_def)
    ultimately show ?thesis using r(3,4) by (auto simp: same_step_def)
  next
    case False
    then have "addVerifiedVote E s v key ?p = Inr (False, Some ex, s1)"
      using r by (auto simp: addVerifiedVote_def split: option.splits)
    then show ?thesis using r by auto
  qed
qed

definition double_vote :: "'e ext_scheme \<Rightarrow> bytes \<Rightarrow> duplicate_vote_evidence \<Rightarrow> bool" where
  "double_vote E chainID dve \<longleftrightarrow> (\<exists>k. dve_PubKey dve = Some k \<and> dve_Verify E chainID dve k = None)"

lemma getVote_total:
  assumes "vts_inv E B {} s" "i < length (Validators (vts_valSet s))"
  shows "\<exists>known. getVote E s (int i) key = Inr known \<and> (\<forall>x. known = Some x \<longrightarrow> vote_ok E B s i x)"
proof -
  have w: "length (vts_votes s) = length (Validators (vts_valSet s))" "blocks_wf E B s"
      "\<And>x. vts_votes s ! i = Some x \<Longrightarrow> vote_ok E B s i x"
    using assms by (simp_all add: vts_inv_def votes_wf_def)
  have "\<exists>known. bv_getByIndex (vts_votesByBlock s key) (int i) = Inr known \<and> (\<forall>x. known = Some x \<longrightarrow> vote_ok E B s i x)"
  proof (cases "vts_votesByBlock s key")
    case (Some bv)
    then show ?thesis using blocksD [OF w(2) Some] assms(2) by (simp add: bv_getByIndex_def slice_at_def bv_wf_def)
  qed (simp add: bv_getByIndex_def)
  then show ?thesis using w assms(2) by (cases "vts_votes s ! i") (auto simp: getVote_def slice_at_def)
qed

definition vote_added :: "'e ext_scheme \<Rightarrow> block_id set \<Rightarrow> vote_set \<Rightarrow> vote \<Rightarrow> (bool \<times> vote_error option \<times> vote_set) or_panic \<Rightarrow> bool" where
  "vote_added E B s v r \<longleftrightarrow> (\<exists>a e s'. r = Inr (a, e, s') \<and> vts_inv E B {} s' \<and> same_step s s' \<and>
     (vts_maj23 s \<noteq> None \<longrightarrow> vts_maj23 s' = vts_maj23 s) \<and>
     (\<forall>dve. e = Some (ErrVoteConflictingVotes dve) \<longrightarrow> VoteB dve = v \<and> double_vote E (vts_chainID s) dve))"

lemma vote_added_same:
  "vts_inv E B {} s \<Longrightarrow> \<forall>dve. e \<noteq> Some (ErrVoteConflictingVotes dve) \<Longrightarrow> vote_added E B s v (Inr (a, e, s))"
  by (simp add: vote_added_def same_step_def)

lemma vote_okD:
  assumes "vote_ok E B s i v" "v_PubKey (Validators (vts_valSet s) ! i) = Some k"
  shows "pk_Address E k = ValidatorAddress v" "VerifyBytes E k (vote_SignBytes E (vts_chainID s) v) (vote_Signature v)"
    "ValidatorAddress v = v_Address (Validators (vts_valSet s) ! i)" "ValidatorIndex v = int i"
    "vote_Height v = vts_height s" "vote_Round v = vts_round s" "vote_Type v = vts_type s"
  using assms by (auto simp: vote_ok_def)

lemma add_from_spec:
  assumes inv: "vts_inv E B {} s" and Q: "quorum_ok (vts_valSet s)" and B: "vote_BlockID v \<in> B"
    and i: "ValidatorIndex v = int i" "i < length (Validators (vts_valSet s))" "Validators (vts_valSet s) ! i = val"
    and k: "v_PubKey val = Some k" and a: "ValidatorAddress v = v_Address val"
    and h: "vote_Height v = vts_height s" "vote_Round v = vts_round s" "vote_Type v = vts_type s"
  shows "vote_added E B s v (add_from E s v val)"
proof -
  define key where "key = bid_Key E (vote_BlockID v)"
  obtain known where g: "getVote E s (int i) key = Inr known" "\<And>x. known = Some x \<Longrightarrow> vote_ok E B s i x"
    using getVote_total [OF inv i(2), of key] by blast
  show ?thesis
  proof (cases known)
    case (Some x)
    then obtain sig where "vote_Signature x = Some sig" using g(2) by (cases "vote_Signature x") (auto simp: vote_ok_def)
    then show ?thesis using g(1) Some i(1) vote_added_same [OF inv] by (simp add: add_from_def key_def [symmetric])
  next
    case None
    note g1 = g(1) [unfolded None]
    show ?thesis
    proof (cases "pk_Address E k = ValidatorAddress v \<and> VerifyBytes E k (vote_SignBytes E (vts_chainID s) v) (vote_Signature v)")
      case False
      then show ?thesis
        using g1 i(1) k vote_added_same [OF inv] by (auto simp: add_from_def key_def [symmetric] vote_Verify_def)
    next
      case True
      then have ver: "vote_Verify E (vts_chainID s) v (v_PubKey val) = Inr None" and v: "vote_ok E B s i v"
        using k i a h B by (simp_all add: vote_Verify_def vote_ok_def)
      show ?thesis
      proof (cases "vts_votes s ! i")
        case n: None
        obtain s' where b: "addVerifiedVote E s v key (VotingPower val) = Inr (True, None, s')" "vts_inv E B {} s'" "same_step s s'"
            "vts_maj23 s \<noteq> None \<longrightarrow> vts_maj23 s' = vts_maj23 s"
          using add_first_spec [OF inv Q v key_def [symmetric] g1 n] i(3) by auto
        then have "add_from E s v val = Inr (True, None, s')"
          using g1 i(1) ver by (simp add: add_from_def key_def [symmetric])
        then show ?thesis using b(2-) by (auto simp: vote_added_def)
      next
        case (Some ex)
        obtain b s' where b: "addVerifiedVote E s v key (VotingPower val) = Inr (b, Some ex, s')" "vts_inv E B {} s'" "same_step s s'"
            "vts_maj23 s \<noteq> None \<longrightarrow> vts_maj23 s' = vts_maj23 s"
          using add_conflicting_spec [OF inv Q v key_def [symmetric] g1 Some] i(3) by auto
        have ex: "vote_ok E B s i ex" "vote_BlockID ex \<noteq> vote_BlockID v"
          using inv Some i(2) getVote_None(1) [OF g1 inv i(2) Some] by (auto simp: vts_inv_def votes_wf_def key_def)
        then have "double_vote E (vts_chainID s) \<lparr>dve_PubKey = v_PubKey val, VoteA = ex, VoteB = v\<rparr>"
          using vote_okD [OF ex(1)] vote_okD [OF v] k i(3) by (simp add: double_vote_def dve_Verify_def Let_def)
        moreover have "add_from E s v val = Inr (b, Some (NewConflictingVoteError val ex v), s')"
          using g1 i(1) ver b by (simp add: add_from_def key_def [symmetric])
        ultimately show ?thesis using b(2-) by (auto simp: vote_added_def NewConflictingVoteError_def)
      qed
    qed
  qed
qed

text \<open>A vote of a validator without a key is not checked: the key is dereferenced.\<close>

lemma add_from_keyless:
  assumes "vts_inv E B {} s" "ValidatorIndex v = int i" "i < length (Validators (vts_valSet s))" "v_PubKey (Validators (vts_valSet s) ! i) = None"
  shows "add_from E s v (Validators (vts_valSet s) ! i) = Inl NilDereference"
proof -
  obtain known where g: "getVote E s (int i) (bid_Key E (vote_BlockID v)) = Inr known" "\<And>x. known = Some x \<Longrightarrow> vote_ok E B s i x"
    using getVote_total [OF assms(1,3)] by blast
  then have "known = None" using assms(4) by (cases known) (auto simp: vote_ok_def)
  then show ?thesis using g(1) assms(2,4) by (simp add: add_from_def vote_Verify_def)
qed

lemma addVote_spec:
  assumes inv: "vts_inv E B {} s" and Q: "quorum_ok (vts_valSet s)" and B: "vote_BlockID v \<in> B"
    and K: "keyed (vts_valSet s) \<or> (\<exists>x. vts_addVote E s (Some v) = Inr x)"
  shows "vote_added E B s v (vts_addVote E s (Some v))"
proof (cases "ValidatorIndex v < 0 \<or> length (ValidatorAddress v) = 0 \<or> vote_Height v \<noteq> vts_height s \<or>
    vote_Round v \<noteq> vts_round s \<or> vote_Type v \<noteq> vts_type s \<or> snd (GetByIndex (vts_valSet s) (ValidatorIndex v)) = None \<or>
    ValidatorAddress v \<noteq> fst (GetByIndex (vts_valSet s) (ValidatorIndex v))")
  case True
  then show ?thesis
    using vote_added_same [OF inv] by (cases "GetByIndex (vts_valSet s) (ValidatorIndex v)") (auto simp: vts_addVote_def Let_def split: option.splits)
next
  case False
  define i where "i = nat (ValidatorIndex v)"
  define val where "val = Validators (vts_valSet s) ! i"
  have i: "ValidatorIndex v = int i" "i < length (Validators (vts_valSet s))" "ValidatorAddress v = v_Address val"
      "GetByIndex (vts_valSet s) (int i) = (v_Address val, Some val)"
    using False by (auto simp: GetByIndex_def Let_def i_def val_def split: if_splits)
  have a: "vts_addVote E s (Some v) = add_from E s v val" using False i by (simp add: vts_addVote_def Let_def)
  have "v_PubKey val \<noteq> None" using K keyedD [OF _ i(2)] a add_from_keyless [OF inv i(1,2)] by (force simp: val_def)
  then obtain k where k: "v_PubKey val = Some k" by blast
  show ?thesis unfolding a
    using add_from_spec [OF inv Q B i(1,2) val_def [symmetric] k i(3)] False by simp
qed

lemma retrack_inv:
  assumes inv: "vts_inv E B {} s" and Q: "quorum_ok (vts_valSet s)"
  shows "vts_inv E B {} (track key ((entry s key)\<lparr>bv_peerMaj23 := p\<rparr>) s)"
proof -
  let ?bv = "(entry s key)\<lparr>bv_peerMaj23 := p\<rparr>"
  let ?s = "track key ?bv s"
  have w: "votes_wf E B s" "blocks_wf E B s" "open_wf E {} s" "decided_wf E B s" using inv by (simp_all add: vts_inv_def)
  note ef = entry_facts [OF inv Q, of key]
  have bv: "bv_wf E B s key ?bv" using ef(1) by (simp add: bv_wf_def)
  have at: "vts_votesByBlock s k = Some x \<Longrightarrow> \<exists>y. vts_votesByBlock ?s k = Some y \<and> bv_votes y = bv_votes x \<and> bv_sum y = bv_sum x" for k x
    by (cases "k = key") (auto simp: entry_def)
  have "votes_wf E B ?s" using w(1) by (auto simp: votes_wf_def)
  moreover have "blocks_wf E B ?s"
    unfolding blocks_wf_def
  proof (intro allI impI)
    fix k x assume x: "vts_votesByBlock ?s k = Some x"
    show "bv_wf E B ?s k x \<and> present (bv_votes x) \<subseteq> present (vts_votes ?s)"
    proof (cases "k = key")
      case True
      with x have "x = ?bv" by simp
      with True show ?thesis using bv ef(2) by simp
    next
      case False
      with x have "vts_votesByBlock s k = Some x" by simp
      from blocksD [OF w(2) this] show ?thesis by simp
    qed
  qed
  moreover have "open_wf E {} ?s"
    unfolding open_wf_def
  proof (intro impI conjI allI)
    fix k x assume m: "vts_maj23 ?s = None" and x: "vts_votesByBlock ?s k = Some x"
    show "\<not> majority ?s (bv_sum x)"
    proof (cases "k = key")
      case True
      with x have "x = ?bv" by simp
      then show ?thesis using ef(3) m by simp
    next
      case False
      with x have "vts_votesByBlock s k = Some x" by simp
      from openD [OF w(3) _ this] m show ?thesis by simp
    qed
  next
    fix j x assume m: "vts_maj23 ?s = None" and j: "j < length (vts_votes ?s)" "j \<notin> {}" "vts_votes ?s ! j = Some x"
    then obtain y where "vts_votesByBlock s (bid_Key E (vote_BlockID x)) = Some y" "j \<in> present (bv_votes y)"
      using openD2 [OF w(3), of j x] by auto
    then show "\<exists>y. vts_votesByBlock ?s (bid_Key E (vote_BlockID x)) = Some y \<and> j \<in> present (bv_votes y)"
      using at [of "bid_Key E (vote_BlockID x)" y] by auto
  qed
  moreover have "decided_wf E B ?s"
    unfolding decided_wf_def
  proof (intro allI impI)
    fix b assume "vts_maj23 ?s = Some b"
    then obtain x where x: "b \<in> B" "vts_votesByBlock s (bid_Key E b) = Some x" "majority s (bv_sum x)"
        "\<forall>j \<in> present (bv_votes x). \<exists>w. vts_votes s ! j = Some w \<and> bid_Key E (vote_BlockID w) = bid_Key E b"
      using w(4) unfolding decided_wf_def by auto
    obtain y where "vts_votesByBlock ?s (bid_Key E b) = Some y" "bv_votes y = bv_votes x" "bv_sum y = bv_sum x"
      using at [OF x(2)] by blast
    then show "b \<in> B \<and> (\<exists>x. vts_votesByBlock ?s (bid_Key E b) = Some x \<and> majority ?s (bv_sum x) \<and>
        (\<forall>j \<in> present (bv_votes x). \<exists>w. vts_votes ?s ! j = Some w \<and> bid_Key E (vote_BlockID w) = bid_Key E b))"
      using x by (intro conjI exI [of _ y]) simp_all
  qed
  ultimately show ?thesis by (simp add: vts_inv_def)
qed

lemma SetPeerMaj23_spec:
  assumes inv: "vts_inv E B {} s" and Q: "quorum_ok (vts_valSet s)"
  shows "\<exists>e s'. vts_SetPeerMaj23 E (Some s) peerID blockID = Inr (e, s') \<and> vts_inv E B {} s' \<and> same_step s s' \<and> vts_maj23 s' = vts_maj23 s"
proof -
  define key where "key = bid_Key E blockID"
  define s1 where "s1 = s\<lparr>vts_peerMaj23s := (vts_peerMaj23s s)(peerID \<mapsto> blockID)\<rparr>"
  have s1: "vts_inv E B {} s1" "quorum_ok (vts_valSet s1)" "same_step s s1" "vts_maj23 s1 = vts_maj23 s"
    using inv Q by (simp_all add: s1_def vts_inv_def votes_wf_def blocks_wf_def open_wf_def decided_wf_def same_step_def)
  have "newBlockVotes True n = (newBlockVotes False n)\<lparr>bv_peerMaj23 := True\<rparr>" for n by (simp add: newBlockVotes_def)
  then have "vts_peerMaj23s s peerID = None \<Longrightarrow>
      vts_SetPeerMaj23 E (Some s) peerID blockID \<in> {Inr (None, s1), Inr (None, track key ((entry s1 key)\<lparr>bv_peerMaj23 := True\<rparr>) s1)}"
    by (cases "vts_votesByBlock s1 key") (simp_all add: vts_SetPeerMaj23_def Let_def s1_def key_def entry_def)
  then show ?thesis
    using s1 retrack_inv [OF s1(1,2), of key True] inv
    by (cases "vts_peerMaj23s s peerID") (auto simp: vts_SetPeerMaj23_def Let_def same_step_def)
qed

section \<open>Runs\<close>

text \<open>Everything that happens to a vote set: votes arrive, peers claim majorities.\<close>

datatype vote_event = EvVote vote | EvPeerMaj23 bytes block_id

fun vts_run :: "'e ext_scheme \<Rightarrow> vote_event list \<Rightarrow> vote_set \<Rightarrow> vote_set or_panic" where
  "vts_run E [] s = Inr s"
| "vts_run E (EvVote v # es) s = bindP (vts_AddVote E (Some s) (Some v)) (\<lambda>(_, _, s'). vts_run E es s')"
| "vts_run E (EvPeerMaj23 p b # es) s = bindP (vts_SetPeerMaj23 E (Some s) p b) (\<lambda>(_, s'). vts_run E es s')"

definition ids_voted :: "vote_event list \<Rightarrow> block_id set" where
  "ids_voted es = {vote_BlockID v | v. EvVote v \<in> set es}"

lemma vts_run_spec:
  assumes "vts_inv E B {} s" "quorum_ok (vts_valSet s)" "keyed (vts_valSet s) \<or> (\<exists>x. vts_run E es s = Inr x)" "ids_voted es \<subseteq> B"
  shows "\<exists>s'. vts_run E es s = Inr s' \<and> vts_inv E B {} s' \<and> same_step s s' \<and> (vts_maj23 s \<noteq> None \<longrightarrow> vts_maj23 s' = vts_maj23 s)"
  using assms
proof (induction es arbitrary: s)
  case Nil
  then show ?case by (simp add: same_step_def)
next
  case (Cons e es)
  have sub: "ids_voted es \<subseteq> B" using Cons.prems(4) by (auto simp: ids_voted_def)
  have "\<exists>s1. vts_run E (e # es) s = vts_run E es s1 \<and> vts_inv E B {} s1 \<and> same_step s s1 \<and> (vts_maj23 s \<noteq> None \<longrightarrow> vts_maj23 s1 = vts_maj23 s)"
  proof (cases e)
    case (EvVote v)
    then have "vote_BlockID v \<in> B" using Cons.prems(4) by (auto simp: ids_voted_def)
    moreover have "keyed (vts_valSet s) \<or> (\<exists>x. vts_addVote E s (Some v) = Inr x)"
      using Cons.prems(3) EvVote by (auto simp: vts_AddVote_def elim: bindP_Inr_E)
    ultimately show ?thesis using addVote_spec [OF Cons.prems(1,2), of v] EvVote by (auto simp: vote_added_def vts_AddVote_def)
  next
    case (EvPeerMaj23 p b)
    then show ?thesis using SetPeerMaj23_spec [OF Cons.prems(1,2), of p b] by auto
  qed
  then obtain s1 where s1: "vts_run E (e # es) s = vts_run E es s1" "vts_inv E B {} s1" "same_step s s1"
      "vts_maj23 s \<noteq> None \<longrightarrow> vts_maj23 s1 = vts_maj23 s" by blast
  have "quorum_ok (vts_valSet s1)" "keyed (vts_valSet s1) \<or> (\<exists>x. vts_run E es s1 = Inr x)"
    using Cons.prems(2,3) s1(1,3) by (simp_all add: same_step_def)
  from Cons.IH [OF s1(2) this sub] s1 show ?case by (auto simp: same_step_def)
qed

lemma NewVoteSet_inv:
  assumes "NewVoteSet chainID h r t vs = Inr s" "quorum_ok vs"
  shows "vts_inv E B {} s" "vts_chainID s = chainID" "vts_height s = h" "vts_round s = r" "vts_type s = t" "vts_valSet s = vs" "vts_maj23 s = None"
proof -
  have s: "s = \<lparr>vts_chainID = chainID, vts_height = h, vts_round = r, vts_type = t, vts_valSet = vs,
        vts_votesBitArray = NewBitArray (vs_Size vs), vts_votes = replicate (nat (vs_Size vs)) None,
        vts_sum = 0, vts_maj23 = None, vts_votesByBlock = Map.empty, vts_peerMaj23s = Map.empty\<rparr>"
    using assms(1) by (simp add: NewVoteSet_def split: if_splits)
  then show "vts_inv E B {} s"
    by (simp add: vts_inv_def votes_wf_def blocks_wf_def open_wf_def decided_wf_def bits_match_new vs_Size_def power_of_def)
qed (use assms in \<open>auto simp: NewVoteSet_def split: if_splits\<close>)

lemma vts_reached:
  assumes "NewVoteSet chainID h r t vs = Inr s0" "keyed vs \<or> (\<exists>x. vts_run E es s0 = Inr x)" "quorum_ok vs"
  shows "\<exists>s. vts_run E es s0 = Inr s \<and> vts_inv E (ids_voted es) {} s \<and> vts_chainID s = chainID \<and> vts_height s = h \<and>
    vts_round s = r \<and> vts_type s = t \<and> vts_valSet s = vs"
proof -
  note n = NewVoteSet_inv [OF assms(1,3)]
  have "quorum_ok (vts_valSet s0)" "keyed (vts_valSet s0) \<or> (\<exists>x. vts_run E es s0 = Inr x)" using assms n(6) by simp_all
  from vts_run_spec [OF n(1) this order_refl] n show ?thesis by (fastforce simp: same_step_def)
qed

lemma find_vote: "Some w \<in> set vs \<Longrightarrow> \<exists>v. find (\<lambda>p. p \<noteq> None) vs = Some (Some v) \<and> Some v \<in> set vs"
  by (induction vs) auto

lemma decided_commit:
  assumes inv: "vts_inv E B {} s" and Q: "quorum_ok (vts_valSet s)" and inj: "inj_on (bid_Key E) B"
    and b: "vts_maj23 s = Some b" and t: "vts_type s = VoteTypePrecommit"
  shows "VerifyCommit E (vts_valSet s) (vts_chainID s) b (vts_height s) \<lparr>commit_BlockID = b, Precommits = vts_votes s\<rparr> = Inr None"
proof -
  let ?c = "\<lparr>commit_BlockID = b, Precommits = vts_votes s\<rparr>" and ?vs = "vts_valSet s"
  have w: "votes_wf E B s" "blocks_wf E B s" using inv by (simp_all add: vts_inv_def)
  have len: "length (vts_votes s) = length (Validators ?vs)" using w(1) by (simp add: votes_wf_def)
  have ok: "vote_ok E B s i v" if "i < length (vts_votes s)" "vts_votes s ! i = Some v" for i v
    using w(1) that by (simp add: votes_wf_def)
  obtain bv where bv: "vts_votesByBlock s (bid_Key E b) = Some bv" "b \<in> B" "majority s (bv_sum bv)"
      "\<forall>i \<in> present (bv_votes bv). \<exists>v. vts_votes s ! i = Some v \<and> bid_Key E (vote_BlockID v) = bid_Key E b"
    using inv b unfolding vts_inv_def decided_wf_def by blast
  note bw = blocksD [OF w(2) bv(1)]
  have sum: "bv_sum bv = voting_power (Validators ?vs) (present (bv_votes bv))" using bw by (simp add: bv_wf_def power_of_def)
  have "0 \<le> total_power ?vs"
    using Q voting_power_nonneg [of "Validators ?vs" "{..<length (Validators ?vs)}"]
    by (simp add: quorum_total voting_power_all quorum_ok_def)
  then have "present (bv_votes bv) \<noteq> {}" using bv(3) sum by (auto simp: majority_def)
  then obtain j where "j \<in> present (vts_votes s)" using bw by blast
  then obtain w where "j < length (vts_votes s)" "vts_votes s ! j = Some w" by (auto simp: present_def)
  then have "Some w \<in> set (vts_votes s)" using nth_mem by metis
  from find_vote [OF this] obtain v where
    v: "find (\<lambda>p. p \<noteq> None) (vts_votes s) = Some (Some v)" "Some v \<in> set (vts_votes s)" by blast
  then obtain i where i: "i < length (vts_votes s)" "vts_votes s ! i = Some v" by (auto simp: in_set_conv_nth)
  have ht: "commit_Height ?c = vts_height s" "commit_Round ?c = vts_round s"
    using v i ok [OF i] by (auto simp: commit_Height_def commit_Round_def FirstPrecommit_def vote_ok_def)
  have good: "good_precommit E (vts_chainID s) ?vs (vts_height s) (vts_round s) i v"
    if "i < length (vts_votes s)" "vts_votes s ! i = Some v" for i v
    using ok [OF that] t by (auto simp: vote_ok_def good_precommit_def signed_by_def)
  then have all: "all_good E (vts_chainID s) ?vs (vts_height s) (commit_Round ?c) (Precommits ?c) 0"
    by (simp add: all_good_def ht)
  have "present (bv_votes bv) \<subseteq> commit_signers E (vts_chainID s) ?vs b (vts_height s) ?c"
  proof
    fix i assume i: "i \<in> present (bv_votes bv)"
    then obtain v where v: "vts_votes s ! i = Some v" "bid_Key E (vote_BlockID v) = bid_Key E b" using bv(4) by blast
    have il: "i < length (vts_votes s)" using i bw len by (auto simp: present_def bv_wf_def)
    have "vote_BlockID v = b" using inj v(2) ok [OF il v(1)] bv(2) by (auto simp: inj_on_def vote_ok_def)
    then show "i \<in> commit_signers E (vts_chainID s) ?vs b (vts_height s) ?c"
      using il v(1) good [OF il v(1)] by (simp add: commit_signers_def ht)
  qed
  then have "bv_sum bv \<le> voting_power (Validators ?vs) (commit_signers E (vts_chainID s) ?vs b (vts_height s) ?c)"
    using Q voting_power_mono by (simp add: sum quorum_ok_def)
  then show ?thesis
    using VerifyCommit_good [OF Q _ ht(1) all, of b] len bv(3) by (simp add: majority_def)
qed

section \<open>Properties\<close>

text \<open>
  C9: let the validators have keys and powers whose doubled sum fits 64 bits. Whatever votes arrive and majorities
  are claimed, in whatever order, a vote set over them never panics, and its invariant holds: every stored vote is of the step and signed by the validator
  of its index, the tallies equal the power of the stored votes, the bit arrays match them,
  and the recorded majority is one.
\<close>

theorem VoteSet_run_invariant:
  assumes "keyed vs" "quorum_ok vs" "NewVoteSet chainID h r t vs = Inr s0"
  shows "\<exists>s. vts_run E es s0 = Inr s \<and> vts_inv E (ids_voted es) {} s"
  using vts_reached [OF assms(3) _ assms(2), of E es] assms(1) by blast

definition demo_events :: "vote_event list" where
  "demo_events = [EvVote (demo_vote 0 ''a'' ''h''), EvPeerMaj23 ''p'' (demo_bid ''h''), EvVote (demo_vote 1 ''b'' ''h''),
     EvVote (demo_vote 1 ''b'' ''k'')]"

lemma demo_new: "\<exists>s0. NewVoteSet ''chain'' 1 0 2 demo_validators = Inr s0"
  by (simp add: NewVoteSet_def)

theorem VoteSet_run_invariant_witness:
  "\<exists>s0 s. NewVoteSet ''chain'' 1 0 2 demo_validators = Inr s0 \<and> vts_run demo_ext demo_events s0 = Inr s \<and>
     vts_inv demo_ext (ids_voted demo_events) {} s"
  using demo_new VoteSet_run_invariant [OF demo_set_ok, of "''chain''" 1 0 2 _ demo_ext demo_events] by blast

text \<open>
  C8: a majority the set reports is provable to others. If the doubled power of the validators fits 64 bits and the
  keys of the block ids voted for are distinct, \<open>MakeCommit\<close> of a precommit set with a majority for \<open>b\<close> returns a commit for \<open>b\<close>
  that \<open>VerifyCommit\<close> accepts.
\<close>

theorem VoteSet_commit_verifies:
  assumes "quorum_ok vs" "NewVoteSet chainID h r VoteTypePrecommit vs = Inr s0" "inj_on (bid_Key E) (ids_voted es)"
    and "vts_run E es s0 = Inr s" "TwoThirdsMajority (Some s) = (b, True)"
  shows "\<exists>c. MakeCommit s = Inr c \<and> commit_BlockID c = b \<and> VerifyCommit E vs chainID b h c = Inr None"
proof -
  have s: "vts_inv E (ids_voted es) {} s" "vts_chainID s = chainID" "vts_height s = h" "vts_type s = VoteTypePrecommit" "vts_valSet s = vs"
    using vts_reached [OF assms(2) _ assms(1), of E es] assms(4) by auto
  have b: "vts_maj23 s = Some b" using assms(5) by (simp add: TwoThirdsMajority_def split: option.splits)
  show ?thesis
    using decided_commit [OF s(1) _ assms(3) b s(4)] assms(1) s b by (simp add: MakeCommit_def)
qed

definition solo_set :: validator_set where
  "solo_set = \<lparr>Validators = [demo_validator ''a'' 1], Proposer = None, totalVotingPower = 0\<rparr>"

lemma solo_ok: "keyed solo_set" "quorum_ok solo_set" "total_power solo_set = 1"
  by (simp_all add: solo_set_def demo_validator_def keyed_def quorum_ok_def powers_ok_def cache_ok_def int64_defs
      total_power_eq sum_powers_def safeAddClip_def safeAdd_def wrap64_def)

definition solo_vote_set :: vote_set where
  "solo_vote_set = \<lparr>vts_chainID = ''chain'', vts_height = 1, vts_round = 0, vts_type = VoteTypePrecommit, vts_valSet = solo_set,
     vts_votesBitArray = NewBitArray 1, vts_votes = [None], vts_sum = 0, vts_maj23 = None,
     vts_votesByBlock = Map.empty, vts_peerMaj23s = Map.empty\<rparr>"

lemma solo_new: "NewVoteSet ''chain'' 1 0 VoteTypePrecommit solo_set = Inr solo_vote_set"
  by (simp add: NewVoteSet_def solo_vote_set_def vs_Size_def solo_set_def)

lemma solo_run: "\<exists>s. vts_run demo_ext [EvVote (demo_vote 0 ''a'' ''h'')] solo_vote_set = Inr s \<and> TwoThirdsMajority (Some s) = (demo_bid ''h'', True) \<and>
    vts_votes s = [Some (demo_vote 0 ''a'' ''h'')] \<and> vts_votesByBlock s (bid_Key demo_ext (demo_bid ''k'')) = None \<and> same_step solo_vote_set s"
  apply (simp add: vts_AddVote_def vts_addVote_def solo_vote_set_def demo_vote_def VoteTypePrecommit_def GetByIndex_def solo_set_def Let_def)
  apply (simp add: demo_validator_def add_from_def getVote_def slice_at_def bv_getByIndex_def vote_Verify_def tmhash_Sum_def
      tmhash_Size_def vote_SignBytes_def CanonicalVote_def CanonicalBlockID_def demo_bid_def)
  apply (simp add: addVerifiedVote_def record_vote_def slice_at_def store_vote_def mark_index_def SetIndex_def NewBitArray_def
      setIndex_def go_quot_def count_vote_def)
  apply (simp add: bv_addVerifiedVote_def newBlockVotes_def vs_Size_def slice_at_def mark_index_def SetIndex_def NewBitArray_def
      setIndex_def go_quot_def Let_def solo_ok(3) [unfolded solo_set_def demo_validator_def] two_thirds_def wrap64_def TwoThirdsMajority_def
      same_step_def bid_Key_def zero_psh_def)
  done

theorem VoteSet_commit_verifies_witness:
  "\<exists>s c. vts_run demo_ext [EvVote (demo_vote 0 ''a'' ''h'')] solo_vote_set = Inr s \<and> MakeCommit s = Inr c \<and>
     VerifyCommit demo_ext solo_set ''chain'' (demo_bid ''h'') 1 c = Inr None"
proof -
  have "ids_voted [EvVote (demo_vote 0 ''a'' ''h'')] = {demo_bid ''h''}" by (simp add: ids_voted_def demo_vote_def)
  then have "inj_on (bid_Key demo_ext) (ids_voted [EvVote (demo_vote 0 ''a'' ''h'')])" by simp
  from VoteSet_commit_verifies [OF solo_ok(2) solo_new this] solo_run show ?thesis by blast
qed

text \<open>
  C15: no majority is missed. As long as the set reports none, the validators whose stored vote
  is for any one block id hold at most two thirds of the power.
\<close>

theorem VoteSet_majority_complete:
  assumes "quorum_ok vs" "NewVoteSet chainID h r t vs = Inr s0"
    and "vts_run E es s0 = Inr s" "\<not> HasTwoThirdsMajority (Some s)"
  shows "3 * voting_power (Validators vs) (voters_for b (vts_votes s)) \<le> 2 * (\<Sum>v\<leftarrow>Validators vs. VotingPower v)"
proof -
  have s: "vts_inv E (ids_voted es) {} s" "vts_valSet s = vs"
    using vts_reached [OF assms(2) _ assms(1), of E es] assms(3) by auto
  have m: "vts_maj23 s = None" using assms(4) by (simp add: HasTwoThirdsMajority_def)
  have o: "open_wf E {} s" using s(1) by (simp add: vts_inv_def)
  let ?x = "entry s (bid_Key E b)"
  have Q: "quorum_ok (vts_valSet s)" using assms(1) s(2) by simp
  have e: "bv_wf E (ids_voted es) s (bid_Key E b) ?x" "\<not> majority s (bv_sum ?x)"
    using entry_facts(1,3) [OF s(1) Q] m by simp_all
  have "voters_for b (vts_votes s) \<subseteq> present (bv_votes ?x)"
  proof
    fix i assume "i \<in> voters_for b (vts_votes s)"
    then obtain v where v: "i < length (vts_votes s)" "vts_votes s ! i = Some v" "vote_BlockID v = b" by (auto simp: voters_for_def)
    then show "i \<in> present (bv_votes ?x)" using openD2 [OF o m v(1) _ v(2)] by (auto simp: entry_def)
  qed
  then have "voting_power (Validators vs) (voters_for b (vts_votes s)) \<le> bv_sum ?x"
    using voting_power_mono [of "Validators vs"] assms(1) e(1) s(2) by (simp add: quorum_ok_def bv_wf_def power_of_def)
  then show ?thesis using e(2) s(2) quorum_total [OF assms(1)] by (simp add: majority_def)
qed

theorem VoteSet_majority_complete_witness:
  "3 * voting_power (Validators solo_set) (voters_for (demo_bid ''h'') (vts_votes solo_vote_set)) \<le> 2 * (\<Sum>v\<leftarrow>Validators solo_set. VotingPower v)"
  by (rule VoteSet_majority_complete [OF solo_ok(2) solo_new, of demo_ext "[]"])
    (simp_all add: HasTwoThirdsMajority_def solo_vote_set_def)

text \<open>
  C22: a conflicting-votes error carries evidence that holds up: the two votes are by one
  validator, for one step and different block ids, and \<open>DuplicateVoteEvidence.Verify\<close> accepts them
  under the key in the evidence.
\<close>

theorem VoteSet_conflict_evidence:
  assumes "quorum_ok vs" "NewVoteSet chainID h r t vs = Inr s0" "vts_run E es s0 = Inr s"
    and "vts_addVote E s (Some v) = Inr (added, Some (ErrVoteConflictingVotes dve), s')"
  shows "VoteB dve = v \<and> (\<exists>k. dve_PubKey dve = Some k \<and> dve_Verify E chainID dve k = None)"
proof -
  let ?B = "ids_voted (es @ [EvVote v])"
  note n = NewVoteSet_inv [OF assms(2,1)]
  have sub: "ids_voted es \<subseteq> ?B" "vote_BlockID v \<in> ?B" by (auto simp: ids_voted_def)
  have "vts_inv E ?B {} s \<and> same_step s0 s"
    using vts_run_spec [OF n(1) _ _ sub(1), of E] n(6) assms(1,3) by auto
  then have s: "vts_inv E ?B {} s" "quorum_ok (vts_valSet s)" "vts_chainID s = chainID"
    using assms(1) n by (simp_all add: same_step_def)
  from addVote_spec [OF s(1,2) sub(2)] show ?thesis
    using assms(4) s(3) by (simp add: vote_added_def double_vote_def)
qed

lemma solo_conflict:
  "\<exists>s added dve s'. vts_run demo_ext [EvVote (demo_vote 0 ''a'' ''h'')] solo_vote_set = Inr s \<and>
     vts_addVote demo_ext s (Some (demo_vote 0 ''a'' ''k'')) = Inr (added, Some (ErrVoteConflictingVotes dve), s')"
proof -
  obtain s where s: "vts_run demo_ext [EvVote (demo_vote 0 ''a'' ''h'')] solo_vote_set = Inr s" "vts_maj23 s = Some (demo_bid ''h'')"
      "vts_votes s = [Some (demo_vote 0 ''a'' ''h'')]" "vts_votesByBlock s (bid_Key demo_ext (demo_bid ''k'')) = None"
      "vts_valSet s = solo_set" "vts_chainID s = ''chain''" "vts_height s = 1" "vts_round s = 0" "vts_type s = VoteTypePrecommit"
    using solo_run by (auto simp: TwoThirdsMajority_def same_step_def solo_vote_set_def split: option.splits)
  have k: "bid_Key demo_ext (demo_bid ''h'') \<noteq> bid_Key demo_ext (demo_bid ''k'')" by (simp add: bid_Key_def demo_bid_def zero_psh_def)
  have g: "GetByIndex solo_set 0 = (''a'', Some (demo_validator ''a'' 1))" by (simp add: solo_set_def GetByIndex_def demo_validator_def)
  have v: "vote_BlockID (demo_vote 0 ''a'' h) = demo_bid h" "ValidatorIndex (demo_vote 0 ''a'' h) = 0" "ValidatorAddress (demo_vote 0 ''a'' h) = ''a''"
      "vote_Height (demo_vote 0 ''a'' h) = 1" "vote_Round (demo_vote 0 ''a'' h) = 0" "vote_Type (demo_vote 0 ''a'' h) = VoteTypePrecommit" for h
    by (simp_all add: demo_vote_def VoteTypePrecommit_def)
  have "vote_Verify demo_ext ''chain'' (demo_vote 0 ''a'' ''k'') (v_PubKey (demo_validator ''a'' 1)) = Inr None"
    by (simp add: vote_Verify_def demo_validator_def demo_vote_def tmhash_Sum_def tmhash_Size_def vote_SignBytes_def CanonicalVote_def CanonicalBlockID_def demo_bid_def)
  moreover have "getVote demo_ext s 0 (bid_Key demo_ext (demo_bid ''k'')) = Inr None"
    using s(3,4) k v by (simp add: getVote_def slice_at_def bv_getByIndex_def)
  moreover have "addVerifiedVote demo_ext s (demo_vote 0 ''a'' ''k'') (bid_Key demo_ext (demo_bid ''k'')) 1 = Inr (False, Some (demo_vote 0 ''a'' ''h''), s)"
    using s(2,3,4) k v by (auto simp: addVerifiedVote_def record_vote_def slice_at_def)
  ultimately have "add_from demo_ext s (demo_vote 0 ''a'' ''k'') (demo_validator ''a'' 1) =
      Inr (False, Some (NewConflictingVoteError (demo_validator ''a'' 1) (demo_vote 0 ''a'' ''h'') (demo_vote 0 ''a'' ''k'')), s)"
    using s(6) v by (simp add: add_from_def demo_validator_def)
  then have "vts_addVote demo_ext s (Some (demo_vote 0 ''a'' ''k'')) =
      Inr (False, Some (NewConflictingVoteError (demo_validator ''a'' 1) (demo_vote 0 ''a'' ''h'') (demo_vote 0 ''a'' ''k'')), s)"
    using s(5-9) g v by (simp add: vts_addVote_def Let_def)
  then show ?thesis using s(1) unfolding NewConflictingVoteError_def by blast
qed

theorem VoteSet_conflict_evidence_witness:
  "\<exists>dve k. VoteB dve = demo_vote 0 ''a'' ''k'' \<and> dve_Verify demo_ext ''chain'' dve k = None"
  using solo_conflict VoteSet_conflict_evidence [OF solo_ok(2) solo_new] by blast

text \<open>
  The key under which votes are counted does not determine the block id. Amino encodes the
  zero header as no bytes, so the id whose hash is another id's hash followed by its encoded
  header has the same key, and votes for the two are counted as one block.
\<close>

lemma BlockID_Key_ambiguous:
  assumes "MarshalBinaryBare E (AmPartSetHeader zero_psh) = []" "psh \<noteq> zero_psh"
  shows "\<exists>b b'. b \<noteq> b' \<and> bid_PartsHeader b = psh \<and> bid_Hash b = hash \<and> bid_Key E b = bid_Key E b'"
proof -
  let ?b = "\<lparr>bid_Hash = hash, bid_PartsHeader = psh\<rparr>"
  let ?b' = "\<lparr>bid_Hash = hash @ MarshalBinaryBare E (AmPartSetHeader psh), bid_PartsHeader = zero_psh\<rparr>"
  have "?b \<noteq> ?b'" "bid_Key E ?b = bid_Key E ?b'" using assms by (simp_all add: bid_Key_def)
  then show ?thesis by (intro exI [of _ ?b] exI [of _ ?b']) simp
qed

end
