(* ===== verification/Height_Vote_Set.thy ===== *)
theory Height_Vote_Set
  imports Vote_Set
begin

text \<open>
  \<^verbatim>\<open>consensus/types/height_vote_set.go\<close>: the vote sets of all rounds of one height, and the rounds
  peers were allowed to open ahead of the node's own.
\<close>

section \<open>Operations\<close>

record round_vote_set =
  rvs_Prevotes :: vote_set
  rvs_Precommits :: vote_set

record height_vote_set =
  hvs_chainID :: bytes
  hvs_height :: int
  hvs_valSet :: validator_set
  hvs_round :: int
  hvs_roundVoteSets :: "int \<rightharpoonup> round_vote_set"
  hvs_peerCatchupRounds :: "bytes \<rightharpoonup> int list"

definition hvs_addRound :: "height_vote_set \<Rightarrow> int \<Rightarrow> height_vote_set or_panic" where
  "hvs_addRound hvs round =
     (if hvs_roundVoteSets hvs round \<noteq> None then Inl (PanicSanity ''addRound() for an existing round'')
      else
        bindP (NewVoteSet (hvs_chainID hvs) (hvs_height hvs) round VoteTypePrevote (hvs_valSet hvs)) (\<lambda>prevotes.
        bindP (NewVoteSet (hvs_chainID hvs) (hvs_height hvs) round VoteTypePrecommit (hvs_valSet hvs)) (\<lambda>precommits.
          Inr (hvs\<lparr>hvs_roundVoteSets := (hvs_roundVoteSets hvs)(round \<mapsto>
            \<lparr>rvs_Prevotes = prevotes, rvs_Precommits = precommits\<rparr>)\<rparr>))))"

definition hvs_Reset :: "height_vote_set \<Rightarrow> int \<Rightarrow> validator_set \<Rightarrow> height_vote_set or_panic" where
  "hvs_Reset hvs height valSet =
     bindP (hvs_addRound (hvs\<lparr>hvs_height := height, hvs_valSet := valSet, hvs_roundVoteSets := Map.empty,
         hvs_peerCatchupRounds := Map.empty\<rparr>) 0) (\<lambda>hvs'.
       Inr (hvs'\<lparr>hvs_round := 0\<rparr>))"

definition NewHeightVoteSet :: "bytes \<Rightarrow> int \<Rightarrow> validator_set \<Rightarrow> height_vote_set or_panic" where
  "NewHeightVoteSet chainID height valSet =
     hvs_Reset \<lparr>hvs_chainID = chainID, hvs_height = 0, hvs_valSet = valSet, hvs_round = 0,
       hvs_roundVoteSets = Map.empty, hvs_peerCatchupRounds = Map.empty\<rparr> height valSet"

definition add_missing_round :: "int \<Rightarrow> height_vote_set \<Rightarrow> height_vote_set or_panic" where
  "add_missing_round r hvs = (if hvs_roundVoteSets hvs r \<noteq> None then Inr hvs else hvs_addRound hvs r)"

definition hvs_SetRound :: "height_vote_set \<Rightarrow> int \<Rightarrow> height_vote_set or_panic" where
  "hvs_SetRound hvs round =
     (if hvs_round hvs \<noteq> 0 \<and> round < hvs_round hvs + 1 then Inl (PanicSanity ''SetRound() must increment hvs.round'')
      else
        bindP (foldP add_missing_round [hvs_round hvs + 1..round] hvs) (\<lambda>hvs'.
          Inr (hvs'\<lparr>hvs_round := round\<rparr>)))"

definition hvs_getVoteSet :: "height_vote_set \<Rightarrow> int \<Rightarrow> int \<Rightarrow> vote_set option or_panic" where
  "hvs_getVoteSet hvs round t =
     (case hvs_roundVoteSets hvs round of None \<Rightarrow> Inr None
      | Some rvs \<Rightarrow>
          if t = VoteTypePrevote then Inr (Some (rvs_Prevotes rvs))
          else if t = VoteTypePrecommit then Inr (Some (rvs_Precommits rvs))
          else Inl (PanicSanity ''Unexpected vote type''))"

text \<open>Writing back the vote set a handler changed through its pointer.\<close>

definition put_vote_set :: "height_vote_set \<Rightarrow> int \<Rightarrow> int \<Rightarrow> vote_set \<Rightarrow> height_vote_set" where
  "put_vote_set hvs round t s =
     (case hvs_roundVoteSets hvs round of None \<Rightarrow> hvs
      | Some rvs \<Rightarrow> hvs\<lparr>hvs_roundVoteSets := (hvs_roundVoteSets hvs)(round \<mapsto>
          (if t = VoteTypePrevote then rvs\<lparr>rvs_Prevotes := s\<rparr> else rvs\<lparr>rvs_Precommits := s\<rparr>))\<rparr>)"

datatype hvs_error = GotVoteFromUnwantedRoundError | VoteError vote_error

definition hvs_AddVote ::
  "'e ext_scheme \<Rightarrow> height_vote_set \<Rightarrow> vote \<Rightarrow> bytes \<Rightarrow> (bool \<times> hvs_error option \<times> height_vote_set) or_panic" where
  "hvs_AddVote E hvs v peerID =
     (if \<not> IsVoteTypeValid (vote_Type v) then Inr (False, None, hvs)
      else
        bindP (hvs_getVoteSet hvs (vote_Round v) (vote_Type v)) (\<lambda>found.
        let rndz = (case hvs_peerCatchupRounds hvs peerID of None \<Rightarrow> [] | Some l \<Rightarrow> l) in
        if found = None \<and> \<not> length rndz < 2 then Inr (False, Some GotVoteFromUnwantedRoundError, hvs)
        else
          bindP (if found = None
                 then bindP (hvs_addRound hvs (vote_Round v)) (\<lambda>h.
                   Inr (h\<lparr>hvs_peerCatchupRounds := (hvs_peerCatchupRounds h)(peerID \<mapsto> rndz @ [vote_Round v])\<rparr>))
                 else Inr hvs) (\<lambda>hvs1.
          bindP (hvs_getVoteSet hvs1 (vote_Round v) (vote_Type v)) (\<lambda>voteSet.
          bindP (vts_AddVote E voteSet (Some v)) (\<lambda>(added, err, s).
            Inr (added, map_option VoteError err, put_vote_set hvs1 (vote_Round v) (vote_Type v) s))))))"

definition hvs_Prevotes :: "height_vote_set \<Rightarrow> int \<Rightarrow> vote_set option or_panic" where
  "hvs_Prevotes hvs round = hvs_getVoteSet hvs round VoteTypePrevote"

definition hvs_Precommits :: "height_vote_set \<Rightarrow> int \<Rightarrow> vote_set option or_panic" where
  "hvs_Precommits hvs round = hvs_getVoteSet hvs round VoteTypePrecommit"

fun pol_loop :: "height_vote_set \<Rightarrow> nat \<Rightarrow> (int \<times> block_id) or_panic" where
  "pol_loop hvs 0 = Inr (- 1, zero_bid)"
| "pol_loop hvs (Suc r) =
     bindP (hvs_getVoteSet hvs (int r) VoteTypePrevote) (\<lambda>rvs.
       let (polBlockID, ok) = TwoThirdsMajority rvs in
       if ok then Inr (int r, polBlockID) else pol_loop hvs r)"

definition POLInfo :: "height_vote_set \<Rightarrow> (int \<times> block_id) or_panic" where
  "POLInfo hvs = pol_loop hvs (nat (hvs_round hvs + 1))"

datatype hvs_peer_error = InvalidVoteType | PeerError peer_error

definition hvs_SetPeerMaj23 ::
  "'e ext_scheme \<Rightarrow> height_vote_set \<Rightarrow> int \<Rightarrow> int \<Rightarrow> bytes \<Rightarrow> block_id \<Rightarrow> (hvs_peer_error option \<times> height_vote_set) or_panic" where
  "hvs_SetPeerMaj23 E hvs round t peerID blockID =
     (if \<not> IsVoteTypeValid t then Inr (Some InvalidVoteType, hvs)
      else
        bindP (hvs_getVoteSet hvs round t) (\<lambda>voteSet.
          if voteSet = None then Inr (None, hvs)
          else bindP (vts_SetPeerMaj23 E voteSet (hex_EncodeToString peerID) blockID) (\<lambda>(err, s).
            Inr (map_option PeerError err, put_vote_set hvs round t s))))"

section \<open>The invariant\<close>

definition opened :: "(bytes \<rightharpoonup> int list) \<Rightarrow> int set" where
  "opened m = \<Union> (set ` ran m)"

definition set_of :: "'e ext_scheme \<Rightarrow> block_id set \<Rightarrow> height_vote_set \<Rightarrow> int \<Rightarrow> int \<Rightarrow> vote_set \<Rightarrow> bool" where
  "set_of E B hvs r t s \<longleftrightarrow> vts_inv E B {} s \<and> vts_chainID s = hvs_chainID hvs \<and> vts_height s = hvs_height hvs \<and>
     vts_round s = r \<and> vts_type s = t \<and> vts_valSet s = hvs_valSet hvs"

definition hvs_wf :: "'e ext_scheme \<Rightarrow> block_id set \<Rightarrow> height_vote_set \<Rightarrow> bool" where
  "hvs_wf E B hvs \<longleftrightarrow> quorum_ok (hvs_valSet hvs) \<and> hvs_height hvs \<noteq> 0 \<and> 0 \<le> hvs_round hvs \<and>
     (\<forall>r rvs. hvs_roundVoteSets hvs r = Some rvs \<longrightarrow>
        set_of E B hvs r VoteTypePrevote (rvs_Prevotes rvs) \<and> set_of E B hvs r VoteTypePrecommit (rvs_Precommits rvs)) \<and>
     {0..hvs_round hvs} \<subseteq> dom (hvs_roundVoteSets hvs)"

text \<open>Rounds beyond the node's own are those some peer opened, at most two each.\<close>

definition catchup_ok :: "height_vote_set \<Rightarrow> bool" where
  "catchup_ok hvs \<longleftrightarrow> (\<forall>p l. hvs_peerCatchupRounds hvs p = Some l \<longrightarrow> length l \<le> 2) \<and> finite (dom (hvs_peerCatchupRounds hvs)) \<and>
     dom (hvs_roundVoteSets hvs) \<subseteq> {0..hvs_round hvs} \<union> opened (hvs_peerCatchupRounds hvs)"

lemma type_cases: "IsVoteTypeValid t \<longleftrightarrow> t = VoteTypePrevote \<or> t = VoteTypePrecommit"
  by (simp add: IsVoteTypeValid_def)

lemma types_differ [simp]: "VoteTypePrevote \<noteq> VoteTypePrecommit" "VoteTypePrecommit \<noteq> VoteTypePrevote"
  by (simp_all add: VoteTypePrevote_def VoteTypePrecommit_def)

lemma getVoteSet_ok:
  assumes "hvs_wf E B hvs" "IsVoteTypeValid t"
  shows "\<exists>so. hvs_getVoteSet hvs r t = Inr so \<and> (so = None \<longleftrightarrow> hvs_roundVoteSets hvs r = None) \<and> (\<forall>s. so = Some s \<longrightarrow> set_of E B hvs r t s)"
  using assms by (cases "hvs_roundVoteSets hvs r") (auto simp: hvs_getVoteSet_def type_cases hvs_wf_def)

lemma addRound_ok:
  assumes w: "hvs_wf E B hvs" and n: "hvs_roundVoteSets hvs r = None"
  shows "\<exists>x. hvs_addRound hvs r = Inr (hvs\<lparr>hvs_roundVoteSets := (hvs_roundVoteSets hvs)(r \<mapsto> x)\<rparr>) \<and>
    hvs_wf E B (hvs\<lparr>hvs_roundVoteSets := (hvs_roundVoteSets hvs)(r \<mapsto> x)\<rparr>)"
proof -
  have h: "hvs_height hvs \<noteq> 0" "quorum_ok (hvs_valSet hvs)" using w by (simp_all add: hvs_wf_def)
  then obtain a b where ab: "NewVoteSet (hvs_chainID hvs) (hvs_height hvs) r VoteTypePrevote (hvs_valSet hvs) = Inr a"
      "NewVoteSet (hvs_chainID hvs) (hvs_height hvs) r VoteTypePrecommit (hvs_valSet hvs) = Inr b"
    by (simp add: NewVoteSet_def)
  let ?x = "\<lparr>rvs_Prevotes = a, rvs_Precommits = b\<rparr>"
  have "set_of E B hvs r VoteTypePrevote a" "set_of E B hvs r VoteTypePrecommit b"
    using NewVoteSet_inv [OF ab(1) h(2)] NewVoteSet_inv [OF ab(2) h(2)] by (simp_all add: set_of_def)
  then have "hvs_wf E B (hvs\<lparr>hvs_roundVoteSets := (hvs_roundVoteSets hvs)(r \<mapsto> ?x)\<rparr>)"
    using w unfolding hvs_wf_def set_of_def by auto
  then show ?thesis using n ab by (intro exI [of _ ?x]) (simp add: hvs_addRound_def)
qed

lemma put_ok:
  assumes w: "hvs_wf E B hvs" and s: "set_of E B hvs r t s" and t: "IsVoteTypeValid t"
  shows "hvs_wf E B (put_vote_set hvs r t s)"
proof (cases "hvs_roundVoteSets hvs r")
  case None
  then show ?thesis using w by (simp add: put_vote_set_def)
next
  case (Some rvs)
  have old: "set_of E B hvs r VoteTypePrevote (rvs_Prevotes rvs)" "set_of E B hvs r VoteTypePrecommit (rvs_Precommits rvs)"
    using w Some by (simp_all add: hvs_wf_def)
  show ?thesis using w s t old Some unfolding put_vote_set_def hvs_wf_def set_of_def type_cases by auto
qed

lemma put_frame [simp]:
  "hvs_round (put_vote_set hvs r t s) = hvs_round hvs" "hvs_peerCatchupRounds (put_vote_set hvs r t s) = hvs_peerCatchupRounds hvs"
  "dom (hvs_roundVoteSets (put_vote_set hvs r t s)) = dom (hvs_roundVoteSets hvs)" "hvs_valSet (put_vote_set hvs r t s) = hvs_valSet hvs"
  by (auto simp: put_vote_set_def split: option.splits)

lemma hvs_AddVote_ok:
  assumes w: "hvs_wf E B hvs" and c: "catchup_ok hvs" and B: "vote_BlockID v \<in> B"
    and K: "keyed (hvs_valSet hvs) \<or> (\<exists>x. hvs_AddVote E hvs v peerID = Inr x)"
  shows "\<exists>a e h. hvs_AddVote E hvs v peerID = Inr (a, e, h) \<and> hvs_wf E B h \<and> catchup_ok h \<and> hvs_valSet h = hvs_valSet hvs"
proof (cases "IsVoteTypeValid (vote_Type v)")
  case False
  then show ?thesis using w c by (auto simp: hvs_AddVote_def)
next
  case t: True
  let ?r = "vote_Round v" and ?t = "vote_Type v"
  define rndz where "rndz = (case hvs_peerCatchupRounds hvs peerID of None \<Rightarrow> [] | Some l \<Rightarrow> l)"
  obtain so where so: "hvs_getVoteSet hvs ?r ?t = Inr so" "so = None \<longleftrightarrow> hvs_roundVoteSets hvs ?r = None"
    using getVoteSet_ok [OF w t] by blast
  show ?thesis
  proof (cases "so = None \<and> \<not> length rndz < 2")
    case True
    then show ?thesis using so t w c by (auto simp: hvs_AddVote_def rndz_def Let_def)
  next
    case False
    have "\<exists>h1. (if so = None then bindP (hvs_addRound hvs ?r) (\<lambda>h.
          Inr (h\<lparr>hvs_peerCatchupRounds := (hvs_peerCatchupRounds h)(peerID \<mapsto> rndz @ [?r])\<rparr>)) else Inr hvs) = Inr h1 \<and>
        hvs_wf E B h1 \<and> catchup_ok h1 \<and> hvs_roundVoteSets h1 ?r \<noteq> None \<and> hvs_valSet h1 = hvs_valSet hvs"
    proof (cases so)
      case None
      then obtain x where x: "hvs_addRound hvs ?r = Inr (hvs\<lparr>hvs_roundVoteSets := (hvs_roundVoteSets hvs)(?r \<mapsto> x)\<rparr>)"
          "hvs_wf E B (hvs\<lparr>hvs_roundVoteSets := (hvs_roundVoteSets hvs)(?r \<mapsto> x)\<rparr>)"
        using addRound_ok [OF w] so(2) by blast
      let ?h = "hvs\<lparr>hvs_roundVoteSets := (hvs_roundVoteSets hvs)(?r \<mapsto> x), hvs_peerCatchupRounds := (hvs_peerCatchupRounds hvs)(peerID \<mapsto> rndz @ [?r])\<rparr>"
      have "hvs_wf E B ?h" using x(2) by (simp add: hvs_wf_def set_of_def)
      moreover have "catchup_ok ?h"
      proof -
        let ?m = "(hvs_peerCatchupRounds hvs)(peerID \<mapsto> rndz @ [?r])"
        have "opened (hvs_peerCatchupRounds hvs) \<subseteq> opened ?m"
        proof
          fix y assume "y \<in> opened (hvs_peerCatchupRounds hvs)"
          then obtain p l where "hvs_peerCatchupRounds hvs p = Some l" "y \<in> set l" by (auto simp: ran_def opened_def)
          then show "y \<in> opened ?m" by (cases "p = peerID") (auto simp: ran_def rndz_def opened_def)
        qed
        moreover have "?r \<in> opened ?m" by (auto simp: ran_def opened_def)
        ultimately have "insert ?r (dom (hvs_roundVoteSets hvs)) \<subseteq> {0..hvs_round hvs} \<union> opened ?m"
          using c unfolding catchup_ok_def by blast
        moreover have "length l \<le> 2" if "?m p = Some l" for p l
          using that c None False by (cases "p = peerID") (auto simp: catchup_ok_def)
        moreover have "finite (dom ?m)" using c by (simp add: catchup_ok_def)
        ultimately show ?thesis by (simp add: catchup_ok_def)
      qed
      ultimately show ?thesis using x(1) None by auto
    next
      case (Some s)
      then show ?thesis using w c so(2) by simp
    qed
    then obtain h1 where h1: "(if so = None then bindP (hvs_addRound hvs ?r) (\<lambda>h.
          Inr (h\<lparr>hvs_peerCatchupRounds := (hvs_peerCatchupRounds h)(peerID \<mapsto> rndz @ [?r])\<rparr>)) else Inr hvs) = Inr h1"
        "hvs_wf E B h1" "catchup_ok h1" "hvs_roundVoteSets h1 ?r \<noteq> None" "hvs_valSet h1 = hvs_valSet hvs" by blast
    obtain s where s: "hvs_getVoteSet h1 ?r ?t = Inr (Some s)" "set_of E B h1 ?r ?t s"
      using getVoteSet_ok [OF h1(2) t, of ?r] h1(4) by auto
    have Q: "quorum_ok (vts_valSet s)" "vts_valSet s = hvs_valSet hvs" "vts_inv E B {} s" using s(2) h1(2,5) by (simp_all add: set_of_def hvs_wf_def)
    have a: "hvs_AddVote E hvs v peerID = bindP (vts_AddVote E (Some s) (Some v)) (\<lambda>(a, e, s'). Inr (a, map_option VoteError e, put_vote_set h1 ?r ?t s'))"
      using t so(1) False h1(1) s(1) by (auto simp: hvs_AddVote_def rndz_def [symmetric])
    have "keyed (vts_valSet s) \<or> (\<exists>x. vts_addVote E s (Some v) = Inr x)"
      using K unfolding a Q(2) by (auto simp: vts_AddVote_def elim: bindP_Inr_E)
    then obtain a e s' where s': "vts_AddVote E (Some s) (Some v) = Inr (a, e, s')" "vts_inv E B {} s'" "same_step s s'"
      using addVote_spec [OF Q(3,1) B] by (auto simp: vote_added_def vts_AddVote_def)
    have "hvs_AddVote E hvs v peerID = Inr (a, map_option VoteError e, put_vote_set h1 ?r ?t s')" unfolding a s'(1) by simp
    moreover have "hvs_wf E B (put_vote_set h1 ?r ?t s')"
      by (rule put_ok [OF h1(2) _ t]) (use s s' in \<open>simp add: set_of_def same_step_def\<close>)
    moreover have "catchup_ok (put_vote_set h1 ?r ?t s')" using h1(3) by (simp add: catchup_ok_def)
    ultimately show ?thesis using h1(5) by auto
  qed
qed

lemma hvs_SetPeerMaj23_ok:
  assumes w: "hvs_wf E B hvs" and c: "catchup_ok hvs"
  shows "\<exists>e h. hvs_SetPeerMaj23 E hvs r t peerID b = Inr (e, h) \<and> hvs_wf E B h \<and> catchup_ok h \<and> hvs_valSet h = hvs_valSet hvs"
proof (cases "IsVoteTypeValid t")
  case False
  then show ?thesis using w c by (simp add: hvs_SetPeerMaj23_def)
next
  case t: True
  obtain so where so: "hvs_getVoteSet hvs r t = Inr so" "\<And>s. so = Some s \<Longrightarrow> set_of E B hvs r t s"
    using getVoteSet_ok [OF w t, of r] by blast
  show ?thesis
  proof (cases so)
    case None
    then show ?thesis using so t w c by (simp add: hvs_SetPeerMaj23_def)
  next
    case (Some s)
    have s: "vts_inv E B {} s" "quorum_ok (vts_valSet s)" using so(2) [OF Some] w by (simp_all add: set_of_def hvs_wf_def)
    obtain e s' where s': "vts_SetPeerMaj23 E (Some s) (hex_EncodeToString peerID) b = Inr (e, s')" "vts_inv E B {} s'" "same_step s s'"
      using SetPeerMaj23_spec [OF s, of "hex_EncodeToString peerID" b] by blast
    have "hvs_wf E B (put_vote_set hvs r t s')"
      by (rule put_ok [OF w _ t]) (use so(2) [OF Some] s' in \<open>simp add: set_of_def same_step_def\<close>)
    moreover have "catchup_ok (put_vote_set hvs r t s')" using c by (simp add: catchup_ok_def)
    ultimately show ?thesis using so(1) Some t s'(1) by (simp add: hvs_SetPeerMaj23_def)
  qed
qed

lemma add_missing_rounds:
  assumes "hvs_wf E B hvs"
  shows "\<exists>m. foldP add_missing_round rs hvs = Inr (hvs\<lparr>hvs_roundVoteSets := m\<rparr>) \<and> hvs_wf E B (hvs\<lparr>hvs_roundVoteSets := m\<rparr>) \<and>
    dom m = dom (hvs_roundVoteSets hvs) \<union> set rs"
  using assms
proof (induction rs arbitrary: hvs)
  case Nil
  then show ?case by (intro exI [of _ "hvs_roundVoteSets hvs"]) simp
next
  case (Cons r rs)
  have "\<exists>m1. add_missing_round r hvs = Inr (hvs\<lparr>hvs_roundVoteSets := m1\<rparr>) \<and> hvs_wf E B (hvs\<lparr>hvs_roundVoteSets := m1\<rparr>) \<and>
      dom m1 = insert r (dom (hvs_roundVoteSets hvs))"
  proof (cases "hvs_roundVoteSets hvs r")
    case None
    then show ?thesis using addRound_ok [OF Cons.prems None] by (auto simp: add_missing_round_def)
  next
    case (Some x)
    then show ?thesis using Cons.prems by (intro exI [of _ "hvs_roundVoteSets hvs"]) (auto simp: add_missing_round_def)
  qed
  then obtain m1 where m1: "add_missing_round r hvs = Inr (hvs\<lparr>hvs_roundVoteSets := m1\<rparr>)" "hvs_wf E B (hvs\<lparr>hvs_roundVoteSets := m1\<rparr>)"
      "dom m1 = insert r (dom (hvs_roundVoteSets hvs))" by blast
  from Cons.IH [OF m1(2)] m1 show ?case by auto
qed

lemma hvs_SetRound_ok:
  assumes w: "hvs_wf E B hvs" and c: "catchup_ok hvs" and r: "hvs_round hvs < r"
  shows "\<exists>h. hvs_SetRound hvs r = Inr h \<and> hvs_wf E B h \<and> catchup_ok h \<and> hvs_round h = r \<and> hvs_valSet h = hvs_valSet hvs"
proof -
  obtain m where m: "foldP add_missing_round [hvs_round hvs + 1..r] hvs = Inr (hvs\<lparr>hvs_roundVoteSets := m\<rparr>)"
      "hvs_wf E B (hvs\<lparr>hvs_roundVoteSets := m\<rparr>)" "dom m = dom (hvs_roundVoteSets hvs) \<union> {hvs_round hvs + 1..r}"
    using add_missing_rounds [OF w, of "[hvs_round hvs + 1..r]"] by auto
  have sub: "{0..hvs_round hvs} \<subseteq> dom (hvs_roundVoteSets hvs)" "0 \<le> hvs_round hvs" using w by (simp_all add: hvs_wf_def)
  have "{0..r} \<subseteq> {0..hvs_round hvs} \<union> {hvs_round hvs + 1..r}" using r by auto
  then have "{0..r} \<subseteq> dom m" using sub(1) m(3) by blast
  then have "hvs_wf E B (hvs\<lparr>hvs_roundVoteSets := m, hvs_round := r\<rparr>)"
    using m(2) r sub(2) by (simp add: hvs_wf_def set_of_def)
  moreover have "{0..hvs_round hvs} \<subseteq> {0..r}" "{hvs_round hvs + 1..r} \<subseteq> {0..r}" using r sub(2) by auto
  then have "dom m \<subseteq> {0..r} \<union> opened (hvs_peerCatchupRounds hvs)"
    using c m(3) unfolding catchup_ok_def by blast
  then have "catchup_ok (hvs\<lparr>hvs_roundVoteSets := m, hvs_round := r\<rparr>)"
    using c by (simp add: catchup_ok_def)
  ultimately show ?thesis using m(1) r by (simp add: hvs_SetRound_def)
qed

lemma NewHeightVoteSet_ok:
  assumes "h \<noteq> 0" "quorum_ok vs"
  shows "\<exists>hvs. NewHeightVoteSet chainID h vs = Inr hvs \<and> hvs_wf E B hvs \<and> catchup_ok hvs \<and> hvs_valSet hvs = vs \<and> hvs_round hvs = 0"
proof -
  let ?h = "\<lparr>hvs_chainID = chainID, hvs_height = h, hvs_valSet = vs, hvs_round = 0, hvs_roundVoteSets = Map.empty, hvs_peerCatchupRounds = Map.empty\<rparr>"
  obtain a b where ab: "NewVoteSet chainID h 0 VoteTypePrevote vs = Inr a" "NewVoteSet chainID h 0 VoteTypePrecommit vs = Inr b"
    using assms(1) by (simp add: NewVoteSet_def)
  have "NewHeightVoteSet chainID h vs = Inr (?h\<lparr>hvs_roundVoteSets := [0 \<mapsto> \<lparr>rvs_Prevotes = a, rvs_Precommits = b\<rparr>]\<rparr>)"
    using ab by (simp add: NewHeightVoteSet_def hvs_Reset_def hvs_addRound_def)
  then show ?thesis
    using assms NewVoteSet_inv [OF ab(1) assms(2)] NewVoteSet_inv [OF ab(2) assms(2)]
    by (auto simp: hvs_wf_def set_of_def catchup_ok_def)
qed

section \<open>Runs\<close>

text \<open>Votes and claims of peers in any order; the node moves its round up by \<open>Suc k\<close>.\<close>

datatype hvs_event = HvVote vote bytes | HvMaj23 int int bytes block_id | HvRound nat

fun hvs_run :: "'e ext_scheme \<Rightarrow> hvs_event list \<Rightarrow> height_vote_set \<Rightarrow> height_vote_set or_panic" where
  "hvs_run E [] hvs = Inr hvs"
| "hvs_run E (HvVote v p # es) hvs = bindP (hvs_AddVote E hvs v p) (\<lambda>(_, _, h). hvs_run E es h)"
| "hvs_run E (HvMaj23 r t p b # es) hvs = bindP (hvs_SetPeerMaj23 E hvs r t p b) (\<lambda>(_, h). hvs_run E es h)"
| "hvs_run E (HvRound k # es) hvs = bindP (hvs_SetRound hvs (hvs_round hvs + 1 + int k)) (\<lambda>h. hvs_run E es h)"

lemma hvs_run_ok:
  "hvs_wf E UNIV hvs \<Longrightarrow> catchup_ok hvs \<Longrightarrow> keyed (hvs_valSet hvs) \<Longrightarrow> \<exists>h. hvs_run E es hvs = Inr h \<and> hvs_wf E UNIV h \<and> catchup_ok h"
proof (induction es arbitrary: hvs)
  case Nil
  then show ?case by simp
next
  case (Cons e es)
  have "\<exists>h. hvs_run E (e # es) hvs = hvs_run E es h \<and> hvs_wf E UNIV h \<and> catchup_ok h \<and> keyed (hvs_valSet h)"
  proof (cases e)
    case (HvVote v p)
    then show ?thesis using hvs_AddVote_ok [OF Cons.prems(1,2), of v p] Cons.prems(3) by auto
  next
    case (HvMaj23 r t p b)
    then show ?thesis using hvs_SetPeerMaj23_ok [OF Cons.prems(1,2), of r t p b] Cons.prems(3) by auto
  next
    case (HvRound k)
    then show ?thesis using hvs_SetRound_ok [OF Cons.prems(1,2), of "hvs_round hvs + 1 + int k"] Cons.prems(3) by auto
  qed
  then show ?case using Cons.IH by auto
qed

lemma pol_loop_spec:
  assumes "hvs_wf E B hvs"
  shows "\<exists>r b. pol_loop hvs n = Inr (r, b) \<and>
    (\<forall>k < n. r < int k \<longrightarrow> (\<forall>rvs. hvs_roundVoteSets hvs (int k) = Some rvs \<longrightarrow> vts_maj23 (rvs_Prevotes rvs) = None)) \<and>
    (r = - 1 \<or> (0 \<le> r \<and> r < int n \<and> (\<exists>rvs. hvs_roundVoteSets hvs r = Some rvs \<and> vts_maj23 (rvs_Prevotes rvs) = Some b)))"
proof (induction n)
  case (Suc n)
  then obtain r b where ih: "pol_loop hvs n = Inr (r, b)"
      "\<forall>k < n. r < int k \<longrightarrow> (\<forall>rvs. hvs_roundVoteSets hvs (int k) = Some rvs \<longrightarrow> vts_maj23 (rvs_Prevotes rvs) = None)"
      "r = - 1 \<or> (0 \<le> r \<and> r < int n \<and> (\<exists>rvs. hvs_roundVoteSets hvs r = Some rvs \<and> vts_maj23 (rvs_Prevotes rvs) = Some b))" by blast
  show ?case
  proof (cases "\<exists>rvs b. hvs_roundVoteSets hvs (int n) = Some rvs \<and> vts_maj23 (rvs_Prevotes rvs) = Some b")
    case True
    then show ?thesis by (auto simp: hvs_getVoteSet_def TwoThirdsMajority_def)
  next
    case False
    then have "pol_loop hvs (Suc n) = pol_loop hvs n"
      by (cases "hvs_roundVoteSets hvs (int n)") (auto simp: hvs_getVoteSet_def TwoThirdsMajority_def split: option.splits)
    then show ?thesis using ih False by (intro exI [of _ r] exI [of _ b]) (auto simp: less_Suc_eq)
  qed
qed simp

section \<open>Properties\<close>

text \<open>
  C24: the votes of a height keep bounded memory and never panic, if the validators have keys and powers
  whose doubled sum fits 64 bits. Whatever votes and claims peers send, and however the node's round advances, the rounds kept beyond \<open>0..round\<close> are at most twice as
  many as the peers that sent a vote, and every round the node itself reached has its vote sets.
\<close>

theorem HeightVoteSet_bounded:
  assumes "h \<noteq> 0" "keyed vs" "quorum_ok vs" "NewHeightVoteSet chainID h vs = Inr hvs"
  shows "\<exists>hvs'. hvs_run E es hvs = Inr hvs' \<and> {0..hvs_round hvs'} \<subseteq> dom (hvs_roundVoteSets hvs') \<and>
    finite (dom (hvs_roundVoteSets hvs') - {0..hvs_round hvs'}) \<and>
    card (dom (hvs_roundVoteSets hvs') - {0..hvs_round hvs'}) \<le> 2 * card (dom (hvs_peerCatchupRounds hvs'))"
proof -
  obtain hvs' where h: "hvs_run E es hvs = Inr hvs'" "hvs_wf E UNIV hvs'" "catchup_ok hvs'"
    using NewHeightVoteSet_ok [OF assms(1,3), of chainID E UNIV] assms(2,4) hvs_run_ok [of E hvs es] by auto
  let ?m = "hvs_peerCatchupRounds hvs'"
  have eq: "opened ?m = (\<Union>p \<in> dom ?m. set (the (?m p)))" by (force simp: opened_def ran_def)
  have fin: "finite (dom ?m)" and sub: "dom (hvs_roundVoteSets hvs') - {0..hvs_round hvs'} \<subseteq> opened ?m"
    using h(3) by (auto simp: catchup_ok_def)
  have "card (opened ?m) \<le> (\<Sum>p \<in> dom ?m. card (set (the (?m p))))" unfolding eq by (rule card_UN_le [OF fin])
  also have "\<dots> \<le> (\<Sum>p \<in> dom ?m. 2)"
  proof (rule sum_mono)
    fix p assume "p \<in> dom ?m"
    then have "length (the (?m p)) \<le> 2" using h(3) by (auto simp: catchup_ok_def)
    then show "card (set (the (?m p))) \<le> 2" using card_length order_trans by blast
  qed
  finally have "card (opened ?m) \<le> 2 * card (dom ?m)" by simp
  moreover have fo: "finite (opened ?m)" unfolding eq using fin by simp
  ultimately show ?thesis
    using h(1,2) card_mono [OF fo sub] finite_subset [OF sub fo] by (auto simp: hvs_wf_def)
qed

theorem HeightVoteSet_bounded_witness:
  "\<exists>hvs hvs'. NewHeightVoteSet ''chain'' 1 demo_validators = Inr hvs \<and>
     hvs_run demo_ext [HvVote (demo_vote 0 ''a'' ''h'') ''p'', HvRound 2, HvMaj23 0 1 ''p'' (demo_bid ''h'')] hvs = Inr hvs' \<and>
     card (dom (hvs_roundVoteSets hvs') - {0..hvs_round hvs'}) \<le> 2 * card (dom (hvs_peerCatchupRounds hvs'))"
proof -
  obtain hvs where "NewHeightVoteSet ''chain'' 1 demo_validators = Inr hvs"
    using NewHeightVoteSet_ok [of 1 _ "''chain''" demo_ext UNIV, OF _ demo_set_ok(2)] by auto
  with HeightVoteSet_bounded [of 1, OF _ demo_set_ok this] show ?thesis by fastforce
qed

text \<open>
  \<open>POLInfo\<close> returns the last round up to the node's own in which more than two thirds prevoted
  one block id, with that id, and -1 if there is none.
\<close>

lemma POLInfo_last:
  assumes "h \<noteq> 0" "keyed vs" "quorum_ok vs" "NewHeightVoteSet chainID h vs = Inr hvs" "hvs_run E es hvs = Inr hvs'"
  shows "\<exists>r b. POLInfo hvs' = Inr (r, b) \<and>
    (\<forall>k s. r < k \<longrightarrow> 0 \<le> k \<longrightarrow> k \<le> hvs_round hvs' \<longrightarrow> hvs_Prevotes hvs' k = Inr (Some s) \<longrightarrow> \<not> HasTwoThirdsMajority (Some s)) \<and>
    (r = - 1 \<or> 0 \<le> r \<and> r \<le> hvs_round hvs' \<and> (\<exists>s. hvs_Prevotes hvs' r = Inr (Some s) \<and> TwoThirdsMajority (Some s) = (b, True)))"
proof -
  have w: "hvs_wf E UNIV hvs'"
    using NewHeightVoteSet_ok [OF assms(1,3), of chainID E UNIV] assms(2,4,5) hvs_run_ok [of E hvs es] by auto
  then have nn: "0 \<le> hvs_round hvs'" by (simp add: hvs_wf_def)
  obtain r b where p: "POLInfo hvs' = Inr (r, b)"
      "\<forall>k < nat (hvs_round hvs' + 1). r < int k \<longrightarrow> (\<forall>rvs. hvs_roundVoteSets hvs' (int k) = Some rvs \<longrightarrow> vts_maj23 (rvs_Prevotes rvs) = None)"
      "r = - 1 \<or> (0 \<le> r \<and> r < int (nat (hvs_round hvs' + 1)) \<and> (\<exists>rvs. hvs_roundVoteSets hvs' r = Some rvs \<and> vts_maj23 (rvs_Prevotes rvs) = Some b))"
    using pol_loop_spec [OF w, of "nat (hvs_round hvs' + 1)"] by (auto simp: POLInfo_def)
  have "\<not> HasTwoThirdsMajority (Some s)" if k: "r < k" "0 \<le> k" "k \<le> hvs_round hvs'" "hvs_Prevotes hvs' k = Inr (Some s)" for k s
    using p(2) [rule_format, of "nat k"] k by (auto simp: hvs_Prevotes_def hvs_getVoteSet_def HasTwoThirdsMajority_def split: option.splits)
  then show ?thesis
    using p(1,3) nn by (intro exI [of _ r] exI [of _ b]) (auto simp: hvs_Prevotes_def hvs_getVoteSet_def TwoThirdsMajority_def)
qed

end
