(* ===== verification/Priv_Validator.thy ===== *)
theory Priv_Validator
  imports Votes "HOL-Library.Product_Lexorder"
begin

text \<open>
  \<^verbatim>\<open>privval/priv_validator.go\<close>: the file backed signer. Its state in memory and the state in its
  file are the two fields of \<open>pv_world\<close>; the file holds the value its JSON encodes. The private key is
  the function that signs with it, which may fail. The clock is an argument. The main
  theorem: over any requests and restarts it never signs two different
  votes, or two different proposals, for one height, round and step.
\<close>

section \<open>Operations\<close>

definition stepNone :: int where "stepNone = 0"
definition stepPropose :: int where "stepPropose = 1"
definition stepPrevote :: int where "stepPrevote = 2"
definition stepPrecommit :: int where "stepPrecommit = 3"

definition voteToStep :: "vote \<Rightarrow> int or_panic" where
  "voteToStep v =
     (if vote_Type v = VoteTypePrevote then Inr stepPrevote
      else if vote_Type v = VoteTypePrecommit then Inr stepPrecommit
      else Inl (PanicSanity ''Unknown vote type''))"

record file_pv =
  pv_Address :: address
  pv_PubKey :: pub_key
  LastHeight :: int
  LastRound :: int
  LastStep :: int
  LastSignature :: "signature option"
  LastSignBytes :: "bytes option"
  pv_PrivKey :: "bytes \<Rightarrow> signature option"
  pv_filePath :: bytes

record pv_world =
  pv_mem :: file_pv
  pv_file :: "file_pv option"

definition GenFilePV :: "'e ext_scheme \<Rightarrow> pub_key \<Rightarrow> (bytes \<Rightarrow> signature option) \<Rightarrow> bytes \<Rightarrow> file_pv" where
  "GenFilePV E pubKey privKey filePath =
     \<lparr>pv_Address = pk_Address E pubKey, pv_PubKey = pubKey, LastHeight = 0, LastRound = 0, LastStep = stepNone,
      LastSignature = None, LastSignBytes = None, pv_PrivKey = privKey, pv_filePath = filePath\<rparr>"

definition pv_save :: "pv_world \<Rightarrow> pv_world or_panic" where
  "pv_save w =
     (if pv_filePath (pv_mem w) = [] then Inl (PanicMsg ''Cannot save PrivValidator: filePath not set'')
      else Inr (w\<lparr>pv_file := Some (pv_mem w)\<rparr>))"

text \<open>A missing file exits the process.\<close>

definition LoadFilePV :: "bytes \<Rightarrow> pv_world \<Rightarrow> pv_world or_panic" where
  "LoadFilePV filePath w =
     (case pv_file w of None \<Rightarrow> Inl NoReturn | Some pv \<Rightarrow> Inr (w\<lparr>pv_mem := pv\<lparr>pv_filePath := filePath\<rparr>\<rparr>))"

definition LoadOrGenFilePV ::
  "'e ext_scheme \<Rightarrow> pub_key \<Rightarrow> (bytes \<Rightarrow> signature option) \<Rightarrow> bytes \<Rightarrow> pv_world \<Rightarrow> pv_world or_panic" where
  "LoadOrGenFilePV E pubKey privKey filePath w =
     (if pv_file w \<noteq> None then LoadFilePV filePath w
      else pv_save (w\<lparr>pv_mem := GenFilePV E pubKey privKey filePath\<rparr>))"

definition pv_Reset :: "pv_world \<Rightarrow> pv_world or_panic" where
  "pv_Reset w = pv_save (w\<lparr>pv_mem := (pv_mem w)\<lparr>LastHeight := 0, LastRound := 0, LastStep := 0,
     LastSignature := None, LastSignBytes := None\<rparr>\<rparr>)"

datatype sign_error =
    HeightRegression | RoundRegression | StepRegression | NoLastSignature | ConflictingData | SignFailed

definition checkHRS :: "file_pv \<Rightarrow> int \<Rightarrow> int \<Rightarrow> int \<Rightarrow> (bool \<times> sign_error option) or_panic" where
  "checkHRS pv height round step =
     (if LastHeight pv > height then Inr (False, Some HeightRegression)
      else if LastHeight pv = height then
        if LastRound pv > round then Inr (False, Some RoundRegression)
        else if LastRound pv = round then
          if LastStep pv > step then Inr (False, Some StepRegression)
          else if LastStep pv = step then
            if LastSignBytes pv \<noteq> None then
              if LastSignature pv = None then Inl (PanicMsg ''pv: LastSignature is nil but LastSignBytes is not!'')
              else Inr (True, None)
            else Inr (False, Some NoLastSignature)
          else Inr (False, None)
        else Inr (False, None)
      else Inr (False, None))"

definition saveSigned :: "pv_world \<Rightarrow> int \<Rightarrow> int \<Rightarrow> int \<Rightarrow> bytes \<Rightarrow> signature \<Rightarrow> pv_world or_panic" where
  "saveSigned w height round step signBytes sig =
     pv_save (w\<lparr>pv_mem := (pv_mem w)\<lparr>LastHeight := height, LastRound := round, LastStep := step,
       LastSignature := Some sig, LastSignBytes := Some signBytes\<rparr>\<rparr>)"

text \<open>The time of canonical JSON, as a time again: \<open>time.Parse\<close>.\<close>

definition ParseCanonicalTime :: "int \<Rightarrow> time" where
  "ParseCanonicalTime ms = ms * 1000000"

definition checkVotesOnlyDifferByTimestamp :: "'e ext_scheme \<Rightarrow> time \<Rightarrow> bytes \<Rightarrow> bytes \<Rightarrow> (time \<times> bool) or_panic" where
  "checkVotesOnlyDifferByTimestamp E now lastSignBytes newSignBytes =
     (case UnmarshalJSON_vote E lastSignBytes of
        None \<Rightarrow> Inl (PanicMsg ''LastSignBytes cannot be unmarshalled into vote'')
      | Some lastVote \<Rightarrow>
          (case UnmarshalJSON_vote E newSignBytes of
             None \<Rightarrow> Inl (PanicMsg ''signBytes cannot be unmarshalled into vote'')
           | Some newVote \<Rightarrow>
               let lastTime = ParseCanonicalTime (cv_Timestamp lastVote); t = CanonicalTime now in
               Inr (lastTime, MarshalJSON E (JsVote (newVote\<lparr>cv_Timestamp := t\<rparr>)) = MarshalJSON E (JsVote (lastVote\<lparr>cv_Timestamp := t\<rparr>)))))"

definition checkProposalsOnlyDifferByTimestamp :: "'e ext_scheme \<Rightarrow> time \<Rightarrow> bytes \<Rightarrow> bytes \<Rightarrow> (time \<times> bool) or_panic" where
  "checkProposalsOnlyDifferByTimestamp E now lastSignBytes newSignBytes =
     (case UnmarshalJSON_proposal E lastSignBytes of
        None \<Rightarrow> Inl (PanicMsg ''LastSignBytes cannot be unmarshalled into proposal'')
      | Some lastP \<Rightarrow>
          (case UnmarshalJSON_proposal E newSignBytes of
             None \<Rightarrow> Inl (PanicMsg ''signBytes cannot be unmarshalled into proposal'')
           | Some newP \<Rightarrow>
               let lastTime = ParseCanonicalTime (cpr_Timestamp lastP); t = CanonicalTime now in
               Inr (lastTime, MarshalJSON E (JsProposal (newP\<lparr>cpr_Timestamp := t\<rparr>)) = MarshalJSON E (JsProposal (lastP\<lparr>cpr_Timestamp := t\<rparr>)))))"

definition signVote :: "'e ext_scheme \<Rightarrow> time \<Rightarrow> bytes \<Rightarrow> pv_world \<Rightarrow> vote \<Rightarrow> (sign_error option \<times> vote \<times> pv_world) or_panic" where
  "signVote E now chainID w v =
     bindP (voteToStep v) (\<lambda>step.
     let pv = pv_mem w; height = vote_Height v; round = vote_Round v; signBytes = vote_SignBytes E chainID v in
     bindP (checkHRS pv height round step) (\<lambda>(sameHRS, err).
       if err \<noteq> None then Inr (err, v, w)
       else if sameHRS then
         if LastSignBytes pv = Some signBytes then Inr (None, v\<lparr>vote_Signature := LastSignature pv\<rparr>, w)
         else bindP (checkVotesOnlyDifferByTimestamp E now (the (LastSignBytes pv)) signBytes) (\<lambda>(timestamp, ok).
           if ok then Inr (None, v\<lparr>vote_Timestamp := timestamp, vote_Signature := LastSignature pv\<rparr>, w)
           else Inr (Some ConflictingData, v, w))
       else case pv_PrivKey pv signBytes of
         None \<Rightarrow> Inr (Some SignFailed, v, w)
       | Some sig \<Rightarrow>
           bindP (saveSigned w height round step signBytes sig) (\<lambda>w'.
             Inr (None, v\<lparr>vote_Signature := Some sig\<rparr>, w'))))"

definition signProposal :: "'e ext_scheme \<Rightarrow> time \<Rightarrow> bytes \<Rightarrow> pv_world \<Rightarrow> proposal \<Rightarrow> (sign_error option \<times> proposal \<times> pv_world) or_panic" where
  "signProposal E now chainID w p =
     (let pv = pv_mem w; height = prop_Height p; round = prop_Round p; step = stepPropose; signBytes = prop_SignBytes E chainID p in
     bindP (checkHRS pv height round step) (\<lambda>(sameHRS, err).
       if err \<noteq> None then Inr (err, p, w)
       else if sameHRS then
         if LastSignBytes pv = Some signBytes then Inr (None, p\<lparr>prop_Signature := LastSignature pv\<rparr>, w)
         else bindP (checkProposalsOnlyDifferByTimestamp E now (the (LastSignBytes pv)) signBytes) (\<lambda>(timestamp, ok).
           if ok then Inr (None, p\<lparr>prop_Timestamp := timestamp, prop_Signature := LastSignature pv\<rparr>, w)
           else Inr (Some ConflictingData, p, w))
       else case pv_PrivKey pv signBytes of
         None \<Rightarrow> Inr (Some SignFailed, p, w)
       | Some sig \<Rightarrow>
           bindP (saveSigned w height round step signBytes sig) (\<lambda>w'.
             Inr (None, p\<lparr>prop_Signature := Some sig\<rparr>, w'))))"

definition SignHeartbeat :: "'e ext_scheme \<Rightarrow> bytes \<Rightarrow> pv_world \<Rightarrow> heartbeat \<Rightarrow> sign_error option \<times> heartbeat" where
  "SignHeartbeat E chainID w h =
     (case pv_PrivKey (pv_mem w) (hb_SignBytes E chainID h) of
        None \<Rightarrow> (Some SignFailed, h)
      | Some sig \<Rightarrow> (None, h\<lparr>hb_Signature := Some sig\<rparr>))"

section \<open>Runs of requests and restarts\<close>

datatype pv_request = ReqVote time bytes vote | ReqProposal time bytes proposal | ReqRestart

datatype signed_item = SignedVote bytes vote | SignedProposal bytes proposal

definition pv_step :: "'e ext_scheme \<Rightarrow> pv_world \<Rightarrow> pv_request \<Rightarrow> (signed_item list \<times> pv_world) or_panic" where
  "pv_step E w r =
     (case r of
        ReqVote now chainID v \<Rightarrow>
          bindP (signVote E now chainID w v) (\<lambda>(err, v', w'). Inr (if err = None then [SignedVote chainID v'] else [], w'))
      | ReqProposal now chainID p \<Rightarrow>
          bindP (signProposal E now chainID w p) (\<lambda>(err, p', w'). Inr (if err = None then [SignedProposal chainID p'] else [], w'))
      | ReqRestart \<Rightarrow> bindP (LoadFilePV (pv_filePath (pv_mem w)) w) (\<lambda>w'. Inr ([], w')))"

fun pv_run :: "'e ext_scheme \<Rightarrow> pv_world \<Rightarrow> pv_request list \<Rightarrow> signed_item list \<Rightarrow> (signed_item list \<times> pv_world) or_panic" where
  "pv_run E w [] out = Inr (out, w)"
| "pv_run E w (r # rs) out = bindP (pv_step E w r) (\<lambda>(new, w'). pv_run E w' rs (out @ new))"

section \<open>The order of what is signed\<close>

fun item_hrs :: "signed_item \<Rightarrow> int \<times> int \<times> int" where
  "item_hrs (SignedVote _ v) = (vote_Height v, vote_Round v, if vote_Type v = VoteTypePrevote then stepPrevote else stepPrecommit)"
| "item_hrs (SignedProposal _ p) = (prop_Height p, prop_Round p, stepPropose)"

fun item_bytes :: "'e ext_scheme \<Rightarrow> signed_item \<Rightarrow> bytes" where
  "item_bytes E (SignedVote c v) = vote_SignBytes E c v"
| "item_bytes E (SignedProposal c p) = prop_SignBytes E c p"

fun item_sig :: "signed_item \<Rightarrow> signature option" where
  "item_sig (SignedVote _ v) = vote_Signature v"
| "item_sig (SignedProposal _ p) = prop_Signature p"

fun item_valid :: "signed_item \<Rightarrow> bool" where
  "item_valid (SignedVote _ v) \<longleftrightarrow> IsVoteTypeValid (vote_Type v)"
| "item_valid (SignedProposal _ _) \<longleftrightarrow> True"

definition last_hrs :: "file_pv \<Rightarrow> int \<times> int \<times> int" where
  "last_hrs pv = (LastHeight pv, LastRound pv, LastStep pv)"

lemma checkHRS_ok:
  "checkHRS pv h r s = Inr (same, None) \<longleftrightarrow>
     (if same then last_hrs pv = (h, r, s) \<and> LastSignBytes pv \<noteq> None \<and> LastSignature pv \<noteq> None else last_hrs pv < (h, r, s))"
  by (auto simp: checkHRS_def last_hrs_def)

text \<open>
  The JSON codec of amino decodes what it encodes; the signer relies on this when it compares
  the last sign bytes with new ones.
\<close>

definition json_ok :: "'e ext_scheme \<Rightarrow> bool" where
  "json_ok E \<longleftrightarrow> (\<forall>v. UnmarshalJSON_vote E (MarshalJSON E (JsVote v)) = Some v) \<and>
     (\<forall>p. UnmarshalJSON_proposal E (MarshalJSON E (JsProposal p)) = Some p)"

lemma json_inj:
  assumes "json_ok E"
  shows "MarshalJSON E (JsVote a) = MarshalJSON E (JsVote b) \<longleftrightarrow> a = b"
    "MarshalJSON E (JsProposal p) = MarshalJSON E (JsProposal q) \<longleftrightarrow> p = q"
  using assms unfolding json_ok_def by (metis option.inject)+

lemma CanonicalTime_Parse [simp]: "CanonicalTime (ParseCanonicalTime ms) = ms"
  by (simp add: CanonicalTime_def ParseCanonicalTime_def)

lemma CanonicalBlockID_inj [simp]: "CanonicalBlockID a = CanonicalBlockID b \<longleftrightarrow> a = b"
  by (auto simp: CanonicalBlockID_def intro: block_id.equality part_set_header.equality)

text \<open>A vote that takes over the last timestamp has the last sign bytes.\<close>

lemma votes_differ_by_time:
  assumes J: "json_ok E" and c: "checkVotesOnlyDifferByTimestamp E now (vote_SignBytes E c u) (vote_SignBytes E c' v) = Inr (t, True)"
  shows "vote_SignBytes E c' (v\<lparr>vote_Timestamp := t\<rparr>) = vote_SignBytes E c u"
proof -
  have "(CanonicalVote c' v)\<lparr>cv_Timestamp := CanonicalTime now\<rparr> = (CanonicalVote c u)\<lparr>cv_Timestamp := CanonicalTime now\<rparr>"
      "t = ParseCanonicalTime (CanonicalTime (vote_Timestamp u))"
    using c J by (simp_all add: checkVotesOnlyDifferByTimestamp_def vote_SignBytes_def json_ok_def json_inj [OF J] Let_def CanonicalVote_def)
  then show ?thesis by (simp add: vote_SignBytes_def CanonicalVote_def)
qed

lemma proposals_differ_by_time:
  assumes J: "json_ok E" and c: "checkProposalsOnlyDifferByTimestamp E now (prop_SignBytes E c u) (prop_SignBytes E c' p) = Inr (t, True)"
  shows "prop_SignBytes E c' (p\<lparr>prop_Timestamp := t\<rparr>) = prop_SignBytes E c u"
proof -
  have "(CanonicalProposal c' p)\<lparr>cpr_Timestamp := CanonicalTime now\<rparr> = (CanonicalProposal c u)\<lparr>cpr_Timestamp := CanonicalTime now\<rparr>"
      "t = ParseCanonicalTime (CanonicalTime (prop_Timestamp u))"
    using c J by (simp_all add: checkProposalsOnlyDifferByTimestamp_def prop_SignBytes_def json_ok_def json_inj [OF J] Let_def CanonicalProposal_def)
  then show ?thesis by (simp add: prop_SignBytes_def CanonicalProposal_def)
qed

section \<open>The invariant\<close>

definition pv_ok :: "'e ext_scheme \<Rightarrow> pv_world \<Rightarrow> bool" where
  "pv_ok E w \<longleftrightarrow> pv_file w = Some (pv_mem w) \<and> pv_filePath (pv_mem w) \<noteq> [] \<and>
     (\<forall>b. LastSignBytes (pv_mem w) = Some b \<longrightarrow>
        pv_PrivKey (pv_mem w) b = LastSignature (pv_mem w) \<and> LastSignature (pv_mem w) \<noteq> None \<and>
        (\<exists>x. item_valid x \<and> item_hrs x = last_hrs (pv_mem w) \<and> item_bytes E x = b))"

text \<open>What one signature means: nothing newer was signed, and nothing else at its step.\<close>

definition is_last :: "'e ext_scheme \<Rightarrow> pv_world \<Rightarrow> signed_item \<Rightarrow> bool" where
  "is_last E w x \<longleftrightarrow> item_valid x \<and> item_hrs x = last_hrs (pv_mem w) \<and> LastSignBytes (pv_mem w) = Some (item_bytes E x) \<and>
     item_sig x = LastSignature (pv_mem w)"

definition advances :: "pv_world \<Rightarrow> pv_world \<Rightarrow> bool" where
  "advances w w' \<longleftrightarrow> w' = w \<or> last_hrs (pv_mem w) < last_hrs (pv_mem w')"

lemma saveSigned_spec:
  assumes "pv_ok E w" "item_valid x" "item_hrs x = (h, r, s)" "pv_PrivKey (pv_mem w) (item_bytes E x) = Some sig"
    "last_hrs (pv_mem w) < (h, r, s)" "item_sig x = Some sig"
  shows "\<exists>w'. saveSigned w h r s (item_bytes E x) sig = Inr w' \<and> pv_ok E w' \<and> is_last E w' x \<and> advances w w' \<and>
    pv_PrivKey (pv_mem w') = pv_PrivKey (pv_mem w)"
proof -
  let ?m = "(pv_mem w)\<lparr>LastHeight := h, LastRound := r, LastStep := s, LastSignature := Some sig, LastSignBytes := Some (item_bytes E x)\<rparr>"
  have "saveSigned w h r s (item_bytes E x) sig = Inr (w\<lparr>pv_mem := ?m, pv_file := Some ?m\<rparr>)"
    using assms(1) by (simp add: saveSigned_def pv_save_def pv_ok_def)
  moreover have "last_hrs ?m = (h, r, s)" by (simp add: last_hrs_def)
  ultimately show ?thesis using assms by (auto simp: pv_ok_def is_last_def advances_def)
qed

text \<open>What \<open>signVote\<close> and \<open>signProposal\<close> have in common, on the sign bytes alone.\<close>

definition sign_core ::
  "pv_world \<Rightarrow> int \<Rightarrow> int \<Rightarrow> int \<Rightarrow> bytes \<Rightarrow> (bytes \<Rightarrow> (time \<times> bool) or_panic)
   \<Rightarrow> (sign_error option \<times> (time option \<times> signature option) option \<times> pv_world) or_panic" where
  "sign_core w h r s b differ =
     bindP (checkHRS (pv_mem w) h r s) (\<lambda>(same, err).
       if err \<noteq> None then Inr (err, None, w)
       else if same then
         if LastSignBytes (pv_mem w) = Some b then Inr (None, Some (None, LastSignature (pv_mem w)), w)
         else bindP (differ (the (LastSignBytes (pv_mem w)))) (\<lambda>(t, ok).
           if ok then Inr (None, Some (Some t, LastSignature (pv_mem w)), w) else Inr (Some ConflictingData, None, w))
       else case pv_PrivKey (pv_mem w) b of
         None \<Rightarrow> Inr (Some SignFailed, None, w)
       | Some sig \<Rightarrow> bindP (saveSigned w h r s b sig) (\<lambda>w'. Inr (None, Some (None, Some sig), w')))"

definition set_vote :: "vote \<Rightarrow> (time option \<times> signature option) option \<Rightarrow> vote" where
  "set_vote v u = (case u of None \<Rightarrow> v | Some (None, sg) \<Rightarrow> v\<lparr>vote_Signature := sg\<rparr>
     | Some (Some t, sg) \<Rightarrow> v\<lparr>vote_Timestamp := t, vote_Signature := sg\<rparr>)"

definition set_proposal :: "proposal \<Rightarrow> (time option \<times> signature option) option \<Rightarrow> proposal" where
  "set_proposal p u = (case u of None \<Rightarrow> p | Some (None, sg) \<Rightarrow> p\<lparr>prop_Signature := sg\<rparr>
     | Some (Some t, sg) \<Rightarrow> p\<lparr>prop_Timestamp := t, prop_Signature := sg\<rparr>)"

lemma signVote_core:
  "signVote E now c w v = bindP (voteToStep v) (\<lambda>s.
     bindP (sign_core w (vote_Height v) (vote_Round v) s (vote_SignBytes E c v)
       (\<lambda>b. checkVotesOnlyDifferByTimestamp E now b (vote_SignBytes E c v)))
     (\<lambda>(err, u, w'). Inr (err, set_vote v u, w')))"
  by (auto simp: signVote_def sign_core_def set_vote_def bindP_def Let_def split: sum.splits option.splits)

lemma signProposal_core:
  "signProposal E now c w p =
     bindP (sign_core w (prop_Height p) (prop_Round p) stepPropose (prop_SignBytes E c p)
       (\<lambda>b. checkProposalsOnlyDifferByTimestamp E now b (prop_SignBytes E c p)))
     (\<lambda>(err, u, w'). Inr (err, set_proposal p u, w'))"
  by (auto simp: signProposal_def sign_core_def set_proposal_def bindP_def Let_def split: sum.splits option.splits)

lemma sign_core_spec:
  assumes w: "pv_ok E w" and r: "sign_core w h r s b differ = Inr (err, u, w')"
    and x: "\<And>t sg. item_valid (x (t, sg)) \<and> item_hrs (x (t, sg)) = (h, r, s) \<and> item_sig (x (t, sg)) = sg"
    and b: "\<And>sg. item_bytes E (x (None, sg)) = b"
    and d: "\<And>b0 t sg y. item_valid y \<Longrightarrow> item_hrs y = (h, r, s) \<Longrightarrow> differ (item_bytes E y) = Inr (t, True) \<Longrightarrow>
      item_bytes E (x (Some t, sg)) = item_bytes E y"
  shows "pv_ok E w' \<and> advances w w' \<and> (err = None \<longrightarrow> (\<exists>z. u = Some z \<and> is_last E w' (x z)))"
proof -
  let ?pv = "pv_mem w"
  obtain same e where ck: "checkHRS ?pv h r s = Inr (same, e)"
    using r by (cases "checkHRS ?pv h r s") (auto simp: sign_core_def)
  show ?thesis
  proof (cases "e = None")
    case False
    then show ?thesis using r ck w by (auto simp: sign_core_def advances_def)
  next
    case True
    note ok = ck [unfolded True checkHRS_ok]
    show ?thesis
    proof (cases same)
      case sm: True
      then obtain b0 where l: "last_hrs ?pv = (h, r, s)" "LastSignBytes ?pv = Some b0" using ok by auto
      obtain y where y: "item_valid y" "item_hrs y = (h, r, s)" "item_bytes E y = b0" using w l by (auto simp: pv_ok_def)
      show ?thesis
      proof (cases "b0 = b")
        case eq: True
        then have "err = None" "u = Some (None, LastSignature ?pv)" "w' = w" using r ck True sm l by (auto simp: sign_core_def)
        then show ?thesis using w l eq x b by (simp add: is_last_def advances_def)
      next
        case False
        obtain t q where t: "differ b0 = Inr (t, q)" using r ck True sm l False by (cases "differ b0") (auto simp: sign_core_def)
        show ?thesis
        proof (cases q)
          case q: True
          then have "err = None" "u = Some (Some t, LastSignature ?pv)" "w' = w"
            using r ck True sm l False t by (auto simp: sign_core_def)
          moreover have "item_bytes E (x (Some t, LastSignature ?pv)) = b0" using d [OF y(1,2)] y(3) t q by simp
          ultimately show ?thesis using w l x by (simp add: is_last_def advances_def)
        next
          case q: False
          then show ?thesis using r ck True sm l False t w by (auto simp: sign_core_def advances_def)
        qed
      qed
    next
      case sm: False
      then have less: "last_hrs ?pv < (h, r, s)" using ok by simp
      show ?thesis
      proof (cases "pv_PrivKey ?pv b")
        case None
        then show ?thesis using r ck True sm w by (auto simp: sign_core_def advances_def)
      next
        case (Some sig)
        obtain w1 where w1: "saveSigned w h r s b sig = Inr w1" "pv_ok E w1" "is_last E w1 (x (None, Some sig))" "advances w w1"
          using saveSigned_spec [OF w, of "x (None, Some sig)" h r s sig] x b Some less by auto
        then have "err = None" "u = Some (None, Some sig)" "w' = w1" using r ck True sm Some by (auto simp: sign_core_def)
        then show ?thesis using w1 by simp
      qed
    qed
  qed
qed

lemma signVote_spec:
  assumes J: "json_ok E" and w: "pv_ok E w" and r: "signVote E now c w v = Inr (err, v', w')"
  shows "pv_ok E w' \<and> advances w w' \<and> (err = None \<longrightarrow> is_last E w' (SignedVote c v'))"
proof -
  obtain s u where s: "voteToStep v = Inr s" "v' = set_vote v u" and
    core: "sign_core w (vote_Height v) (vote_Round v) s (vote_SignBytes E c v)
      (\<lambda>b. checkVotesOnlyDifferByTimestamp E now b (vote_SignBytes E c v)) = Inr (err, u, w')"
    using r unfolding signVote_core by (auto simp: bindP_eq_Inr)
  let ?x = "\<lambda>z. SignedVote c (set_vote v (Some z))"
  have fields: "vote_Type (set_vote v z) = vote_Type v" "vote_Height (set_vote v z) = vote_Height v" "vote_Round (set_vote v z) = vote_Round v"
      "vote_Signature (set_vote v (Some (t, sg))) = sg" "vote_SignBytes E c (set_vote v (Some (None, sg))) = vote_SignBytes E c v"
      "vote_SignBytes E c (set_vote v (Some (Some t', sg))) = vote_SignBytes E c (v\<lparr>vote_Timestamp := t'\<rparr>)" for z t sg t'
    by (auto simp: set_vote_def vote_SignBytes_def CanonicalVote_def split: option.splits prod.splits)
  have "pv_ok E w' \<and> advances w w' \<and> (err = None \<longrightarrow> (\<exists>z. u = Some z \<and> is_last E w' (?x z)))"
  proof (rule sign_core_spec [OF w core])
    show "item_valid (?x (t, sg)) \<and> item_hrs (?x (t, sg)) = (vote_Height v, vote_Round v, s) \<and> item_sig (?x (t, sg)) = sg" for t sg
      using s(1) by (auto simp: fields voteToStep_def IsVoteTypeValid_def split: if_splits)
    fix b0 t sg y
    assume y: "item_hrs y = (vote_Height v, vote_Round v, s)"
      and d: "checkVotesOnlyDifferByTimestamp E now (item_bytes E y) (vote_SignBytes E c v) = Inr (t, True)"
    obtain c0 u where u: "y = SignedVote c0 u"
      using y s(1) by (cases y) (auto simp: voteToStep_def stepPropose_def stepPrevote_def stepPrecommit_def split: if_splits)
    show "item_bytes E (?x (Some t, sg)) = item_bytes E y"
      using votes_differ_by_time [OF J, of now c0 u c v t] d u by (simp add: fields)
  qed (simp add: fields)
  then show ?thesis using s(2) by auto
qed

lemma signProposal_spec:
  assumes J: "json_ok E" and w: "pv_ok E w" and r: "signProposal E now c w p = Inr (err, p', w')"
  shows "pv_ok E w' \<and> advances w w' \<and> (err = None \<longrightarrow> is_last E w' (SignedProposal c p'))"
proof -
  obtain u where s: "p' = set_proposal p u" and
    core: "sign_core w (prop_Height p) (prop_Round p) stepPropose (prop_SignBytes E c p)
      (\<lambda>b. checkProposalsOnlyDifferByTimestamp E now b (prop_SignBytes E c p)) = Inr (err, u, w')"
    using r unfolding signProposal_core by (auto simp: bindP_eq_Inr)
  let ?x = "\<lambda>z. SignedProposal c (set_proposal p (Some z))"
  have fields: "prop_Height (set_proposal p z) = prop_Height p" "prop_Round (set_proposal p z) = prop_Round p"
      "prop_Signature (set_proposal p (Some (t, sg))) = sg" "prop_SignBytes E c (set_proposal p (Some (None, sg))) = prop_SignBytes E c p"
      "prop_SignBytes E c (set_proposal p (Some (Some t', sg))) = prop_SignBytes E c (p\<lparr>prop_Timestamp := t'\<rparr>)" for z t sg t'
    by (auto simp: set_proposal_def prop_SignBytes_def CanonicalProposal_def split: option.splits prod.splits)
  have "pv_ok E w' \<and> advances w w' \<and> (err = None \<longrightarrow> (\<exists>z. u = Some z \<and> is_last E w' (?x z)))"
  proof (rule sign_core_spec [OF w core])
    fix b0 t sg y
    assume y: "item_hrs y = (prop_Height p, prop_Round p, stepPropose)"
      and d: "checkProposalsOnlyDifferByTimestamp E now (item_bytes E y) (prop_SignBytes E c p) = Inr (t, True)"
    obtain c0 u where u: "y = SignedProposal c0 u"
      using y by (cases y) (auto simp: stepPropose_def stepPrevote_def stepPrecommit_def split: if_splits)
    show "item_bytes E (?x (Some t, sg)) = item_bytes E y"
      using proposals_differ_by_time [OF J, of now c0 u c p t] d u by (simp add: fields)
  qed (simp_all add: fields)
  then show ?thesis using s by auto
qed

section \<open>Runs\<close>

definition no_conflict :: "'e ext_scheme \<Rightarrow> pv_world \<Rightarrow> signed_item list \<Rightarrow> bool" where
  "no_conflict E w out \<longleftrightarrow>
     (\<forall>x \<in> set out. item_valid x \<and> (is_last E w x \<or> item_hrs x < last_hrs (pv_mem w))) \<and>
     (\<forall>x \<in> set out. \<forall>y \<in> set out. item_hrs x = item_hrs y \<longrightarrow> item_bytes E x = item_bytes E y \<and> item_sig x = item_sig y)"

lemma last_unique:
  assumes "is_last E w x" "is_last E w y \<or> item_hrs y < last_hrs (pv_mem w)" "item_hrs x = item_hrs y"
  shows "item_bytes E x = item_bytes E y \<and> item_sig x = item_sig y"
  using assms by (auto simp: is_last_def)

lemma no_conflict_step:
  assumes n: "no_conflict E w out" and a: "advances w w'" and new: "\<forall>x \<in> set new. is_last E w' x"
  shows "no_conflict E w' (out @ new)"
  unfolding no_conflict_def
proof (intro conjI ballI impI)
  have out: "item_valid x \<and> (is_last E w' x \<or> item_hrs x < last_hrs (pv_mem w'))" if "x \<in> set out" for x
  proof (cases "w' = w")
    case True
    then show ?thesis using n that by (simp add: no_conflict_def)
  next
    case False
    then have "last_hrs (pv_mem w) < last_hrs (pv_mem w')" using a by (simp add: advances_def)
    moreover have v: "item_valid x" "is_last E w x \<or> item_hrs x < last_hrs (pv_mem w)" using n that by (simp_all add: no_conflict_def)
    then have "item_hrs x \<le> last_hrs (pv_mem w)" unfolding is_last_def by (elim disjE) (simp, rule order.strict_implies_order)
    ultimately show ?thesis using v(1) order.strict_trans1 by blast
  qed
  have all: "is_last E w' x \<or> item_hrs x < last_hrs (pv_mem w')" if "x \<in> set (out @ new)" for x
    using that out new by auto
  show "item_valid x" if "x \<in> set (out @ new)" for x using that out new by (auto simp: is_last_def)
  show "is_last E w' x \<or> item_hrs x < last_hrs (pv_mem w')" if "x \<in> set (out @ new)" for x using all [OF that] .
  fix x y assume x: "x \<in> set (out @ new)" and y: "y \<in> set (out @ new)" and h: "item_hrs x = item_hrs y"
  consider "x \<in> set out" "y \<in> set out" | "is_last E w' x" | "is_last E w' y" using x y new by auto
  then have "item_bytes E x = item_bytes E y \<and> item_sig x = item_sig y"
  proof cases
    case 1
    then show ?thesis using n [unfolded no_conflict_def, THEN conjunct2] h by blast
  next
    case 2
    then show ?thesis using last_unique [OF 2 all [OF y] h] by simp
  next
    case 3
    then show ?thesis using last_unique [OF 3 all [OF x] h [symmetric]] by simp
  qed
  then show "item_bytes E x = item_bytes E y" "item_sig x = item_sig y" by simp_all
qed

lemma pv_step_spec:
  assumes J: "json_ok E" and w: "pv_ok E w" and r: "pv_step E w q = Inr (new, w')"
  shows "pv_ok E w' \<and> advances w w' \<and> (\<forall>x \<in> set new. is_last E w' x)"
proof (cases q)
  case (ReqVote now c v)
  then obtain err v' where "signVote E now c w v = Inr (err, v', w')" "new = (if err = None then [SignedVote c v'] else [])"
    using r by (auto simp: pv_step_def bindP_eq_Inr)
  then show ?thesis using signVote_spec [OF J w] by auto
next
  case (ReqProposal now c p)
  then obtain err p' where "signProposal E now c w p = Inr (err, p', w')" "new = (if err = None then [SignedProposal c p'] else [])"
    using r by (auto simp: pv_step_def bindP_eq_Inr)
  then show ?thesis using signProposal_spec [OF J w] by auto
next
  case ReqRestart
  then show ?thesis using r w by (auto simp: pv_step_def LoadFilePV_def pv_ok_def advances_def)
qed

lemma pv_run_spec:
  assumes J: "json_ok E"
  shows "pv_ok E w \<Longrightarrow> no_conflict E w out \<Longrightarrow> pv_run E w rs out = Inr (out', w') \<Longrightarrow> pv_ok E w' \<and> no_conflict E w' out'"
proof (induction rs arbitrary: w out)
  case (Cons q rs)
  then obtain new w1 where s: "pv_step E w q = Inr (new, w1)" "pv_run E w1 rs (out @ new) = Inr (out', w')"
    by (auto simp: bindP_eq_Inr)
  then show ?case
    using Cons pv_step_spec [OF J Cons.prems(1) s(1)] no_conflict_step [OF Cons.prems(2)] by blast
qed auto

lemma fresh_ok:
  assumes "pv_file w = None" "filePath \<noteq> []" "LoadOrGenFilePV E pubKey privKey filePath w = Inr w0"
  shows "pv_ok E w0" "no_conflict E w0 []"
  using assms by (auto simp: LoadOrGenFilePV_def pv_save_def GenFilePV_def pv_ok_def no_conflict_def split: if_splits)

section \<open>A codec that meets the hypothesis\<close>

text \<open>Fields with a length in unary, integers in decimal.\<close>

definition field :: "bytes \<Rightarrow> bytes \<times> bytes" where
  "field s = (let n = length (takeWhile (\<lambda>c. c = CHR ''|'') s) in (take n (drop (n + 1) s), drop (2 * n + 1) s))"

lemma field_prefix [simp]: "field (unary_prefix b @ s) = (b, s)"
proof -
  have t: "takeWhile (\<lambda>c. c = CHR ''|'') (unary_prefix b @ s) = replicate (length b) (CHR ''|'')"
    by (simp add: unary_prefix_def takeWhile_append)
  have "unary_prefix b @ s = (replicate (length b) (CHR ''|'') @ CHR '':'' # b) @ s" by (simp add: unary_prefix_def)
  then have "drop (length b + 1) (unary_prefix b @ s) = b @ s" "drop (2 * length b + 1) (unary_prefix b @ s) = s" by simp_all
  then show ?thesis unfolding field_def Let_def t by simp
qed

definition read_int :: "bytes \<Rightarrow> int" where
  "read_int s = (if s \<noteq> [] \<and> hd s = CHR ''-'' then - int (read_base 10 (tl s)) else int (read_base 10 s))"

lemma read_show_int [simp]: "read_int (show_int i) = i"
proof (cases "i < 0")
  case True
  then show ?thesis by (simp add: read_int_def show_int_def show_nat_def read_show_base)
next
  case False
  have "hd (show_nat (nat i)) \<noteq> CHR ''-''"
    using show_nat_chars [of "hd (show_nat (nat i))" "nat i"] show_nat_nonempty [of "nat i"] hd_in_set by auto
  with False show ?thesis by (simp add: read_int_def show_int_def) (simp add: show_nat_def read_show_base)
qed

fun read_fields :: "nat \<Rightarrow> bytes \<Rightarrow> bytes list" where
  "read_fields 0 s = []"
| "read_fields (Suc n) s = (let (a, r) = field s in a # read_fields n r)"

definition write_fields :: "bytes list \<Rightarrow> bytes" where
  "write_fields fs = concat (map unary_prefix fs)"

lemma write_fields_simps [simp]: "write_fields [] = []" "write_fields (f # fs) = unary_prefix f @ write_fields fs"
  by (simp_all add: write_fields_def)

lemma field_last [simp]: "field (unary_prefix b) = (b, [])"
  using field_prefix [of b "[]"] by simp

definition bid_fields :: "canonical_block_id \<Rightarrow> bytes list" where
  "bid_fields b = [cbid_Hash b, cbid_PartsHash b, show_int (cbid_PartsTotal b)]"

definition enc_vote :: "canonical_vote \<Rightarrow> bytes" where
  "enc_vote v = write_fields ([cv_ChainID v, cv_Type v] @ bid_fields (cv_BlockID v) @
     map show_int [cv_Height v, cv_Round v, cv_Timestamp v, cv_VoteType v])"

definition dec_vote :: "bytes \<Rightarrow> canonical_vote option" where
  "dec_vote s = (let f = read_fields 9 s; i = \<lambda>n. read_int (f ! n) in
     Some \<lparr>cv_ChainID = f ! 0, cv_Type = f ! 1, cv_BlockID = \<lparr>cbid_Hash = f ! 2, cbid_PartsHash = f ! 3, cbid_PartsTotal = i 4\<rparr>,
       cv_Height = i 5, cv_Round = i 6, cv_Timestamp = i 7, cv_VoteType = i 8\<rparr>)"

definition enc_proposal :: "canonical_proposal \<Rightarrow> bytes" where
  "enc_proposal p = write_fields ([cpr_ChainID p, cpr_Type p, cpr_BlockPartsHash p] @ bid_fields (cpr_POLBlockID p) @
     map show_int [cpr_BlockPartsTotal p, cpr_Height p, cpr_POLRound p, cpr_Round p, cpr_Timestamp p])"

definition dec_proposal :: "bytes \<Rightarrow> canonical_proposal option" where
  "dec_proposal s = (let f = read_fields 11 s; i = \<lambda>n. read_int (f ! n) in
     Some \<lparr>cpr_ChainID = f ! 0, cpr_Type = f ! 1, cpr_BlockPartsHash = f ! 2, cpr_BlockPartsTotal = i 6, cpr_Height = i 7,
       cpr_POLBlockID = \<lparr>cbid_Hash = f ! 3, cbid_PartsHash = f ! 4, cbid_PartsTotal = i 5\<rparr>,
       cpr_POLRound = i 8, cpr_Round = i 9, cpr_Timestamp = i 10\<rparr>)"

definition json_ext :: ext where
  "json_ext = demo_ext\<lparr>MarshalJSON := (\<lambda>j. case j of JsVote v \<Rightarrow> enc_vote v | JsProposal p \<Rightarrow> enc_proposal p | JsHeartbeat h \<Rightarrow> []),
     UnmarshalJSON_vote := dec_vote, UnmarshalJSON_proposal := dec_proposal\<rparr>"

lemma json_ext_ok: "json_ok json_ext"
proof -
  have v: "dec_vote (enc_vote v) = Some v" for v
    by (simp add: dec_vote_def enc_vote_def bid_fields_def eval_nat_numeral)
  have p: "dec_proposal (enc_proposal p) = Some p" for p
    by (simp add: dec_proposal_def enc_proposal_def bid_fields_def eval_nat_numeral)
  from v p show ?thesis by (simp add: json_ok_def json_ext_def)
qed

section \<open>Properties\<close>

text \<open>
  C6: no double signing. A signer created with a fresh file, given any requests and restarted any
  number of times, never returns two signed votes for one height, round and type with different
  block ids (or chain ids), nor two different proposals for one height and round; at one step
  it returns one signature, over one string of bytes.
\<close>

theorem PrivValidator_never_double_signs:
  assumes "json_ok E" "pv_file w = None" "filePath \<noteq> []" "LoadOrGenFilePV E pubKey privKey filePath w = Inr w0"
    and "pv_run E w0 requests [] = Inr (out, w1)"
  shows "(\<forall>c v c' v'. SignedVote c v \<in> set out \<longrightarrow> SignedVote c' v' \<in> set out \<longrightarrow>
      vote_Height v = vote_Height v' \<longrightarrow> vote_Round v = vote_Round v' \<longrightarrow> vote_Type v = vote_Type v' \<longrightarrow>
      c = c' \<and> vote_BlockID v = vote_BlockID v' \<and> vote_Signature v = vote_Signature v') \<and>
    (\<forall>c p c' p'. SignedProposal c p \<in> set out \<longrightarrow> SignedProposal c' p' \<in> set out \<longrightarrow>
      prop_Height p = prop_Height p' \<longrightarrow> prop_Round p = prop_Round p' \<longrightarrow>
      c = c' \<and> BlockPartsHeader p = BlockPartsHeader p' \<and> POLRound p = POLRound p' \<and> POLBlockID p = POLBlockID p' \<and>
      prop_Signature p = prop_Signature p')"
proof -
  note J = assms(1)
  have "no_conflict E w1 out"
    using pv_run_spec [OF J fresh_ok [OF assms(2-4)] assms(5)] by simp
  then have u: "\<And>x y. x \<in> set out \<Longrightarrow> y \<in> set out \<Longrightarrow> item_hrs x = item_hrs y \<Longrightarrow> item_bytes E x = item_bytes E y \<and> item_sig x = item_sig y"
    unfolding no_conflict_def by blast
  show ?thesis
  proof (intro conjI allI impI)
    fix c v c' v' assume "SignedVote c v \<in> set out" "SignedVote c' v' \<in> set out" "vote_Height v = vote_Height v'"
      "vote_Round v = vote_Round v'" "vote_Type v = vote_Type v'"
    then have "vote_SignBytes E c v = vote_SignBytes E c' v'" and s: "vote_Signature v = vote_Signature v'"
      using u [of "SignedVote c v" "SignedVote c' v'"] by simp_all
    then have "CanonicalVote c v = CanonicalVote c' v'" by (simp add: vote_SignBytes_def json_inj [OF J])
    with s show "c = c'" "vote_BlockID v = vote_BlockID v'" "vote_Signature v = vote_Signature v'" by (simp_all add: CanonicalVote_def)
  next
    fix c p c' p' assume "SignedProposal c p \<in> set out" "SignedProposal c' p' \<in> set out" "prop_Height p = prop_Height p'" "prop_Round p = prop_Round p'"
    then have "prop_SignBytes E c p = prop_SignBytes E c' p'" and s: "prop_Signature p = prop_Signature p'"
      using u [of "SignedProposal c p" "SignedProposal c' p'"] by simp_all
    then have "CanonicalProposal c p = CanonicalProposal c' p'" by (simp add: prop_SignBytes_def json_inj [OF J])
    with s show "c = c'" "BlockPartsHeader p = BlockPartsHeader p'" "POLRound p = POLRound p'" "POLBlockID p = POLBlockID p'"
        "prop_Signature p = prop_Signature p'"
      by (auto simp: CanonicalProposal_def intro: part_set_header.equality)
  qed
qed

definition demo_world :: pv_world where
  "demo_world = \<lparr>pv_mem = GenFilePV json_ext (PubKeyEd25519 ''k'') (\<lambda>b. Some (SignatureEd25519 b)) [], pv_file = None\<rparr>"

definition demo_requests :: "pv_request list" where
  "demo_requests = [ReqVote 0 ''chain'' (demo_vote 0 ''a'' ''h''), ReqRestart,
     ReqVote 0 ''chain'' (demo_vote 0 ''a'' ''h'')]"

lemma demo_signs:
  "\<exists>w0 v w1. LoadOrGenFilePV json_ext (PubKeyEd25519 ''k'') (\<lambda>b. Some (SignatureEd25519 b)) ''f'' demo_world = Inr w0 \<and>
     pv_run json_ext w0 demo_requests [] = Inr ([SignedVote ''chain'' v, SignedVote ''chain'' v], w1)"
  by (simp add: LoadOrGenFilePV_def demo_world_def pv_save_def demo_requests_def pv_step_def signVote_def voteToStep_def
      demo_vote_def VoteTypePrevote_def VoteTypePrecommit_def checkHRS_def GenFilePV_def saveSigned_def LoadFilePV_def
      vote_SignBytes_def CanonicalVote_def stepNone_def stepPrecommit_def Let_def)

theorem PrivValidator_never_double_signs_witness:
  "\<exists>w0 out w1. LoadOrGenFilePV json_ext (PubKeyEd25519 ''k'') (\<lambda>b. Some (SignatureEd25519 b)) ''f'' demo_world = Inr w0 \<and>
     pv_run json_ext w0 demo_requests [] = Inr (out, w1) \<and> length out = 2 \<and>
     (\<forall>c v c' v'. SignedVote c v \<in> set out \<longrightarrow> SignedVote c' v' \<in> set out \<longrightarrow>
        vote_Height v = vote_Height v' \<longrightarrow> vote_Round v = vote_Round v' \<longrightarrow> vote_Type v = vote_Type v' \<longrightarrow>
        vote_BlockID v = vote_BlockID v')"
proof -
  obtain w0 v w1 where w0: "LoadOrGenFilePV json_ext (PubKeyEd25519 ''k'') (\<lambda>b. Some (SignatureEd25519 b)) ''f'' demo_world = Inr w0"
    and r: "pv_run json_ext w0 demo_requests [] = Inr ([SignedVote ''chain'' v, SignedVote ''chain'' v], w1)"
    using demo_signs by blast
  have "pv_file demo_world = None" "''f'' \<noteq> []" by (simp_all add: demo_world_def)
  note T = PrivValidator_never_double_signs [OF json_ext_ok this w0 r, THEN conjunct1]
  show ?thesis
    by (rule exI [of _ w0], rule exI [of _ "[SignedVote ''chain'' v, SignedVote ''chain'' v]"], rule exI [of _ w1],
      intro conjI w0 r) (simp, use T in blast)
qed

lemma signVote_again:
  assumes J: "json_ok E" and k: "pv_ok E w" "is_last E w (SignedVote c v)"
  shows "\<exists>v2. signVote E now c w (v\<lparr>vote_Timestamp := t, vote_Signature := sig\<rparr>) = Inr (None, v2, w) \<and>
    vote_SignBytes E c v2 = vote_SignBytes E c v \<and> vote_Signature v2 = vote_Signature v"
proof -
  let ?v = "v\<lparr>vote_Timestamp := t, vote_Signature := sig\<rparr>" and ?pv = "pv_mem w"
  obtain s where step: "voteToStep ?v = Inr s" and hrs: "last_hrs ?pv = (vote_Height v, vote_Round v, s)"
    using k(2) by (auto simp: is_last_def voteToStep_def IsVoteTypeValid_def VoteTypePrevote_def VoteTypePrecommit_def)
  have l: "LastSignBytes ?pv = Some (vote_SignBytes E c v)" "LastSignature ?pv = vote_Signature v" "LastSignature ?pv \<noteq> None"
    using k by (auto simp: is_last_def pv_ok_def)
  have ck: "checkHRS ?pv (vote_Height v) (vote_Round v) s = Inr (True, None)" unfolding checkHRS_ok using hrs l by simp
  show ?thesis
  proof (cases "vote_SignBytes E c v = vote_SignBytes E c ?v")
    case True
    then have "signVote E now c w ?v = Inr (None, ?v\<lparr>vote_Signature := vote_Signature v\<rparr>, w)"
      using step ck l by (simp add: signVote_def Let_def)
    moreover have "vote_SignBytes E c (u\<lparr>vote_Signature := x\<rparr>) = vote_SignBytes E c u" for u x
      by (simp add: vote_SignBytes_def CanonicalVote_def)
    ultimately show ?thesis using True by simp
  next
    case False
    define t1 where "t1 = ParseCanonicalTime (CanonicalTime (vote_Timestamp v))"
    have "checkVotesOnlyDifferByTimestamp E now (vote_SignBytes E c v) (vote_SignBytes E c ?v) = Inr (t1, True)"
      using J by (simp add: checkVotesOnlyDifferByTimestamp_def vote_SignBytes_def json_ok_def Let_def CanonicalVote_def t1_def)
    then have "signVote E now c w ?v = Inr (None, ?v\<lparr>vote_Timestamp := t1, vote_Signature := vote_Signature v\<rparr>, w)"
      using step ck l False by (simp add: signVote_def Let_def)
    moreover have "vote_SignBytes E c (v\<lparr>vote_Timestamp := t1\<rparr>) = vote_SignBytes E c v"
      by (simp add: vote_SignBytes_def CanonicalVote_def t1_def)
    ultimately show ?thesis by simp
  qed
qed

lemma signVote_late:
  assumes "item_valid (SignedVote c v)" "item_hrs (SignedVote c v) < last_hrs (pv_mem w)"
  shows "\<exists>e \<in> {HeightRegression, RoundRegression, StepRegression}. signVote E now c w v = Inr (Some e, v, w)"
proof -
  obtain s where s: "voteToStep v = Inr s" "(vote_Height v, vote_Round v, s) < last_hrs (pv_mem w)"
    using assms by (cases "vote_Type v = VoteTypePrevote") (auto simp: voteToStep_def IsVoteTypeValid_def)
  have "\<exists>e \<in> {HeightRegression, RoundRegression, StepRegression}. checkHRS (pv_mem w) (vote_Height v) (vote_Round v) s = Inr (False, Some e)"
    using s(2) by (auto simp: checkHRS_def last_hrs_def)
  then show ?thesis using s(1) by (auto simp: signVote_def Let_def)
qed

text \<open>
  C21: signing again. Let a signer that started from a fresh file have handled any requests and restarts, and
  signed a vote. As long as it has not signed for a later height, round or step, a request for the same vote with
  any timestamp succeeds, changes nothing, and returns a vote with the sign bytes and the signature of the first.
  Once it has, the request is refused as a regression, and nothing changes.
\<close>

theorem PrivValidator_resigns:
  assumes "json_ok E" "pv_file w = None" "filePath \<noteq> []" "LoadOrGenFilePV E pubKey privKey filePath w = Inr w0"
    and "pv_run E w0 rs [] = Inr (out, w1)" "SignedVote c v \<in> set out"
  shows "if last_hrs (pv_mem w1) = item_hrs (SignedVote c v)
    then \<exists>v2. signVote E now c w1 (v\<lparr>vote_Timestamp := t, vote_Signature := sig\<rparr>) = Inr (None, v2, w1) \<and>
      vote_SignBytes E c v2 = vote_SignBytes E c v \<and> vote_Signature v2 = vote_Signature v
    else \<exists>e \<in> {HeightRegression, RoundRegression, StepRegression}.
      signVote E now c w1 (v\<lparr>vote_Timestamp := t, vote_Signature := sig\<rparr>) = Inr (Some e, v\<lparr>vote_Timestamp := t, vote_Signature := sig\<rparr>, w1)"
proof -
  have w1: "pv_ok E w1" "no_conflict E w1 out"
    using pv_run_spec [OF assms(1) fresh_ok [OF assms(2-4)] assms(5)] by simp_all
  then have x: "item_valid (SignedVote c v)" "is_last E w1 (SignedVote c v) \<or> item_hrs (SignedVote c v) < last_hrs (pv_mem w1)"
    using assms(6) unfolding no_conflict_def by blast+
  show ?thesis
  proof (cases "last_hrs (pv_mem w1) = item_hrs (SignedVote c v)")
    case True
    then have "is_last E w1 (SignedVote c v)" using x(2) by simp
    then show ?thesis unfolding if_P [OF True] using signVote_again [OF assms(1) w1(1)] by blast
  next
    case False
    then have "item_hrs (SignedVote c v) < last_hrs (pv_mem w1)" using x(2) by (auto simp: is_last_def)
    then show ?thesis unfolding if_not_P [OF False] using x(1) by (intro signVote_late) simp_all
  qed
qed

lemma demo_last:
  "\<exists>w0 v w1. LoadOrGenFilePV json_ext (PubKeyEd25519 ''k'') (\<lambda>b. Some (SignatureEd25519 b)) ''f'' demo_world = Inr w0 \<and>
     pv_run json_ext w0 demo_requests [] = Inr ([SignedVote ''chain'' v, SignedVote ''chain'' v], w1) \<and> last_hrs (pv_mem w1) = item_hrs (SignedVote ''chain'' v)"
proof -
  obtain w0 v w1 where w0: "LoadOrGenFilePV json_ext (PubKeyEd25519 ''k'') (\<lambda>b. Some (SignatureEd25519 b)) ''f'' demo_world = Inr w0"
    and r: "pv_run json_ext w0 demo_requests [] = Inr ([SignedVote ''chain'' v, SignedVote ''chain'' v], w1)" using demo_signs by blast
  obtain n1 wa wb n2 where s: "pv_step json_ext w0 (ReqVote 0 ''chain'' (demo_vote 0 ''a'' ''h'')) = Inr (n1, wa)" "pv_step json_ext wa ReqRestart = Inr ([], wb)"
      "pv_step json_ext wb (ReqVote 0 ''chain'' (demo_vote 0 ''a'' ''h'')) = Inr (n2, w1)" "n1 @ n2 = [SignedVote ''chain'' v, SignedVote ''chain'' v]"
    using r unfolding demo_requests_def by (auto simp: pv_step_def elim!: bindP_Inr_E)
  have ok: "pv_ok json_ext w0" using fresh_ok(1) [OF _ _ w0] by (simp add: demo_world_def)
  have "pv_ok json_ext wb" using pv_step_spec [OF json_ext_ok _ s(2)] pv_step_spec [OF json_ext_ok ok s(1)] by blast
  then have "\<forall>x \<in> set n2. is_last json_ext w1 x" using pv_step_spec [OF json_ext_ok _ s(3)] by blast
  moreover have "length n1 \<le> 1" using s(1) by (auto simp: pv_step_def elim!: bindP_Inr_E)
  then have "SignedVote ''chain'' v \<in> set n2" using s(4) by (cases n1) (auto simp: append_eq_Cons_conv)
  ultimately have "last_hrs (pv_mem w1) = item_hrs (SignedVote ''chain'' v)" by (auto simp: is_last_def)
  then show ?thesis using w0 r by blast
qed

theorem PrivValidator_resigns_witness:
  "\<exists>w1 v v2. signVote json_ext 7 ''chain'' w1 (v\<lparr>vote_Timestamp := 12345678, vote_Signature := None\<rparr>) = Inr (None, v2, w1) \<and>
     vote_SignBytes json_ext ''chain'' v2 = vote_SignBytes json_ext ''chain'' v \<and> vote_Signature v2 = vote_Signature v"
proof -
  obtain w0 v w1 where w0: "LoadOrGenFilePV json_ext (PubKeyEd25519 ''k'') (\<lambda>b. Some (SignatureEd25519 b)) ''f'' demo_world = Inr w0"
    and r: "pv_run json_ext w0 demo_requests [] = Inr ([SignedVote ''chain'' v, SignedVote ''chain'' v], w1)"
    and l: "last_hrs (pv_mem w1) = item_hrs (SignedVote ''chain'' v)" using demo_last by blast
  have "pv_file demo_world = None" "''f'' \<noteq> []" "SignedVote ''chain'' v \<in> set [SignedVote ''chain'' v, SignedVote ''chain'' v]"
    by (simp_all add: demo_world_def)
  from PrivValidator_resigns [OF json_ext_ok this(1,2) w0 r this(3), where now = 7 and t = 12345678 and sig = None] show ?thesis
    unfolding if_P [OF l] by blast
qed

end
