(* ===== verification/Codec.thy ===== *)
theory Codec
  imports Priv_Validator Chain_Params
begin

text \<open>
  What the stores rely on of amino, as the predicate \<open>amino_ok\<close>: a value with content is encoded as a
  non-empty string, which decodes to it, also through a reader with a sufficient limit. Amino encodes
  a struct of zero fields as the empty string, so such values are exempt. It does not encode the
  unexported field \<open>totalVotingPower\<close>: the law is about values in which that cache is
  zero, and \<open>exported_state\<close> and \<open>exported_set\<close> are the values a decoder gives back. The rest of
  the theory is a codec that meets the predicate, for evaluation.
\<close>

section \<open>The laws\<close>

definition exported_set :: "validator_set option \<Rightarrow> validator_set option" where
  "exported_set = map_option (\<lambda>vs. vs\<lparr>totalVotingPower := 0\<rparr>)"

definition exported_state :: "state \<Rightarrow> state" where
  "exported_state s = s\<lparr>st_Validators := exported_set (st_Validators s), LastValidators := exported_set (LastValidators s)\<rparr>"

fun item_type :: "amino_item \<Rightarrow> amino_type option" where
  "item_type (AmBlock b) = (if blk_Header b \<noteq> None \<and> blk_Data b \<noteq> None \<and> blk_Commit b \<noteq> None then Some TyBlock else None)"
| "item_type (AmBlockMeta m) = (if bm_Header m \<noteq> None then Some TyBlockMeta else None)"
| "item_type (AmPart p) = (if part_Bytes p \<noteq> [] then Some TyPart else None)"
| "item_type (AmCommit c) = (if Precommits c \<noteq> [] then Some TyCommit else None)"
| "item_type (AmState s) = (if st_Validators s \<noteq> None \<and> exported_state s = s then Some TyState else None)"
| "item_type (AmValidatorsInfo v) = (if vi_LastHeightChanged v \<noteq> 0 \<and> exported_set (vi_ValidatorSet v) = vi_ValidatorSet v then Some TyValidatorsInfo else None)"
| "item_type (AmConsensusParamsInfo c) = (if cpi_LastHeightChanged c \<noteq> 0 then Some TyConsensusParamsInfo else None)"
| "item_type (AmABCIResponses r) = (if ar_EndBlock r \<noteq> None then Some TyABCIResponses else None)"
| "item_type _ = None"

definition amino_ok :: "'e ext_scheme \<Rightarrow> bool" where
  "amino_ok E \<longleftrightarrow> (\<forall>i t. item_type i = Some t \<longrightarrow>
     MarshalBinaryBare E i \<noteq> [] \<and> UnmarshalBinaryBare E t (MarshalBinaryBare E i) = Some i \<and>
     MarshalBinary E i \<noteq> [] \<and> UnmarshalBinary E t (MarshalBinary E i) = Some i \<and>
     (\<forall>n. int (length (MarshalBinary E i)) \<le> n \<longrightarrow> UnmarshalBinaryReader E t n (MarshalBinary E i) = Some i))"

lemma amino_okD:
  assumes "amino_ok E" "item_type i = Some t"
  shows "MarshalBinaryBare E i \<noteq> []" "UnmarshalBinaryBare E t (MarshalBinaryBare E i) = Some i"
    "MarshalBinary E i \<noteq> []" "UnmarshalBinary E t (MarshalBinary E i) = Some i"
    "int (length (MarshalBinary E i)) \<le> n \<Longrightarrow> UnmarshalBinaryReader E t n (MarshalBinary E i) = Some i"
  using assms unfolding amino_ok_def by blast+

lemma exported_simps [simp]:
  "exported_set (exported_set o') = exported_set o'" "exported_set o' = None \<longleftrightarrow> o' = None" "exported_set None = None"
  "exported_state (exported_state s) = exported_state s"
  by (simp_all add: exported_set_def exported_state_def option.map_comp comp_def)

section \<open>Trees as strings\<close>

datatype sx = Atom bytes | Node "sx list"

fun all_fields :: "nat \<Rightarrow> bytes \<Rightarrow> bytes list" where
  "all_fields 0 s = []"
| "all_fields (Suc n) s = (if s = [] then [] else let (a, r) = field s in a # all_fields n r)"

fun sx_enc :: "sx \<Rightarrow> bytes" where
  "sx_enc (Atom b) = CHR ''A'' # b"
| "sx_enc (Node xs) = CHR ''N'' # write_fields (map sx_enc xs)"

fun sx_dec :: "nat \<Rightarrow> bytes \<Rightarrow> sx" where
  "sx_dec 0 s = Atom []"
| "sx_dec (Suc n) s = (if s \<noteq> [] \<and> hd s = CHR ''N'' then Node (map (sx_dec n) (all_fields (length s) (tl s))) else Atom (tl s))"

fun sx_depth :: "sx \<Rightarrow> nat" where
  "sx_depth (Atom b) = 1"
| "sx_depth (Node xs) = Suc (foldr (\<lambda>x. max (sx_depth x)) xs 0)"

lemma unary_prefix_nonempty [simp]: "unary_prefix b \<noteq> []"
  by (simp add: unary_prefix_def)

lemma all_fields_write: "length fs \<le> n \<Longrightarrow> all_fields n (write_fields fs) = fs"
proof (induction n arbitrary: fs)
  case (Suc n)
  then show ?case by (cases fs) auto
qed simp

lemma length_write_fields: "length fs \<le> length (write_fields fs)"
proof (induction fs)
  case (Cons f fs)
  then show ?case by (simp add: unary_prefix_def)
qed simp

lemma length_in_write: "f \<in> set fs \<Longrightarrow> length f \<le> length (write_fields fs)"
  by (induction fs) (auto simp: unary_prefix_def)

lemma foldr_max_le: "foldr (\<lambda>x. max (g x)) xs (0 :: nat) \<le> n \<longleftrightarrow> (\<forall>x \<in> set xs. g x \<le> n)"
  by (induction xs) auto

lemma sx_dec_enc: "sx_depth x \<le> n \<Longrightarrow> sx_dec n (sx_enc x) = x"
proof (induction n arbitrary: x)
  case 0
  then show ?case by (cases x) auto
next
  case (Suc n)
  show ?case
  proof (cases x)
    case (Node xs)
    then have "\<forall>y \<in> set xs. sx_depth y \<le> n" using Suc.prems by (simp add: foldr_max_le)
    then have "map (sx_dec n) (map sx_enc xs) = xs" using Suc.IH by (simp add: map_idI)
    moreover have "all_fields (length (sx_enc x)) (write_fields (map sx_enc xs)) = map sx_enc xs"
      using length_write_fields [of "map sx_enc xs"] Node by (intro all_fields_write) simp
    ultimately show ?thesis using Node by simp
  qed simp
qed

lemma sx_depth_length: "sx_depth x \<le> length (sx_enc x)"
proof (induction x rule: sx_depth.induct)
  case (2 xs)
  have "sx_depth y \<le> length (write_fields (map sx_enc xs))" if "y \<in> set xs" for y
    using 2 [OF that] length_in_write [of "sx_enc y" "map sx_enc xs"] that by fastforce
  then show ?case by (simp add: foldr_max_le)
qed simp

definition sx_read :: "bytes \<Rightarrow> sx" where
  "sx_read s = sx_dec (length s) s"

lemma sx_read_enc [simp]: "sx_read (sx_enc x) = x"
  by (simp add: sx_read_def sx_dec_enc sx_depth_length)

lemma sx_enc_nonempty [simp]: "sx_enc x \<noteq> []"
  by (cases x) auto

section \<open>A codec of trees\<close>

fun atom :: "sx \<Rightarrow> bytes" where
  "atom (Atom b) = b"
| "atom (Node xs) = []"

fun kids :: "sx \<Rightarrow> sx list" where
  "kids (Node xs) = xs"
| "kids (Atom b) = []"

definition e_I :: "int \<Rightarrow> sx" where "e_I i = Atom (show_int i)"
definition d_I :: "sx \<Rightarrow> int" where "d_I x = read_int (atom x)"

definition e_L :: "('a \<Rightarrow> sx) \<Rightarrow> 'a list \<Rightarrow> sx" where "e_L e xs = Node (map e xs)"
definition d_L :: "(sx \<Rightarrow> 'a) \<Rightarrow> sx \<Rightarrow> 'a list" where "d_L d x = map d (kids x)"

definition e_O :: "('a \<Rightarrow> sx) \<Rightarrow> 'a option \<Rightarrow> sx" where "e_O e o' = Node (case o' of None \<Rightarrow> [] | Some y \<Rightarrow> [e y])"
definition d_O :: "(sx \<Rightarrow> 'a) \<Rightarrow> sx \<Rightarrow> 'a option" where "d_O d x = (case kids x of [] \<Rightarrow> None | y # _ \<Rightarrow> Some (d y))"

definition e_P :: "('a \<Rightarrow> sx) \<Rightarrow> ('b \<Rightarrow> sx) \<Rightarrow> 'a \<times> 'b \<Rightarrow> sx" where "e_P e f p = Node [e (fst p), f (snd p)]"
definition d_P :: "(sx \<Rightarrow> 'a) \<Rightarrow> (sx \<Rightarrow> 'b) \<Rightarrow> sx \<Rightarrow> 'a \<times> 'b" where "d_P d f x = (d (kids x ! 0), f (kids x ! 1))"

lemma codec_I [simp]: "d_I (e_I i) = i"
  by (simp add: d_I_def e_I_def)

lemma codec_L [simp]: "(\<And>x. d (e x) = x) \<Longrightarrow> d_L d (e_L e xs) = xs"
  by (simp add: d_L_def e_L_def map_idI)

lemma codec_O [simp]: "(\<And>x. d (e x) = x) \<Longrightarrow> d_O d (e_O e xo) = xo"
  by (cases xo) (simp_all add: d_O_def e_O_def)

lemma codec_P [simp]: "(\<And>x. d (e x) = x) \<Longrightarrow> (\<And>x. g (f x) = x) \<Longrightarrow> d_P d g (e_P e f p) = p"
  by (simp add: d_P_def e_P_def)

fun e_sig :: "signature \<Rightarrow> sx" where
  "e_sig (SignatureEd25519 s) = Node [Atom s]"
| "e_sig (SignatureSecp256k1 s) = Atom s"

definition d_sig :: "sx \<Rightarrow> signature" where
  "d_sig x = (case x of Atom s \<Rightarrow> SignatureSecp256k1 s | Node ys \<Rightarrow> SignatureEd25519 (atom (ys ! 0)))"

fun e_key :: "pub_key \<Rightarrow> sx" where
  "e_key (PubKeyEd25519 s) = Node [Atom s]"
| "e_key (PubKeySecp256k1 s) = Atom s"

definition d_key :: "sx \<Rightarrow> pub_key" where
  "d_key x = (case x of Atom s \<Rightarrow> PubKeySecp256k1 s | Node ys \<Rightarrow> PubKeyEd25519 (atom (ys ! 0)))"

lemma codec_sig [simp]: "d_sig (e_sig s) = s" and codec_key [simp]: "d_key (e_key k) = k"
  by (cases s; simp add: d_sig_def) (cases k; simp add: d_key_def)

definition e_psh :: "part_set_header \<Rightarrow> sx" where
  "e_psh r = Node [e_I (psh_Total r), Atom (psh_Hash r)]"

definition d_psh :: "sx \<Rightarrow> part_set_header" where
  "d_psh x = \<lparr>psh_Total = d_I (kids x ! 0), psh_Hash = atom (kids x ! 1)\<rparr>"

lemma codec_psh [simp]: "d_psh (e_psh r) = r"
  by (simp add: d_psh_def e_psh_def)

definition e_bid :: "block_id \<Rightarrow> sx" where
  "e_bid r = Node [Atom (bid_Hash r), e_psh (bid_PartsHeader r)]"

definition d_bid :: "sx \<Rightarrow> block_id" where
  "d_bid x = \<lparr>bid_Hash = atom (kids x ! 0), bid_PartsHeader = d_psh (kids x ! 1)\<rparr>"

lemma codec_bid [simp]: "d_bid (e_bid r) = r"
  by (simp add: d_bid_def e_bid_def)

definition e_vote :: "vote \<Rightarrow> sx" where
  "e_vote r = Node [Atom (ValidatorAddress r), e_I (ValidatorIndex r), e_I (vote_Height r), e_I (vote_Round r), e_I (vote_Timestamp r),
     e_I (vote_Type r), e_bid (vote_BlockID r), (e_O e_sig) (vote_Signature r)]"

definition d_vote :: "sx \<Rightarrow> vote" where
  "d_vote x = \<lparr>ValidatorAddress = atom (kids x ! 0), ValidatorIndex = d_I (kids x ! 1), vote_Height = d_I (kids x ! 2),
     vote_Round = d_I (kids x ! 3), vote_Timestamp = d_I (kids x ! 4), vote_Type = d_I (kids x ! 5),
     vote_BlockID = d_bid (kids x ! 6), vote_Signature = (d_O d_sig) (kids x ! 7)\<rparr>"

lemma codec_vote [simp]: "d_vote (e_vote r) = r"
  by (simp add: d_vote_def e_vote_def)

definition e_commit :: "commit \<Rightarrow> sx" where
  "e_commit r = Node [e_bid (commit_BlockID r), (e_L (e_O e_vote)) (Precommits r)]"

definition d_commit :: "sx \<Rightarrow> commit" where
  "d_commit x = \<lparr>commit_BlockID = d_bid (kids x ! 0), Precommits = (d_L (d_O d_vote)) (kids x ! 1)\<rparr>"

lemma codec_commit [simp]: "d_commit (e_commit r) = r"
  by (simp add: d_commit_def e_commit_def)

definition e_bucket :: "tx_bucket \<Rightarrow> sx" where
  "e_bucket r = Node [Atom (BucketId r), (e_L Atom) (Txs r)]"

definition d_bucket :: "sx \<Rightarrow> tx_bucket" where
  "d_bucket x = \<lparr>BucketId = atom (kids x ! 0), Txs = (d_L atom) (kids x ! 1)\<rparr>"

lemma codec_bucket [simp]: "d_bucket (e_bucket r) = r"
  by (simp add: d_bucket_def e_bucket_def)

definition e_data :: "data \<Rightarrow> sx" where
  "e_data r = Node [(e_L e_bucket) (TxBuckets r)]"

definition d_data :: "sx \<Rightarrow> data" where
  "d_data x = \<lparr>TxBuckets = (d_L d_bucket) (kids x ! 0)\<rparr>"

lemma codec_data [simp]: "d_data (e_data r) = r"
  by (simp add: d_data_def e_data_def)

definition e_header :: "header \<Rightarrow> sx" where
  "e_header r = Node [Atom (hdr_ChainID r), e_I (hdr_Height r), e_I (hdr_Time r), e_I (hdr_NumTxs r), e_bid (hdr_LastBlockID r),
     e_I (hdr_TotalTxs r), (e_O (e_L (e_P Atom Atom))) (hdr_LastBucketHashes r), Atom (hdr_DataHash r),
     Atom (hdr_ValidatorsHash r), Atom (hdr_ConsensusHash r), Atom (hdr_AppHash r), Atom (hdr_LastResultsHash r)]"

definition d_header :: "sx \<Rightarrow> header" where
  "d_header x = \<lparr>hdr_ChainID = atom (kids x ! 0), hdr_Height = d_I (kids x ! 1), hdr_Time = d_I (kids x ! 2), hdr_NumTxs = d_I (kids x ! 3),
     hdr_LastBlockID = d_bid (kids x ! 4), hdr_TotalTxs = d_I (kids x ! 5),
     hdr_LastBucketHashes = (d_O (d_L (d_P atom atom))) (kids x ! 6), hdr_DataHash = atom (kids x ! 7),
     hdr_ValidatorsHash = atom (kids x ! 8), hdr_ConsensusHash = atom (kids x ! 9), hdr_AppHash = atom (kids x ! 10),
     hdr_LastResultsHash = atom (kids x ! 11)\<rparr>"

lemma codec_header [simp]: "d_header (e_header r) = r"
  by (simp add: d_header_def e_header_def)

definition e_block :: "block \<Rightarrow> sx" where
  "e_block r = Node [(e_O e_header) (blk_Header r), (e_O e_data) (blk_Data r), (e_O e_commit) (blk_Commit r)]"

definition d_block :: "sx \<Rightarrow> block" where
  "d_block x = \<lparr>blk_Header = (d_O d_header) (kids x ! 0), blk_Data = (d_O d_data) (kids x ! 1), blk_Commit = (d_O d_commit) (kids x ! 2)\<rparr>"

lemma codec_block [simp]: "d_block (e_block r) = r"
  by (simp add: d_block_def e_block_def)

definition e_meta :: "block_meta \<Rightarrow> sx" where
  "e_meta r = Node [e_bid (bm_BlockID r), (e_O e_header) (bm_Header r)]"

definition d_meta :: "sx \<Rightarrow> block_meta" where
  "d_meta x = \<lparr>bm_BlockID = d_bid (kids x ! 0), bm_Header = (d_O d_header) (kids x ! 1)\<rparr>"

lemma codec_meta [simp]: "d_meta (e_meta r) = r"
  by (simp add: d_meta_def e_meta_def)

definition e_proof :: "SimpleProof \<Rightarrow> sx" where
  "e_proof r = Node [(e_L Atom) (Aunts r)]"

definition d_proof :: "sx \<Rightarrow> SimpleProof" where
  "d_proof x = \<lparr>Aunts = (d_L atom) (kids x ! 0)\<rparr>"

lemma codec_proof [simp]: "d_proof (e_proof r) = r"
  by (simp add: d_proof_def e_proof_def)

definition e_part :: "part \<Rightarrow> sx" where
  "e_part r = Node [e_I (part_Index r), Atom (part_Bytes r), e_proof (part_Proof r)]"

definition d_part :: "sx \<Rightarrow> part" where
  "d_part x = \<lparr>part_Index = d_I (kids x ! 0), part_Bytes = atom (kids x ! 1), part_Proof = d_proof (kids x ! 2)\<rparr>"

lemma codec_part [simp]: "d_part (e_part r) = r"
  by (simp add: d_part_def e_part_def)

definition e_val :: "validator \<Rightarrow> sx" where
  "e_val r = Node [Atom (v_Address r), (e_O e_key) (v_PubKey r), e_I (VotingPower r), e_I (Accum r)]"

definition d_val :: "sx \<Rightarrow> validator" where
  "d_val x = \<lparr>v_Address = atom (kids x ! 0), v_PubKey = (d_O d_key) (kids x ! 1), VotingPower = d_I (kids x ! 2), Accum = d_I (kids x ! 3)\<rparr>"

lemma codec_val [simp]: "d_val (e_val r) = r"
  by (simp add: d_val_def e_val_def)

definition e_vset :: "validator_set \<Rightarrow> sx" where
  "e_vset r = Node [(e_L e_val) (Validators r), (e_O e_val) (Proposer r), e_I (totalVotingPower r)]"

definition d_vset :: "sx \<Rightarrow> validator_set" where
  "d_vset x = \<lparr>Validators = (d_L d_val) (kids x ! 0), Proposer = (d_O d_val) (kids x ! 1), totalVotingPower = d_I (kids x ! 2)\<rparr>"

lemma codec_vset [simp]: "d_vset (e_vset r) = r"
  by (simp add: d_vset_def e_vset_def)

definition e_bsize :: "block_size \<Rightarrow> sx" where
  "e_bsize r = Node [e_I (bs_MaxBytes r), e_I (bs_MaxTxs r), e_I (bs_MaxGas r)]"

definition d_bsize :: "sx \<Rightarrow> block_size" where
  "d_bsize x = \<lparr>bs_MaxBytes = d_I (kids x ! 0), bs_MaxTxs = d_I (kids x ! 1), bs_MaxGas = d_I (kids x ! 2)\<rparr>"

lemma codec_bsize [simp]: "d_bsize (e_bsize r) = r"
  by (simp add: d_bsize_def e_bsize_def)

definition e_tsize :: "tx_size \<Rightarrow> sx" where
  "e_tsize r = Node [e_I (ts_MaxBytes r), e_I (ts_MaxGas r)]"

definition d_tsize :: "sx \<Rightarrow> tx_size" where
  "d_tsize x = \<lparr>ts_MaxBytes = d_I (kids x ! 0), ts_MaxGas = d_I (kids x ! 1)\<rparr>"

lemma codec_tsize [simp]: "d_tsize (e_tsize r) = r"
  by (simp add: d_tsize_def e_tsize_def)

definition e_params :: "consensus_params \<Rightarrow> sx" where
  "e_params r = Node [e_bsize (cp_BlockSize r), e_tsize (cp_TxSize r), e_I (BlockPartSizeBytes r), e_I (MaxAge r)]"

definition d_params :: "sx \<Rightarrow> consensus_params" where
  "d_params x = \<lparr>cp_BlockSize = d_bsize (kids x ! 0), cp_TxSize = d_tsize (kids x ! 1), BlockPartSizeBytes = d_I (kids x ! 2),
     MaxAge = d_I (kids x ! 3)\<rparr>"

lemma codec_params [simp]: "d_params (e_params r) = r"
  by (simp add: d_params_def e_params_def)

definition e_aparams :: "abci_consensus_params \<Rightarrow> sx" where
  "e_aparams r = Node [(e_O e_bsize) (acp_BlockSize r), (e_O e_tsize) (acp_TxSize r), (e_O e_I) (acp_BlockGossip r)]"

definition d_aparams :: "sx \<Rightarrow> abci_consensus_params" where
  "d_aparams x = \<lparr>acp_BlockSize = (d_O d_bsize) (kids x ! 0), acp_TxSize = (d_O d_tsize) (kids x ! 1), acp_BlockGossip = (d_O d_I) (kids x ! 2)\<rparr>"

lemma codec_aparams [simp]: "d_aparams (e_aparams r) = r"
  by (simp add: d_aparams_def e_aparams_def)

definition e_rdt :: "response_deliver_tx \<Rightarrow> sx" where
  "e_rdt r = Node [e_I (rdt_Code r), Atom (rdt_Data r)]"

definition d_rdt :: "sx \<Rightarrow> response_deliver_tx" where
  "d_rdt x = \<lparr>rdt_Code = d_I (kids x ! 0), rdt_Data = atom (kids x ! 1)\<rparr>"

lemma codec_rdt [simp]: "d_rdt (e_rdt r) = r"
  by (simp add: d_rdt_def e_rdt_def)

definition e_apk :: "abci_pub_key \<Rightarrow> sx" where
  "e_apk r = Node [Atom (apk_Type r), Atom (apk_Data r)]"

definition d_apk :: "sx \<Rightarrow> abci_pub_key" where
  "d_apk x = \<lparr>apk_Type = atom (kids x ! 0), apk_Data = atom (kids x ! 1)\<rparr>"

lemma codec_apk [simp]: "d_apk (e_apk r) = r"
  by (simp add: d_apk_def e_apk_def)

definition e_aval :: "abci_validator \<Rightarrow> sx" where
  "e_aval r = Node [Atom (av_Address r), e_apk (av_PubKey r), e_I (av_Power r)]"

definition d_aval :: "sx \<Rightarrow> abci_validator" where
  "d_aval x = \<lparr>av_Address = atom (kids x ! 0), av_PubKey = d_apk (kids x ! 1), av_Power = d_I (kids x ! 2)\<rparr>"

lemma codec_aval [simp]: "d_aval (e_aval r) = r"
  by (simp add: d_aval_def e_aval_def)

definition e_reb :: "response_end_block \<Rightarrow> sx" where
  "e_reb r = Node [(e_L e_aval) (ValidatorUpdates r), (e_O e_aparams) (ConsensusParamUpdates r)]"

definition d_reb :: "sx \<Rightarrow> response_end_block" where
  "d_reb x = \<lparr>ValidatorUpdates = (d_L d_aval) (kids x ! 0), ConsensusParamUpdates = (d_O d_aparams) (kids x ! 1)\<rparr>"

lemma codec_reb [simp]: "d_reb (e_reb r) = r"
  by (simp add: d_reb_def e_reb_def)

definition e_rgv :: "response_get_validator_set \<Rightarrow> sx" where
  "e_rgv r = Node [(e_L e_aval) (rgv_ValidatorSet r)]"

definition d_rgv :: "sx \<Rightarrow> response_get_validator_set" where
  "d_rgv x = \<lparr>rgv_ValidatorSet = (d_L d_aval) (kids x ! 0)\<rparr>"

lemma codec_rgv [simp]: "d_rgv (e_rgv r) = r"
  by (simp add: d_rgv_def e_rgv_def)

definition e_resp :: "abci_responses \<Rightarrow> sx" where
  "e_resp r = Node [(e_L (e_O e_rdt)) (ar_DeliverTx r), (e_O e_reb) (ar_EndBlock r), (e_O e_rgv) (ar_GetValidatorSet r)]"

definition d_resp :: "sx \<Rightarrow> abci_responses" where
  "d_resp x = \<lparr>ar_DeliverTx = (d_L (d_O d_rdt)) (kids x ! 0), ar_EndBlock = (d_O d_reb) (kids x ! 1),
     ar_GetValidatorSet = (d_O d_rgv) (kids x ! 2)\<rparr>"

lemma codec_resp [simp]: "d_resp (e_resp r) = r"
  by (simp add: d_resp_def e_resp_def)

definition e_state :: "state \<Rightarrow> sx" where
  "e_state r = Node [Atom (st_ChainID r), e_I (LastBlockHeight r), e_I (LastBlockTotalTx r), e_bid (st_LastBlockID r), e_I (LastBlockTime r),
     (e_O e_vset) (st_Validators r), (e_O e_vset) (LastValidators r), e_I (LastHeightValidatorsChanged r),
     e_params (st_ConsensusParams r), e_I (LastHeightConsensusParamsChanged r), Atom (st_LastResultsHash r), Atom (st_AppHash r)]"

definition d_state :: "sx \<Rightarrow> state" where
  "d_state x = \<lparr>st_ChainID = atom (kids x ! 0), LastBlockHeight = d_I (kids x ! 1), LastBlockTotalTx = d_I (kids x ! 2),
     st_LastBlockID = d_bid (kids x ! 3), LastBlockTime = d_I (kids x ! 4), st_Validators = (d_O d_vset) (kids x ! 5),
     LastValidators = (d_O d_vset) (kids x ! 6), LastHeightValidatorsChanged = d_I (kids x ! 7),
     st_ConsensusParams = d_params (kids x ! 8), LastHeightConsensusParamsChanged = d_I (kids x ! 9),
     st_LastResultsHash = atom (kids x ! 10), st_AppHash = atom (kids x ! 11)\<rparr>"

lemma codec_state [simp]: "d_state (e_state r) = r"
  by (simp add: d_state_def e_state_def)

definition e_vinfo :: "validators_info \<Rightarrow> sx" where
  "e_vinfo r = Node [(e_O e_vset) (vi_ValidatorSet r), e_I (vi_LastHeightChanged r)]"

definition d_vinfo :: "sx \<Rightarrow> validators_info" where
  "d_vinfo x = \<lparr>vi_ValidatorSet = (d_O d_vset) (kids x ! 0), vi_LastHeightChanged = d_I (kids x ! 1)\<rparr>"

lemma codec_vinfo [simp]: "d_vinfo (e_vinfo r) = r"
  by (simp add: d_vinfo_def e_vinfo_def)

definition e_cinfo :: "consensus_params_info \<Rightarrow> sx" where
  "e_cinfo r = Node [e_params (cpi_ConsensusParams r), e_I (cpi_LastHeightChanged r)]"

definition d_cinfo :: "sx \<Rightarrow> consensus_params_info" where
  "d_cinfo x = \<lparr>cpi_ConsensusParams = d_params (kids x ! 0), cpi_LastHeightChanged = d_I (kids x ! 1)\<rparr>"

lemma codec_cinfo [simp]: "d_cinfo (e_cinfo r) = r"
  by (simp add: d_cinfo_def e_cinfo_def)

fun e_item :: "amino_item \<Rightarrow> sx" where
  "e_item (AmBlock r) = e_block r"
| "e_item (AmBlockMeta r) = e_meta r"
| "e_item (AmPart r) = e_part r"
| "e_item (AmCommit r) = e_commit r"
| "e_item (AmState r) = e_state r"
| "e_item (AmValidatorsInfo r) = e_vinfo r"
| "e_item (AmConsensusParamsInfo r) = e_cinfo r"
| "e_item (AmABCIResponses r) = e_resp r"
| "e_item (AmPartSetHeader h) = e_psh h"
| "e_item _ = Atom []"

fun d_item :: "amino_type \<Rightarrow> sx \<Rightarrow> amino_item option" where
  "d_item TyBlock x = Some (AmBlock (d_block x))"
| "d_item TyBlockMeta x = Some (AmBlockMeta (d_meta x))"
| "d_item TyPart x = Some (AmPart (d_part x))"
| "d_item TyCommit x = Some (AmCommit (d_commit x))"
| "d_item TyState x = Some (AmState (d_state x))"
| "d_item TyValidatorsInfo x = Some (AmValidatorsInfo (d_vinfo x))"
| "d_item TyConsensusParamsInfo x = Some (AmConsensusParamsInfo (d_cinfo x))"
| "d_item TyABCIResponses x = Some (AmABCIResponses (d_resp x))"
| "d_item TyTxBucket x = None"

lemma codec_item: "item_type i = Some t \<Longrightarrow> d_item t (e_item i) = Some i"
  by (cases i) (auto split: if_splits)

text \<open>The environment with this codec.\<close>

definition with_codec :: "'e ext_scheme \<Rightarrow> 'e ext_scheme" where
  "with_codec E = E\<lparr>MarshalBinaryBare := (\<lambda>i. sx_enc (e_item i)), MarshalBinary := (\<lambda>i. sx_enc (e_item i)),
     UnmarshalBinaryBare := (\<lambda>t s. d_item t (sx_read s)), UnmarshalBinary := (\<lambda>t s. d_item t (sx_read s)),
     UnmarshalBinaryReader := (\<lambda>t n s. if int (length s) \<le> n then d_item t (sx_read s) else None)\<rparr>"

lemma with_codec_ok [simp]: "amino_ok (with_codec E)"
  by (simp add: amino_ok_def with_codec_def codec_item)

lemma with_codec_keeps [simp]:
  "sha256 (with_codec E) = sha256 E" "ed25519_Verify (with_codec E) = ed25519_Verify E" "EncodeByteSlice (with_codec E) = EncodeByteSlice E"
  "MarshalJSON (with_codec E) = MarshalJSON E" "ext.more (with_codec E) = ext.more E"
  by (simp_all add: with_codec_def)

end
