(* ===== verification/KV_Store.thy ===== *)
theory KV_Store
  imports DMC_Prelude "HOL-Library.Mapping" "HOL-Library.Sublist"
begin

text \<open>
  \<^verbatim>\<open>libs/db\<close>: the key-value store interface of \<^verbatim>\<open>types.go\<close> as the locale \<open>kv_store\<close>, the in-memory
  database and its batches and iterators, and the name spaces of \<^verbatim>\<open>prefix_db.go\<close>, which are stores
  over any other store. \<open>Get\<close> returns nil exactly on a missing key: the value is an option.
\<close>

section \<open>The interface\<close>

locale kv_store =
  fixes get :: "'s \<Rightarrow> bytes \<Rightarrow> bytes option"
    and has :: "'s \<Rightarrow> bytes \<Rightarrow> bool"
    and set' :: "'s \<Rightarrow> bytes \<Rightarrow> bytes \<Rightarrow> 's"
    and del :: "'s \<Rightarrow> bytes \<Rightarrow> 's"
  assumes get_set: "get (set' s k v) k' = (if k' = k then Some v else get s k')"
    and get_del: "get (del s k) k' = (if k' = k then None else get s k')"
    and has_get: "has s k \<longleftrightarrow> get s k \<noteq> None"
begin

lemma get_set_same [simp]: "get (set' s k v) k = Some v"
  by (simp add: get_set)

lemma get_set_other [simp]: "k' \<noteq> k \<Longrightarrow> get (set' s k v) k' = get s k'"
  by (simp add: get_set)

lemma get_sets:
  "get (fold (\<lambda>(k, v) s. set' s k v) kvs s) k' = (case map_of (rev kvs) k' of None \<Rightarrow> get s k' | Some v \<Rightarrow> Some v)"
  by (induction kvs rule: rev_induct) (auto simp: get_set split: option.splits)

end

section \<open>The in-memory database\<close>

type_synonym mem_db = "(bytes, bytes) mapping"

definition NewMemDB :: mem_db where "NewMemDB = Mapping.empty"

definition mem_Get :: "mem_db \<Rightarrow> bytes \<Rightarrow> bytes option" where
  "mem_Get db key = Mapping.lookup db key"

text \<open>A read whose caller looks only at the length: a missing key reads as the empty string.\<close>

definition db_read :: "mem_db \<Rightarrow> bytes \<Rightarrow> bytes" where
  "db_read db key = (case mem_Get db key of None \<Rightarrow> [] | Some v \<Rightarrow> v)"

definition mem_Has :: "mem_db \<Rightarrow> bytes \<Rightarrow> bool" where
  "mem_Has db key \<longleftrightarrow> Mapping.lookup db key \<noteq> None"

definition mem_SetNoLock :: "mem_db \<Rightarrow> bytes \<Rightarrow> bytes \<Rightarrow> mem_db" where
  "mem_SetNoLock db key v = Mapping.update key v db"

definition mem_Set :: "mem_db \<Rightarrow> bytes \<Rightarrow> bytes \<Rightarrow> mem_db" where
  "mem_Set db key v = mem_SetNoLock db key v"

definition mem_DeleteNoLock :: "mem_db \<Rightarrow> bytes \<Rightarrow> mem_db" where
  "mem_DeleteNoLock db key = Mapping.delete key db"

definition mem_Delete :: "mem_db \<Rightarrow> bytes \<Rightarrow> mem_db" where
  "mem_Delete db key = mem_DeleteNoLock db key"

lemma lookup_delete_if: "Mapping.lookup (Mapping.delete k m) k' = (if k' = k then None else Mapping.lookup m k')"
  by transfer simp

interpretation mem: kv_store mem_Get mem_Has mem_Set mem_Delete
  by unfold_locales
    (simp_all add: mem_Get_def mem_Has_def mem_Set_def mem_SetNoLock_def mem_Delete_def mem_DeleteNoLock_def
      lookup_update' lookup_delete_if)

lemma db_read_set [simp]: "db_read (mem_Set db k v) k' = (if k' = k then v else db_read db k')"
  by (simp add: db_read_def mem.get_set)

lemma mem_Get_empty [simp]: "mem_Get NewMemDB k = None"
  by (simp add: mem_Get_def NewMemDB_def)

section \<open>Batches\<close>

datatype operation = OpSet bytes bytes | OpDelete bytes

definition batch_Set :: "operation list \<Rightarrow> bytes \<Rightarrow> bytes \<Rightarrow> operation list" where
  "batch_Set ops key v = ops @ [OpSet key v]"

definition batch_Delete :: "operation list \<Rightarrow> bytes \<Rightarrow> operation list" where
  "batch_Delete ops key = ops @ [OpDelete key]"

fun apply_op :: "operation \<Rightarrow> mem_db \<Rightarrow> mem_db" where
  "apply_op (OpSet k v) db = mem_SetNoLock db k v"
| "apply_op (OpDelete k) db = mem_DeleteNoLock db k"

definition batch_Write :: "operation list \<Rightarrow> mem_db \<Rightarrow> mem_db" where
  "batch_Write ops db = fold apply_op ops db"

lemma batch_Write_append [simp]: "batch_Write (ops @ ops') db = batch_Write ops' (batch_Write ops db)"
  by (simp add: batch_Write_def)

section \<open>Keys in order\<close>

text \<open>Big-endian increment and decrement; \<open>None\<close> is the nil result on overflow.\<close>

fun incr_rev :: "bytes \<Rightarrow> bytes option" where
  "incr_rev [] = None"
| "incr_rev (c # cs) =
     (if of_char c < (255::nat) then Some (char_of (of_char c + 1 :: nat) # cs)
      else map_option (\<lambda>r. CHR 0x00 # r) (incr_rev cs))"

definition cpIncr :: "bytes \<Rightarrow> bytes option or_panic" where
  "cpIncr bz =
     (if length bz = 0 then Inl (PanicMsg ''cpIncr expects non-zero bz length'') else Inr (map_option rev (incr_rev (rev bz))))"

fun decr_rev :: "bytes \<Rightarrow> bytes option" where
  "decr_rev [] = None"
| "decr_rev (c # cs) =
     (if of_char c > (0::nat) then Some (char_of (of_char c - 1 :: nat) # cs)
      else map_option (\<lambda>r. CHR 0xFF # r) (decr_rev cs))"

definition cpDecr :: "bytes \<Rightarrow> bytes option or_panic" where
  "cpDecr bz =
     (if length bz = 0 then Inl (PanicMsg ''cpDecr expects non-zero bz length'') else Inr (map_option rev (decr_rev (rev bz))))"

definition IsKeyInDomain :: "bytes \<Rightarrow> bytes option \<Rightarrow> bytes option \<Rightarrow> bool \<Rightarrow> bool" where
  "IsKeyInDomain key start end' isReverse =
     (if \<not> isReverse then
        (if bytes_compare key (case start of None \<Rightarrow> [] | Some s \<Rightarrow> s) < 0 then False
         else if (case end' of None \<Rightarrow> False | Some e \<Rightarrow> bytes_compare e key \<le> 0) then False
         else True)
      else
        (if (case start of None \<Rightarrow> False | Some s \<Rightarrow> bytes_compare s key < 0) then False
         else if (case end' of None \<Rightarrow> False | Some e \<Rightarrow> bytes_compare key e \<le> 0) then False
         else True))"

definition getSortedKeys :: "mem_db \<Rightarrow> bytes option \<Rightarrow> bytes option \<Rightarrow> bool \<Rightarrow> bytes list" where
  "getSortedKeys db start end' reverse =
     (let keys = filter (\<lambda>k. IsKeyInDomain k start end' reverse) (Mapping.ordered_keys db)
      in if reverse then rev keys else keys)"

section \<open>Iterators\<close>

record mem_iterator =
  it_db :: "mem_db option"
  it_cur :: nat
  it_keys :: "bytes list"

definition mem_Iterator :: "mem_db \<Rightarrow> bytes option \<Rightarrow> bytes option \<Rightarrow> mem_iterator" where
  "mem_Iterator db start end' = \<lparr>it_db = Some db, it_cur = 0, it_keys = getSortedKeys db start end' False\<rparr>"

definition mem_ReverseIterator :: "mem_db \<Rightarrow> bytes option \<Rightarrow> bytes option \<Rightarrow> mem_iterator" where
  "mem_ReverseIterator db start end' = \<lparr>it_db = Some db, it_cur = 0, it_keys = getSortedKeys db start end' True\<rparr>"

definition it_Valid :: "mem_iterator \<Rightarrow> bool" where
  "it_Valid itr \<longleftrightarrow> it_cur itr < length (it_keys itr)"

definition assertIsValid :: "mem_iterator \<Rightarrow> unit or_panic" where
  "assertIsValid itr = (if \<not> it_Valid itr then Inl (PanicMsg ''memDBIterator is invalid'') else Inr ())"

definition it_Next :: "mem_iterator \<Rightarrow> mem_iterator or_panic" where
  "it_Next itr = bindP (assertIsValid itr) (\<lambda>_. Inr (itr\<lparr>it_cur := it_cur itr + 1\<rparr>))"

definition it_Key :: "mem_iterator \<Rightarrow> bytes or_panic" where
  "it_Key itr = bindP (assertIsValid itr) (\<lambda>_. Inr (it_keys itr ! it_cur itr))"

definition it_Value :: "mem_iterator \<Rightarrow> bytes option or_panic" where
  "it_Value itr = bindP (assertIsValid itr) (\<lambda>_.
     bindP (deref (it_db itr)) (\<lambda>db. Inr (mem_Get db (it_keys itr ! it_cur itr))))"

definition it_Close :: "mem_iterator \<Rightarrow> mem_iterator" where
  "it_Close itr = itr\<lparr>it_keys := [], it_db := None\<rparr>"

definition IteratePrefix :: "mem_db \<Rightarrow> bytes \<Rightarrow> mem_iterator or_panic" where
  "IteratePrefix db pre =
     (if length pre = 0 then Inr (mem_Iterator db None None)
      else bindP (cpIncr pre) (\<lambda>end'. Inr (mem_Iterator db (Some pre) end')))"

section \<open>Name spaces\<close>

definition prefixed :: "bytes \<Rightarrow> bytes \<Rightarrow> bytes" where
  "prefixed pre key = pre @ key"

definition pdb_Get :: "('s \<Rightarrow> bytes \<Rightarrow> bytes option) \<Rightarrow> bytes \<Rightarrow> 's \<Rightarrow> bytes \<Rightarrow> bytes option" where
  "pdb_Get get pre db key = get db (prefixed pre key)"

definition pdb_Has :: "('s \<Rightarrow> bytes \<Rightarrow> bool) \<Rightarrow> bytes \<Rightarrow> 's \<Rightarrow> bytes \<Rightarrow> bool" where
  "pdb_Has has pre db key = has db (prefixed pre key)"

definition pdb_Set :: "('s \<Rightarrow> bytes \<Rightarrow> bytes \<Rightarrow> 's) \<Rightarrow> bytes \<Rightarrow> 's \<Rightarrow> bytes \<Rightarrow> bytes \<Rightarrow> 's" where
  "pdb_Set set' pre db key v = set' db (prefixed pre key) v"

definition pdb_Delete :: "('s \<Rightarrow> bytes \<Rightarrow> 's) \<Rightarrow> bytes \<Rightarrow> 's \<Rightarrow> bytes \<Rightarrow> 's" where
  "pdb_Delete del pre db key = del db (prefixed pre key)"

definition pb_Set :: "bytes \<Rightarrow> operation list \<Rightarrow> bytes \<Rightarrow> bytes \<Rightarrow> operation list" where
  "pb_Set pre source key v = batch_Set source (pre @ key) v"

definition pb_Delete :: "bytes \<Rightarrow> operation list \<Rightarrow> bytes \<Rightarrow> operation list" where
  "pb_Delete pre source key = batch_Delete source (pre @ key)"

context kv_store
begin

lemma prefixed_store: "kv_store (pdb_Get get p) (pdb_Has has p) (pdb_Set set' p) (pdb_Delete del p)"
  by unfold_locales (simp_all add: pdb_Get_def pdb_Has_def pdb_Set_def pdb_Delete_def prefixed_def get_set get_del has_get)

lemma prefixed_isolated:
  assumes "\<not> prefix p q" "\<not> prefix q p"
  shows "pdb_Get get q (pdb_Set set' p s k v) k' = pdb_Get get q s k'" "pdb_Get get q (pdb_Delete del p s k) k' = pdb_Get get q s k'"
proof -
  have "q @ k' \<noteq> p @ k" using assms prefix_same_cases [of p "p @ k" q] by (metis prefixI)
  then show "pdb_Get get q (pdb_Set set' p s k v) k' = pdb_Get get q s k'" "pdb_Get get q (pdb_Delete del p s k) k' = pdb_Get get q s k'"
    by (simp_all add: pdb_Get_def pdb_Set_def pdb_Delete_def prefixed_def get_set get_del)
qed

end

interpretation pdb: kv_store "pdb_Get mem_Get p" "pdb_Has mem_Has p" "pdb_Set mem_Set p" "pdb_Delete mem_Delete p" for p
  by (rule mem.prefixed_store)

text \<open>The iterator of a name space: \<open>Next\<close> has a value receiver, so only the source is changed.\<close>

record prefix_iterator =
  pi_prefix :: bytes
  pi_source :: mem_iterator
  pi_valid :: bool

definition newPrefixIterator :: "bytes \<Rightarrow> mem_iterator \<Rightarrow> prefix_iterator or_panic" where
  "newPrefixIterator p source =
     (if \<not> it_Valid source then Inr \<lparr>pi_prefix = p, pi_source = source, pi_valid = False\<rparr>
      else bindP (it_Key source) (\<lambda>k. Inr \<lparr>pi_prefix = p, pi_source = source, pi_valid = prefix p k\<rparr>))"

definition pi_Valid :: "prefix_iterator \<Rightarrow> bool" where
  "pi_Valid itr \<longleftrightarrow> pi_valid itr \<and> it_Valid (pi_source itr)"

definition pi_Next :: "prefix_iterator \<Rightarrow> prefix_iterator or_panic" where
  "pi_Next itr =
     (if \<not> pi_valid itr then Inl (PanicMsg ''prefixIterator invalid, cannot call Next()'')
      else bindP (it_Next (pi_source itr)) (\<lambda>source.
        bindP (if \<not> it_Valid source then Inr False else bindP (it_Key source) (\<lambda>k. Inr (prefix (pi_prefix itr) k))) (\<lambda>ok.
          Inr (itr\<lparr>pi_source := (if ok then source else it_Close source)\<rparr>))))"

definition stripPrefix :: "bytes \<Rightarrow> bytes \<Rightarrow> bytes or_panic" where
  "stripPrefix key p =
     (if length key < length p \<or> take (length p) key \<noteq> p then Inl (PanicMsg ''should not happen'') else Inr (drop (length p) key))"

definition pi_Key :: "prefix_iterator \<Rightarrow> bytes or_panic" where
  "pi_Key itr =
     (if \<not> pi_valid itr then Inl (PanicMsg ''prefixIterator invalid, cannot call Key()'')
      else bindP (it_Key (pi_source itr)) (\<lambda>k. stripPrefix k (pi_prefix itr)))"

definition pdb_Iterator :: "bytes \<Rightarrow> mem_db \<Rightarrow> bytes option \<Rightarrow> bytes option \<Rightarrow> prefix_iterator or_panic" where
  "pdb_Iterator p db start end' =
     bindP (case end' of None \<Rightarrow> cpIncr p | Some e \<Rightarrow> Inr (Some (p @ e))) (\<lambda>pend.
       newPrefixIterator p (mem_Iterator db (Some (p @ (case start of None \<Rightarrow> [] | Some s \<Rightarrow> s))) pend))"

definition skipOne :: "mem_iterator \<Rightarrow> bytes option \<Rightarrow> mem_iterator or_panic" where
  "skipOne itr skipKey =
     (if it_Valid itr
      then bindP (it_Key itr) (\<lambda>k. if k = (case skipKey of None \<Rightarrow> [] | Some s \<Rightarrow> s) then it_Next itr else Inr itr)
      else Inr itr)"

definition pdb_ReverseIterator :: "bytes \<Rightarrow> mem_db \<Rightarrow> bytes option \<Rightarrow> bytes option \<Rightarrow> prefix_iterator or_panic" where
  "pdb_ReverseIterator p db start end' =
     bindP (case start of None \<Rightarrow> cpIncr p | Some s \<Rightarrow> Inr (Some (p @ s))) (\<lambda>pstart.
     bindP (case end' of None \<Rightarrow> cpDecr p | Some e \<Rightarrow> Inr (Some (p @ e))) (\<lambda>pend.
     let ritr = mem_ReverseIterator db pstart pend in
     bindP (if start = None then bindP (cpIncr p) (\<lambda>k. skipOne ritr k) else Inr ritr) (\<lambda>itr.
       newPrefixIterator p itr)))"

section \<open>Lexicographic order and prefixes\<close>

lemma prefix_greater: "p \<le> k \<Longrightarrow> \<not> prefix p k \<Longrightarrow> p @ x < (k :: bytes)"
proof (induction p arbitrary: k)
  case (Cons c p)
  then show ?case by (cases k) auto
qed simp

lemma append_greater: "(a :: bytes) < b \<Longrightarrow> a < b @ y"
proof (induction a arbitrary: b)
  case (Cons c a)
  then show ?case by (cases b) auto
next
  case Nil
  then show ?case by (cases b) auto
qed

lemma same_prefix_less [simp]: "p @ a < p @ b \<longleftrightarrow> a < (b :: bytes)"
  by (induction p) auto

lemma char_succ_greater: "of_char c < (255::nat) \<Longrightarrow> c < char_of (of_char c + 1 :: nat)"
  by (simp add: less_char_def)

lemma incr_rev_greater: "incr_rev cs = Some r \<Longrightarrow> rev cs @ x < rev r"
proof (induction cs arbitrary: r x)
  case (Cons c cs)
  show ?case
  proof (cases "of_char c < (255::nat)")
    case True
    then show ?thesis using Cons.prems char_succ_greater [OF True] by auto
  next
    case False
    then obtain r' where "incr_rev cs = Some r'" "r = CHR 0x00 # r'" using Cons.prems by auto
    then show ?thesis using append_greater [OF Cons.IH [of r' "c # x"]] by simp
  qed
qed simp

lemma cpIncr_greater: "cpIncr p = Inr (Some e) \<Longrightarrow> p @ x < e"
  using incr_rev_greater [of "rev p"] by (auto simp: cpIncr_def split: if_splits)

section \<open>Iterating over a name space\<close>

text \<open>The usual loop over an iterator, with a bound on its steps.\<close>

fun pi_collect :: "nat \<Rightarrow> prefix_iterator \<Rightarrow> bytes list or_panic" where
  "pi_collect 0 itr = (if pi_Valid itr then Inl NoReturn else Inr [])"
| "pi_collect (Suc n) itr =
     (if pi_Valid itr
      then bindP (pi_Key itr) (\<lambda>k. bindP (pi_Next itr) (\<lambda>itr'. bindP (pi_collect n itr') (\<lambda>ks. Inr (k # ks))))
      else Inr [])"

lemma pi_collect_takeWhile:
  assumes "it_cur (pi_source itr) + n = length (it_keys (pi_source itr))" "pi_valid itr"
    and "n > 0 \<longrightarrow> prefix (pi_prefix itr) (it_keys (pi_source itr) ! it_cur (pi_source itr))"
  shows "pi_collect n itr = Inr (map (drop (length (pi_prefix itr)))
    (takeWhile (prefix (pi_prefix itr)) (drop (it_cur (pi_source itr)) (it_keys (pi_source itr)))))"
  using assms
proof (induction n arbitrary: itr)
  case 0
  then show ?case by (simp add: pi_Valid_def it_Valid_def)
next
  case (Suc n)
  let ?s = "pi_source itr" and ?p = "pi_prefix itr"
  let ?c = "it_cur ?s" and ?ks = "it_keys ?s"
  have v: "it_Valid ?s" using Suc.prems by (simp add: it_Valid_def)
  obtain x where x: "?ks ! ?c = ?p @ x" using Suc.prems(3) by (auto simp: prefix_def)
  have key: "pi_Key itr = Inr x" using v x Suc.prems(2) by (simp add: pi_Key_def it_Key_def assertIsValid_def stripPrefix_def)
  have dr: "drop ?c ?ks = (?p @ x) # drop (Suc ?c) ?ks" using v x by (simp add: it_Valid_def Cons_nth_drop_Suc [symmetric])
  let ?s1 = "?s\<lparr>it_cur := ?c + 1\<rparr>"
  show ?case
  proof (cases "n > 0 \<and> prefix ?p (?ks ! Suc ?c)")
    case True
    have nx: "pi_Next itr = Inr (itr\<lparr>pi_source := ?s1\<rparr>)"
      using v True Suc.prems by (simp add: pi_Next_def it_Next_def it_Key_def assertIsValid_def it_Valid_def)
    show ?thesis using Suc.IH [of "itr\<lparr>pi_source := ?s1\<rparr>"] Suc.prems True v key nx dr by (simp add: pi_Valid_def)
  next
    case False
    have nx: "pi_Next itr = Inr (itr\<lparr>pi_source := it_Close ?s1\<rparr>)"
      using v False Suc.prems by (auto simp: pi_Next_def it_Next_def it_Key_def assertIsValid_def it_Valid_def)
    have cl: "pi_collect n (itr\<lparr>pi_source := it_Close ?s1\<rparr>) = Inr []"
      by (cases n) (simp_all add: pi_Valid_def it_Valid_def it_Close_def)
    have "takeWhile (prefix ?p) (drop (Suc ?c) ?ks) = []"
      using False Suc.prems(1) by (cases "drop (Suc ?c) ?ks") (auto simp: nth_via_drop)
    then show ?thesis using Suc.prems v key nx dr cl by (simp add: pi_Valid_def)
  qed
qed

lemma takeWhile_eq_filter_sorted:
  assumes "sorted xs" "\<And>x y. x \<in> set xs \<Longrightarrow> y \<in> set xs \<Longrightarrow> P x \<Longrightarrow> \<not> P y \<Longrightarrow> x < y"
  shows "takeWhile P xs = filter P (xs :: 'a :: linorder list)"
  using assms
proof (induction xs)
  case (Cons x xs)
  show ?case
  proof (cases "P x")
    case True
    then show ?thesis using Cons by simp
  next
    case False
    then have "\<not> P y" if "y \<in> set xs" for y using Cons.prems(1) Cons.prems(2) [of y x] that by fastforce
    then show ?thesis using False by simp
  qed
qed simp

lemma domain_prefix:
  assumes "cpIncr p = Inr e"
  shows "prefix p k \<Longrightarrow> IsKeyInDomain k (Some p) e False"
    "IsKeyInDomain k (Some p) e False \<Longrightarrow> \<not> prefix p k \<Longrightarrow> p @ x < k"
proof -
  show "IsKeyInDomain k (Some p) e False" if pk: "prefix p k"
  proof -
    obtain x where k: "k = p @ x" using pk by (auto simp: prefix_def)
    have "p \<le> p @ x" by (induction p) auto
    moreover have "p @ x < f" if "e = Some f" for f using assms that by (simp add: cpIncr_greater)
    ultimately show ?thesis by (cases e) (auto simp: IsKeyInDomain_def k not_le)
  qed
  show "p @ x < k" if "IsKeyInDomain k (Some p) e False" "\<not> prefix p k"
    using that by (intro prefix_greater) (auto simp: IsKeyInDomain_def split: if_splits)
qed

text \<open>
  C33: the iterator over a whole name space visits exactly its keys, in ascending order and without
  the prefix, also where the range of keys it asks the underlying database for contains others.
\<close>

theorem PrefixDB_iterates_its_keys:
  assumes "p \<noteq> []"
  shows "\<exists>itr n. pdb_Iterator p db None None = Inr itr \<and>
    pi_collect n itr = Inr (map (drop (length p)) (filter (prefix p) (Mapping.ordered_keys db)))"
proof -
  obtain e where e: "cpIncr p = Inr e" using assms by (simp add: cpIncr_def)
  define ks where "ks = filter (\<lambda>k. IsKeyInDomain k (Some p) e False) (Mapping.ordered_keys db)"
  have sorted: "sorted ks" by (simp add: ks_def ordered_keys_def sorted_wrt_filter)
  have f: "filter (prefix p) (Mapping.ordered_keys db) = filter (prefix p) ks"
    unfolding ks_def filter_filter by (rule filter_cong) (auto dest: domain_prefix(1) [OF e])
  also have "\<dots> = takeWhile (prefix p) ks"
  proof (rule takeWhile_eq_filter_sorted [OF sorted, symmetric])
    fix x y assume "x \<in> set ks" "y \<in> set ks" "prefix p x" "\<not> prefix p y"
    then show "x < y" using domain_prefix(2) [OF e, of y] by (auto simp: ks_def prefix_def)
  qed
  finally have tw: "filter (prefix p) (Mapping.ordered_keys db) = takeWhile (prefix p) ks" .
  let ?src = "\<lparr>it_db = Some db, it_cur = 0, it_keys = ks\<rparr>"
  have it: "pdb_Iterator p db None None = newPrefixIterator p ?src"
    by (simp add: pdb_Iterator_def e mem_Iterator_def getSortedKeys_def ks_def Let_def)
  show ?thesis
  proof (cases "ks \<noteq> [] \<and> prefix p (ks ! 0)")
    case True
    let ?itr = "\<lparr>pi_prefix = p, pi_source = ?src, pi_valid = True\<rparr>"
    have "newPrefixIterator p ?src = Inr ?itr" using True by (simp add: newPrefixIterator_def it_Valid_def it_Key_def assertIsValid_def)
    then show ?thesis using pi_collect_takeWhile [of ?itr "length ks"] True tw it by auto
  next
    case False
    then have "newPrefixIterator p ?src = Inr \<lparr>pi_prefix = p, pi_source = ?src, pi_valid = False\<rparr>"
      by (auto simp: newPrefixIterator_def it_Valid_def it_Key_def assertIsValid_def)
    moreover have "takeWhile (prefix p) ks = []" using False by (cases ks) auto
    ultimately show ?thesis using it tw by (intro exI [of _ "\<lparr>pi_prefix = p, pi_source = ?src, pi_valid = False\<rparr>"] exI [of _ 0]) (simp add: pi_Valid_def)
  qed
qed

definition demo_db :: mem_db where
  "demo_db = mem_Set (mem_Set (mem_Set NewMemDB ''b'' ''1'') [CHR ''a'', CHR 0xFF] ''2'') [CHR ''a'', CHR 0xFF, CHR ''k''] ''3''"

theorem PrefixDB_iterates_its_keys_witness:
  "\<exists>itr n. pdb_Iterator [CHR ''a'', CHR 0xFF] demo_db None None = Inr itr \<and> pi_collect n itr = Inr [[], ''k'']"
proof -
  have "Mapping.ordered_keys demo_db = [[CHR ''a'', CHR 0xFF], [CHR ''a'', CHR 0xFF, CHR ''k''], ''b'']"
    by (simp add: demo_db_def mem_Set_def mem_SetNoLock_def NewMemDB_def ordered_keys_def)
  then show ?thesis using PrefixDB_iterates_its_keys [of "[CHR ''a'', CHR 0xFF]" demo_db] by simp
qed

end
