(* ===== verification/Block_Store.thy ===== *)
theory Block_Store
  imports Codec KV_Store
begin

text \<open>
  \<^verbatim>\<open>blockchain/store.go\<close>: blocks by height in a key-value store, as a meta record, the parts, the commit
  of the previous block and the commit that was seen for this one. The JSON form of the height
  descriptor is a parameter.
\<close>

section \<open>Operations\<close>

record store_ext = dmc_ext +
  json_StoreHeight :: "int \<Rightarrow> bytes"
  json_ReadStoreHeight :: "bytes \<Rightarrow> int option"

record block_store =
  bst_db :: mem_db
  bst_height :: int

definition calcBlockMetaKey :: "int \<Rightarrow> bytes" where
  "calcBlockMetaKey height = ''H:'' @ show_int height"

definition calcBlockPartKey :: "int \<Rightarrow> int \<Rightarrow> bytes" where
  "calcBlockPartKey height partIndex = ''P:'' @ show_int height @ '':'' @ show_int partIndex"

definition calcBlockCommitKey :: "int \<Rightarrow> bytes" where
  "calcBlockCommitKey height = ''C:'' @ show_int height"

definition calcSeenCommitKey :: "int \<Rightarrow> bytes" where
  "calcSeenCommitKey height = ''SC:'' @ show_int height"

definition blockStoreKey :: bytes where "blockStoreKey = ''blockStore''"

definition bsj_Save :: "'e store_ext_scheme \<Rightarrow> int \<Rightarrow> mem_db \<Rightarrow> mem_db" where
  "bsj_Save E height db = mem_Set db blockStoreKey (json_StoreHeight E height)"

definition LoadBlockStoreStateJSON :: "'e store_ext_scheme \<Rightarrow> mem_db \<Rightarrow> int or_panic" where
  "LoadBlockStoreStateJSON E db =
     (let bz = db_read db blockStoreKey in
      if length bz = 0 then Inr 0
      else case json_ReadStoreHeight E bz of None \<Rightarrow> Inl (PanicMsg ''Could not unmarshal bytes'') | Some h \<Rightarrow> Inr h)"

definition NewBlockStore :: "'e store_ext_scheme \<Rightarrow> mem_db \<Rightarrow> block_store or_panic" where
  "NewBlockStore E db = bindP (LoadBlockStoreStateJSON E db) (\<lambda>h. Inr \<lparr>bst_db = db, bst_height = h\<rparr>)"

definition LoadBlockPart :: "'e ext_scheme \<Rightarrow> block_store \<Rightarrow> int \<Rightarrow> int \<Rightarrow> part option or_panic" where
  "LoadBlockPart E bs height index =
     (let bz = db_read (bst_db bs) (calcBlockPartKey height index) in
      if length bz = 0 then Inr None
      else case UnmarshalBinaryBare E TyPart bz of Some (AmPart p) \<Rightarrow> Inr (Some p) | _ \<Rightarrow> Inl (PanicMsg ''Error reading block part''))"

definition LoadBlockMeta :: "'e ext_scheme \<Rightarrow> block_store \<Rightarrow> int \<Rightarrow> block_meta option or_panic" where
  "LoadBlockMeta E bs height =
     (let bz = db_read (bst_db bs) (calcBlockMetaKey height) in
      if length bz = 0 then Inr None
      else case UnmarshalBinaryBare E TyBlockMeta bz of Some (AmBlockMeta m) \<Rightarrow> Inr (Some m) | _ \<Rightarrow> Inl (PanicMsg ''Error reading block meta''))"

definition load_commit :: "'e ext_scheme \<Rightarrow> mem_db \<Rightarrow> bytes \<Rightarrow> commit option or_panic" where
  "load_commit E db key =
     (let bz = db_read db key in
      if length bz = 0 then Inr None
      else case UnmarshalBinaryBare E TyCommit bz of Some (AmCommit c) \<Rightarrow> Inr (Some c) | _ \<Rightarrow> Inl (PanicMsg ''Error reading block commit''))"

definition LoadBlockCommit :: "'e ext_scheme \<Rightarrow> block_store \<Rightarrow> int \<Rightarrow> commit option or_panic" where
  "LoadBlockCommit E bs height = load_commit E (bst_db bs) (calcBlockCommitKey height)"

definition LoadSeenCommit :: "'e ext_scheme \<Rightarrow> block_store \<Rightarrow> int \<Rightarrow> commit option or_panic" where
  "LoadSeenCommit E bs height = load_commit E (bst_db bs) (calcSeenCommitKey height)"

definition LoadBlock :: "'e ext_scheme \<Rightarrow> block_store \<Rightarrow> int \<Rightarrow> block option or_panic" where
  "LoadBlock E bs height =
     bindP (LoadBlockMeta E bs height) (\<lambda>blockMeta.
       case blockMeta of None \<Rightarrow> Inr None
       | Some m \<Rightarrow>
           bindP (mapP (\<lambda>i. bindP (LoadBlockPart E bs height i) (\<lambda>p. bindP (deref p) (\<lambda>q. Inr (part_Bytes q))))
               [0..psh_Total (bid_PartsHeader (bm_BlockID m)) - 1]) (\<lambda>chunks.
             case UnmarshalBinary E TyBlock (concat chunks) of Some (AmBlock b) \<Rightarrow> Inr (Some b)
             | _ \<Rightarrow> Inl (PanicMsg ''Error reading block'')))"

definition bucketKey :: "int \<Rightarrow> bytes \<Rightarrow> bytes" where
  "bucketKey height bucketID = show_int height @ '' '' @ bucketID"

definition SaveBucket :: "'e ext_scheme \<Rightarrow> block_store \<Rightarrow> int \<Rightarrow> bytes \<Rightarrow> tx_bucket \<Rightarrow> block_store" where
  "SaveBucket E bs height bucketID bucket =
     bs\<lparr>bst_db := mem_Set (bst_db bs) (bucketKey height bucketID) (MarshalBinaryBare E (AmTxBucket bucket))\<rparr>"

definition LoadBucket :: "'e ext_scheme \<Rightarrow> block_store \<Rightarrow> int \<Rightarrow> bytes \<Rightarrow> tx_bucket or_panic" where
  "LoadBucket E bs height bucketID =
     (case UnmarshalBinary E TyTxBucket (db_read (bst_db bs) (bucketKey height bucketID)) of
        Some (AmTxBucket b) \<Rightarrow> Inr b | _ \<Rightarrow> Inl (PanicMsg ''Error reading bucket''))"

definition saveBlockPart :: "'e ext_scheme \<Rightarrow> int \<Rightarrow> int \<Rightarrow> part option \<Rightarrow> block_store \<Rightarrow> block_store or_panic" where
  "saveBlockPart E height index p bs =
     (if height \<noteq> bst_height bs + 1 then Inl (PanicSanity ''BlockStore can only save contiguous blocks'')
      else bindP (deref p) (\<lambda>q. Inr (bs\<lparr>bst_db := mem_Set (bst_db bs) (calcBlockPartKey height index) (MarshalBinaryBare E (AmPart q))\<rparr>)))"

definition SaveBlock :: "'e store_ext_scheme \<Rightarrow> block_store \<Rightarrow> block option \<Rightarrow> part_set option \<Rightarrow> commit option \<Rightarrow> block_store or_panic" where
  "SaveBlock E bs bo blockParts seenCommit =
     (case bo of None \<Rightarrow> Inl (PanicSanity ''BlockStore can only save a non-nil block'')
      | Some b \<Rightarrow>
          bindP (deref (blk_Header b)) (\<lambda>hdr.
          let height = hdr_Height hdr in
          if height \<noteq> bst_height bs + 1 then Inl (PanicSanity ''BlockStore can only save contiguous blocks'')
          else bindP (deref blockParts) (\<lambda>ps.
          if \<not> IsComplete ps then Inl (PanicSanity ''BlockStore can only save complete block part sets'')
          else
            let db1 = mem_Set (bst_db bs) (calcBlockMetaKey height) (MarshalBinaryBare E (AmBlockMeta (NewBlockMeta E b blockParts))) in
            bindP (foldP (\<lambda>i s. bindP (GetPart ps i) (\<lambda>p. saveBlockPart E height i p s)) [0..ps_Total blockParts - 1] (bs\<lparr>bst_db := db1\<rparr>)) (\<lambda>bs2.
            bindP (deref (blk_Commit b)) (\<lambda>c.
            bindP (deref seenCommit) (\<lambda>sc.
            let db3 = mem_Set (bst_db bs2) (calcBlockCommitKey (height - 1)) (MarshalBinaryBare E (AmCommit c));
                db4 = mem_Set db3 (calcSeenCommitKey height) (MarshalBinaryBare E (AmCommit sc));
                db5 = bsj_Save E height db4
            in Inr (bs2\<lparr>bst_height := height, bst_db := mem_Set db5 [] []\<rparr>)))))))"

section \<open>Keys\<close>

lemma separator_unique:
  "c \<notin> set a \<Longrightarrow> c \<notin> set b \<Longrightarrow> a @ c # x = b @ c # y \<longleftrightarrow> a = b \<and> x = y"
proof (induction a arbitrary: b)
  case Nil
  then show ?case by (cases b) auto
next
  case (Cons d a)
  then show ?case by (cases b) auto
qed

lemma show_int_nonempty: "show_int i \<noteq> []"
  by (simp add: show_int_def)

lemma colon_show_int [simp]: "CHR '':'' \<notin> set (show_int i)"
  using show_int_chars [of "CHR '':''" i] by auto

lemma key_inject [simp]:
  "calcBlockMetaKey h = calcBlockMetaKey h' \<longleftrightarrow> h = h'"
  "calcBlockCommitKey h = calcBlockCommitKey h' \<longleftrightarrow> h = h'"
  "calcSeenCommitKey h = calcSeenCommitKey h' \<longleftrightarrow> h = h'"
  "calcBlockPartKey h i = calcBlockPartKey h' i' \<longleftrightarrow> h = h' \<and> i = i'"
  by (simp_all add: calcBlockMetaKey_def calcBlockCommitKey_def calcSeenCommitKey_def calcBlockPartKey_def separator_unique)

lemma key_kinds [simp]:
  "calcBlockMetaKey h \<noteq> calcBlockPartKey k i" "calcBlockMetaKey h \<noteq> calcBlockCommitKey k" "calcBlockMetaKey h \<noteq> calcSeenCommitKey k"
  "calcBlockMetaKey h \<noteq> blockStoreKey" "calcBlockMetaKey h \<noteq> []"
  "calcBlockPartKey h i \<noteq> calcBlockMetaKey k" "calcBlockPartKey h i \<noteq> calcBlockCommitKey k" "calcBlockPartKey h i \<noteq> calcSeenCommitKey k"
  "calcBlockPartKey h i \<noteq> blockStoreKey" "calcBlockPartKey h i \<noteq> []"
  "calcBlockCommitKey h \<noteq> calcBlockMetaKey k" "calcBlockCommitKey h \<noteq> calcBlockPartKey k i" "calcBlockCommitKey h \<noteq> calcSeenCommitKey k"
  "calcBlockCommitKey h \<noteq> blockStoreKey" "calcBlockCommitKey h \<noteq> []"
  "calcSeenCommitKey h \<noteq> calcBlockMetaKey k" "calcSeenCommitKey h \<noteq> calcBlockPartKey k i" "calcSeenCommitKey h \<noteq> calcBlockCommitKey k"
  "calcSeenCommitKey h \<noteq> blockStoreKey" "calcSeenCommitKey h \<noteq> []"
  "blockStoreKey \<noteq> calcBlockMetaKey h" "blockStoreKey \<noteq> calcBlockPartKey h i" "blockStoreKey \<noteq> calcBlockCommitKey h"
  "blockStoreKey \<noteq> calcSeenCommitKey h" "blockStoreKey \<noteq> []"
  by (simp_all add: calcBlockMetaKey_def calcBlockPartKey_def calcBlockCommitKey_def calcSeenCommitKey_def blockStoreKey_def)

section \<open>Saving and loading\<close>

text \<open>
  What \<open>SaveBlock\<close> is given: a complete block, the parts of its encoding, and a commit with votes.
\<close>

definition parts_of :: "'e ext_scheme \<Rightarrow> block \<Rightarrow> part_set \<Rightarrow> bool" where
  "parts_of E b ps \<longleftrightarrow> IsComplete ps \<and> ps_total ps = int (length (ps_parts ps)) \<and>
     (\<forall>p \<in> set (ps_parts ps). \<exists>q. p = Some q \<and> part_Bytes q \<noteq> []) \<and>
     concat (map (\<lambda>p. part_Bytes (the p)) (ps_parts ps)) = MarshalBinary E (AmBlock b)"

definition entry_ok :: "'e ext_scheme \<Rightarrow> int \<Rightarrow> block \<times> part_set \<times> commit \<Rightarrow> bool" where
  "entry_ok E height e = (case e of (b, ps, sc) \<Rightarrow>
     (\<exists>h. blk_Header b = Some h \<and> hdr_Height h = height) \<and> blk_Data b \<noteq> None \<and> blk_Commit b \<noteq> None \<and>
     parts_of E b ps \<and> Precommits sc \<noteq> [])"

lemma save_parts:
  assumes "h = bst_height bs + 1" "\<forall>i < n. \<exists>q. ps_parts ps ! i = Some q" "n \<le> length (ps_parts ps)"
  shows "\<exists>db. foldP (\<lambda>i s. bindP (GetPart ps i) (\<lambda>p. saveBlockPart E h i p s)) (map int [0..<n]) bs = Inr (bs\<lparr>bst_db := db\<rparr>) \<and>
    (\<forall>i < n. db_read db (calcBlockPartKey h (int i)) = MarshalBinaryBare E (AmPart (the (ps_parts ps ! i)))) \<and>
    (\<forall>k. (\<forall>i. k \<noteq> calcBlockPartKey h i) \<longrightarrow> db_read db k = db_read (bst_db bs) k)"
  using assms
proof (induction n)
  case 0
  then show ?case by (intro exI [of _ "bst_db bs"]) simp
next
  case (Suc n)
  then obtain db where db: "foldP (\<lambda>i s. bindP (GetPart ps i) (\<lambda>p. saveBlockPart E h i p s)) (map int [0..<n]) bs = Inr (bs\<lparr>bst_db := db\<rparr>)"
      "\<forall>i < n. db_read db (calcBlockPartKey h (int i)) = MarshalBinaryBare E (AmPart (the (ps_parts ps ! i)))"
      "\<forall>k. (\<forall>i. k \<noteq> calcBlockPartKey h i) \<longrightarrow> db_read db k = db_read (bst_db bs) k"
    by auto
  obtain q where q: "ps_parts ps ! n = Some q" using Suc.prems(2) by auto
  have nl: "n < length (ps_parts ps)" using Suc.prems(3) by simp
  let ?db = "mem_Set db (calcBlockPartKey h (int n)) (MarshalBinaryBare E (AmPart q))"
  have "foldP (\<lambda>i s. bindP (GetPart ps i) (\<lambda>p. saveBlockPart E h i p s)) (map int [0..<Suc n]) bs = Inr (bs\<lparr>bst_db := ?db\<rparr>)"
    using db(1) q nl Suc.prems(1) by (simp add: GetPart_def slice_at_def saveBlockPart_def)
  moreover have "\<forall>i < Suc n. db_read ?db (calcBlockPartKey h (int i)) = MarshalBinaryBare E (AmPart (the (ps_parts ps ! i)))"
    using db(2) q by (auto simp: less_Suc_eq)
  moreover have "\<forall>k. (\<forall>i. k \<noteq> calcBlockPartKey h i) \<longrightarrow> db_read ?db k = db_read (bst_db bs) k" using db(3) by simp
  ultimately show ?case by blast
qed

lemma upto_int: "[0..int n - 1] = map int [0..<n]"
  by (induction n) (simp_all add: upto_rec2)

text \<open>One save, by what can be read afterwards.\<close>

lemma SaveBlock_reads:
  assumes e: "entry_ok E (bst_height bs + 1) (b, ps, sc)" and h: "h = bst_height bs + 1"
  shows "\<exists>bs'. SaveBlock E bs (Some b) (Some ps) (Some sc) = Inr bs' \<and> bst_height bs' = h \<and>
    db_read (bst_db bs') (calcBlockMetaKey h) = MarshalBinaryBare E (AmBlockMeta (NewBlockMeta E b (Some ps))) \<and>
    (\<forall>i < length (ps_parts ps). db_read (bst_db bs') (calcBlockPartKey h (int i)) = MarshalBinaryBare E (AmPart (the (ps_parts ps ! i)))) \<and>
    db_read (bst_db bs') (calcBlockCommitKey (h - 1)) = MarshalBinaryBare E (AmCommit (the (blk_Commit b))) \<and>
    db_read (bst_db bs') (calcSeenCommitKey h) = MarshalBinaryBare E (AmCommit sc) \<and>
    db_read (bst_db bs') blockStoreKey = json_StoreHeight E h \<and>
    (\<forall>k. k \<notin> {calcBlockMetaKey h, calcBlockCommitKey (h - 1), calcSeenCommitKey h, blockStoreKey, []} \<and> (\<forall>i. k \<noteq> calcBlockPartKey h i) \<longrightarrow>
      db_read (bst_db bs') k = db_read (bst_db bs) k)"
proof -
  obtain hd c where b: "blk_Header b = Some hd" "hdr_Height hd = h" "blk_Commit b = Some c" using e h by (auto simp: entry_ok_def)
  have p: "parts_of E b ps" using e by (simp add: entry_ok_def)
  define db1 where "db1 = mem_Set (bst_db bs) (calcBlockMetaKey h) (MarshalBinaryBare E (AmBlockMeta (NewBlockMeta E b (Some ps))))"
  let ?n = "length (ps_parts ps)"
  have "\<forall>i < ?n. \<exists>q. ps_parts ps ! i = Some q" using p by (auto simp: parts_of_def)
  then obtain db where db: "foldP (\<lambda>i s. bindP (GetPart ps i) (\<lambda>p. saveBlockPart E h i p s)) (map int [0..<?n]) (bs\<lparr>bst_db := db1\<rparr>) = Inr (bs\<lparr>bst_db := db\<rparr>)"
      "\<forall>i < ?n. db_read db (calcBlockPartKey h (int i)) = MarshalBinaryBare E (AmPart (the (ps_parts ps ! i)))"
      "\<forall>k. (\<forall>i. k \<noteq> calcBlockPartKey h i) \<longrightarrow> db_read db k = db_read db1 k"
    using save_parts [of h "bs\<lparr>bst_db := db1\<rparr>" ?n ps E] h by auto
  have tot: "[0..ps_Total (Some ps) - 1] = map int [0..<?n]" using p by (simp add: ps_Total_def parts_of_def upto_int)
  let ?bs = "\<lparr>bst_db = mem_Set (bsj_Save E h (mem_Set (mem_Set db (calcBlockCommitKey (h - 1)) (MarshalBinaryBare E (AmCommit c)))
      (calcSeenCommitKey h) (MarshalBinaryBare E (AmCommit sc)))) [] [], bst_height = h\<rparr>"
  have "SaveBlock E bs (Some b) (Some ps) (Some sc) = Inr ?bs"
    using b p db(1) unfolding SaveBlock_def by (simp add: parts_of_def tot Let_def h [symmetric] db1_def [symmetric])
  moreover have "db_read db (calcBlockMetaKey h) = MarshalBinaryBare E (AmBlockMeta (NewBlockMeta E b (Some ps)))"
    using db(3) by (simp add: db1_def)
  ultimately show ?thesis using db(2,3) b(3) by (intro exI [of _ ?bs]) (simp add: bsj_Save_def db1_def)
qed

definition stored :: "'e ext_scheme \<Rightarrow> mem_db \<Rightarrow> int \<Rightarrow> block \<times> part_set \<times> commit \<Rightarrow> bool" where
  "stored E db h e = (case e of (b, ps, sc) \<Rightarrow>
     db_read db (calcBlockMetaKey h) = MarshalBinaryBare E (AmBlockMeta (NewBlockMeta E b (Some ps))) \<and>
     (\<forall>i < length (ps_parts ps). db_read db (calcBlockPartKey h (int i)) = MarshalBinaryBare E (AmPart (the (ps_parts ps ! i)))) \<and>
     db_read db (calcBlockCommitKey (h - 1)) = MarshalBinaryBare E (AmCommit (the (blk_Commit b))) \<and>
     db_read db (calcSeenCommitKey h) = MarshalBinaryBare E (AmCommit sc))"

lemma stored_loads:
  assumes A: "amino_ok E" and e: "entry_ok E h (b, ps, sc)" and s: "stored E (bst_db bs) h (b, ps, sc)"
  shows "LoadBlock E bs h = Inr (Some b)" "LoadBlockMeta E bs h = Inr (Some (NewBlockMeta E b (Some ps)))"
    "LoadSeenCommit E bs h = Inr (Some sc)"
    "Precommits (the (blk_Commit b)) \<noteq> [] \<Longrightarrow> LoadBlockCommit E bs (h - 1) = Inr (blk_Commit b)"
proof -
  obtain hd c where b: "blk_Header b = Some hd" "blk_Commit b = Some c" "blk_Data b \<noteq> None" using e by (auto simp: entry_ok_def)
  have p: "parts_of E b ps" and sc: "Precommits sc \<noteq> []" using e by (simp_all add: entry_ok_def)
  let ?m = "NewBlockMeta E b (Some ps)"
  have m: "item_type (AmBlockMeta ?m) = Some TyBlockMeta" using b by (simp add: NewBlockMeta_def)
  show meta: "LoadBlockMeta E bs h = Inr (Some ?m)"
    using s amino_okD [OF A m] by (simp add: stored_def LoadBlockMeta_def Let_def)
  have com: "load_commit E db k = Inr (Some c')" if "db_read db k = MarshalBinaryBare E (AmCommit c')" "Precommits c' \<noteq> []" for db k c'
    using that amino_okD [OF A, of "AmCommit c'"] by (simp add: load_commit_def Let_def)
  show "LoadSeenCommit E bs h = Inr (Some sc)" using s com sc by (simp add: stored_def LoadSeenCommit_def)
  show "LoadBlockCommit E bs (h - 1) = Inr (blk_Commit b)" if "Precommits (the (blk_Commit b)) \<noteq> []"
    using s com that b by (simp add: stored_def LoadBlockCommit_def)
  have part: "LoadBlockPart E bs h (int i) = Inr (ps_parts ps ! i)" if i: "i < length (ps_parts ps)" for i
  proof -
    obtain q where q: "ps_parts ps ! i = Some q" "part_Bytes q \<noteq> []" using p nth_mem [OF i] unfolding parts_of_def by blast
    then show ?thesis using s i amino_okD [OF A, of "AmPart q"] by (simp add: stored_def LoadBlockPart_def Let_def)
  qed
  have some: "\<exists>q. ps_parts ps ! i = Some q" if "i < length (ps_parts ps)" for i using p nth_mem [OF that] unfolding parts_of_def by blast
  have tot: "psh_Total (bid_PartsHeader (bm_BlockID ?m)) = int (length (ps_parts ps))" using p by (simp add: NewBlockMeta_def ps_Header_def parts_of_def)
  have "mapP (\<lambda>i. bindP (LoadBlockPart E bs h i) (\<lambda>p. bindP (deref p) (\<lambda>q. Inr (part_Bytes q)))) (map int [0..<length (ps_parts ps)]) =
      Inr (map (\<lambda>i. part_Bytes (the (ps_parts ps ! i))) [0..<length (ps_parts ps)])"
    unfolding mapP_map using part some by (intro mapP_Inr) fastforce
  moreover have "map (\<lambda>i. part_Bytes (the (ps_parts ps ! i))) [0..<length (ps_parts ps)] = map (\<lambda>p. part_Bytes (the p)) (ps_parts ps)"
    using map_nth [of "ps_parts ps"] by (metis (no_types, lifting) map_map comp_apply map_eq_conv)
  ultimately show "LoadBlock E bs h = Inr (Some b)"
    using p b amino_okD [OF A, of "AmBlock b"] by (simp add: LoadBlock_def meta tot upto_int parts_of_def)
qed

text \<open>A sequence of saves, as the node makes them.\<close>

definition save_all :: "'e store_ext_scheme \<Rightarrow> (block \<times> part_set \<times> commit) list \<Rightarrow> block_store \<Rightarrow> block_store or_panic" where
  "save_all E es bs = foldP (\<lambda>(b, ps, sc) s. SaveBlock E s (Some b) (Some ps) (Some sc)) es bs"

lemma save_all_spec:
  assumes "\<forall>i < length es. entry_ok E (int i + 1) (es ! i)"
  shows "\<exists>bs. save_all E es \<lparr>bst_db = NewMemDB, bst_height = 0\<rparr> = Inr bs \<and> bst_height bs = int (length es) \<and>
    (\<forall>i < length es. stored E (bst_db bs) (int i + 1) (es ! i)) \<and>
    (\<forall>h > int (length es). db_read (bst_db bs) (calcBlockMetaKey h) = []) \<and>
    db_read (bst_db bs) blockStoreKey = (if es = [] then [] else json_StoreHeight E (int (length es)))"
  using assms
proof (induction es rule: rev_induct)
  case Nil
  show ?case by (simp add: save_all_def db_read_def)
next
  case (snoc e es)
  have pre: "\<forall>i < length es. entry_ok E (int i + 1) (es ! i)"
  proof (intro allI impI)
    fix i assume "i < length es"
    then show "entry_ok E (int i + 1) (es ! i)" using snoc.prems [rule_format, of i] by (simp add: nth_append)
  qed
  obtain bs where bs: "save_all E es \<lparr>bst_db = NewMemDB, bst_height = 0\<rparr> = Inr bs" "bst_height bs = int (length es)"
    "\<forall>i < length es. stored E (bst_db bs) (int i + 1) (es ! i)" "\<forall>h > int (length es). db_read (bst_db bs) (calcBlockMetaKey h) = []"
    using snoc.IH [OF pre] by blast
  obtain b ps sc where e: "e = (b, ps, sc)" by (cases e)
  have ok: "entry_ok E (bst_height bs + 1) (b, ps, sc)" using snoc.prems [rule_format, of "length es"] bs(2) e by simp
  obtain bs' where bs': "SaveBlock E bs (Some b) (Some ps) (Some sc) = Inr bs'" "bst_height bs' = bst_height bs + 1"
    and reads: "stored E (bst_db bs') (bst_height bs + 1) (b, ps, sc)" "db_read (bst_db bs') blockStoreKey = json_StoreHeight E (bst_height bs + 1)"
    and frame: "\<forall>k. k \<notin> {calcBlockMetaKey (bst_height bs + 1), calcBlockCommitKey (bst_height bs), calcSeenCommitKey (bst_height bs + 1), blockStoreKey, []} \<and>
      (\<forall>i. k \<noteq> calcBlockPartKey (bst_height bs + 1) i) \<longrightarrow> db_read (bst_db bs') k = db_read (bst_db bs) k"
    using SaveBlock_reads [OF ok refl] by (auto simp: stored_def)
  have old: "stored E (bst_db bs') h x" if "stored E (bst_db bs) h x" "h \<le> bst_height bs" for h x
    using that frame by (auto simp: stored_def)
  have "stored E (bst_db bs') (int i + 1) ((es @ [e]) ! i)" if "i < length (es @ [e])" for i
    using that old bs(2,3) reads(1) e by (cases "i = length es") (auto simp: nth_append)
  moreover have "db_read (bst_db bs') (calcBlockMetaKey h) = []" if "h > int (length (es @ [e]))" for h
    using that frame bs(2,4) by simp
  moreover have "save_all E (es @ [e]) \<lparr>bst_db = NewMemDB, bst_height = 0\<rparr> = Inr bs'" using bs(1) bs'(1) e by (simp add: save_all_def)
  ultimately show ?case using bs'(2) bs(2) reads(2) by (intro exI [of _ bs']) (simp add: add.commute)
qed

text \<open>The part set of a block's own encoding has the form asked for.\<close>

lemma MakePartSet_parts_of:
  assumes "amino_ok E" "blk_Header b \<noteq> None" "blk_Data b \<noteq> None" "blk_Commit b \<noteq> None" "0 < k"
  shows "\<exists>ps. MakePartSet E (Some b) (int k) = Inr (Some ps) \<and> parts_of E b ps"
proof -
  let ?bz = "MarshalBinary E (AmBlock b)"
  have ne: "?bz \<noteq> []" using amino_okD(3) [OF assms(1), of "AmBlock b"] assms by simp
  obtain ba where ba: "NewPartSetFromData E ?bz (int k) = Inr (data_set E k ?bz ba)" using NewPartSetFromData_eq [OF assms(5) ne] by blast
  have "chunk k ?bz i \<noteq> []" if "i < n_parts k ?bz" for i
    using n_parts_last [OF assms(5) that] assms(5) by (simp add: chunk_def)
  then have "parts_of E b (data_set E k ?bz ba)"
    using concat_all_chunks [OF assms(5), of ?bz]
    by (simp add: parts_of_def IsComplete_def data_set_def data_part_def comp_def)
  then show ?thesis using ba by (simp add: MakePartSet_def)
qed

section \<open>Property\<close>

text \<open>
  C17: the block store returns what was saved. Blocks of heights 1, 2, ... with their part sets
  and seen commits are saved without panic; afterwards each of them loads back with its meta
  record and commits, nothing loads at a greater height, and a store opened on the same database
  is the same store.
\<close>

theorem BlockStore_roundtrip:
  assumes "amino_ok E" "\<forall>h. json_StoreHeight E h \<noteq> [] \<and> json_ReadStoreHeight E (json_StoreHeight E h) = Some h"
    and "\<forall>i < length es. entry_ok E (int i + 1) (es ! i)"
  shows "\<exists>bs. save_all E es \<lparr>bst_db = NewMemDB, bst_height = 0\<rparr> = Inr bs \<and> bst_height bs = int (length es) \<and>
    (\<forall>i < length es. case es ! i of (b, ps, sc) \<Rightarrow>
       LoadBlock E bs (int i + 1) = Inr (Some b) \<and> LoadBlockMeta E bs (int i + 1) = Inr (Some (NewBlockMeta E b (Some ps))) \<and>
       LoadSeenCommit E bs (int i + 1) = Inr (Some sc) \<and>
       (Precommits (the (blk_Commit b)) \<noteq> [] \<longrightarrow> LoadBlockCommit E bs (int i) = Inr (blk_Commit b))) \<and>
    (\<forall>h > int (length es). LoadBlock E bs h = Inr None) \<and> NewBlockStore E (bst_db bs) = Inr bs"
proof -
  obtain bs where bs: "save_all E es \<lparr>bst_db = NewMemDB, bst_height = 0\<rparr> = Inr bs" "bst_height bs = int (length es)"
    "\<forall>i < length es. stored E (bst_db bs) (int i + 1) (es ! i)" "\<forall>h > int (length es). db_read (bst_db bs) (calcBlockMetaKey h) = []"
    "db_read (bst_db bs) blockStoreKey = (if es = [] then [] else json_StoreHeight E (int (length es)))"
    using save_all_spec [OF assms(3)] by blast
  have l: "case es ! i of (b, ps, sc) \<Rightarrow>
       LoadBlock E bs (int i + 1) = Inr (Some b) \<and> LoadBlockMeta E bs (int i + 1) = Inr (Some (NewBlockMeta E b (Some ps))) \<and>
       LoadSeenCommit E bs (int i + 1) = Inr (Some sc) \<and>
       (Precommits (the (blk_Commit b)) \<noteq> [] \<longrightarrow> LoadBlockCommit E bs (int i) = Inr (blk_Commit b))" if i: "i < length es" for i
  proof -
    obtain b ps sc where e: "es ! i = (b, ps, sc)" by (cases "es ! i")
    have "entry_ok E (int i + 1) (b, ps, sc)" "stored E (bst_db bs) (int i + 1) (b, ps, sc)" using assms(3) bs(3) i e by auto
    then show ?thesis using stored_loads [OF assms(1), of "int i + 1" b ps sc bs] e by simp
  qed
  have n: "LoadBlock E bs h = Inr None" if "h > int (length es)" for h using bs(4) that by (simp add: LoadBlock_def LoadBlockMeta_def)
  have "NewBlockStore E (bst_db bs) = Inr bs" using bs(2,5) assms(2) by (simp add: NewBlockStore_def LoadBlockStoreStateJSON_def Let_def)
  then show ?thesis using bs l n by blast
qed

definition demo_store_ext :: store_ext where
  "demo_store_ext = with_codec (dmc_ext.extend demo_dmc (store_ext.fields show_int (\<lambda>s. Some (read_int s))))"

theorem BlockStore_roundtrip_witness:
  "\<exists>ps bs. MakePartSet demo_store_ext (Some (demo_block [''pay''])) 7 = Inr (Some ps) \<and>
    save_all demo_store_ext [(demo_block [''pay''], ps, demo_commit ''h'')] \<lparr>bst_db = NewMemDB, bst_height = 0\<rparr> = Inr bs \<and>
    LoadBlock demo_store_ext bs 1 = Inr (Some (demo_block [''pay'']))"
proof -
  have A: "amino_ok demo_store_ext" by (simp add: demo_store_ext_def)
  have J: "\<forall>h. json_StoreHeight demo_store_ext h \<noteq> [] \<and> json_ReadStoreHeight demo_store_ext (json_StoreHeight demo_store_ext h) = Some h"
    using show_int_nonempty by (simp add: demo_store_ext_def with_codec_def dmc_ext.defs store_ext.defs)
  let ?b = "demo_block [''pay'']"
  have b: "blk_Header ?b \<noteq> None" "blk_Data ?b \<noteq> None" "blk_Commit ?b \<noteq> None" "hdr_Height (the (blk_Header ?b)) = 1"
    by (simp_all add: demo_block_def fillHeader_def zero_header_def)
  obtain ps where ps: "MakePartSet demo_store_ext (Some ?b) (int 7) = Inr (Some ps)" "parts_of demo_store_ext ?b ps"
    using MakePartSet_parts_of [OF A b(1-3), of 7] by auto
  have "entry_ok demo_store_ext 1 (?b, ps, demo_commit ''h'')" using b ps(2) by (auto simp: entry_ok_def demo_commit_def)
  then show ?thesis using BlockStore_roundtrip [OF A J, of "[(?b, ps, demo_commit ''h'')]"] ps(1) by auto
qed

end
