(* ===== verification/State_Store.thy ===== *)
theory State_Store
  imports Codec KV_Store Blocks
begin

text \<open>
  The state of the chain and its store (\<^verbatim>\<open>state/state.go\<close>, \<^verbatim>\<open>state/store.go\<close>): the genesis state,
  saving and loading the state, and the records by height of validators, consensus parameters
  and responses of the application. A record repeats the validators or parameters only
  at the heights where they changed, and otherwise points back to the last change.
\<close>

section \<open>The state\<close>

definition zero_params :: consensus_params where
  "zero_params = \<lparr>cp_BlockSize = \<lparr>bs_MaxBytes = 0, bs_MaxTxs = 0, bs_MaxGas = 0\<rparr>, cp_TxSize = \<lparr>ts_MaxBytes = 0, ts_MaxGas = 0\<rparr>,
     BlockPartSizeBytes = 0, MaxAge = 0\<rparr>"

definition zero_state :: state where
  "zero_state = \<lparr>st_ChainID = [], LastBlockHeight = 0, LastBlockTotalTx = 0, st_LastBlockID = zero_bid, LastBlockTime = zero_time,
     st_Validators = None, LastValidators = None, LastHeightValidatorsChanged = 0, st_ConsensusParams = zero_params,
     LastHeightConsensusParamsChanged = 0, st_LastResultsHash = [], st_AppHash = []\<rparr>"

definition st_Copy :: "state \<Rightarrow> state or_panic" where
  "st_Copy s = bindP (deref (st_Validators s)) (\<lambda>vs. bindP (deref (LastValidators s)) (\<lambda>lvs.
     Inr (s\<lparr>st_Validators := Some vs, LastValidators := Some lvs\<rparr>)))"

definition st_Bytes :: "'e ext_scheme \<Rightarrow> state \<Rightarrow> bytes" where
  "st_Bytes E s = MarshalBinaryBare E (AmState (exported_state s))"

definition st_Equals :: "'e ext_scheme \<Rightarrow> state \<Rightarrow> state \<Rightarrow> bool" where
  "st_Equals E s s2 \<longleftrightarrow> st_Bytes E s = st_Bytes E s2"

definition st_IsEmpty :: "state \<Rightarrow> bool" where
  "st_IsEmpty s \<longleftrightarrow> st_Validators s = None"

definition state_header :: "'e ext_scheme \<Rightarrow> state \<Rightarrow> validator_set \<Rightarrow> header \<Rightarrow> header" where
  "state_header E s vs h = h\<lparr>hdr_ChainID := st_ChainID s, hdr_TotalTxs := wrap64 (LastBlockTotalTx s + hdr_NumTxs h),
     hdr_LastBlockID := st_LastBlockID s, hdr_ValidatorsHash := vs_Hash E vs, hdr_AppHash := st_AppHash s,
     hdr_ConsensusHash := cp_Hash E (st_ConsensusParams s), hdr_LastResultsHash := st_LastResultsHash s\<rparr>"

definition st_MakeBlock ::
  "'e dmc_ext_scheme \<Rightarrow> time \<Rightarrow> state \<Rightarrow> int \<Rightarrow> tx list \<Rightarrow> commit option \<Rightarrow> (block \<times> part_set option) or_panic" where
  "st_MakeBlock E now s height txs c =
     bindP (MakeBlock E now height txs c) (\<lambda>b.
     bindP (deref (blk_Header b)) (\<lambda>h.
     bindP (deref (st_Validators s)) (\<lambda>vs.
     let b' = b\<lparr>blk_Header := Some (state_header E s vs h)\<rparr> in
     bindP (MakePartSet E (Some b') (BlockPartSizeBytes (st_ConsensusParams s))) (\<lambda>ps. Inr (b', ps)))))"

definition MakeGenesisState :: "'e ext_scheme \<Rightarrow> time \<Rightarrow> genesis_doc \<Rightarrow> (genesis_error + state) or_panic" where
  "MakeGenesisState E now genDoc =
     (case ValidateAndComplete now genDoc of
        (Some err, _) \<Rightarrow> Inr (Inl err)
      | (None, d) \<Rightarrow>
          bindP (mapP (genesis_val E) (gd_Validators d)) (\<lambda>vals.
          bindP (NewValidatorSet (Some vals)) (\<lambda>vs.
          bindP (NewValidatorSet None) (\<lambda>lvs.
          bindP (deref (gd_ConsensusParams d)) (\<lambda>params.
            Inr (Inr (zero_state\<lparr>st_ChainID := gd_ChainID d, LastBlockTime := GenesisTime d, st_Validators := Some vs,
              LastValidators := Some lvs, LastHeightValidatorsChanged := 1, st_ConsensusParams := params,
              LastHeightConsensusParamsChanged := 1, st_AppHash := gd_AppHash d\<rparr>)))))))"

section \<open>Keys and records\<close>

definition stateKey :: bytes where "stateKey = ''stateKey''"

definition calcValidatorsKey :: "int \<Rightarrow> bytes" where
  "calcValidatorsKey height = ''validatorsKey:'' @ show_int height"

definition calcConsensusParamsKey :: "int \<Rightarrow> bytes" where
  "calcConsensusParamsKey height = ''consensusParamsKey:'' @ show_int height"

definition calcABCIResponsesKey :: "int \<Rightarrow> bytes" where
  "calcABCIResponsesKey height = ''abciResponsesKey:'' @ show_int height"

definition saveValidatorsInfo :: "'e ext_scheme \<Rightarrow> mem_db \<Rightarrow> int \<Rightarrow> int \<Rightarrow> validator_set option \<Rightarrow> mem_db" where
  "saveValidatorsInfo E db nextHeight changeHeight valSet =
     mem_Set db (calcValidatorsKey nextHeight) (MarshalBinaryBare E (AmValidatorsInfo
       \<lparr>vi_ValidatorSet = (if changeHeight = nextHeight then exported_set valSet else None), vi_LastHeightChanged = changeHeight\<rparr>))"

definition loadValidatorsInfo :: "'e ext_scheme \<Rightarrow> mem_db \<Rightarrow> int \<Rightarrow> validators_info option or_panic" where
  "loadValidatorsInfo E db height =
     (let buf = db_read db (calcValidatorsKey height) in
      if length buf = 0 then Inr None
      else case UnmarshalBinaryBare E TyValidatorsInfo buf of Some (AmValidatorsInfo v) \<Rightarrow> Inr (Some v) | _ \<Rightarrow> Inl NoReturn)"

datatype store_error = ErrNoValSetForHeight int | ErrNoConsensusParamsForHeight int | ErrNoABCIResponsesForHeight int

definition LoadValidators :: "'e ext_scheme \<Rightarrow> mem_db \<Rightarrow> int \<Rightarrow> (store_error + validator_set option) or_panic" where
  "LoadValidators E db height =
     bindP (loadValidatorsInfo E db height) (\<lambda>valInfo.
       case valInfo of None \<Rightarrow> Inr (Inl (ErrNoValSetForHeight height))
       | Some v \<Rightarrow>
           if vi_ValidatorSet v = None
           then bindP (loadValidatorsInfo E db (vi_LastHeightChanged v)) (\<lambda>valInfo2.
             case valInfo2 of None \<Rightarrow> Inl (PanicSanity ''Could not find validators'')
             | Some v2 \<Rightarrow> Inr (Inr (vi_ValidatorSet v2)))
           else Inr (Inr (vi_ValidatorSet v)))"

definition saveConsensusParamsInfo :: "'e ext_scheme \<Rightarrow> mem_db \<Rightarrow> int \<Rightarrow> int \<Rightarrow> consensus_params \<Rightarrow> mem_db" where
  "saveConsensusParamsInfo E db nextHeight changeHeight params =
     mem_Set db (calcConsensusParamsKey nextHeight) (MarshalBinaryBare E (AmConsensusParamsInfo
       \<lparr>cpi_ConsensusParams = (if changeHeight = nextHeight then params else zero_params), cpi_LastHeightChanged = changeHeight\<rparr>))"

definition loadConsensusParamsInfo :: "'e ext_scheme \<Rightarrow> mem_db \<Rightarrow> int \<Rightarrow> consensus_params_info option or_panic" where
  "loadConsensusParamsInfo E db height =
     (let buf = db_read db (calcConsensusParamsKey height) in
      if length buf = 0 then Inr None
      else case UnmarshalBinaryBare E TyConsensusParamsInfo buf of Some (AmConsensusParamsInfo v) \<Rightarrow> Inr (Some v) | _ \<Rightarrow> Inl NoReturn)"

text \<open>The message of the panic in \<open>LoadConsensusParams\<close> reads a field of the nil pointer it reports.\<close>

definition LoadConsensusParams :: "'e ext_scheme \<Rightarrow> mem_db \<Rightarrow> int \<Rightarrow> (store_error + consensus_params) or_panic" where
  "LoadConsensusParams E db height =
     bindP (loadConsensusParamsInfo E db height) (\<lambda>paramsInfo.
       case paramsInfo of None \<Rightarrow> Inr (Inl (ErrNoConsensusParamsForHeight height))
       | Some v \<Rightarrow>
           if cpi_ConsensusParams v = zero_params
           then bindP (loadConsensusParamsInfo E db (cpi_LastHeightChanged v)) (\<lambda>paramsInfo2.
             case paramsInfo2 of None \<Rightarrow> Inl NilDereference
             | Some v2 \<Rightarrow> Inr (Inr (cpi_ConsensusParams v2)))
           else Inr (Inr (cpi_ConsensusParams v)))"

definition loadState :: "'e ext_scheme \<Rightarrow> mem_db \<Rightarrow> bytes \<Rightarrow> state or_panic" where
  "loadState E db key =
     (let buf = db_read db key in
      if length buf = 0 then Inr zero_state
      else case UnmarshalBinaryBare E TyState buf of Some (AmState s) \<Rightarrow> Inr s | _ \<Rightarrow> Inl NoReturn)"

definition LoadState :: "'e ext_scheme \<Rightarrow> mem_db \<Rightarrow> state or_panic" where
  "LoadState E db = loadState E db stateKey"

text \<open>\<open>saveState\<close> does not use the key it is given.\<close>

definition saveState :: "'e ext_scheme \<Rightarrow> mem_db \<Rightarrow> state \<Rightarrow> bytes \<Rightarrow> mem_db" where
  "saveState E db s key =
     (let nextHeight = wrap64 (LastBlockHeight s + 1);
          db1 = saveValidatorsInfo E db nextHeight (LastHeightValidatorsChanged s) (st_Validators s);
          db2 = saveConsensusParamsInfo E db1 nextHeight (LastHeightConsensusParamsChanged s) (st_ConsensusParams s)
      in mem_Set db2 stateKey (st_Bytes E s))"

definition SaveState :: "'e ext_scheme \<Rightarrow> mem_db \<Rightarrow> state \<Rightarrow> mem_db" where
  "SaveState E db s = saveState E db s stateKey"

definition LoadStateFromDBOrGenesisDoc ::
  "'e ext_scheme \<Rightarrow> time \<Rightarrow> mem_db \<Rightarrow> genesis_doc \<Rightarrow> ((genesis_error + state) \<times> mem_db) or_panic" where
  "LoadStateFromDBOrGenesisDoc E now db genDoc =
     bindP (LoadState E db) (\<lambda>s.
       if st_IsEmpty s
       then bindP (MakeGenesisState E now genDoc) (\<lambda>r.
         case r of Inl err \<Rightarrow> Inr (Inl err, db) | Inr s' \<Rightarrow> Inr (Inr s', SaveState E db s'))
       else Inr (Inr s, db))"

section \<open>Responses of the application\<close>

definition NewABCIResponses :: "block \<Rightarrow> abci_responses or_panic" where
  "NewABCIResponses b =
     bindP (deref (blk_Header b)) (\<lambda>h.
       if hdr_NumTxs h < 0 then Inl (PanicMsg ''makeslice: len out of range'')
       else Inr \<lparr>ar_DeliverTx = replicate (nat (hdr_NumTxs h)) None, ar_EndBlock = None, ar_GetValidatorSet = None\<rparr>)"

definition ResultsHash :: "'e ext_scheme \<Rightarrow> abci_responses \<Rightarrow> bytes or_panic" where
  "ResultsHash E arz = bindP (NewResults (ar_DeliverTx arz)) (\<lambda>results. Inr (results_Hash E results))"

definition LoadABCIResponses :: "'e ext_scheme \<Rightarrow> mem_db \<Rightarrow> int \<Rightarrow> (store_error + abci_responses) or_panic" where
  "LoadABCIResponses E db height =
     (let buf = db_read db (calcABCIResponsesKey height) in
      if length buf = 0 then Inr (Inl (ErrNoABCIResponsesForHeight height))
      else case UnmarshalBinaryBare E TyABCIResponses buf of Some (AmABCIResponses r) \<Rightarrow> Inr (Inr r) | _ \<Rightarrow> Inl NoReturn)"

definition saveABCIResponses :: "'e ext_scheme \<Rightarrow> mem_db \<Rightarrow> int \<Rightarrow> abci_responses \<Rightarrow> mem_db" where
  "saveABCIResponses E db height arz = mem_Set db (calcABCIResponsesKey height) (MarshalBinaryBare E (AmABCIResponses arz))"

section \<open>Reading back\<close>

lemma state_key_inject [simp]:
  "calcValidatorsKey h = calcValidatorsKey h' \<longleftrightarrow> h = h'" "calcConsensusParamsKey h = calcConsensusParamsKey h' \<longleftrightarrow> h = h'"
  by (simp_all add: calcValidatorsKey_def calcConsensusParamsKey_def)

lemma keys_differ [simp]:
  "calcValidatorsKey h \<noteq> calcConsensusParamsKey h'" "calcConsensusParamsKey h' \<noteq> calcValidatorsKey h"
  "calcValidatorsKey h \<noteq> stateKey" "stateKey \<noteq> calcValidatorsKey h" "calcConsensusParamsKey h \<noteq> stateKey"
  "stateKey \<noteq> calcConsensusParamsKey h" "calcABCIResponsesKey h \<noteq> stateKey" "calcABCIResponsesKey h' \<noteq> calcValidatorsKey h"
  "calcABCIResponsesKey h' \<noteq> calcConsensusParamsKey h" "stateKey \<noteq> calcABCIResponsesKey h"
  "calcValidatorsKey h \<noteq> calcABCIResponsesKey h'" "calcConsensusParamsKey h \<noteq> calcABCIResponsesKey h'"
  by (simp_all add: calcValidatorsKey_def calcConsensusParamsKey_def calcABCIResponsesKey_def stateKey_def)

lemma LoadState_SaveState:
  assumes "amino_ok E" "st_Validators s \<noteq> None"
  shows "LoadState E (SaveState E db s) = Inr (exported_state s)"
  using assms amino_okD(1,2) [OF assms(1), of "AmState (exported_state s)"]
  by (simp add: LoadState_def loadState_def SaveState_def saveState_def Let_def st_Bytes_def exported_state_def)

text \<open>The validators of a set with their keys and powers, without the accums.\<close>

definition vset_view :: "validator_set option \<Rightarrow> (address \<times> pub_key option \<times> int) list option" where
  "vset_view = map_option (\<lambda>vs. map (\<lambda>v. (v_Address v, v_PubKey v, VotingPower v)) (Validators vs))"

lemma vset_view_exported [simp]: "vset_view (exported_set vs) = vset_view vs"
  by (cases vs) (simp_all add: vset_view_def exported_set_def)

text \<open>
  \<open>points_back\<close>: in a list of states, one per height, each names the height of the last change, which
  names itself and has the same value.
\<close>

definition points_back :: "(state \<Rightarrow> int) \<Rightarrow> (state \<Rightarrow> 'v) \<Rightarrow> state list \<Rightarrow> bool" where
  "points_back changed val ss \<longleftrightarrow>
     (\<forall>i < length ss. \<exists>j \<le> i. changed (ss ! i) = int j + 1 \<and> changed (ss ! j) = int j + 1 \<and> val (ss ! j) = val (ss ! i))"

lemma points_back_snoc:
  assumes pb: "points_back changed val ss" and ne: "ss \<noteq> []"
    and s: "changed s = int (length ss) + 1 \<or> changed s = changed (last ss) \<and> val s = val (last ss)"
  shows "points_back changed val (ss @ [s])"
  unfolding points_back_def
proof (intro allI impI)
  fix i assume i: "i < length (ss @ [s])"
  show "\<exists>j \<le> i. changed ((ss @ [s]) ! i) = int j + 1 \<and> changed ((ss @ [s]) ! j) = int j + 1 \<and> val ((ss @ [s]) ! j) = val ((ss @ [s]) ! i)"
  proof (cases "i < length ss")
    case True
    then obtain j where "j \<le> i" "changed (ss ! i) = int j + 1" "changed (ss ! j) = int j + 1" "val (ss ! j) = val (ss ! i)"
      using pb unfolding points_back_def by blast
    with True show ?thesis by (intro exI [of _ j]) (simp add: nth_append)
  next
    case False
    then have i': "i = length ss" using i by simp
    show ?thesis
    proof (cases "changed s = int (length ss) + 1")
      case True
      then show ?thesis using i' by (intro exI [of _ i]) simp
    next
      case no: False
      obtain j where "j \<le> length ss - 1" "changed (ss ! (length ss - 1)) = int j + 1" "changed (ss ! j) = int j + 1"
          "val (ss ! j) = val (ss ! (length ss - 1))"
        using pb ne unfolding points_back_def by (metis diff_less length_greater_0_conv zero_less_one)
      moreover have "j < length ss" using calculation(1) ne by (cases ss) auto
      ultimately show ?thesis using no s i' by (intro exI [of _ j]) (auto simp: nth_append last_conv_nth [OF ne])
    qed
  qed
qed

definition validators_record :: "int \<Rightarrow> state \<Rightarrow> validators_info" where
  "validators_record h s = \<lparr>vi_ValidatorSet = (if LastHeightValidatorsChanged s = h then exported_set (st_Validators s) else None),
     vi_LastHeightChanged = LastHeightValidatorsChanged s\<rparr>"

definition params_record :: "int \<Rightarrow> state \<Rightarrow> consensus_params_info" where
  "params_record h s = \<lparr>cpi_ConsensusParams = (if LastHeightConsensusParamsChanged s = h then st_ConsensusParams s else zero_params),
     cpi_LastHeightChanged = LastHeightConsensusParamsChanged s\<rparr>"

text \<open>\<open>history E db ss\<close>: the database holds what saving the states \<open>ss\<close>, of heights 0, 1, ..., leaves.\<close>

definition recorded :: "'e ext_scheme \<Rightarrow> mem_db \<Rightarrow> state list \<Rightarrow> bool" where
  "recorded E db ss \<longleftrightarrow> (\<forall>h.
     db_read db (calcValidatorsKey h) =
       (if 1 \<le> h \<and> h \<le> int (length ss) then MarshalBinaryBare E (AmValidatorsInfo (validators_record h (ss ! nat (h - 1)))) else []) \<and>
     db_read db (calcConsensusParamsKey h) =
       (if 1 \<le> h \<and> h \<le> int (length ss) then MarshalBinaryBare E (AmConsensusParamsInfo (params_record h (ss ! nat (h - 1)))) else []))"

definition history :: "'e ext_scheme \<Rightarrow> mem_db \<Rightarrow> state list \<Rightarrow> bool" where
  "history E db ss \<longleftrightarrow> ss \<noteq> [] \<and> int (length ss) \<le> MaxInt64 \<and>
     (\<forall>i < length ss. LastBlockHeight (ss ! i) = int i \<and> st_Validators (ss ! i) \<noteq> None \<and> st_ConsensusParams (ss ! i) \<noteq> zero_params) \<and>
     points_back LastHeightValidatorsChanged (\<lambda>s. vset_view (st_Validators s)) ss \<and>
     points_back LastHeightConsensusParamsChanged st_ConsensusParams ss \<and>
     recorded E db ss \<and> db_read db stateKey = st_Bytes E (last ss)"

lemma recorded_save:
  assumes "recorded E db ss" "LastBlockHeight s = int (length ss)" "int (length ss) < MaxInt64"
  shows "recorded E (SaveState E db s) (ss @ [s])"
proof -
  have w: "wrap64 (int (length ss) + 1) = int (length ss) + 1" using assms(3) by (simp add: int64_defs)
  have idx: "nat (h - 1) < length ss \<longleftrightarrow> h \<le> int (length ss)" "nat (h - 1) = length ss \<longleftrightarrow> h = int (length ss) + 1" if "1 \<le> h" for h
    using that by auto
  show ?thesis
    using assms(1) unfolding recorded_def
    by (auto simp: SaveState_def saveState_def saveValidatorsInfo_def saveConsensusParamsInfo_def assms(2) w Let_def
        validators_record_def params_record_def nth_append idx)
qed

lemma history_save:
  assumes H: "history E db ss" and h: "LastBlockHeight s = int (length ss)" and small: "int (length ss) < MaxInt64"
    and s: "st_Validators s \<noteq> None" "st_ConsensusParams s \<noteq> zero_params"
    and v: "LastHeightValidatorsChanged s = int (length ss) + 1 \<or>
        LastHeightValidatorsChanged s = LastHeightValidatorsChanged (last ss) \<and> vset_view (st_Validators s) = vset_view (st_Validators (last ss))"
    and c: "LastHeightConsensusParamsChanged s = int (length ss) + 1 \<or>
        LastHeightConsensusParamsChanged s = LastHeightConsensusParamsChanged (last ss) \<and> st_ConsensusParams s = st_ConsensusParams (last ss)"
  shows "history E (SaveState E db s) (ss @ [s])"
proof -
  have ne: "ss \<noteq> []" and r: "recorded E db ss"
    and i: "\<forall>i < length ss. LastBlockHeight (ss ! i) = int i \<and> st_Validators (ss ! i) \<noteq> None \<and> st_ConsensusParams (ss ! i) \<noteq> zero_params"
    and pb: "points_back LastHeightValidatorsChanged (\<lambda>s. vset_view (st_Validators s)) ss"
      "points_back LastHeightConsensusParamsChanged st_ConsensusParams ss"
    using H by (simp_all add: history_def)
  have "db_read (SaveState E db s) stateKey = st_Bytes E s" by (simp add: SaveState_def saveState_def Let_def)
  moreover have "\<forall>i < length (ss @ [s]). LastBlockHeight ((ss @ [s]) ! i) = int i \<and> st_Validators ((ss @ [s]) ! i) \<noteq> None \<and>
      st_ConsensusParams ((ss @ [s]) ! i) \<noteq> zero_params"
    using i h s by (auto simp: nth_append less_Suc_eq)
  ultimately show ?thesis
    unfolding history_def
    using points_back_snoc [OF pb(1) ne v] points_back_snoc [OF pb(2) ne c] recorded_save [OF r h small] small by simp
qed

lemma history_first:
  assumes "\<forall>k. db_read db k = []" "LastBlockHeight s = 0" "st_Validators s \<noteq> None" "st_ConsensusParams s \<noteq> zero_params"
    and "LastHeightValidatorsChanged s = 1" "LastHeightConsensusParamsChanged s = 1"
  shows "history E (SaveState E db s) [s]"
proof -
  have "recorded E db []" using assms(1) by (auto simp: recorded_def)
  then have "recorded E (SaveState E db s) ([] @ [s])" using assms(2) by (intro recorded_save) (simp_all add: int64_defs)
  moreover have "db_read (SaveState E db s) stateKey = st_Bytes E s" by (simp add: SaveState_def saveState_def Let_def)
  ultimately show ?thesis using assms by (simp add: history_def points_back_def int64_defs)
qed

lemma history_responses: "history E db ss \<Longrightarrow> history E (saveABCIResponses E db h arz) ss"
  by (simp add: history_def recorded_def saveABCIResponses_def)

lemma load_records:
  assumes A: "amino_ok E" and H: "history E db ss" and i: "i < length ss"
  shows "loadValidatorsInfo E db (int i + 1) = Inr (Some (validators_record (int i + 1) (ss ! i)))"
    "loadConsensusParamsInfo E db (int i + 1) = Inr (Some (params_record (int i + 1) (ss ! i)))"
proof -
  have pos: "LastHeightValidatorsChanged (ss ! i) \<noteq> 0" "LastHeightConsensusParamsChanged (ss ! i) \<noteq> 0"
    using H i unfolding history_def points_back_def by fastforce+
  have r: "db_read db (calcValidatorsKey (int i + 1)) = MarshalBinaryBare E (AmValidatorsInfo (validators_record (int i + 1) (ss ! i)))"
    "db_read db (calcConsensusParamsKey (int i + 1)) = MarshalBinaryBare E (AmConsensusParamsInfo (params_record (int i + 1) (ss ! i)))"
    using H i by (simp_all add: history_def recorded_def)
  show "loadValidatorsInfo E db (int i + 1) = Inr (Some (validators_record (int i + 1) (ss ! i)))"
    using amino_okD(1,2) [OF A, of "AmValidatorsInfo (validators_record (int i + 1) (ss ! i))"] pos
    by (simp add: loadValidatorsInfo_def r Let_def validators_record_def)
  show "loadConsensusParamsInfo E db (int i + 1) = Inr (Some (params_record (int i + 1) (ss ! i)))"
    using amino_okD(1,2) [OF A, of "AmConsensusParamsInfo (params_record (int i + 1) (ss ! i))"] pos
    by (simp add: loadConsensusParamsInfo_def r Let_def params_record_def)
qed

lemma history_validators:
  assumes A: "amino_ok E" and H: "history E db ss" and i: "i < length ss"
  shows "\<exists>vs. LoadValidators E db (int i + 1) = Inr (Inr (Some vs)) \<and> vset_view (Some vs) = vset_view (st_Validators (ss ! i))"
proof -
  obtain j where j: "j \<le> i" "LastHeightValidatorsChanged (ss ! i) = int j + 1" "LastHeightValidatorsChanged (ss ! j) = int j + 1"
      "vset_view (st_Validators (ss ! j)) = vset_view (st_Validators (ss ! i))"
    using H i unfolding history_def points_back_def by blast
  then have jl: "j < length ss" using i by simp
  then obtain vs where vs: "exported_set (st_Validators (ss ! j)) = Some vs"
    using H by (metis exported_simps(2) history_def not_Some_eq)
  then have "vset_view (Some vs) = vset_view (st_Validators (ss ! i))" using j(4) by (metis vset_view_exported)
  moreover have "LoadValidators E db (int i + 1) = Inr (Inr (Some vs))"
    using j vs by (cases "j = i") (simp_all add: LoadValidators_def load_records [OF A H] i jl validators_record_def)
  ultimately show ?thesis by blast
qed

lemma history_params:
  assumes A: "amino_ok E" and H: "history E db ss" and i: "i < length ss"
  shows "LoadConsensusParams E db (int i + 1) = Inr (Inr (st_ConsensusParams (ss ! i)))"
proof -
  obtain j where j: "j \<le> i" "LastHeightConsensusParamsChanged (ss ! i) = int j + 1" "LastHeightConsensusParamsChanged (ss ! j) = int j + 1"
      "st_ConsensusParams (ss ! j) = st_ConsensusParams (ss ! i)"
    using H i unfolding history_def points_back_def by blast
  then have "j < length ss" using i by simp
  moreover have "st_ConsensusParams (ss ! i) \<noteq> zero_params" using H i by (simp add: history_def)
  ultimately show ?thesis
    using j by (cases "j = i") (simp_all add: LoadConsensusParams_def load_records [OF A H] i params_record_def)
qed

lemma history_state:
  assumes A: "amino_ok E" and H: "history E db ss"
  shows "LoadState E db = Inr (exported_state (last ss))"
proof -
  have "st_Validators (last ss) \<noteq> None" "db_read db stateKey = st_Bytes E (last ss)"
    using H by (simp_all add: history_def last_conv_nth)
  then show ?thesis
    using amino_okD(1,2) [OF A, of "AmState (exported_state (last ss))"]
    by (simp add: LoadState_def loadState_def Let_def st_Bytes_def exported_state_def)
qed

lemma history_beyond:
  assumes "history E db ss" "int (length ss) < h"
  shows "LoadValidators E db h = Inr (Inl (ErrNoValSetForHeight h))" "LoadConsensusParams E db h = Inr (Inl (ErrNoConsensusParamsForHeight h))"
  using assms by (simp_all add: history_def recorded_def LoadValidators_def loadValidatorsInfo_def LoadConsensusParams_def loadConsensusParamsInfo_def)

end
