(* ===== verification/Mempool.thy ===== *)
theory Mempool
  imports Blocks Chain_Params "HOL-Library.Sublist"
begin

text \<open>
  The application connection of \<^verbatim>\<open>proxy/app_conn.go\<close> as the record \<open>app_conn\<close> of functions on a state
  \<open>'a\<close> (the connection with the application behind it), which is a parameter of everything that calls
  the application; and \<^verbatim>\<open>mempool/mempool.go\<close>. As with \<^verbatim>\<open>abci/client/local_client.go\<close>, the
  response to a request is handed to the callback before the request returns.
\<close>

section \<open>The application connection\<close>

type_synonym conn_error = string

record response_check_tx =
  rct_Code :: int
  rct_BucketIDs :: "bytes list"

record signing_validator =
  sv_Validator :: abci_validator
  SignedLastBlock :: bool

record 'a app_conn =
  conn_Error :: "'a \<Rightarrow> conn_error option"
  conn_FlushSync :: "'a \<Rightarrow> (conn_error option \<times> 'a) or_panic"
  conn_CheckTx :: "'a \<Rightarrow> tx \<Rightarrow> int \<Rightarrow> (response_check_tx \<times> 'a) or_panic"
  conn_BeginBlock :: "'a \<Rightarrow> bytes \<Rightarrow> abci_header \<Rightarrow> signing_validator list \<Rightarrow> (conn_error option \<times> 'a) or_panic"
  conn_DeliverTx :: "'a \<Rightarrow> tx \<Rightarrow> int \<Rightarrow> (response_deliver_tx \<times> 'a) or_panic"
  conn_DeliverBucketedTx :: "'a \<Rightarrow> tx \<Rightarrow> int \<Rightarrow> bytes \<Rightarrow> 'a or_panic"
  conn_EndBlock :: "'a \<Rightarrow> ((conn_error + response_end_block) \<times> 'a) or_panic"
  conn_GetValidatorSet :: "'a \<Rightarrow> int \<Rightarrow> ((conn_error + response_get_validator_set) \<times> 'a) or_panic"
  conn_Commit :: "'a \<Rightarrow> ((conn_error + bytes) \<times> 'a) or_panic"

definition CodeTypeOK :: int where "CodeTypeOK = 0"

section \<open>The cache of seen transactions\<close>

record map_tx_cache =
  tc_size :: int
  tc_map :: "tx list"
  tc_list :: "tx list"

text \<open>The map is a set of keys, kept as a list; a \<open>None\<close> cache is \<open>nopTxCache\<close>.\<close>

definition newMapTxCache :: "int \<Rightarrow> map_tx_cache" where
  "newMapTxCache cacheSize = \<lparr>tc_size = cacheSize, tc_map = [], tc_list = []\<rparr>"

definition tc_Reset :: "map_tx_cache \<Rightarrow> map_tx_cache" where
  "tc_Reset c = c\<lparr>tc_map := [], tc_list := []\<rparr>"

definition tc_Push :: "map_tx_cache \<Rightarrow> tx \<Rightarrow> (bool \<times> map_tx_cache) or_panic" where
  "tc_Push c t =
     (if t \<in> set (tc_map c) then Inr (False, c)
      else
        bindP (if int (length (tc_list c)) \<ge> tc_size c then
            (case tc_list c of [] \<Rightarrow> Inl NilDereference
             | popped # rest \<Rightarrow> Inr (c\<lparr>tc_map := removeAll popped (tc_map c), tc_list := rest\<rparr>))
          else Inr c) (\<lambda>c1.
          Inr (True, c1\<lparr>tc_map := t # tc_map c1, tc_list := tc_list c1 @ [t]\<rparr>)))"

definition tc_Remove :: "map_tx_cache \<Rightarrow> tx \<Rightarrow> map_tx_cache" where
  "tc_Remove c t = c\<lparr>tc_map := removeAll t (tc_map c)\<rparr>"

definition cache_Push :: "map_tx_cache option \<Rightarrow> tx \<Rightarrow> (bool \<times> map_tx_cache option) or_panic" where
  "cache_Push c t = (case c of None \<Rightarrow> Inr (True, None) | Some m \<Rightarrow> bindP (tc_Push m t) (\<lambda>(b, m'). Inr (b, Some m')))"

section \<open>The mempool\<close>

text \<open>
  The linked list is a HOL list; \<open>mt_elem\<close> is the address of the list element that holds a transaction, and
  \<open>mp_elems\<close> the number of elements allocated so far. The cursors of a recheck are such addresses. The channel
  \<open>txsAvailable\<close> has room for one height. Of the blockchain reactor, which may be nil, the mempool uses the map
  from bucket ids to requesters, of which the height is kept. \<open>mp_wal\<close> is what was written to the log since it
  was opened; opening it succeeds.
\<close>

record mempool_tx =
  mt_elem :: nat
  mt_counter :: int
  mt_height :: int
  mt_tx :: tx

record mempool =
  mp_Size :: int
  mp_Recheck :: bool
  mp_RecheckEmpty :: bool
  mp_txs :: "mempool_tx list"
  mp_elems :: nat
  mp_counter :: int
  mp_height :: int
  mp_rechecking :: bool
  mp_recheckCursor :: "nat option"
  mp_recheckEnd :: "nat option"
  mp_notified :: bool
  mp_txsAvailable :: "int option option"
  mp_cache :: "map_tx_cache option"
  mp_wal :: "tx list option"
  mp_BCReactor :: "(bytes \<rightharpoonup> int) option"

definition NewMempool :: "int \<Rightarrow> int \<Rightarrow> bool \<Rightarrow> bool \<Rightarrow> int \<Rightarrow> mempool" where
  "NewMempool sz cacheSize recheck recheckEmpty height =
     \<lparr>mp_Size = sz, mp_Recheck = recheck, mp_RecheckEmpty = recheckEmpty, mp_txs = [], mp_elems = 0, mp_counter = 0, mp_height = height,
      mp_rechecking = False, mp_recheckCursor = None, mp_recheckEnd = None, mp_notified = False, mp_txsAvailable = None,
      mp_cache = (if cacheSize > 0 then Some (newMapTxCache cacheSize) else None), mp_wal = None, mp_BCReactor = None\<rparr>"

definition EnableTxsAvailable :: "mempool \<Rightarrow> mempool" where
  "EnableTxsAvailable mem = mem\<lparr>mp_txsAvailable := Some None\<rparr>"

definition InitWAL :: "bytes \<Rightarrow> mempool \<Rightarrow> mempool" where
  "InitWAL walDir mem = (if walDir \<noteq> [] then mem\<lparr>mp_wal := Some []\<rparr> else mem)"

text \<open>The mempool of a node: \<^verbatim>\<open>node/node.go\<close> gives it the reactor, and the channel if consensus waits for transactions.\<close>

definition node_mempool :: "int \<Rightarrow> int \<Rightarrow> bool \<Rightarrow> bool \<Rightarrow> int \<Rightarrow> bytes \<Rightarrow> bool \<Rightarrow> mempool" where
  "node_mempool sz cacheSize recheck recheckEmpty height walDir waitForTxs =
     (let mem = (InitWAL walDir (NewMempool sz cacheSize recheck recheckEmpty height))\<lparr>mp_BCReactor := Some Map.empty\<rparr>
      in if waitForTxs then EnableTxsAvailable mem else mem)"

definition mp_Flush :: "mempool \<Rightarrow> mempool" where
  "mp_Flush mem = mem\<lparr>mp_cache := map_option tc_Reset (mp_cache mem), mp_txs := []\<rparr>"

definition notifyTxsAvailable :: "mempool \<Rightarrow> mempool or_panic" where
  "notifyTxsAvailable mem =
     (if length (mp_txs mem) = 0 then Inl (PanicMsg ''notified txs available but mempool is empty!'')
      else case mp_txsAvailable mem of
        None \<Rightarrow> Inr mem
      | Some ch \<Rightarrow>
          if mp_notified mem then Inr mem
          else Inr (mem\<lparr>mp_txsAvailable := Some (case ch of None \<Rightarrow> Some (wrap64 (mp_height mem + 1)) | Some h \<Rightarrow> Some h), mp_notified := True\<rparr>))"

definition resCbNormal :: "tx \<Rightarrow> response_check_tx \<Rightarrow> mempool \<Rightarrow> mempool or_panic" where
  "resCbNormal t r mem =
     (if rct_Code r = CodeTypeOK then
        notifyTxsAvailable (mem\<lparr>mp_counter := wrap64 (mp_counter mem + 1), mp_elems := Suc (mp_elems mem),
          mp_txs := mp_txs mem @ [\<lparr>mt_elem = mp_elems mem, mt_counter = wrap64 (mp_counter mem + 1), mt_height = mp_height mem, mt_tx = t\<rparr>]\<rparr>)
      else Inr (mem\<lparr>mp_cache := map_option (\<lambda>c. tc_Remove c t) (mp_cache mem)\<rparr>))"

definition next_element :: "nat \<Rightarrow> mempool_tx list \<Rightarrow> nat option" where
  "next_element c txs = (case dropWhile (\<lambda>t. mt_elem t \<noteq> c) txs of _ # t # _ \<Rightarrow> Some (mt_elem t) | _ \<Rightarrow> None)"

definition resCbRecheck :: "nat \<Rightarrow> tx \<Rightarrow> response_check_tx \<Rightarrow> mempool \<Rightarrow> mempool or_panic" where
  "resCbRecheck cursor t r mem =
     bindP (deref (find (\<lambda>m. mt_elem m = cursor) (mp_txs mem))) (\<lambda>memTx.
     if t \<noteq> mt_tx memTx then Inl (PanicSanity ''Unexpected tx response from proxy during recheck'')
     else
       let mem1 = (if rct_Code r = CodeTypeOK then mem
             else mem\<lparr>mp_txs := filter (\<lambda>m. mt_elem m \<noteq> cursor) (mp_txs mem),
               mp_cache := map_option (\<lambda>c. tc_Remove c t) (mp_cache mem)\<rparr>);
           mem2 = mem1\<lparr>mp_recheckCursor := (if Some cursor = mp_recheckEnd mem then None else next_element cursor (mp_txs mem))\<rparr>
       in if mp_recheckCursor mem2 = None then
            let mem3 = mem2\<lparr>mp_rechecking := False\<rparr> in
            if length (mp_txs mem3) > 0 then notifyTxsAvailable mem3 else Inr mem3
          else Inr mem2)"

definition resCb :: "tx \<Rightarrow> response_check_tx \<Rightarrow> mempool \<Rightarrow> mempool or_panic" where
  "resCb t r mem = (case mp_recheckCursor mem of None \<Rightarrow> resCbNormal t r mem | Some c \<Rightarrow> resCbRecheck c t r mem)"

datatype mempool_error = ErrMempoolIsFull | ErrTxInCache | ErrConn conn_error

text \<open>If the answer names buckets, a requester for the first is entered in the pool of the reactor.\<close>

definition start_requester :: "bytes list \<Rightarrow> mempool \<Rightarrow> mempool or_panic" where
  "start_requester bucketIDs mem =
     (case bucketIDs of [] \<Rightarrow> Inr mem
      | b # _ \<Rightarrow> bindP (deref (mp_BCReactor mem)) (\<lambda>m. Inr (mem\<lparr>mp_BCReactor := Some (m(b \<mapsto> mp_height mem))\<rparr>)))"

definition mp_CheckTx :: "'a app_conn \<Rightarrow> 'a \<Rightarrow> mempool \<Rightarrow> tx \<Rightarrow> (mempool_error option \<times> mempool \<times> 'a) or_panic" where
  "mp_CheckTx A app mem t =
     (if int (length (mp_txs mem)) \<ge> mp_Size mem then Inr (Some ErrMempoolIsFull, mem, app)
      else
        bindP (cache_Push (mp_cache mem) t) (\<lambda>(fresh, cache).
        if \<not> fresh then Inr (Some ErrTxInCache, mem, app)
        else
          let mem1 = mem\<lparr>mp_cache := cache, mp_wal := map_option (\<lambda>w. w @ [t]) (mp_wal mem)\<rparr> in
          case conn_Error A app of Some e \<Rightarrow> Inr (Some (ErrConn e), mem1, app)
          | None \<Rightarrow>
              bindP (conn_CheckTx A app t (wrap64 (mp_height mem1 + 1))) (\<lambda>(r, app1).
              bindP (resCb t r mem1) (\<lambda>mem2.
              bindP (start_requester (rct_BucketIDs r) mem2) (\<lambda>mem3.
                Inr (None, mem3, app1))))))"

definition collectTxs :: "mempool \<Rightarrow> int \<Rightarrow> tx list" where
  "collectTxs mem maxTxs =
     (if maxTxs = 0 then []
      else map mt_tx (take (nat (if maxTxs < 0 then int (length (mp_txs mem)) else maxTxs)) (mp_txs mem)))"

text \<open>\<open>Reap\<close> waits for a recheck to end; with a local client none is under way.\<close>

definition mp_Reap :: "mempool \<Rightarrow> int \<Rightarrow> tx list or_panic" where
  "mp_Reap mem maxTxs = (if mp_rechecking mem then Inl NoReturn else Inr (collectTxs mem maxTxs))"

definition filterTxs :: "tx set \<Rightarrow> mempool \<Rightarrow> tx list \<times> mempool" where
  "filterTxs blockTxs mem =
     (let good = filter (\<lambda>m. mt_tx m \<notin> blockTxs) (mp_txs mem) in (map mt_tx good, mem\<lparr>mp_txs := good\<rparr>))"

definition recheckTxs :: "'a app_conn \<Rightarrow> tx list \<Rightarrow> mempool \<times> 'a \<Rightarrow> (mempool \<times> 'a) or_panic" where
  "recheckTxs A goodTxs = (\<lambda>(mem, app).
     if length goodTxs = 0 then Inr (mem, app)
     else
       let mem1 = mem\<lparr>mp_rechecking := True,
             mp_recheckCursor := (case mp_txs mem of [] \<Rightarrow> None | t # _ \<Rightarrow> Some (mt_elem t)),
             mp_recheckEnd := (if mp_txs mem = [] then None else Some (mt_elem (last (mp_txs mem))))\<rparr> in
       foldP (\<lambda>t (m, a). bindP (conn_CheckTx A a t (wrap64 (mp_height m + 1))) (\<lambda>(r, a'). bindP (resCb t r m) (\<lambda>m'. Inr (m', a'))))
         goodTxs (mem1, app))"

definition mp_Update :: "'a app_conn \<Rightarrow> 'a \<Rightarrow> mempool \<Rightarrow> int \<Rightarrow> tx_bucket list \<Rightarrow> (mempool \<times> 'a) or_panic" where
  "mp_Update A app mem height txBuckets =
     (let txsMap = (\<Union>b \<in> set txBuckets. set (Txs b));
          mem1 = mem\<lparr>mp_height := height, mp_notified := False\<rparr>;
          (goodTxs, mem2) = filterTxs txsMap mem1
      in if mp_Recheck mem2 \<and> (mp_RecheckEmpty mem2 \<or> length goodTxs > 0) then recheckTxs A goodTxs (mem2, app)
         else Inr (mem2, app))"

section \<open>The invariant\<close>

definition counted :: "mempool_tx list \<Rightarrow> bool" where
  "counted txs \<longleftrightarrow> sorted_wrt (\<lambda>a b. mt_elem a < mt_elem b) txs"

definition mp_inv :: "mempool \<Rightarrow> bool" where
  "mp_inv mem \<longleftrightarrow> counted (mp_txs mem) \<and> (\<forall>t \<in> set (mp_txs mem). mt_elem t < mp_elems mem) \<and>
     mp_recheckCursor mem = None \<and> \<not> mp_rechecking mem \<and> int (length (mp_txs mem)) \<le> max 0 (mp_Size mem) \<and>
     (\<forall>c. mp_cache mem = Some c \<longrightarrow> 0 < tc_size c)"

text \<open>What never changes once the node runs.\<close>

definition same_pool :: "mempool \<Rightarrow> mempool \<Rightarrow> bool" where
  "same_pool mem mem' \<longleftrightarrow> mp_Size mem' = mp_Size mem \<and> mp_Recheck mem' = mp_Recheck mem \<and>
     (mp_BCReactor mem' = None \<longleftrightarrow> mp_BCReactor mem = None) \<and> (mp_txsAvailable mem' = None \<longleftrightarrow> mp_txsAvailable mem = None)"

lemma same_pool_refl [simp]: "same_pool mem mem"
  by (simp add: same_pool_def)

lemma same_pool_trans: "same_pool a b \<Longrightarrow> same_pool b c \<Longrightarrow> same_pool a c"
  by (simp add: same_pool_def)

text \<open>The channel after a notification: an earlier height that was not received stays.\<close>

definition announced :: "mempool \<Rightarrow> int option option" where
  "announced mem = (case mp_txsAvailable mem of None \<Rightarrow> None
     | Some ch \<Rightarrow> if mp_notified mem then Some ch else Some (Some (case ch of None \<Rightarrow> wrap64 (mp_height mem + 1) | Some h \<Rightarrow> h)))"

lemma announced_None [simp]: "announced mem = None \<longleftrightarrow> mp_txsAvailable mem = None"
  by (simp add: announced_def split: option.split)

lemma announced_frame [simp]:
  "announced (mem\<lparr>mp_txs := ts\<rparr>) = announced mem" "announced (mem\<lparr>mp_cache := c\<rparr>) = announced mem"
  "announced (mem\<lparr>mp_recheckCursor := k\<rparr>) = announced mem" "announced (mem\<lparr>mp_rechecking := b\<rparr>) = announced mem"
  "announced (mem\<lparr>mp_recheckEnd := k\<rparr>) = announced mem"
  by (simp_all add: announced_def split: option.split)

lemma notify_eq:
  assumes "mp_txs mem \<noteq> []"
  shows "notifyTxsAvailable mem = Inr (mem\<lparr>mp_txsAvailable := announced mem, mp_notified := mp_notified mem \<or> mp_txsAvailable mem \<noteq> None\<rparr>)"
  using assms by (cases mem) (auto simp: notifyTxsAvailable_def announced_def split: option.split)

lemma counted_split:
  assumes "counted (ks @ t # ts)"
  shows "find (\<lambda>m. mt_elem m = mt_elem t) (ks @ t # ts) = Some t"
    "filter (\<lambda>m. mt_elem m \<noteq> mt_elem t) (ks @ t # ts) = ks @ ts"
    "next_element (mt_elem t) (ks @ t # ts) = (case ts of [] \<Rightarrow> None | u # _ \<Rightarrow> Some (mt_elem u))"
proof -
  have k: "\<forall>m \<in> set ks. mt_elem m \<noteq> mt_elem t" and r: "\<forall>m \<in> set ts. mt_elem m \<noteq> mt_elem t"
    using assms by (fastforce simp: counted_def sorted_wrt_append)+
  then have "find (\<lambda>m. mt_elem m = mt_elem t) (ks @ t # ts) = Some t" by (induction ks) auto
  then show "find (\<lambda>m. mt_elem m = mt_elem t) (ks @ t # ts) = Some t" .
  show "filter (\<lambda>m. mt_elem m \<noteq> mt_elem t) (ks @ t # ts) = ks @ ts" using k r by (simp add: filter_id_conv)
  have "dropWhile (\<lambda>m. mt_elem m \<noteq> mt_elem t) (ks @ t # ts) = t # ts" using k by (induction ks) auto
  then show "next_element (mt_elem t) (ks @ t # ts) = (case ts of [] \<Rightarrow> None | u # _ \<Rightarrow> Some (mt_elem u))"
    by (simp add: next_element_def split: list.splits)
qed

section \<open>Rechecking\<close>

text \<open>What a recheck is to do: ask about each transaction in turn and keep the accepted ones.\<close>

fun recheck_spec :: "'a app_conn \<Rightarrow> int \<Rightarrow> mempool_tx list \<Rightarrow> 'a \<Rightarrow> (mempool_tx list \<times> 'a) or_panic" where
  "recheck_spec A h [] app = Inr ([], app)"
| "recheck_spec A h (t # ts) app =
     bindP (conn_CheckTx A app (mt_tx t) h) (\<lambda>(r, app1).
     bindP (recheck_spec A h ts app1) (\<lambda>(ks, app2).
       Inr (if rct_Code r = CodeTypeOK then t # ks else ks, app2)))"

lemma recheck_spec_set: "recheck_spec A h ts app = Inr (ks, app') \<Longrightarrow> set ks \<subseteq> set ts \<and> length ks \<le> length ts \<and> (counted ts \<longrightarrow> counted ks)"
proof (induction ts arbitrary: app ks)
  case (Cons t ts)
  then obtain r app1 k1 where r: "conn_CheckTx A app (mt_tx t) h = Inr (r, app1)" "recheck_spec A h ts app1 = Inr (k1, app')"
      "ks = (if rct_Code r = CodeTypeOK then t # k1 else k1)"
    by (auto simp: bindP_eq_Inr)
  have "set k1 \<subseteq> set ts" "length k1 \<le> length ts" "counted ts \<longrightarrow> counted k1" using Cons.IH [OF r(2)] by auto
  then show ?case using r(3) by (auto simp: counted_def)
qed simp

abbreviation recheck_one :: "'a app_conn \<Rightarrow> tx \<Rightarrow> mempool \<times> 'a \<Rightarrow> (mempool \<times> 'a) or_panic" where
  "recheck_one A \<equiv> (\<lambda>t (m, a). bindP (conn_CheckTx A a t (wrap64 (mp_height m + 1))) (\<lambda>(r, a'). bindP (resCb t r m) (\<lambda>m'. Inr (m', a'))))"

text \<open>A mempool after a recheck that leaves \<open>txs\<close>, with the cache \<open>c\<close>.\<close>

definition rechecked :: "mempool_tx list \<Rightarrow> map_tx_cache option \<Rightarrow> mempool \<Rightarrow> mempool" where
  "rechecked txs c mem = mem\<lparr>mp_txs := txs, mp_recheckCursor := None, mp_rechecking := False, mp_cache := c,
     mp_txsAvailable := (if txs = [] then mp_txsAvailable mem else announced mem),
     mp_notified := mp_notified mem \<or> txs \<noteq> [] \<and> mp_txsAvailable mem \<noteq> None\<rparr>"

lemma finish_recheck:
  assumes "mp_recheckCursor mem = None" "\<not> mp_rechecking mem"
  shows "(if length (mp_txs mem) > 0 then notifyTxsAvailable mem else Inr mem) = Inr (rechecked (mp_txs mem) (mp_cache mem) mem)"
  using assms by (cases mem) (auto simp: rechecked_def notify_eq announced_def)

lemma recheck_loop:
  assumes "counted (ks @ t # ts)" "mp_txs mem = ks @ t # ts" "mp_recheckCursor mem = Some (mt_elem t)"
    and "mp_recheckEnd mem = Some (mt_elem (last (t # ts)))" "mp_height mem = h"
    and "recheck_spec A (wrap64 (h + 1)) (t # ts) app = Inr (ks', app')"
  shows "\<exists>c. foldP (recheck_one A) (map mt_tx (t # ts)) (mem, app) = Inr (rechecked (ks @ ks') c mem, app') \<and>
    (\<forall>x. c = Some x \<longrightarrow> (\<exists>y. mp_cache mem = Some y \<and> tc_size x = tc_size y))"
  using assms
proof (induction ts arbitrary: ks t mem app ks')
  case Nil
  obtain r where r: "conn_CheckTx A app (mt_tx t) (wrap64 (h + 1)) = Inr (r, app')" "ks' = (if rct_Code r = CodeTypeOK then [t] else [])"
    using Nil.prems(6) by (auto simp: bindP_eq_Inr)
  let ?m1 = "(if rct_Code r = CodeTypeOK then mem else mem\<lparr>mp_txs := ks, mp_cache := map_option (\<lambda>c. tc_Remove c (mt_tx t)) (mp_cache mem)\<rparr>)"
  let ?m3 = "?m1\<lparr>mp_recheckCursor := None, mp_rechecking := False\<rparr>"
  have "resCb (mt_tx t) r mem = (if length (mp_txs ?m3) > 0 then notifyTxsAvailable ?m3 else Inr ?m3)"
    using counted_split [OF Nil.prems(1)] Nil.prems(2-4) by (simp add: resCb_def resCbRecheck_def Let_def)
  then have cb: "resCb (mt_tx t) r mem = Inr (rechecked (mp_txs ?m3) (mp_cache ?m3) ?m3)" using finish_recheck [of ?m3] by simp
  have "rechecked (mp_txs ?m3) (mp_cache ?m3) ?m3 = rechecked (ks @ ks') (mp_cache ?m1) mem"
    using Nil.prems(2) r(2) by (simp add: rechecked_def)
  then show ?case using r(1) Nil.prems(5) cb by (intro exI [of _ "mp_cache ?m1"]) (auto simp: tc_Remove_def)
next
  case (Cons u ts)
  obtain r app1 k1 where r: "conn_CheckTx A app (mt_tx t) (wrap64 (h + 1)) = Inr (r, app1)" "recheck_spec A (wrap64 (h + 1)) (u # ts) app1 = Inr (k1, app')"
      "ks' = (if rct_Code r = CodeTypeOK then t # k1 else k1)"
    using Cons.prems(6) unfolding recheck_spec.simps(2) [of A "wrap64 (h + 1)" t "u # ts"] by (auto simp: bindP_eq_Inr simp del: recheck_spec.simps)
  let ?ks = "if rct_Code r = CodeTypeOK then ks @ [t] else ks"
  let ?m1 = "(if rct_Code r = CodeTypeOK then mem else mem\<lparr>mp_txs := ks @ u # ts, mp_cache := map_option (\<lambda>c. tc_Remove c (mt_tx t)) (mp_cache mem)\<rparr>)
      \<lparr>mp_recheckCursor := Some (mt_elem u)\<rparr>"
  have ne: "mt_elem t \<noteq> mt_elem (last (u # ts))"
    using Cons.prems(1) last_in_set [of "u # ts"] by (fastforce simp: counted_def sorted_wrt_append)
  have cb: "resCb (mt_tx t) r mem = Inr ?m1"
    using counted_split [OF Cons.prems(1)] Cons.prems(2-4) ne by (simp add: resCb_def resCbRecheck_def Let_def)
  have c1: "counted (?ks @ u # ts)" using Cons.prems(1) by (auto simp: counted_def sorted_wrt_append)
  have m1: "mp_txs ?m1 = ?ks @ u # ts" "mp_recheckCursor ?m1 = Some (mt_elem u)" "mp_recheckEnd ?m1 = Some (mt_elem (last (u # ts)))" "mp_height ?m1 = h"
    using Cons.prems(2,4,5) by simp_all
  have step: "foldP (recheck_one A) (map mt_tx (t # u # ts)) (mem, app) = foldP (recheck_one A) (map mt_tx (u # ts)) (?m1, app1)"
    using r(1) cb Cons.prems(5) by simp
  obtain c where i: "foldP (recheck_one A) (map mt_tx (u # ts)) (?m1, app1) = Inr (rechecked (?ks @ k1) c ?m1, app')"
    "\<forall>x. c = Some x \<longrightarrow> (\<exists>y. mp_cache ?m1 = Some y \<and> tc_size x = tc_size y)"
    using Cons.IH [OF c1 m1 r(2)] by blast
  have "rechecked (?ks @ k1) c ?m1 = rechecked (ks @ ks') c mem" using r(3) by (simp add: rechecked_def)
  then show ?case unfolding step i(1) using i(2) by (intro exI [of _ c]) (auto simp: tc_Remove_def split: if_splits)
qed

lemma counted_filter: "counted ts \<Longrightarrow> counted (filter P ts)"
  by (simp add: counted_def sorted_wrt_filter)

text \<open>\<open>Update\<close> with rechecking: the state it leaves, whatever the application answers.\<close>

lemma Update_rechecks:
  assumes i: "mp_inv mem" and good: "good = filter (\<lambda>m. mt_tx m \<notin> (\<Union>b \<in> set buckets. set (Txs b))) (mp_txs mem)"
    and s: "mp_Recheck mem" "recheck_spec A (wrap64 (height + 1)) good app = Inr (ks, app')"
  shows "\<exists>mem'. mp_Update A app mem height buckets = Inr (mem', app') \<and> mp_txs mem' = ks \<and> mp_height mem' = height \<and> mp_inv mem' \<and>
    same_pool mem mem' \<and> (mp_notified mem' \<longleftrightarrow> ks \<noteq> [] \<and> mp_txsAvailable mem \<noteq> None) \<and>
    mp_txsAvailable mem' = (if ks = [] then mp_txsAvailable mem else announced (mem\<lparr>mp_height := height, mp_notified := False\<rparr>))"
proof -
  let ?m2 = "mem\<lparr>mp_height := height, mp_notified := False, mp_txs := good\<rparr>"
  have f: "filterTxs (\<Union>b \<in> set buckets. set (Txs b)) (mem\<lparr>mp_height := height, mp_notified := False\<rparr>) = (map mt_tx good, ?m2)"
    by (simp add: filterTxs_def good Let_def)
  have cg: "counted good" using i by (simp add: good counted_filter mp_inv_def)
  have sub: "set good \<subseteq> set (mp_txs mem)" "length good \<le> length (mp_txs mem)" by (auto simp: good)
  show ?thesis
  proof (cases good)
    case Nil
    then have "ks = []" "app' = app" using s(2) by auto
    moreover have "mp_Update A app mem height buckets = Inr (?m2, app)"
      using Nil s(1) by (simp add: mp_Update_def Let_def f recheckTxs_def)
    ultimately show ?thesis using i Nil by (intro exI [of _ ?m2]) (simp add: mp_inv_def counted_def same_pool_def)
  next
    case (Cons t ts)
    let ?m3 = "?m2\<lparr>mp_rechecking := True, mp_recheckCursor := Some (mt_elem t), mp_recheckEnd := Some (mt_elem (last (t # ts)))\<rparr>"
    have u: "mp_Update A app mem height buckets = foldP (recheck_one A) (map mt_tx (t # ts)) (?m3, app)"
      using Cons s(1) by (simp add: mp_Update_def Let_def f recheckTxs_def)
    obtain c where l: "foldP (recheck_one A) (map mt_tx (t # ts)) (?m3, app) = Inr (rechecked ([] @ ks) c ?m3, app')"
        "\<forall>x. c = Some x \<longrightarrow> (\<exists>y. mp_cache ?m3 = Some y \<and> tc_size x = tc_size y)"
      using recheck_loop [of "[]" t ts ?m3 height A app ks app'] Cons cg s(2) by auto
    have k: "set ks \<subseteq> set good" "length ks \<le> length good" "counted ks" using recheck_spec_set [OF s(2)] cg by auto
    have "mp_inv (rechecked ks c ?m3)" using i k sub l(2) by (fastforce simp: mp_inv_def rechecked_def)
    then show ?thesis using u l(1) by (intro exI [of _ "rechecked ks c ?m3"]) (simp add: rechecked_def same_pool_def)
  qed
qed

section \<open>Running the mempool\<close>

text \<open>An application that answers every \<open>CheckTx\<close>; it may change its state and reject at will.\<close>

definition answers :: "'a app_conn \<Rightarrow> bool" where
  "answers A \<longleftrightarrow> (\<forall>app t h. \<exists>r. conn_CheckTx A app t h = Inr r)"

lemma tc_Push_size:
  assumes "0 < tc_size c"
  shows "\<exists>b c'. tc_Push c t = Inr (b, c') \<and> tc_size c' = tc_size c"
  using assms by (cases "tc_list c") (auto simp: tc_Push_def)

lemma resCb_inv:
  assumes i: "mp_inv mem" and room: "int (length (mp_txs mem)) < mp_Size mem"
  shows "\<exists>m. resCb t r mem = Inr m \<and> mp_inv m \<and> same_pool mem m"
proof (cases "rct_Code r = CodeTypeOK")
  case False
  then show ?thesis using i by (auto simp: resCb_def resCbNormal_def mp_inv_def tc_Remove_def same_pool_def)
next
  case True
  let ?m = "mem\<lparr>mp_counter := wrap64 (mp_counter mem + 1), mp_elems := Suc (mp_elems mem),
      mp_txs := mp_txs mem @ [\<lparr>mt_elem = mp_elems mem, mt_counter = wrap64 (mp_counter mem + 1), mt_height = mp_height mem, mt_tx = t\<rparr>]\<rparr>"
  let ?n = "?m\<lparr>mp_txsAvailable := announced ?m, mp_notified := mp_notified ?m \<or> mp_txsAvailable ?m \<noteq> None\<rparr>"
  have "counted (mp_txs ?m)" using i by (fastforce simp: mp_inv_def counted_def sorted_wrt_append)
  then have "mp_inv ?n" using i room by (fastforce simp: mp_inv_def)
  moreover have "resCb t r mem = Inr ?n" using True i notify_eq [of ?m] by (simp add: resCb_def resCbNormal_def mp_inv_def)
  ultimately show ?thesis by (auto simp: same_pool_def)
qed

lemma cache_Push_inv:
  assumes "mp_inv mem"
  shows "\<exists>b c. cache_Push (mp_cache mem) t = Inr (b, c) \<and> (\<forall>x. c = Some x \<longrightarrow> 0 < tc_size x)"
proof (cases "mp_cache mem")
  case (Some m)
  then have "0 < tc_size m" using assms by (simp add: mp_inv_def)
  then show ?thesis using tc_Push_size [of m t] Some by (auto simp: cache_Push_def)
qed (auto simp: cache_Push_def)

lemma CheckTx_inv:
  assumes i: "mp_inv mem" and A: "answers A" and R: "mp_BCReactor mem \<noteq> None"
  shows "\<exists>e mem' app'. mp_CheckTx A app mem t = Inr (e, mem', app') \<and> mp_inv mem' \<and> same_pool mem mem'"
proof (cases "int (length (mp_txs mem)) \<ge> mp_Size mem")
  case True
  then show ?thesis using i by (simp add: mp_CheckTx_def)
next
  case room: False
  obtain b c where c: "cache_Push (mp_cache mem) t = Inr (b, c)" "\<forall>x. c = Some x \<longrightarrow> 0 < tc_size x" using cache_Push_inv [OF i] by blast
  let ?m1 = "mem\<lparr>mp_cache := c, mp_wal := map_option (\<lambda>w. w @ [t]) (mp_wal mem)\<rparr>"
  have i1: "mp_inv ?m1" "same_pool mem ?m1" using i c(2) by (simp_all add: mp_inv_def same_pool_def)
  show ?thesis
  proof (cases "b \<and> conn_Error A app = None")
    case False
    then show ?thesis using room c(1) i i1 by (auto simp: mp_CheckTx_def Let_def split: option.splits)
  next
    case True
    obtain r app1 where r: "conn_CheckTx A app t (wrap64 (mp_height mem + 1)) = Inr (r, app1)" using A unfolding answers_def by (metis surj_pair)
    obtain m2 where m2: "resCb t r ?m1 = Inr m2" "mp_inv m2" "same_pool ?m1 m2" using resCb_inv [OF i1(1), of t r] room by auto
    obtain q where q: "mp_BCReactor m2 = Some q" using m2(3) R by (auto simp: same_pool_def)
    have "\<exists>m3. start_requester (rct_BucketIDs r) m2 = Inr m3 \<and> mp_inv m3 \<and> same_pool m2 m3"
      using m2(2) q by (cases "rct_BucketIDs r") (auto simp: start_requester_def mp_inv_def same_pool_def)
    then obtain m3 where m3: "start_requester (rct_BucketIDs r) m2 = Inr m3" "mp_inv m3" "same_pool m2 m3" by blast
    have "same_pool mem m3" using same_pool_trans i1(2) m2(3) m3(3) by blast
    then show ?thesis using room c(1) True r m2(1) m3 by (simp add: mp_CheckTx_def Let_def)
  qed
qed

lemma recheck_spec_answers: "answers A \<Longrightarrow> \<exists>ks app'. recheck_spec A h ts app = Inr (ks, app')"
proof (induction ts arbitrary: app)
  case (Cons t ts)
  obtain r app1 where r: "conn_CheckTx A app (mt_tx t) h = Inr (r, app1)" using Cons.prems unfolding answers_def by (metis surj_pair)
  then show ?case using Cons.IH [OF Cons.prems, of app1] by auto
qed simp

lemma Update_inv:
  assumes i: "mp_inv mem" and A: "answers A"
  shows "\<exists>mem' app'. mp_Update A app mem height buckets = Inr (mem', app') \<and> mp_inv mem' \<and> same_pool mem mem'"
proof -
  define good where "good = filter (\<lambda>m. mt_tx m \<notin> (\<Union>b \<in> set buckets. set (Txs b))) (mp_txs mem)"
  show ?thesis
  proof (cases "mp_Recheck mem")
    case True
    obtain ks app' where s: "recheck_spec A (wrap64 (height + 1)) good app = Inr (ks, app')" using recheck_spec_answers [OF A] by blast
    from Update_rechecks [OF i good_def True s] show ?thesis by blast
  next
    case False
    let ?m = "mem\<lparr>mp_height := height, mp_notified := False, mp_txs := good\<rparr>"
    have g: "set good \<subseteq> set (mp_txs mem)" "length good \<le> length (mp_txs mem)" "counted good"
      using i counted_filter unfolding good_def mp_inv_def by (auto simp: counted_filter)
    then have "mp_inv ?m" using i by (auto simp: mp_inv_def)
    moreover have "mp_Update A app mem height buckets = Inr (?m, app)"
      using False by (simp add: mp_Update_def filterTxs_def Let_def good_def)
    ultimately show ?thesis by (auto simp: same_pool_def)
  qed
qed

text \<open>What happens to a mempool: offers, blocks, \<open>Flush\<close>, and consensus receiving from the channel.\<close>

definition mp_receive :: "mempool \<Rightarrow> mempool" where
  "mp_receive mem = mem\<lparr>mp_txsAvailable := map_option (\<lambda>_. None) (mp_txsAvailable mem)\<rparr>"

datatype mp_event = MpCheck tx | MpUpdate int "tx_bucket list" | MpFlush | MpReceive

fun mp_run :: "'a app_conn \<Rightarrow> mp_event list \<Rightarrow> mempool \<times> 'a \<Rightarrow> (mempool \<times> 'a) or_panic" where
  "mp_run A [] s = Inr s"
| "mp_run A (MpCheck t # es) (mem, app) = bindP (mp_CheckTx A app mem t) (\<lambda>(_, mem', app'). mp_run A es (mem', app'))"
| "mp_run A (MpUpdate h bs # es) (mem, app) = bindP (mp_Update A app mem h bs) (\<lambda>s. mp_run A es s)"
| "mp_run A (MpFlush # es) (mem, app) = mp_run A es (mp_Flush mem, app)"
| "mp_run A (MpReceive # es) (mem, app) = mp_run A es (mp_receive mem, app)"

lemma mp_run_inv:
  "mp_inv mem \<Longrightarrow> answers A \<Longrightarrow> mp_BCReactor mem \<noteq> None \<Longrightarrow>
   \<exists>mem' app'. mp_run A es (mem, app) = Inr (mem', app') \<and> mp_inv mem' \<and> same_pool mem mem'"
proof (induction es arbitrary: mem app)
  case (Cons e es)
  have "\<exists>m a. mp_run A (e # es) (mem, app) = mp_run A es (m, a) \<and> mp_inv m \<and> same_pool mem m"
  proof (cases e)
    case (MpCheck t)
    then show ?thesis using CheckTx_inv [OF Cons.prems, of app t] by fastforce
  next
    case (MpUpdate h bs)
    then show ?thesis using Update_inv [OF Cons.prems(1,2), of app h bs] by fastforce
  next
    case MpFlush
    have "mp_inv (mp_Flush mem)" "same_pool mem (mp_Flush mem)"
      using Cons.prems(1) by (auto simp: mp_inv_def mp_Flush_def tc_Reset_def counted_def same_pool_def)
    then show ?thesis using MpFlush by auto
  next
    case MpReceive
    have "mp_inv (mp_receive mem)" "same_pool mem (mp_receive mem)"
      using Cons.prems(1) by (auto simp: mp_inv_def mp_receive_def same_pool_def)
    then show ?thesis using MpReceive by auto
  qed
  then obtain m a where m: "mp_run A (e # es) (mem, app) = mp_run A es (m, a)" "mp_inv m" "same_pool mem m" by blast
  have "mp_BCReactor m \<noteq> None" using m(3) Cons.prems(3) by (simp add: same_pool_def)
  from Cons.IH [OF m(2) Cons.prems(2) this, of a] m show ?case using same_pool_trans by fastforce
qed simp

lemma NewMempool_inv: "mp_inv (NewMempool sz cacheSize recheck recheckEmpty height)"
  by (simp add: mp_inv_def NewMempool_def counted_def newMapTxCache_def)

lemma node_mempool_inv:
  fixes sz cacheSize recheck recheckEmpty height walDir waitForTxs
  defines "mem \<equiv> node_mempool sz cacheSize recheck recheckEmpty height walDir waitForTxs"
  shows "mp_inv mem" "mp_Size mem = sz" "mp_Recheck mem = recheck" "mp_BCReactor mem \<noteq> None" "mp_txsAvailable mem = None \<longleftrightarrow> \<not> waitForTxs"
  by (simp_all add: mem_def node_mempool_def Let_def EnableTxsAvailable_def InitWAL_def mp_inv_def NewMempool_def counted_def newMapTxCache_def)

section \<open>Properties\<close>

text \<open>
  C26: the mempool of a node is bounded and does not panic. Whatever transactions are offered, blocks committed
  and heights received, and whatever an application that answers says, no operation of a mempool set up as
  \<^verbatim>\<open>node.go\<close> does panics, at most \<open>Size\<close> transactions are held, and \<open>Reap\<close> returns the oldest of them, as many as
  asked for, or all. A mempool as \<open>NewMempool\<close> returns it, without a reactor, panics on the first transaction
  whose answer names a bucket.
\<close>

theorem Mempool_bounded:
  assumes "answers A"
  shows "(\<exists>mem app'. mp_run A es (node_mempool sz cacheSize recheck recheckEmpty height walDir waitForTxs, app) = Inr (mem, app') \<and>
      int (length (mp_txs mem)) \<le> max 0 sz \<and>
      (\<exists>l. mp_Reap mem n = Inr l \<and> prefix l (map mt_tx (mp_txs mem)) \<and>
        length l = (if n < 0 then length (mp_txs mem) else min (nat n) (length (mp_txs mem))))) \<and>
    (0 < sz \<longrightarrow> conn_Error A app = None \<longrightarrow> conn_CheckTx A app t (wrap64 (height + 1)) = Inr (r, app1) \<longrightarrow> rct_BucketIDs r \<noteq> [] \<longrightarrow>
      mp_CheckTx A app (NewMempool sz cacheSize recheck recheckEmpty height) t = Inl NilDereference)"
proof -
  let ?m0 = "node_mempool sz cacheSize recheck recheckEmpty height walDir waitForTxs"
  obtain mem app' where m: "mp_run A es (?m0, app) = Inr (mem, app')" "mp_inv mem" "same_pool ?m0 mem"
    using mp_run_inv [OF node_mempool_inv(1) assms node_mempool_inv(4)] by blast
  then have sz: "mp_Size mem = sz" by (simp add: same_pool_def node_mempool_inv(2))
  have "prefix (collectTxs mem n) (map mt_tx (mp_txs mem))" by (simp add: collectTxs_def take_is_prefix flip: take_map)
  moreover have "length (collectTxs mem n) = (if n < 0 then length (mp_txs mem) else min (nat n) (length (mp_txs mem)))" by (auto simp: collectTxs_def)
  moreover have "mp_CheckTx A app (NewMempool sz cacheSize recheck recheckEmpty height) t = Inl NilDereference"
    if c: "0 < sz" "conn_Error A app = None" "conn_CheckTx A app t (wrap64 (height + 1)) = Inr (r, app1)" "rct_BucketIDs r \<noteq> []"
  proof -
    let ?m = "NewMempool sz cacheSize recheck recheckEmpty height"
    obtain cc where p: "cache_Push (mp_cache ?m) t = Inr (True, cc)" "\<forall>x. cc = Some x \<longrightarrow> 0 < tc_size x"
      by (cases "cacheSize > 0") (simp_all add: NewMempool_def cache_Push_def newMapTxCache_def tc_Push_def)
    let ?m1 = "?m\<lparr>mp_cache := cc, mp_wal := map_option (\<lambda>w. w @ [t]) (mp_wal ?m)\<rparr>"
    have "mp_inv ?m1" using NewMempool_inv p(2) by (simp add: mp_inv_def)
    then obtain m2 where m2: "resCb t r ?m1 = Inr m2" "same_pool ?m1 m2" using resCb_inv [of ?m1 t r] c(1) by (auto simp: NewMempool_def)
    then have "mp_BCReactor m2 = None" by (simp add: same_pool_def NewMempool_def)
    then have s: "start_requester (rct_BucketIDs r) m2 = Inl NilDereference" using c(4) by (cases "rct_BucketIDs r") (simp_all add: start_requester_def)
    have "mp_height ?m1 = height" "int (length (mp_txs ?m)) < mp_Size ?m" using c(1) by (simp_all add: NewMempool_def)
    then show ?thesis using p(1) c(2,3) m2(1) s by (simp add: mp_CheckTx_def Let_def)
  qed
  ultimately show ?thesis using m sz by (auto simp: mp_Reap_def mp_inv_def)
qed

definition demo_conn :: "tx set \<Rightarrow> nat app_conn" where
  "demo_conn bad = \<lparr>conn_Error = (\<lambda>a. None), conn_FlushSync = (\<lambda>a. Inr (None, a)),
     conn_CheckTx = (\<lambda>a t h. Inr (\<lparr>rct_Code = (if t \<in> bad \<and> a > 2 then 1 else 0), rct_BucketIDs = []\<rparr>, Suc a)),
     conn_BeginBlock = (\<lambda>a h hd vs. Inr (None, a)), conn_DeliverTx = (\<lambda>a t h. Inr (\<lparr>rdt_Code = 0, rdt_Data = []\<rparr>, a)),
     conn_DeliverBucketedTx = (\<lambda>a t h b. Inr a), conn_EndBlock = (\<lambda>a. Inr (Inr \<lparr>ValidatorUpdates = [], ConsensusParamUpdates = None\<rparr>, a)),
     conn_GetValidatorSet = (\<lambda>a h. Inr (Inr \<lparr>rgv_ValidatorSet = []\<rparr>, a)), conn_Commit = (\<lambda>a. Inr (Inr ''app'', a))\<rparr>"

lemma demo_conn_answers: "answers (demo_conn bad)"
  by (simp add: answers_def demo_conn_def)

definition bucket_conn :: "nat app_conn" where
  "bucket_conn = (demo_conn {})\<lparr>conn_CheckTx := (\<lambda>a t h. Inr (\<lparr>rct_Code = 0, rct_BucketIDs = [''10'']\<rparr>, Suc a))\<rparr>"

lemma bucket_conn_simps: "answers bucket_conn" "conn_Error bucket_conn a = None"
    "conn_CheckTx bucket_conn a t h = Inr (\<lparr>rct_Code = 0, rct_BucketIDs = [''10'']\<rparr>, Suc a)"
  by (simp_all add: answers_def bucket_conn_def demo_conn_def)

theorem Mempool_bounded_witness:
  "(\<exists>mem app'. mp_run bucket_conn [MpCheck ''a'', MpCheck ''b'', MpReceive, MpCheck ''c''] (node_mempool 2 10 True False 0 [] True, 0) = Inr (mem, app') \<and>
     int (length (mp_txs mem)) \<le> 2 \<and> (\<exists>l. mp_Reap mem 1 = Inr l \<and> length l = min 1 (length (mp_txs mem)))) \<and>
   mp_CheckTx bucket_conn 0 (NewMempool 2 10 True False 0) ''a'' = Inl NilDereference"
  using Mempool_bounded [OF bucket_conn_simps(1), of "[MpCheck ''a'', MpCheck ''b'', MpReceive, MpCheck ''c'']" 2 10 True False 0 "[]" True 0 1
      "''a''" "\<lparr>rct_Code = 0, rct_BucketIDs = [''10'']\<rparr>" 1] by (force simp: bucket_conn_simps)

text \<open>
  C27: what a commit leaves in the mempool. If rechecking is on, \<open>Update\<close> keeps, in their order, exactly
  the transactions that are not in the block and that the application accepts when asked about them
  one after the other at the next height. If some remain, and consensus waits for transactions, it is notified:
  the channel holds the next height, or an earlier one that was not received yet; otherwise the channel is left
  alone.
\<close>

theorem Update_keeps_accepted:
  assumes "answers A" "mp_run A es (node_mempool sz cacheSize True recheckEmpty h0 walDir waitForTxs, app0) = Inr (mem, app)"
    and "recheck_spec A (wrap64 (height + 1)) (filter (\<lambda>m. mt_tx m \<notin> (\<Union>b \<in> set buckets. set (Txs b))) (mp_txs mem)) app = Inr (ks, app')"
  shows "\<exists>mem'. mp_Update A app mem height buckets = Inr (mem', app') \<and> mp_txs mem' = ks \<and>
    (mp_notified mem' \<longleftrightarrow> waitForTxs \<and> ks \<noteq> []) \<and>
    mp_txsAvailable mem' = (if waitForTxs \<and> ks \<noteq> []
      then Some (Some (case mp_txsAvailable mem of Some (Some h) \<Rightarrow> h | _ \<Rightarrow> wrap64 (height + 1))) else mp_txsAvailable mem)"
proof -
  let ?m0 = "node_mempool sz cacheSize True recheckEmpty h0 walDir waitForTxs"
  have m: "mp_inv mem" "same_pool ?m0 mem"
    using mp_run_inv [OF node_mempool_inv(1) assms(1) node_mempool_inv(4), of es sz cacheSize True recheckEmpty h0 walDir waitForTxs app0] assms(2) by auto
  then have r: "mp_Recheck mem" "mp_txsAvailable mem = None \<longleftrightarrow> \<not> waitForTxs" by (simp_all add: same_pool_def node_mempool_inv(3,5))
  from Update_rechecks [OF m(1) refl r(1) assms(3)] show ?thesis
    using r(2) by (cases "mp_txsAvailable mem") (auto simp: announced_def split: option.split)
qed

lemma recheck_demo:
  "\<exists>mem. mp_run (demo_conn {''b''}) [MpCheck ''a'', MpCheck ''b'', MpCheck ''c'', MpReceive] (node_mempool 5 10 True False 0 [] True, 0) = Inr (mem, 3) \<and>
     mp_txs mem = [\<lparr>mt_elem = 0, mt_counter = 1, mt_height = 0, mt_tx = ''a''\<rparr>, \<lparr>mt_elem = 1, mt_counter = 2, mt_height = 0, mt_tx = ''b''\<rparr>,
       \<lparr>mt_elem = 2, mt_counter = 3, mt_height = 0, mt_tx = ''c''\<rparr>] \<and> mp_txsAvailable mem = Some None"
  by (simp add: node_mempool_def EnableTxsAvailable_def InitWAL_def NewMempool_def mp_CheckTx_def cache_Push_def tc_Push_def newMapTxCache_def demo_conn_def
      resCb_def resCbNormal_def CodeTypeOK_def notifyTxsAvailable_def start_requester_def mp_receive_def wrap64_def)

theorem Update_keeps_accepted_witness:
  "\<exists>mem app mem' app'. mp_run (demo_conn {''b''}) [MpCheck ''a'', MpCheck ''b'', MpCheck ''c'', MpReceive] (node_mempool 5 10 True False 0 [] True, 0) = Inr (mem, app) \<and>
    mp_txsAvailable mem = Some None \<and> mp_Update (demo_conn {''b''}) app mem 1 [\<lparr>BucketId = ''10'', Txs = [''c'']\<rparr>] = Inr (mem', app') \<and>
    map mt_tx (mp_txs mem') = [''a''] \<and> mp_txsAvailable mem' = Some (Some 2)"
proof -
  let ?A = "demo_conn {''b''}" and ?bs = "[\<lparr>BucketId = ''10'', Txs = [''c'']\<rparr>]" and ?a = "\<lparr>mt_elem = 0, mt_counter = 1, mt_height = 0, mt_tx = ''a''\<rparr>"
  obtain mem where m: "mp_run ?A [MpCheck ''a'', MpCheck ''b'', MpCheck ''c'', MpReceive] (node_mempool 5 10 True False 0 [] True, 0) = Inr (mem, 3)"
      "mp_txs mem = [?a, \<lparr>mt_elem = 1, mt_counter = 2, mt_height = 0, mt_tx = ''b''\<rparr>, \<lparr>mt_elem = 2, mt_counter = 3, mt_height = 0, mt_tx = ''c''\<rparr>]"
      "mp_txsAvailable mem = Some None" using recheck_demo by blast
  have "recheck_spec ?A (wrap64 (1 + 1)) (filter (\<lambda>m. mt_tx m \<notin> (\<Union>b \<in> set ?bs. set (Txs b))) (mp_txs mem)) 3 = Inr ([?a], 5)"
    using m(2) by (simp add: demo_conn_def CodeTypeOK_def)
  from Update_keeps_accepted [OF demo_conn_answers m(1) this] m(1,3) show ?thesis by (fastforce simp: wrap64_def)
qed

lemma pushes_fit:
  assumes "int (length (tc_list c) + length ys) \<le> tc_size c" "distinct ys" "set ys \<inter> set (tc_map c) = {}"
  shows "foldP (\<lambda>t c. bindP (tc_Push c t) (\<lambda>(_, c'). Inr c')) ys c = Inr (c\<lparr>tc_map := rev ys @ tc_map c, tc_list := tc_list c @ ys\<rparr>)"
  using assms
proof (induction ys arbitrary: c)
  case (Cons y ys)
  have "tc_Push c y = Inr (True, c\<lparr>tc_map := y # tc_map c, tc_list := tc_list c @ [y]\<rparr>)" using Cons.prems by (simp add: tc_Push_def)
  then show ?case using Cons.IH [of "c\<lparr>tc_map := y # tc_map c, tc_list := tc_list c @ [y]\<rparr>"] Cons.prems by auto
qed simp

text \<open>
  The cache of seen transactions forgets a recent one. A transaction that was rejected once,
  and so removed, and then pushed again, is dropped by the \<open>n - 1\<close> pushes that follow, in a
  cache for \<open>n\<close> transactions: it would be accepted a second time.
\<close>

lemma TxCache_forgets_recent:
  assumes "distinct (t # ys)" "length ys = n - 1" "2 \<le> n"
  shows "\<exists>c1 c2 c3. tc_Push (newMapTxCache (int n)) t = Inr (True, c1) \<and> tc_Push (tc_Remove c1 t) t = Inr (True, c2) \<and>
    foldP (\<lambda>t c. bindP (tc_Push c t) (\<lambda>(_, c'). Inr c')) ys c2 = Inr c3 \<and> (\<exists>c4. tc_Push c3 t = Inr (True, c4))"
proof -
  let ?c2 = "\<lparr>tc_size = int n, tc_map = [t], tc_list = [t, t]\<rparr>"
  have c2: "tc_Push (newMapTxCache (int n)) t = Inr (True, \<lparr>tc_size = int n, tc_map = [t], tc_list = [t]\<rparr>)"
      "tc_Push (tc_Remove \<lparr>tc_size = int n, tc_map = [t], tc_list = [t]\<rparr> t) t = Inr (True, ?c2)"
    using assms(3) by (simp_all add: tc_Push_def tc_Remove_def newMapTxCache_def)
  obtain zs z where ys: "ys = zs @ [z]" using assms(2,3) by (cases ys rule: rev_cases) auto
  have f: "foldP (\<lambda>t c. bindP (tc_Push c t) (\<lambda>(_, c'). Inr c')) zs ?c2 = Inr \<lparr>tc_size = int n, tc_map = rev zs @ [t], tc_list = [t, t] @ zs\<rparr>"
    using pushes_fit [of ?c2 zs] assms ys by auto
  have z: "tc_Push \<lparr>tc_size = int n, tc_map = rev zs @ [t], tc_list = [t, t] @ zs\<rparr> z =
      Inr (True, \<lparr>tc_size = int n, tc_map = z # rev zs, tc_list = t # zs @ [z]\<rparr>)"
    using assms ys by (auto simp: tc_Push_def removeAll_filter_not_eq filter_id_conv)
  have "\<exists>c4. tc_Push \<lparr>tc_size = int n, tc_map = z # rev zs, tc_list = t # zs @ [z]\<rparr> t = Inr (True, c4)"
    using assms ys by (auto simp: tc_Push_def)
  then show ?thesis using c2 f z ys by auto
qed

end
