(* ===== verification/Execution.thy ===== *)
theory Execution
  imports State_Store Mempool Proposer_Rotation
begin

text \<open>
  Validating and executing blocks (\<^verbatim>\<open>state/validation.go\<close>, \<^verbatim>\<open>state/execution.go\<close>). The executor holds
  the database, the application behind its connection, and the mempool, which the commit of a
  block updates; the record \<open>exec\<close> is that state. Every operation returns it, also on an error,
  because what was written or delivered before the error stays.
\<close>

section \<open>Validating a block\<close>

datatype validation_error =
    VeBasic block_error | VeChainID | VeHeight | VeLastBlockID | VeTotalTxs | VeAppHash | VeConsensusHash
  | VeLastResultsHash | VeValidatorsHash | VeFirstCommit | VeCommitSize | VeCommit commit_error

definition validateBlock :: "'e ext_scheme \<Rightarrow> state \<Rightarrow> block option \<Rightarrow> validation_error option or_panic" where
  "validateBlock E s bo =
     bindP (blk_ValidateBasic E bo) (\<lambda>err.
     case err of Some e \<Rightarrow> Inr (Some (VeBasic e))
     | None \<Rightarrow>
     bindP (deref bo) (\<lambda>b.
     bindP (deref (blk_Header b)) (\<lambda>h.
     if hdr_ChainID h \<noteq> st_ChainID s then Inr (Some VeChainID)
     else if hdr_Height h \<noteq> wrap64 (LastBlockHeight s + 1) then Inr (Some VeHeight)
     else if \<not> bid_Equals (hdr_LastBlockID h) (st_LastBlockID s) then Inr (Some VeLastBlockID)
     else if hdr_TotalTxs h \<noteq> wrap64 (LastBlockTotalTx s + TotalTxsInBuckets (blk_Data b)) then Inr (Some VeTotalTxs)
     else if hdr_AppHash h \<noteq> st_AppHash s then Inr (Some VeAppHash)
     else if hdr_ConsensusHash h \<noteq> cp_Hash E (st_ConsensusParams s) then Inr (Some VeConsensusHash)
     else if hdr_LastResultsHash h \<noteq> st_LastResultsHash s then Inr (Some VeLastResultsHash)
     else
     bindP (deref (st_Validators s)) (\<lambda>vs.
     if hdr_ValidatorsHash h \<noteq> vs_Hash E vs then Inr (Some VeValidatorsHash)
     else
     bindP (deref (blk_Commit b)) (\<lambda>c.
     if hdr_Height h = 1
     then Inr (if length (Precommits c) \<noteq> 0 then Some VeFirstCommit else None)
     else
     bindP (deref (LastValidators s)) (\<lambda>lvs.
     if int (length (Precommits c)) \<noteq> vs_Size lvs then Inr (Some VeCommitSize)
     else
     bindP (VerifyCommit E lvs (st_ChainID s) (st_LastBlockID s) (wrap64 (hdr_Height h - 1)) c) (\<lambda>e.
       Inr (map_option VeCommit e))))))))"

datatype verify_evidence_error =
    EvTooOld | EvStore store_error | EvNotValidator | EvBad evidence_error

text \<open>The checks that \<open>dve_Verify\<close> makes before it looks at the key do not depend on it.\<close>

definition VerifyEvidence :: "'e ext_scheme \<Rightarrow> mem_db \<Rightarrow> state \<Rightarrow> duplicate_vote_evidence \<Rightarrow> verify_evidence_error option or_panic" where
  "VerifyEvidence E db s ev =
     (if wrap64 (LastBlockHeight s - dve_Height ev) > MaxAge (st_ConsensusParams s) then Inr (Some EvTooOld)
      else
      bindP (LoadValidators E db (dve_Height ev)) (\<lambda>r.
      case r of Inl err \<Rightarrow> Inr (Some (EvStore err))
      | Inr valset \<Rightarrow>
      bindP (dve_Address E ev) (\<lambda>addr.
      bindP (deref valset) (\<lambda>vs.
      case snd (GetByAddress vs addr) of None \<Rightarrow> Inr (Some EvNotValidator)
      | Some v \<Rightarrow>
          (case v_PubKey v of
             Some k \<Rightarrow> Inr (map_option EvBad (dve_Verify E (st_ChainID s) ev k))
           | None \<Rightarrow>
               (case dve_Verify E (st_ChainID s) ev (PubKeyEd25519 []) of
                  Some e \<Rightarrow> if e \<in> {HRSMismatch, AddressMismatch, IndexMismatch, SameBlockID}
                            then Inr (Some (EvBad e)) else Inl NilDereference
                | None \<Rightarrow> Inl NilDereference))))))"

section \<open>Executing a block on the application\<close>

definition getBeginBlockValidatorInfo :: "block \<Rightarrow> validator_set option \<Rightarrow> signing_validator list or_panic" where
  "getBeginBlockValidatorInfo b lastValSet =
     bindP (deref (blk_Header b)) (\<lambda>h.
     bindP (if hdr_Height h > 1
            then bindP (deref (blk_Commit b)) (\<lambda>c. bindP (deref lastValSet) (\<lambda>vs.
              if length (Precommits c) \<noteq> length (Validators vs)
              then Inl (PanicMsg ''precommit length does not match valset length'') else Inr ()))
            else Inr ()) (\<lambda>_.
     bindP (deref lastValSet) (\<lambda>vs.
       mapP (\<lambda>(i, v). bindP (deref (blk_Commit b)) (\<lambda>c.
           Inr \<lparr>sv_Validator = TM2PB_Validator v, SignedLastBlock = (i < length (Precommits c) \<and> Precommits c ! i \<noteq> None)\<rparr>))
         (enumerate 0 (Validators vs)))))"

fun deliver_txs ::
  "'a app_conn \<Rightarrow> int \<Rightarrow> tx list \<Rightarrow> 'a \<Rightarrow> response_deliver_tx option list \<Rightarrow> nat
   \<Rightarrow> (conn_error option \<times> 'a \<times> response_deliver_tx option list) or_panic" where
  "deliver_txs A height [] app rs txIndex = Inr (None, app, rs)"
| "deliver_txs A height (t # ts) app rs txIndex =
     bindP (conn_DeliverTx A app t height) (\<lambda>(txRes, app').
       if txIndex < length rs
       then (case conn_Error A app' of
           Some err \<Rightarrow> Inr (Some err, app', rs[txIndex := Some txRes])
         | None \<Rightarrow> deliver_txs A height ts app' (rs[txIndex := Some txRes]) (Suc txIndex))
       else Inl IndexOutOfRange)"

definition execBlockOnProxyApp ::
  "'e ext_scheme \<Rightarrow> 'a app_conn \<Rightarrow> 'a \<Rightarrow> block \<Rightarrow> validator_set option \<Rightarrow> ((conn_error + abci_responses) \<times> 'a) or_panic" where
  "execBlockOnProxyApp E A app b lastValSet =
     bindP (NewABCIResponses b) (\<lambda>arz.
     bindP (getBeginBlockValidatorInfo b lastValSet) (\<lambda>signVals.
     bindP (deref (blk_Header (blk_hashed E b))) (\<lambda>h.
     bindP (conn_BeginBlock A app (blk_Hash E (Some b)) (TM2PB_Header h) signVals) (\<lambda>(err, app1).
     case err of Some e \<Rightarrow> Inr (Inl e, app1)
     | None \<Rightarrow>
     bindP (deref (blk_Data b)) (\<lambda>d.
     bindP (deliver_txs A (hdr_Height h) (concat (map Txs (TxBuckets d))) app1 (ar_DeliverTx arz) 0) (\<lambda>(err, app2, rs).
     case err of Some e \<Rightarrow> Inr (Inl e, app2)
     | None \<Rightarrow>
     bindP (conn_EndBlock A app2) (\<lambda>(r, app3).
     case r of Inl e \<Rightarrow> Inr (Inl e, app3)
     | Inr endBlock \<Rightarrow>
     bindP (conn_GetValidatorSet A app3 (wrap64 (hdr_Height h + 1))) (\<lambda>(r, app4).
     case r of Inl e \<Rightarrow> Inr (Inl e, app4)
     | Inr valSet \<Rightarrow>
         Inr (Inr \<lparr>ar_DeliverTx = rs, ar_EndBlock = Some endBlock, ar_GetValidatorSet = Some valSet\<rparr>, app4)))))))))"

definition ExecCommitBlock ::
  "'e ext_scheme \<Rightarrow> 'a app_conn \<Rightarrow> 'a \<Rightarrow> block \<Rightarrow> validator_set option \<Rightarrow> ((conn_error + bytes) \<times> 'a) or_panic" where
  "ExecCommitBlock E A app b lastValSet =
     bindP (execBlockOnProxyApp E A app b lastValSet) (\<lambda>(r, app').
       case r of Inl e \<Rightarrow> Inr (Inl e, app') | Inr _ \<Rightarrow> conn_Commit A app')"

section \<open>Updating the state\<close>

datatype update_error = FailedToAdd | FailedToRemove | FailedToUpdate | BadConsensusParams params_error

definition update_validator :: "validator \<Rightarrow> validator_set \<Rightarrow> update_error option \<times> validator_set" where
  "update_validator v vs =
     (case snd (GetByAddress vs (v_Address v)) of
        None \<Rightarrow> let (added, vs') = vs_Add vs v in (if added then None else Some FailedToAdd, vs')
      | Some _ \<Rightarrow>
          if VotingPower v = 0
          then let (_, removed, vs') = vs_Remove vs (v_Address v) in (if removed then None else Some FailedToRemove, vs')
          else let (updated, vs') = vs_Update vs v in (if updated then None else Some FailedToUpdate, vs'))"

fun update_validators :: "validator list \<Rightarrow> validator_set \<Rightarrow> update_error option \<times> validator_set" where
  "update_validators [] vs = (None, vs)"
| "update_validators (v # us) vs =
     (case update_validator v vs of
        (Some err, vs') \<Rightarrow> (Some err, vs')
      | (None, vs') \<Rightarrow> update_validators us vs')"

definition updateValidators :: "validator_set \<Rightarrow> abci_validator list \<Rightarrow> update_error option \<times> validator_set" where
  "updateValidators currentSet abciUpdates = update_validators (PB2TM_Validators abciUpdates) currentSet"

definition updateState ::
  "'e ext_scheme \<Rightarrow> state \<Rightarrow> block_id \<Rightarrow> header \<Rightarrow> abci_responses \<Rightarrow> (update_error + state) or_panic" where
  "updateState E s blockID h arz =
     bindP (deref (st_Validators s)) (\<lambda>prevValSet.
     bindP (deref (ar_GetValidatorSet arz)) (\<lambda>g.
     let (err, nextValSet, valsChanged) =
       (if rgv_ValidatorSet g \<noteq> []
        then (case updateValidators prevValSet (rgv_ValidatorSet g) of (err, vs) \<Rightarrow> (err, vs, wrap64 (hdr_Height h + 1)))
        else (None, prevValSet, LastHeightValidatorsChanged s)) in
     case err of Some e \<Rightarrow> Inr (Inl e)
     | None \<Rightarrow>
     bindP (IncrementAccum nextValSet 1) (\<lambda>nextValSet'.
     bindP (deref (ar_EndBlock arz)) (\<lambda>eb.
     let nextParams = cp_Update (st_ConsensusParams s) (ConsensusParamUpdates eb);
         changed = ConsensusParamUpdates eb \<noteq> None in
     case (if changed then cp_Validate nextParams else None) of Some e \<Rightarrow> Inr (Inl (BadConsensusParams e))
     | None \<Rightarrow>
     bindP (ResultsHash E arz) (\<lambda>rh.
       Inr (Inr \<lparr>st_ChainID = st_ChainID s, LastBlockHeight = hdr_Height h,
         LastBlockTotalTx = wrap64 (LastBlockTotalTx s + hdr_NumTxs h), st_LastBlockID = blockID, LastBlockTime = hdr_Time h,
         st_Validators = Some nextValSet', LastValidators = Some prevValSet, LastHeightValidatorsChanged = valsChanged,
         st_ConsensusParams = (if changed then nextParams else st_ConsensusParams s),
         LastHeightConsensusParamsChanged = (if changed then wrap64 (hdr_Height h + 1) else LastHeightConsensusParamsChanged s),
         st_LastResultsHash = rh, st_AppHash = []\<rparr>))))))"

section \<open>The block executor\<close>

record 'a exec =
  ex_db :: mem_db
  ex_app :: 'a
  ex_mempool :: mempool

definition ex_Commit :: "'a app_conn \<Rightarrow> 'a exec \<Rightarrow> block \<Rightarrow> ((conn_error + bytes) \<times> 'a exec) or_panic" where
  "ex_Commit A x b =
     bindP (conn_FlushSync A (ex_app x)) (\<lambda>(err, app1).
     case err of Some e \<Rightarrow> Inr (Inl e, x\<lparr>ex_app := app1\<rparr>)
     | None \<Rightarrow>
     bindP (conn_Commit A app1) (\<lambda>(r, app2).
     case r of Inl e \<Rightarrow> Inr (Inl e, x\<lparr>ex_app := app2\<rparr>)
     | Inr appHash \<Rightarrow>
     bindP (deref (blk_Header b)) (\<lambda>h.
     bindP (deref (blk_Data b)) (\<lambda>d.
     bindP (mp_Update A app2 (ex_mempool x) (hdr_Height h) (TxBuckets d)) (\<lambda>(mem', app3).
       Inr (Inr appHash, x\<lparr>ex_app := app3, ex_mempool := mem'\<rparr>))))))"

datatype exec_error =
    ErrInvalidBlock validation_error | ErrProxyAppConn conn_error | ErrUpdate update_error | ErrCommit conn_error

definition ApplyBlock ::
  "'e ext_scheme \<Rightarrow> 'a app_conn \<Rightarrow> 'a exec \<Rightarrow> state \<Rightarrow> block_id \<Rightarrow> block option
   \<Rightarrow> (exec_error option \<times> state \<times> 'a exec) or_panic" where
  "ApplyBlock E A x s blockID bo =
     bindP (validateBlock E s bo) (\<lambda>err.
     case err of Some e \<Rightarrow> Inr (Some (ErrInvalidBlock e), s, x)
     | None \<Rightarrow>
     bindP (deref bo) (\<lambda>b.
     bindP (execBlockOnProxyApp E A (ex_app x) b (LastValidators s)) (\<lambda>(r, app1).
     case r of Inl e \<Rightarrow> Inr (Some (ErrProxyAppConn e), s, x\<lparr>ex_app := app1\<rparr>)
     | Inr arz \<Rightarrow>
     bindP (deref (blk_Header (blk_hashed E b))) (\<lambda>h.
     let x1 = x\<lparr>ex_app := app1, ex_db := saveABCIResponses E (ex_db x) (hdr_Height h) arz\<rparr> in
     bindP (updateState E s blockID h arz) (\<lambda>r.
     case r of Inl e \<Rightarrow> Inr (Some (ErrUpdate e), s, x1)
     | Inr s' \<Rightarrow>
     bindP (ex_Commit A x1 (blk_hashed E b)) (\<lambda>(r, x2).
     case r of Inl e \<Rightarrow> Inr (Some (ErrCommit e), s', x2)
     | Inr appHash \<Rightarrow>
         let s'' = s'\<lparr>st_AppHash := appHash\<rparr> in Inr (None, s'', x2\<lparr>ex_db := SaveState E (ex_db x2) s''\<rparr>)))))))"

definition UpdateValidatorsSet :: "'a app_conn \<Rightarrow> 'a \<Rightarrow> state \<Rightarrow> ((conn_error + update_error option) \<times> 'a) or_panic" where
  "UpdateValidatorsSet A app s =
     bindP (conn_EndBlock A app) (\<lambda>(r, app').
     case r of Inl e \<Rightarrow> Inr (Inl e, app')
     | Inr eb \<Rightarrow> bindP (deref (st_Validators s)) (\<lambda>vs. Inr (Inr (fst (updateValidators vs (ValidatorUpdates eb))), app')))"

fun ApplyBucket :: "'a app_conn \<Rightarrow> int \<Rightarrow> bytes \<Rightarrow> tx list \<Rightarrow> 'a \<Rightarrow> (conn_error option \<times> 'a) or_panic" where
  "ApplyBucket A height bucketId [] app = Inr (None, app)"
| "ApplyBucket A height bucketId (t # ts) app =
     bindP (conn_DeliverBucketedTx A app t height bucketId) (\<lambda>app'.
       case conn_Error A app' of Some e \<Rightarrow> Inr (Some e, app') | None \<Rightarrow> ApplyBucket A height bucketId ts app')"

section \<open>Validator updates implement map updates\<close>

abbreviation leaves :: "validator \<Rightarrow> bool" where
  "leaves v \<equiv> VotingPower v = 0"

lemma update_validator_eq:
  "update_validator v vs =
     (case vset.apply_one leaves vs v of (done, vs') \<Rightarrow>
       (if done then None else Some (if vs_lookup vs (v_Address v) = None then FailedToAdd
          else if leaves v then FailedToRemove else FailedToUpdate), vs'))"
  by (auto simp: update_validator_def vset.apply_one_def vs_lookup_def Let_def split: option.splits prod.splits)

lemma update_validators_refine:
  "vs_wf vs \<Longrightarrow> \<exists>vs'. update_validators us vs = (None, vs') \<and> vs_wf vs' \<and>
     vs_lookup vs' = fold (vset.upd_map leaves) us (vs_lookup vs)"
proof (induction us arbitrary: vs)
  case (Cons v us)
  obtain vs1 where "vset.apply_one leaves vs v = (True, vs1)" "vs_wf vs1" "vs_lookup vs1 = vset.upd_map leaves v (vs_lookup vs)"
    using vset.apply_one_spec [OF Cons.prems] by blast
  moreover obtain vs' where "update_validators us vs1 = (None, vs')" "vs_wf vs'"
      "vs_lookup vs' = fold (vset.upd_map leaves) us (vs_lookup vs1)"
    using Cons.IH [OF calculation(2)] by blast
  ultimately show ?case by (simp add: update_validator_eq)
qed simp

section \<open>The rotation changes accums only\<close>

lemma map_upd_same: "f x = f (xs ! k) \<Longrightarrow> map f (xs[k := x]) = map f xs"
  by (cases "k < length xs") (simp_all add: map_update list_update_same_conv list_update_beyond)

abbreviation v_view :: "validator \<Rightarrow> address \<times> pub_key option \<times> int" where
  "v_view v \<equiv> (v_Address v, v_PubKey v, VotingPower v)"

lemma accum_view [simp]: "v_PubKey (add_accum n v) = v_PubKey v" "v_PubKey (sub_accum t v) = v_PubKey v"
  by (simp_all add: add_accum_def sub_accum_def)

lemma push_validator_Inr:
  "push_validator n i (vals, pq) = Inr st \<Longrightarrow> \<exists>pq'. st = (vals[i := add_accum n (vals ! i)], pq')"
  by (auto simp: push_validator_def Let_def bindP_eq_Inr)

lemma push_all_view:
  "foldP (push_validator n) is (vals, pq) = Inr (vals', pq') \<Longrightarrow> map v_view vals' = map v_view vals"
proof (induction "is" arbitrary: vals pq)
  case (Cons i "is")
  then obtain pq1 where "foldP (push_validator n) is (vals[i := add_accum n (vals ! i)], pq1) = Inr (vals', pq')"
    by (auto simp: bindP_eq_Inr dest!: push_validator_Inr)
  then have "map v_view vals' = map v_view (vals[i := add_accum n (vals ! i)])" by (rule Cons.IH)
  then show ?case by (simp add: map_upd_same)
qed simp

lemma decrement_loop_view:
  "decrement_loop t r vals pq pr = Inr (vals', pr') \<Longrightarrow> map v_view vals' = map v_view vals"
proof (induction r arbitrary: vals pq pr)
  case (Suc r)
  then obtain m pq1 pr1 where "decrement_loop t r (vals[m := sub_accum t (vals ! m)]) pq1 pr1 = Inr (vals', pr')"
    by (auto simp: Let_def bindP_eq_Inr split: option.splits if_splits)
  then have "map v_view vals' = map v_view (vals[m := sub_accum t (vals ! m)])" by (rule Suc.IH)
  then show ?case by (simp add: map_upd_same)
qed simp

lemma IncrementAccum_view:
  assumes "IncrementAccum vs n = Inr vs'"
  shows "vset_view (Some vs') = vset_view (Some vs)"
proof -
  obtain vals pq vals' pr where
    "foldP (push_validator n) [0..<length (Validators vs)] (Validators vs, NewHeap) = Inr (vals, pq)"
    "decrement_loop (total_power vs) (nat n) vals pq (Proposer vs) = Inr (vals', pr)" "Validators vs' = vals'"
    using assms by (auto simp: IncrementAccum_def bindP_eq_Inr)
  then show ?thesis using push_all_view decrement_loop_view by (simp add: vset_view_def)
qed

section \<open>What an applied block changes\<close>

lemma validateBlock_ok:
  assumes "validateBlock E s bo = Inr None"
  obtains b h vs c where "bo = Some b" "blk_Header b = Some h" "blk_ValidateBasic E bo = Inr None" "st_Validators s = Some vs" "blk_Commit b = Some c"
    "hdr_ChainID h = st_ChainID s" "hdr_Height h = wrap64 (LastBlockHeight s + 1)" "bid_Equals (hdr_LastBlockID h) (st_LastBlockID s)"
    "hdr_ValidatorsHash h = vs_Hash E vs" "hdr_AppHash h = st_AppHash s"
    "hdr_Height h \<noteq> 1 \<Longrightarrow> \<exists>lvs. LastValidators s = Some lvs \<and>
       VerifyCommit E lvs (st_ChainID s) (st_LastBlockID s) (wrap64 (hdr_Height h - 1)) c = Inr None"
proof -
  obtain b h where b: "bo = Some b" "blk_Header b = Some h" "blk_ValidateBasic E bo = Inr None"
    using assms by (auto simp: validateBlock_def bindP_eq_Inr deref_def split: option.splits)
  obtain vs c where "st_Validators s = Some vs" "blk_Commit b = Some c"
    "hdr_ChainID h = st_ChainID s" "hdr_Height h = wrap64 (LastBlockHeight s + 1)" "bid_Equals (hdr_LastBlockID h) (st_LastBlockID s)"
    "hdr_ValidatorsHash h = vs_Hash E vs" "hdr_AppHash h = st_AppHash s"
    using assms b by (auto simp: validateBlock_def bindP_eq_Inr deref_def split: option.splits if_splits)
  moreover have "\<exists>lvs. LastValidators s = Some lvs \<and>
      VerifyCommit E lvs (st_ChainID s) (st_LastBlockID s) (wrap64 (hdr_Height h - 1)) c = Inr None" if "hdr_Height h \<noteq> 1"
    using assms b that calculation
    by (auto simp: validateBlock_def bindP_eq_Inr deref_def split: option.splits if_splits)
  ultimately show ?thesis using that b by blast
qed

lemma blk_hashed_valid:
  assumes "blk_ValidateBasic E (Some b) = Inr None"
  shows "blk_hashed E b = b"
proof -
  obtain h where h: "blk_Header b = Some h" "hdr_DataHash h = data_Hash E (blk_Data b)"
    using assms by (auto simp: blk_ValidateBasic_def bindP_eq_Inr deref_def split: option.splits if_splits)
  then show ?thesis by (cases b, cases h) (auto simp: blk_hashed_def fillHeader_def)
qed

lemma updateState_ok:
  assumes "updateState E s bid h arz = Inr (Inr s')"
  shows "\<exists>vs vs'. st_Validators s = Some vs \<and> LastValidators s' = Some vs \<and> st_Validators s' = Some vs' \<and>
    (LastHeightValidatorsChanged s' = wrap64 (hdr_Height h + 1) \<or>
     LastHeightValidatorsChanged s' = LastHeightValidatorsChanged s \<and> vset_view (Some vs') = vset_view (Some vs))"
    "st_ChainID s' = st_ChainID s" "LastBlockHeight s' = hdr_Height h" "st_LastBlockID s' = bid"
    "LastHeightConsensusParamsChanged s' = wrap64 (hdr_Height h + 1) \<and> cp_Validate (st_ConsensusParams s') = None \<or>
     LastHeightConsensusParamsChanged s' = LastHeightConsensusParamsChanged s \<and> st_ConsensusParams s' = st_ConsensusParams s"
  using assms
  by (auto simp: updateState_def bindP_eq_Inr deref_def Let_def dest: IncrementAccum_view split: option.splits if_splits prod.splits)

lemma ApplyBlock_ok:
  assumes "ApplyBlock E A x s bid bo = Inr (None, s', x')"
  obtains b h arz s1 appHash where "validateBlock E s bo = Inr None" "bo = Some b" "blk_Header (blk_hashed E b) = Some h"
    "updateState E s bid h arz = Inr (Inr s1)" "s' = s1\<lparr>st_AppHash := appHash\<rparr>"
    "ex_db x' = SaveState E (saveABCIResponses E (ex_db x) (hdr_Height h) arz) s'"
  using assms unfolding ApplyBlock_def ex_Commit_def
  by (auto simp: Let_def elim!: bindP_Inr_E split: option.split_asm sum.split_asm prod.split_asm)

lemma ApplyBlock_fails:
  assumes "ApplyBlock E A x s bid bo = Inr (Some e, s', x')"
  shows "ex_db x' = ex_db x \<or> (\<exists>h arz. ex_db x' = saveABCIResponses E (ex_db x) h arz)"
  using assms unfolding ApplyBlock_def ex_Commit_def
  by (auto simp: Let_def elim!: bindP_Inr_E split: option.split_asm sum.split_asm prod.split_asm) blast+

section \<open>Updates leave no key\<close>

text \<open>What one update does to the map from addresses to validators: \<open>PB2TM\<close> sets no key.\<close>

definition set_update :: "abci_validator \<Rightarrow> (address \<rightharpoonup> validator) \<Rightarrow> (address \<rightharpoonup> validator)" where
  "set_update u m =
     (if m (av_Address u) \<noteq> None \<and> av_Power u = 0 then m(av_Address u := None)
      else m(av_Address u \<mapsto> \<lparr>v_Address = av_Address u, v_PubKey = None, VotingPower = av_Power u, Accum = 0\<rparr>))"

lemma updateValidators_map:
  assumes "vs_wf vs"
  shows "\<exists>vs'. updateValidators vs us = (None, vs') \<and> vs_wf vs' \<and> vs_lookup vs' = fold set_update us (vs_lookup vs)"
proof -
  have "fold (vset.upd_map leaves) (PB2TM_Validators us) m = fold set_update us m" for m
    unfolding PB2TM_Validators_def fold_map by (rule fold_cong) (auto simp: vset.upd_map_def set_update_def)
  then show ?thesis using update_validators_refine [OF assms, of "PB2TM_Validators us"] by (simp add: updateValidators_def)
qed

lemma set_updates_keyless:
  "fold set_update us m a = Some v \<Longrightarrow> a \<in> av_Address ` set us \<or> (\<forall>w. m a = Some w \<longrightarrow> v_PubKey w = None) \<Longrightarrow> v_PubKey v = None"
proof (induction us arbitrary: m)
  case (Cons u us)
  then show ?case
  proof (cases "a \<in> av_Address ` set us")
    case False
    then have "\<forall>w. set_update u m a = Some w \<longrightarrow> v_PubKey w = None" using Cons.prems(2) by (auto simp: set_update_def)
    then show ?thesis using Cons by simp
  qed simp
qed simp

lemma tally_needs_key:
  "tally_commit E chainID vs b height round idx ps t = Inr (Inr t') \<Longrightarrow> j < length ps \<Longrightarrow> ps ! j \<noteq> None \<Longrightarrow>
   \<exists>v. snd (GetByIndex vs (int (idx + j))) = Some v \<and> v_PubKey v \<noteq> None"
proof (induction E chainID vs b height round idx ps t arbitrary: j rule: tally_commit.induct)
  case (2 E chainID vs b height round idx ps t)
  then show ?case by (cases j) auto
next
  case (3 E chainID vs b height round idx p ps t)
  show ?case
  proof (cases j)
    case 0
    then show ?thesis using 3(3) by (auto simp: split: if_splits elim!: bindP_Inr_E)
  next
    case (Suc i)
    then show ?thesis using 3 by (auto split: if_splits elim!: bindP_Inr_E)
  qed
qed simp

text \<open>The validators after a block with updates, up to their accums.\<close>

lemma updated_set:
  assumes "updateState E s bid h arz = Inr (Inr s')" "st_Validators s = Some vs" "vs_wf vs" "ar_GetValidatorSet arz = Some g"
    and "st_Validators s' = Some vs'" "rgv_ValidatorSet g \<noteq> []"
  shows "\<exists>vs1. vs_wf vs1 \<and> vs_lookup vs1 = fold set_update (rgv_ValidatorSet g) (vs_lookup vs) \<and> map v_view (Validators vs') = map v_view (Validators vs1)"
proof -
  let ?us = "rgv_ValidatorSet g"
  obtain vs1 where u: "updateValidators vs ?us = (None, vs1)" "vs_wf vs1" "vs_lookup vs1 = fold set_update ?us (vs_lookup vs)"
    using updateValidators_map [OF assms(3)] by blast
  then have "IncrementAccum vs1 1 = Inr vs'"
    using assms(1,2,4-6) u(1) by (auto simp: updateState_def Let_def elim!: bindP_Inr_E split: option.split_asm if_split_asm)
  then have "map v_view (Validators vs') = map v_view (Validators vs1)" using IncrementAccum_view by (fastforce simp: vset_view_def)
  then show ?thesis using u(2,3) by blast
qed

lemma updated_cannot_sign:
  assumes "updateState E s bid h arz = Inr (Inr s')" "st_Validators s = Some vs" "vs_wf vs" "ar_GetValidatorSet arz = Some g"
    and "st_Validators s' = Some vs'" "i < length (Validators vs')" "v_Address (Validators vs' ! i) \<in> av_Address ` set (rgv_ValidatorSet g)"
    and "VerifyCommit E vs' chainID b height c = Inr None"
  shows "Precommits c ! i = None"
proof (rule ccontr)
  assume p: "Precommits c ! i \<noteq> None"
  have "rgv_ValidatorSet g \<noteq> []" using assms(7) by auto
  then obtain vs1 where u: "vs_wf vs1" "vs_lookup vs1 = fold set_update (rgv_ValidatorSet g) (vs_lookup vs)"
      and m: "map v_view (Validators vs') = map v_view (Validators vs1)"
    using updated_set [OF assms(1-5)] by blast
  have l: "length (Validators vs') = length (Validators vs1)" by (rule map_eq_imp_length_eq [OF m])
  have v: "v_view (Validators vs' ! i) = v_view (Validators vs1 ! i)" using arg_cong [OF m, of "\<lambda>xs. xs ! i"] assms(6) l by simp
  have "vs_lookup vs1 (v_Address (Validators vs1 ! i)) = Some (Validators vs1 ! i)"
    using lookup_iff u(1) assms(6) l by (auto simp: vs_wf_def)
  then have "v_PubKey (Validators vs1 ! i) = None" using set_updates_keyless u(2) assms(7) v by auto
  moreover obtain t where t: "tally_commit E chainID vs' b height (commit_Round c) 0 (Precommits c) 0 = Inr (Inr t)"
      and sz: "length (Precommits c) = length (Validators vs')"
    using assms(8) by (auto simp: VerifyCommit_def vs_Size_def elim!: bindP_Inr_E split: if_splits sum.split_asm)
  ultimately show False using tally_needs_key [OF t, of i] p assms(6) v by (auto simp: GetByIndex_def)
qed

section \<open>Properties\<close>

text \<open>
  C14: \<open>updateValidators\<close> implements updates of a map. On a sorted set without duplicates it never fails,
  keeps the set sorted, and changes the map from addresses to validators as folding the updates
  over the map does: a zero power removes a validator that is there, any other update sets it.
\<close>

theorem updateValidators_refines:
  assumes "vs_wf vs"
  shows "\<exists>vs'. updateValidators vs us = (None, vs') \<and> vs_wf vs' \<and> vs_lookup vs' = fold set_update us (vs_lookup vs)"
  by (rule updateValidators_map [OF assms])

definition demo_update :: "string \<Rightarrow> int \<Rightarrow> abci_validator" where
  "demo_update a p = \<lparr>av_Address = a, av_PubKey = no_abci_key, av_Power = p\<rparr>"

theorem updateValidators_refines_witness:
  "\<exists>vs'. updateValidators demo_validators [demo_update ''d'' 5, demo_update ''b'' 0, demo_update ''a'' 7] = (None, vs') \<and>
    map_option VotingPower (vs_lookup vs' ''a'') = Some 7 \<and> vs_lookup vs' ''b'' = None \<and> map_option VotingPower (vs_lookup vs' ''d'') = Some 5"
proof -
  have wf: "vs_wf demo_validators" by (simp add: vs_wf_def sorted_vals_def cache_ok_def demo_commit_defs)
  have b: "vs_lookup demo_validators ''b'' = Some (demo_validator ''b'' 1)"
    using lookup_iff [of demo_validators "''b''"] wf by (simp add: vs_wf_def demo_commit_defs)
  show ?thesis
    using updateValidators_refines [OF wf, of "[demo_update ''d'' 5, demo_update ''b'' 0, demo_update ''a'' 7]"] b
    by (auto simp: set_update_def demo_update_def)
qed

definition demo_pair :: validator_set where
  "demo_pair = \<lparr>Validators = [demo_validator ''a'' 3, demo_validator ''c'' 1], Proposer = None, totalVotingPower = 0\<rparr>"

definition demo_pair_next :: validator_set where
  "demo_pair_next = \<lparr>Validators = [(demo_validator ''a'' 3)\<lparr>Accum := - 1\<rparr>, (demo_validator ''c'' 1)\<lparr>v_PubKey := None, Accum := 1\<rparr>],
     Proposer = Some ((demo_validator ''a'' 3)\<lparr>Accum := - 1\<rparr>), totalVotingPower = 4\<rparr>"

lemma demo_pair_update: "updateValidators demo_pair [demo_update ''c'' 1] = (None, demo_pair\<lparr>Validators := [demo_validator ''a'' 3, (demo_validator ''c'' 1)\<lparr>v_PubKey := None\<rparr>]\<rparr>)"
  by (simp add: updateValidators_def PB2TM_Validators_def demo_update_def update_validator_def GetByAddress_def Let_def demo_pair_def demo_validator_def
    search_address_def vs_Update_def) code_simp

lemma demo_pair_rotate: "IncrementAccum (demo_pair\<lparr>Validators := [demo_validator ''a'' 3, (demo_validator ''c'' 1)\<lparr>v_PubKey := None\<rparr>]\<rparr>) 1 = Inr demo_pair_next"
  by (simp add: IncrementAccum_eq distinct_addresses_def IncrementAccum_ref_def demo_pair_def demo_validator_def
      demo_pair_next_def mostest_def total_power_def TotalVotingPower_def sum_powers_def safeAddClip_eq safeSubClip_eq safeMulClip_eq clip64_def int64_defs
      add_accum_def sub_accum_def Let_def accum_key_def upt_rec)

end
