(* ===== verification/Applied_Chain.thy ===== *)
theory Applied_Chain
  imports Execution Block_Store
begin

text \<open>
  Chains of blocks that the executor applied one after the other, starting from a genesis
  document: what holds of the states, the database and the blocks, and when a block is applied.
\<close>

section \<open>Chains of applied blocks\<close>

text \<open>
  \<open>chain E A x ss bs\<close>: starting from a genesis state and a fresh database, the blocks \<open>bs\<close> were applied,
  \<open>ss\<close> are the states from the genesis state on, and \<open>x\<close> is the executor now. Attempts that failed
  may have happened in between; the state is kept and the effects on the executor stay. Between blocks
  the application and the mempool answer other requests, which leave the database of states alone.
\<close>

inductive chain :: "'e ext_scheme \<Rightarrow> 'a app_conn \<Rightarrow> 'a exec \<Rightarrow> state list \<Rightarrow> (block_id \<times> block) list \<Rightarrow> bool" for E A where
  chain_start: "MakeGenesisState E now doc = Inr (Inr s) \<Longrightarrow> ex_db x = SaveState E NewMemDB s \<Longrightarrow> chain E A x [s] []"
| chain_apply: "chain E A x ss bs \<Longrightarrow> ApplyBlock E A x (last ss) bid (Some b) = Inr (None, s', x') \<Longrightarrow>
    chain E A x' (ss @ [s']) (bs @ [(bid, b)])"
| chain_fail: "chain E A x ss bs \<Longrightarrow> ApplyBlock E A x (last ss) bid bo = Inr (Some err, s', x') \<Longrightarrow> chain E A x' ss bs"
| chain_other: "chain E A x ss bs \<Longrightarrow> ex_db x' = ex_db x \<Longrightarrow> chain E A x' ss bs"

definition linked :: "'e ext_scheme \<Rightarrow> state list \<Rightarrow> (block_id \<times> block) list \<Rightarrow> bool" where
  "linked E ss bs \<longleftrightarrow> (\<forall>i < length bs.
     validateBlock E (ss ! i) (Some (snd (bs ! i))) = Inr None \<and> st_LastBlockID (ss ! Suc i) = fst (bs ! i) \<and>
     LastValidators (ss ! Suc i) = st_Validators (ss ! i) \<and> st_ChainID (ss ! Suc i) = st_ChainID (ss ! i))"

lemma zero_params_invalid: "cp_Validate p = None \<Longrightarrow> p \<noteq> zero_params"
  by (auto simp: cp_Validate_def zero_params_def)

lemma genesis_state:
  assumes "MakeGenesisState E now doc = Inr (Inr s)"
  shows "LastBlockHeight s = 0" "st_Validators s \<noteq> None" "st_ConsensusParams s \<noteq> zero_params"
    "LastHeightValidatorsChanged s = 1" "LastHeightConsensusParamsChanged s = 1"
  using assms
  by (auto simp: MakeGenesisState_def zero_state_def dest!: ValidateAndComplete_ok(2) zero_params_invalid elim!: bindP_Inr_E
      split: prod.split_asm option.split_asm)

lemma ApplyBlock_state:
  assumes a: "ApplyBlock E A x s bid (Some b) = Inr (None, s', x')" and h: "LastBlockHeight s = int n" "int n + 1 < MaxInt64"
    and p: "st_ConsensusParams s \<noteq> zero_params"
  shows "validateBlock E s (Some b) = Inr None" "LastBlockHeight s' = int n + 1" "st_LastBlockID s' = bid" "st_ChainID s' = st_ChainID s"
    "LastValidators s' = st_Validators s" "st_Validators s' \<noteq> None" "st_ConsensusParams s' \<noteq> zero_params"
    "LastHeightValidatorsChanged s' = int n + 2 \<or>
       LastHeightValidatorsChanged s' = LastHeightValidatorsChanged s \<and> vset_view (st_Validators s') = vset_view (st_Validators s)"
    "LastHeightConsensusParamsChanged s' = int n + 2 \<or>
       LastHeightConsensusParamsChanged s' = LastHeightConsensusParamsChanged s \<and> st_ConsensusParams s' = st_ConsensusParams s"
    "\<exists>arz. ex_db x' = SaveState E (saveABCIResponses E (ex_db x) (int n + 1) arz) s'"
proof -
  obtain h1 arz s1 appHash where v: "validateBlock E s (Some b) = Inr None" "blk_Header (blk_hashed E b) = Some h1"
    and u: "updateState E s bid h1 arz = Inr (Inr s1)" and s': "s' = s1\<lparr>st_AppHash := appHash\<rparr>"
    and db: "ex_db x' = SaveState E (saveABCIResponses E (ex_db x) (hdr_Height h1) arz) s'"
    using ApplyBlock_ok [OF a] by (metis option.inject)
  then have "hdr_Height h1 = wrap64 (int n + 1)"
    using validateBlock_ok [OF v(1)] blk_hashed_valid h(1) by (metis option.inject)
  then have n: "hdr_Height h1 = int n + 1" "wrap64 (hdr_Height h1 + 1) = int n + 2" using h(2) by (simp_all add: int64_defs)
  note U = updateState_ok [OF u, unfolded n(2), unfolded n(1)]
  show "validateBlock E s (Some b) = Inr None" by (rule v)
  show "LastBlockHeight s' = int n + 1" "st_LastBlockID s' = bid" "st_ChainID s' = st_ChainID s" using U(2-4) s' by simp_all
  show "LastValidators s' = st_Validators s" "st_Validators s' \<noteq> None"
    "LastHeightValidatorsChanged s' = int n + 2 \<or>
       LastHeightValidatorsChanged s' = LastHeightValidatorsChanged s \<and> vset_view (st_Validators s') = vset_view (st_Validators s)"
    using U(1) s' by auto
  show "st_ConsensusParams s' \<noteq> zero_params" using U(5) s' p zero_params_invalid by auto
  show "LastHeightConsensusParamsChanged s' = int n + 2 \<or>
       LastHeightConsensusParamsChanged s' = LastHeightConsensusParamsChanged s \<and> st_ConsensusParams s' = st_ConsensusParams s"
    using U(5) s' by auto
  show "\<exists>arz. ex_db x' = SaveState E (saveABCIResponses E (ex_db x) (int n + 1) arz) s'" using db n(1) by auto
qed

lemma linked_snoc:
  assumes "linked E ss bs" "length ss = Suc (length bs)" "validateBlock E (last ss) (Some b) = Inr None"
    "st_LastBlockID s' = bid" "LastValidators s' = st_Validators (last ss)" "st_ChainID s' = st_ChainID (last ss)"
  shows "linked E (ss @ [s']) (bs @ [(bid, b)])"
proof -
  have "last ss = ss ! length bs" using assms(2) by (metis Suc_neq_Zero diff_Suc_1 last_conv_nth length_0_conv)
  then show ?thesis using assms by (auto simp: linked_def nth_append less_Suc_eq)
qed

lemma chain_inv:
  "chain E A x ss bs \<Longrightarrow> int (length ss) < MaxInt64 \<Longrightarrow> history E (ex_db x) ss \<and> length ss = Suc (length bs) \<and> linked E ss bs"
proof (induction rule: chain.induct)
  case (chain_start now doc s x)
  then show ?case using genesis_state [OF chain_start(1)] by (simp add: history_first db_read_def linked_def)
next
  case (chain_apply x ss bs bid b s' x')
  then have H: "history E (ex_db x) ss" and l: "length ss = Suc (length bs)" and L: "linked E ss bs" by simp_all
  have ls: "LastBlockHeight (last ss) = int (length bs)" "st_ConsensusParams (last ss) \<noteq> zero_params" "ss \<noteq> []"
    using H l by (auto simp: history_def last_conv_nth)
  have small: "int (length bs) + 1 < MaxInt64" using chain_apply.prems l by simp
  note S = ApplyBlock_state [OF chain_apply.hyps(2) ls(1) small ls(2)]
  obtain arz where db: "ex_db x' = SaveState E (saveABCIResponses E (ex_db x) (int (length bs) + 1) arz) s'" using S(10) by blast
  have "history E (ex_db x') (ss @ [s'])"
    unfolding db by (rule history_save [OF history_responses [OF H]]) (use S l small in auto)
  moreover have "linked E (ss @ [s']) (bs @ [(bid, b)])" using linked_snoc [OF L l S(1) S(3) S(5) S(4)] .
  ultimately show ?case using l by simp
next
  case (chain_fail x ss bs bid bo err s' x')
  then show ?case using ApplyBlock_fails [OF chain_fail.hyps(2)] history_responses by metis
qed simp

section \<open>Blocks that validate\<close>

lemma state_header_validates:
  assumes mk: "MakeBlock E now height txs (Some c) = Inr b" "blk_Header b = Some h"
    and b': "b' = b\<lparr>blk_Header := Some (state_header E s vs h)\<rparr>" and vs: "st_Validators s = Some vs"
    and height: "height = wrap64 (LastBlockHeight s + 1)"
    and c: "if height = 1 then Precommits c = [] else commit_ValidateBasic c = None \<and>
      (\<exists>lvs. LastValidators s = Some lvs \<and> VerifyCommit E lvs (st_ChainID s) (st_LastBlockID s) (wrap64 (height - 1)) c = Inr None)"
  shows "validateBlock E s (Some b') =
    Inr (if (\<Sum>t\<leftarrow>txs. int (bucket_count E height t)) = int (length txs) then None else Some (VeBasic WrongNumTxs))"
proof -
  obtain bs where bs: "foldP (place_tx E height) txs empty_buckets = Inr bs"
    and b: "b = fillHeader E \<lparr>blk_Header = Some (zero_header\<lparr>hdr_Height := height, hdr_Time := now, hdr_NumTxs := int (length txs)\<rparr>),
         blk_Data = Some \<lparr>TxBuckets = bs\<rparr>, blk_Commit = Some c\<rparr>"
    using mk(1) by (auto simp: MakeBlock_def bindP_eq_Inr)
  have sum: "TotalTxsInBuckets (blk_Data b') = (\<Sum>t\<leftarrow>txs. int (bucket_count E height t))"
    using place_all_total [OF bs] by (simp add: b' b fillHeader_def zero_header_def)
  have h: "hdr_Height h = height" "hdr_NumTxs h = int (length txs)" "hdr_DataHash h = data_Hash E (blk_Data b')" "blk_Commit b' = Some c"
    using mk(2) by (auto simp: b' b fillHeader_def zero_header_def)
  have f: "hdr_Height (state_header E s vs h) = height" "hdr_NumTxs (state_header E s vs h) = int (length txs)"
    "hdr_DataHash (state_header E s vs h) = data_Hash E (blk_Data b')" "blk_Header b' = Some (state_header E s vs h)"
    "hdr_ValidatorsHash (state_header E s vs h) = vs_Hash E vs" "hdr_TotalTxs (state_header E s vs h) = wrap64 (LastBlockTotalTx s + int (length txs))"
    "hdr_ChainID (state_header E s vs h) = st_ChainID s" "hdr_LastBlockID (state_header E s vs h) = st_LastBlockID s"
    "hdr_AppHash (state_header E s vs h) = st_AppHash s" "hdr_ConsensusHash (state_header E s vs h) = cp_Hash E (st_ConsensusParams s)"
    "hdr_LastResultsHash (state_header E s vs h) = st_LastResultsHash s"
    using h b' by (simp_all add: state_header_def)
  have basic: "blk_ValidateBasic E (Some b') = Inr (if (\<Sum>t\<leftarrow>txs. int (bucket_count E height t)) = int (length txs) then None else Some WrongNumTxs)"
    using c by (auto simp: blk_ValidateBasic_def f sum h)
  show ?thesis
  proof (cases "height = 1")
    case True
    then show ?thesis using c by (auto simp: validateBlock_def basic f sum h vs height)
  next
    case False
    then obtain lvs where lvs: "LastValidators s = Some lvs" "VerifyCommit E lvs (st_ChainID s) (st_LastBlockID s) (wrap64 (height - 1)) c = Inr None"
      using c by auto
    then have "int (length (Precommits c)) = vs_Size lvs" by (auto simp: VerifyCommit_def split: if_splits)
    then show ?thesis using False lvs by (auto simp: validateBlock_def basic f sum h vs height)
  qed
qed

section \<open>Blocks that are applied\<close>

text \<open>An application that answers every request without an error and removes no validator.\<close>

definition obliging :: "'a app_conn \<Rightarrow> bool" where
  "obliging A \<longleftrightarrow> answers A \<and>
     (\<forall>app. conn_Error A app = None \<and> (\<exists>app'. conn_FlushSync A app = Inr (None, app')) \<and>
       (\<forall>hash h vs. \<exists>app'. conn_BeginBlock A app hash h vs = Inr (None, app')) \<and>
       (\<forall>t h. \<exists>r. conn_DeliverTx A app t h = Inr r) \<and>
       (\<exists>eb app'. conn_EndBlock A app = Inr (Inr eb, app')) \<and>
       (\<forall>h. \<exists>g app'. conn_GetValidatorSet A app h = Inr (Inr g, app') \<and> (\<forall>v \<in> set (rgv_ValidatorSet g). av_Power v \<noteq> 0)) \<and>
       (\<exists>r app'. conn_Commit A app = Inr (Inr r, app')))"

text \<open>One that does not change the parameters either.\<close>

definition agreeable :: "'a app_conn \<Rightarrow> bool" where
  "agreeable A \<longleftrightarrow> obliging A \<and> (\<forall>app eb app'. conn_EndBlock A app = Inr (Inr eb, app') \<longrightarrow> ConsensusParamUpdates eb = None)"

text \<open>What \<open>updateState\<close> says of the parameters that the application asks for.\<close>

definition params_verdict :: "state \<Rightarrow> response_end_block \<Rightarrow> params_error option" where
  "params_verdict s eb = (if ConsensusParamUpdates eb = None then None
     else cp_Validate (cp_Update (st_ConsensusParams s) (ConsensusParamUpdates eb)))"

lemma deliver_all:
  assumes A: "obliging A"
  shows "i + length ts \<le> length rs \<Longrightarrow> \<exists>app' rs'. deliver_txs A h ts app rs i = Inr (None, app', rs') \<and> length rs' = length rs \<and>
    (\<forall>j < length rs. (j < i \<longrightarrow> rs ! j \<noteq> None) \<longrightarrow> j < i + length ts \<longrightarrow> rs' ! j \<noteq> None)"
proof (induction ts arbitrary: app rs i)
  case (Cons t ts)
  obtain r app1 where r: "conn_DeliverTx A app t h = Inr (r, app1)" using A unfolding obliging_def by (metis prod.exhaust)
  obtain app' rs' where rec: "deliver_txs A h ts app1 (rs[i := Some r]) (Suc i) = Inr (None, app', rs')" "length rs' = length rs"
      "\<forall>j < length rs. (j < Suc i \<longrightarrow> rs[i := Some r] ! j \<noteq> None) \<longrightarrow> j < Suc i + length ts \<longrightarrow> rs' ! j \<noteq> None"
    using Cons.IH [of "Suc i" "rs[i := Some r]" app1] Cons.prems by auto
  have "rs' ! j \<noteq> None" if "j < length rs" "j < i \<longrightarrow> rs ! j \<noteq> None" "j < i + length (t # ts)" for j
    using rec(3) [rule_format, of j] that by (cases "j = i") auto
  moreover have "deliver_txs A h (t # ts) app rs i = Inr (None, app', rs')"
    using A Cons.prems r rec(1) by (simp add: obliging_def)
  ultimately show ?case using rec(2) by blast
qed simp

lemma begin_info:
  assumes "validateBlock E s (Some b) = Inr None" "LastValidators s = Some lvs"
  shows "\<exists>sv. getBeginBlockValidatorInfo b (Some lvs) = Inr sv"
proof -
  obtain h c where hc: "blk_Header b = Some h" "blk_Commit b = Some c"
    and v: "hdr_Height h \<noteq> 1 \<Longrightarrow> VerifyCommit E lvs (st_ChainID s) (st_LastBlockID s) (wrap64 (hdr_Height h - 1)) c = Inr None"
    using validateBlock_ok [OF assms(1)] assms(2) by (metis option.inject)
  have "length (Precommits c) = length (Validators lvs)" if "hdr_Height h > 1"
    using that v by (auto simp: VerifyCommit_def vs_Size_def split: if_splits)
  moreover have "\<exists>sv. mapP (\<lambda>(i, v). bindP (deref (blk_Commit b)) (\<lambda>c.
      Inr \<lparr>sv_Validator = TM2PB_Validator v, SignedLastBlock = i < length (Precommits c) \<and> Precommits c ! i \<noteq> None\<rparr>)) xs = Inr sv" for xs
    by (induction xs) (auto simp: hc)
  ultimately show ?thesis by (auto simp: getBeginBlockValidatorInfo_def hc)
qed

lemma updated_nonempty:
  assumes "vs_wf vs" "Validators vs \<noteq> []" "\<forall>v \<in> set us. VotingPower v \<noteq> 0" "update_validators us vs = (e, vs')"
  shows "e = None \<and> vs_wf vs' \<and> Validators vs' \<noteq> []"
proof -
  obtain a where a: "vs_lookup vs a \<noteq> None"
    using assms(1,2) lookup_iff [of vs "v_Address (hd (Validators vs))" "hd (Validators vs)"] by (force simp: vs_wf_def)
  have "fold (vset.upd_map leaves) us m a \<noteq> None" if "m a \<noteq> None" for m
    using assms(3) that by (induction us arbitrary: m) (auto simp: vset.upd_map_def)
  then have "vs_lookup vs' a \<noteq> None" "e = None" "vs_wf vs'" using update_validators_refine [OF assms(1), of us] assms(4) a by auto
  then show ?thesis by (auto simp: vs_lookup_def GetByAddress_def Let_def)
qed

lemma txs_count: "(\<Sum>k\<leftarrow>bs. int (length (Txs k))) = int (length (concat (map Txs bs)))" for bs :: "tx_bucket list"
  by (induction bs) simp_all

lemma valid_header:
  assumes "validateBlock E s (Some b) = Inr None"
  shows "\<exists>h. blk_Header b = Some h \<and> blk_ValidateBasic E (Some b) = Inr None"
  by (rule validateBlock_ok [OF assms]) auto

lemma IncrementAccum_wf:
  assumes "vs_wf vs" "IncrementAccum vs 1 = Inr vs'"
  shows "vs_wf vs' \<and> (Validators vs' = [] \<longleftrightarrow> Validators vs = [])"
proof -
  have "vset_view (Some vs') = vset_view (Some vs)" by (rule IncrementAccum_view [OF assms(2)])
  then have v: "map v_view (Validators vs') = map v_view (Validators vs)" by (simp add: vset_view_def)
  have "map (\<lambda>t. fst t) (map v_view (Validators vs')) = map (\<lambda>t. fst t) (map v_view (Validators vs))"
    "map (\<lambda>t. snd (snd t)) (map v_view (Validators vs')) = map (\<lambda>t. snd (snd t)) (map v_view (Validators vs))"
    using v by simp_all
  then have m: "map v_Address (Validators vs') = map v_Address (Validators vs)" "map VotingPower (Validators vs') = map VotingPower (Validators vs)"
    by (simp_all add: comp_def)
  have sp: "sum_powers vals = fold (\<lambda>p acc. safeAddClip acc p) (map VotingPower vals) 0" for vals by (simp add: sum_powers_def fold_map comp_def)
  have "totalVotingPower vs' = total_power vs" using assms(2) by (auto simp: IncrementAccum_def bindP_eq_Inr)
  then have "totalVotingPower vs' = sum_powers (Validators vs')" using assms(1) by (simp add: vs_wf_def total_power_eq sp m)
  moreover have "Validators vs' = [] \<longleftrightarrow> Validators vs = []" using map_eq_imp_length_eq [OF v] by auto
  ultimately show ?thesis using assms(1) m(1) by (simp add: vs_wf_def sorted_vals_def cache_ok_def)
qed

text \<open>A state from which the chain can go on.\<close>

definition state_good :: "state \<Rightarrow> bool" where
  "state_good s \<longleftrightarrow> LastValidators s \<noteq> None \<and> (\<exists>vs. st_Validators s = Some vs \<and> vs_wf vs \<and> Validators vs \<noteq> [])"

lemma exec_succeeds:
  assumes A: "obliging A" and v: "validateBlock E s (Some b) = Inr None" and l: "LastValidators s = Some lvs" and d: "blk_Data b = Some d"
  shows "\<exists>rs eb g app'. execBlockOnProxyApp E A app b (LastValidators s) =
      Inr (Inr \<lparr>ar_DeliverTx = rs, ar_EndBlock = Some eb, ar_GetValidatorSet = Some g\<rparr>, app') \<and>
    (\<exists>app2 app3. conn_EndBlock A app2 = Inr (Inr eb, app3)) \<and> (\<forall>v \<in> set (rgv_ValidatorSet g). av_Power v \<noteq> 0) \<and> (\<forall>r \<in> set rs. r \<noteq> None)"
proof -
  obtain h where h: "blk_Header b = Some h" and basic: "blk_ValidateBasic E (Some b) = Inr None" using valid_header [OF v] by blast
  have n: "hdr_NumTxs h = (\<Sum>k\<leftarrow>TxBuckets d. int (length (Txs k)))"
    using basic h d by (auto simp: blk_ValidateBasic_def split: if_splits)
  let ?ts = "concat (map Txs (TxBuckets d))"
  have len: "nat (hdr_NumTxs h) = length ?ts" "0 \<le> hdr_NumTxs h"
    unfolding n txs_count by simp_all
  obtain sv where sv: "getBeginBlockValidatorInfo b (LastValidators s) = Inr sv" using begin_info [OF v l] l by auto
  obtain app1 where app1: "conn_BeginBlock A app (blk_Hash E (Some b)) (TM2PB_Header h) sv = Inr (None, app1)"
    using A unfolding obliging_def by blast
  obtain app2 rs where dl: "deliver_txs A (hdr_Height h) ?ts app1 (replicate (length ?ts) None) 0 = Inr (None, app2, rs)"
      "length rs = length ?ts" "\<forall>j < length ?ts. rs ! j \<noteq> None"
    using deliver_all [OF A, of 0 ?ts "replicate (length ?ts) None" "hdr_Height h" app1] by auto
  obtain eb app3 where eb: "conn_EndBlock A app2 = Inr (Inr eb, app3)"
    using A unfolding obliging_def by blast
  obtain g app4 where g: "conn_GetValidatorSet A app3 (wrap64 (hdr_Height h + 1)) = Inr (Inr g, app4)" "\<forall>v \<in> set (rgv_ValidatorSet g). av_Power v \<noteq> 0"
    using A unfolding obliging_def by blast
  have "execBlockOnProxyApp E A app b (LastValidators s) =
      Inr (Inr \<lparr>ar_DeliverTx = rs, ar_EndBlock = Some eb, ar_GetValidatorSet = Some g\<rparr>, app4)"
    unfolding execBlockOnProxyApp_def sv blk_hashed_valid [OF basic] h
    using dl(1) len by (simp add: NewABCIResponses_def h d app1 eb g(1))
  moreover have "\<forall>r \<in> set rs. r \<noteq> None" using dl(2,3) by (metis in_set_conv_nth)
  ultimately show ?thesis using eb g(2) by blast
qed

lemma update_succeeds:
  assumes s: "state_good s"
    and g: "\<forall>v \<in> set (rgv_ValidatorSet g). av_Power v \<noteq> 0" and rs: "\<forall>r \<in> set rs. r \<noteq> None"
  shows "case params_verdict s eb of
      None \<Rightarrow> \<exists>s'. updateState E s bid h \<lparr>ar_DeliverTx = rs, ar_EndBlock = Some eb, ar_GetValidatorSet = Some g\<rparr> = Inr (Inr s') \<and> state_good s' \<and>
        st_ConsensusParams s' = cp_Update (st_ConsensusParams s) (ConsensusParamUpdates eb)
    | Some e \<Rightarrow> updateState E s bid h \<lparr>ar_DeliverTx = rs, ar_EndBlock = Some eb, ar_GetValidatorSet = Some g\<rparr> = Inr (Inl (BadConsensusParams e))"
proof -
  obtain vs where vs: "st_Validators s = Some vs" "vs_wf vs" "Validators vs \<noteq> []" using s by (auto simp: state_good_def)
  have r: "\<exists>rh. ResultsHash E \<lparr>ar_DeliverTx = rs, ar_EndBlock = Some eb, ar_GetValidatorSet = Some g\<rparr> = Inr rh"
  proof -
    have "\<exists>l. NewResults rs = Inr l" unfolding NewResults_def
      using rs by (induction rs) (auto simp: NewResultFromResponse_def)
    then show ?thesis by (auto simp: ResultsHash_def)
  qed
  obtain e vs' where u: "updateValidators vs (rgv_ValidatorSet g) = (e, vs')" by fastforce
  have n: "e = None \<and> vs_wf vs' \<and> Validators vs' \<noteq> []"
    using updated_nonempty [OF vs(2,3) _ u [unfolded updateValidators_def]] g by (simp add: PB2TM_Validators_def)
  define vs1 where "vs1 = (if rgv_ValidatorSet g \<noteq> [] then vs' else vs)"
  have "vs_wf vs1" "Validators vs1 \<noteq> []" using n vs by (simp_all add: vs1_def)
  moreover from this have "IncrementAccum vs1 1 = Inr (IncrementAccum_ref vs1 1)"
    using IncrementAccum_eq sorted_vals_distinct by (simp add: vs_wf_def)
  moreover from calculation have "vs_wf (IncrementAccum_ref vs1 1) \<and> Validators (IncrementAccum_ref vs1 1) \<noteq> []"
    using IncrementAccum_wf by blast
  ultimately show ?thesis
    using vs(1) r n
    by (cases "rgv_ValidatorSet g = []")
      (auto simp: updateState_def Let_def vs1_def state_good_def u params_verdict_def cp_Update_def split: option.split)
qed

lemma apply_outcome:
  assumes A: "obliging A" and v: "validateBlock E s (Some b) = Inr None" and s: "state_good s" and d: "blk_Data b \<noteq> None"
    and m: "mp_inv (ex_mempool x)"
  shows "\<exists>arz eb app' app2 app3. execBlockOnProxyApp E A (ex_app x) b (LastValidators s) = Inr (Inr arz, app') \<and> ar_EndBlock arz = Some eb \<and>
    conn_EndBlock A app2 = Inr (Inr eb, app3) \<and>
    (case params_verdict s eb of
       None \<Rightarrow> \<exists>s' x'. ApplyBlock E A x s bid (Some b) = Inr (None, s', x') \<and> state_good s' \<and> mp_inv (ex_mempool x') \<and>
         st_ConsensusParams s' = cp_Update (st_ConsensusParams s) (ConsensusParamUpdates eb)
     | Some e \<Rightarrow> \<exists>x'. ApplyBlock E A x s bid (Some b) = Inr (Some (ErrUpdate (BadConsensusParams e)), s, x'))"
proof -
  obtain h where h: "blk_Header b = Some h" and basic: "blk_ValidateBasic E (Some b) = Inr None" using valid_header [OF v] by blast
  obtain d' lvs where d': "blk_Data b = Some d'" "LastValidators s = Some lvs" using d s by (auto simp: state_good_def)
  obtain rs eb g app1 app2 app3 where e: "execBlockOnProxyApp E A (ex_app x) b (LastValidators s) =
      Inr (Inr \<lparr>ar_DeliverTx = rs, ar_EndBlock = Some eb, ar_GetValidatorSet = Some g\<rparr>, app1)" "conn_EndBlock A app2 = Inr (Inr eb, app3)"
      "\<forall>v \<in> set (rgv_ValidatorSet g). av_Power v \<noteq> 0" "\<forall>r \<in> set rs. r \<noteq> None"
    using exec_succeeds [OF A v d'(2,1)] by blast
  note u = update_succeeds [OF s e(3,4), where eb = eb and E = E and bid = bid and h = h]
  have "case params_verdict s eb of
       None \<Rightarrow> \<exists>s' x'. ApplyBlock E A x s bid (Some b) = Inr (None, s', x') \<and> state_good s' \<and> mp_inv (ex_mempool x') \<and>
         st_ConsensusParams s' = cp_Update (st_ConsensusParams s) (ConsensusParamUpdates eb)
     | Some e \<Rightarrow> \<exists>x'. ApplyBlock E A x s bid (Some b) = Inr (Some (ErrUpdate (BadConsensusParams e)), s, x')"
  proof (cases "params_verdict s eb")
    case None
    then obtain s1 where u1: "updateState E s bid h \<lparr>ar_DeliverTx = rs, ar_EndBlock = Some eb, ar_GetValidatorSet = Some g\<rparr> = Inr (Inr s1)" "state_good s1"
        "st_ConsensusParams s1 = cp_Update (st_ConsensusParams s) (ConsensusParamUpdates eb)" using u by auto
    obtain app4 where f: "conn_FlushSync A app1 = Inr (None, app4)" using A unfolding obliging_def by blast
    obtain r app5 where c: "conn_Commit A app4 = Inr (Inr r, app5)" using A unfolding obliging_def by blast
    obtain mem app6 where mu: "mp_Update A app5 (ex_mempool x) (hdr_Height h) (TxBuckets d') = Inr (mem, app6)" "mp_inv mem"
      using Update_inv [OF m, of A app5 "hdr_Height h" "TxBuckets d'"] A unfolding obliging_def by blast
    show ?thesis
      using None u1(2,3) by (simp add: ApplyBlock_def v e(1) blk_hashed_valid [OF basic] u1(1) Let_def ex_Commit_def f c h d'(1) mu state_good_def)
  next
    case (Some err)
    then show ?thesis using u by (simp add: ApplyBlock_def v e(1) blk_hashed_valid [OF basic] Let_def h)
  qed
  then show ?thesis using e(1,2) by (intro exI [of _ "\<lparr>ar_DeliverTx = rs, ar_EndBlock = Some eb, ar_GetValidatorSet = Some g\<rparr>"] exI conjI) simp_all
qed

lemma apply_succeeds:
  assumes A: "agreeable A" and v: "validateBlock E s (Some b) = Inr None" and s: "state_good s" and d: "blk_Data b \<noteq> None"
    and m: "mp_inv (ex_mempool x)"
  shows "\<exists>s' x'. ApplyBlock E A x s bid (Some b) = Inr (None, s', x') \<and> state_good s' \<and> mp_inv (ex_mempool x')"
proof -
  have "obliging A" using A by (simp add: agreeable_def)
  from apply_outcome [OF this v s d m, of bid] obtain eb app2 app3 where eb: "conn_EndBlock A app2 = Inr (Inr eb, app3)"
    and o: "params_verdict s eb = None \<longrightarrow> (\<exists>s' x'. ApplyBlock E A x s bid (Some b) = Inr (None, s', x') \<and> state_good s' \<and> mp_inv (ex_mempool x'))"
    by (auto split: option.split_asm)
  have "ConsensusParamUpdates eb = None" using A eb unfolding agreeable_def by blast
  then show ?thesis using o by (simp add: params_verdict_def)
qed

section \<open>A small chain\<close>

text \<open>One validator, an application that accepts everything, and two empty blocks.\<close>

definition demo_env :: dmc_ext where "demo_env = with_codec demo_dmc"

lemma demo_env_simps [simp]:
  "sha256 demo_env = (\<lambda>b. b)" "ed25519_Verify demo_env = (\<lambda>k m s. s = k @ m)" "MarshalJSON demo_env (JsVote v) = cbid_Hash (cv_BlockID v)"
  "amino_ok demo_env"
  by (simp_all add: demo_env_def) (simp_all add: demo_dmc_def demo_ext_def ext.defs dmc_ext.defs)

definition demo_doc :: genesis_doc where
  "demo_doc = \<lparr>GenesisTime = 5, gd_ChainID = ''chain'', gd_ConsensusParams = None,
     gd_Validators = [\<lparr>gv_PubKey = Some (PubKeyEd25519 ''k''), gv_Power = 1, gv_Name = ''v''\<rparr>], gd_AppHash = [], AppStateJSON = [], AppOptions = []\<rparr>"

definition demo_vset :: validator_set where
  "demo_vset = \<lparr>Validators = [\<lparr>v_Address = ''k'', v_PubKey = Some (PubKeyEd25519 ''k''), VotingPower = 1, Accum = 0\<rparr>],
     Proposer = Some \<lparr>v_Address = ''k'', v_PubKey = Some (PubKeyEd25519 ''k''), VotingPower = 1, Accum = 0\<rparr>, totalVotingPower = 1\<rparr>"

lemma demo_genesis_set: "NewValidatorSet (Some [NewValidator demo_env (PubKeyEd25519 ''k'') 1]) = Inr demo_vset"
  by (simp add: NewValidatorSet_def NewValidator_def tmhash_Sum_def tmhash_Size_def IncrementAccum_eq distinct_addresses_def IncrementAccum_ref_def
      demo_vset_def mostest_def total_power_def TotalVotingPower_def sum_powers_def safeAddClip_eq safeSubClip_eq safeMulClip_eq clip64_def int64_defs
      add_accum_def sub_accum_def Let_def)

definition demo_state :: state where
  "demo_state = zero_state\<lparr>st_ChainID := ''chain'', LastBlockTime := 5, st_Validators := Some demo_vset,
     LastValidators := Some \<lparr>Validators = [], Proposer = None, totalVotingPower = 0\<rparr>, LastHeightValidatorsChanged := 1,
     st_ConsensusParams := DefaultConsensusParams, LastHeightConsensusParamsChanged := 1, st_AppHash := []\<rparr>"

lemma demo_genesis: "MakeGenesisState demo_env 0 demo_doc = Inr (Inr demo_state)"
proof -
  have "ValidateAndComplete 0 demo_doc = (None, demo_doc\<lparr>gd_ConsensusParams := Some DefaultConsensusParams\<rparr>)"
    by (simp add: ValidateAndComplete_def demo_doc_def zero_time_def)
  moreover have "mapP (genesis_val demo_env) (gd_Validators demo_doc) = Inr [NewValidator demo_env (PubKeyEd25519 ''k'') 1]"
    by (simp add: demo_doc_def genesis_val_def)
  moreover have "NewValidatorSet None = Inr \<lparr>Validators = [], Proposer = None, totalVotingPower = 0\<rparr>" by (simp add: NewValidatorSet_def)
  ultimately show ?thesis using demo_genesis_set by (simp add: MakeGenesisState_def demo_state_def) (simp add: demo_doc_def)
qed

definition demo_precommits :: "block_id \<Rightarrow> commit" where
  "demo_precommits b = \<lparr>commit_BlockID = b, Precommits = [Some \<lparr>ValidatorAddress = ''k'', ValidatorIndex = 0, vote_Height = 1, vote_Round = 0,
     vote_Timestamp = 0, vote_Type = 2, vote_BlockID = b, vote_Signature = Some (SignatureEd25519 (''k'' @ bid_Hash b))\<rparr>]\<rparr>"

lemma demo_precommits_ok:
  "VerifyCommit demo_env demo_vset ''chain'' b 1 (demo_precommits b) = Inr None"
  "bid_Hash b \<noteq> [] \<Longrightarrow> commit_ValidateBasic (demo_precommits b) = None"
  by (simp_all add: VerifyCommit_def demo_precommits_def demo_vset_def vs_Size_def commit_Height_def commit_Round_def FirstPrecommit_def
      GetByIndex_def VoteTypePrecommit_def vote_SignBytes_def CanonicalVote_def CanonicalBlockID_def wrap64_def two_thirds_def go_quot_def
      total_power_def TotalVotingPower_def commit_ValidateBasic_def bid_IsZero_def)

lemma demo_state_good: "state_good demo_state"
  by (simp add: state_good_def demo_state_def zero_state_def demo_vset_def vs_wf_def sorted_vals_def cache_ok_def sum_powers_def safeAddClip_eq clip64_def int64_defs)

lemma demo_agreeable: "agreeable (demo_conn bad)"
  by (simp add: agreeable_def obliging_def answers_def demo_conn_def)

lemma demo_block_for:
  assumes vs: "st_Validators s = Some vs" and height: "height = wrap64 (LastBlockHeight s + 1)"
    and c: "if height = 1 then Precommits c = [] else commit_ValidateBasic c = None \<and>
      (\<exists>lvs. LastValidators s = Some lvs \<and> VerifyCommit demo_env lvs (st_ChainID s) (st_LastBlockID s) (wrap64 (height - 1)) c = Inr None)"
  shows "\<exists>b. validateBlock demo_env s (Some b) = Inr None \<and> blk_Data b \<noteq> None"
proof -
  obtain b where b: "MakeBlock demo_env 0 height [] (Some c) = Inr b" by (simp add: MakeBlock_def)
  obtain h where h: "blk_Header b = Some h" "blk_Data b \<noteq> None" using b by (auto simp: MakeBlock_def fillHeader_def zero_header_def)
  show ?thesis using state_header_validates [OF b h(1) refl vs height c] h(2) by (auto intro!: exI)
qed

definition demo_exec :: "nat exec" where
  "demo_exec = \<lparr>ex_db = SaveState demo_env NewMemDB demo_state, ex_app = 0, ex_mempool = NewMempool 10 10 True True 0\<rparr>"

lemma demo_chain:
  assumes "bid_Hash b1 \<noteq> []"
  shows "\<exists>x ss k1 k2. chain demo_env (demo_conn {}) x ss [(b1, k1), (b2, k2)] \<and> length ss = 3"
proof -
  have s0: "st_Validators demo_state = Some demo_vset" "LastBlockHeight demo_state = 0" "st_ConsensusParams demo_state \<noteq> zero_params"
      "st_ChainID demo_state = ''chain''"
    by (simp_all add: demo_state_def zero_state_def DefaultConsensusParams_def zero_params_def DefaultBlockSize_def)
  have one: "wrap64 (LastBlockHeight demo_state + 1) = 1" by (simp add: s0 wrap64_def)
  obtain k1 where k1: "validateBlock demo_env demo_state (Some k1) = Inr None" "blk_Data k1 \<noteq> None"
    using demo_block_for [OF s0(1) one [symmetric], of "\<lparr>commit_BlockID = zero_bid, Precommits = []\<rparr>"] by auto
  have m0: "mp_inv (ex_mempool demo_exec)" by (simp add: demo_exec_def NewMempool_inv)
  obtain s1 x1 where a1: "ApplyBlock demo_env (demo_conn {}) demo_exec demo_state b1 (Some k1) = Inr (None, s1, x1)"
      and g1: "state_good s1" "mp_inv (ex_mempool x1)"
    using apply_succeeds [OF demo_agreeable k1(1) demo_state_good k1(2) m0] by blast
  note S = ApplyBlock_state [OF a1, of 0, simplified s0, simplified]
  have s1: "LastBlockHeight s1 = 1" "st_LastBlockID s1 = b1" "st_ChainID s1 = ''chain''" "LastValidators s1 = Some demo_vset"
    using S by (simp_all add: s0 int64_defs)
  obtain vs1 where vs1: "st_Validators s1 = Some vs1" using g1 by (auto simp: state_good_def)
  have two: "2 = wrap64 (LastBlockHeight s1 + 1)" "wrap64 1 = 1" by (simp_all add: s1 wrap64_def)
  obtain k2 where k2: "validateBlock demo_env s1 (Some k2) = Inr None" "blk_Data k2 \<noteq> None"
    using demo_block_for [OF vs1 two(1), of "demo_precommits b1"] demo_precommits_ok assms by (auto simp: s1 two(2))
  obtain s2 x2 where a2: "ApplyBlock demo_env (demo_conn {}) x1 s1 b2 (Some k2) = Inr (None, s2, x2)"
    using apply_succeeds [OF demo_agreeable k2(1) g1(1) k2(2) g1(2)] by blast
  have "chain demo_env (demo_conn {}) demo_exec [demo_state] []"
    by (rule chain_start [OF demo_genesis]) (simp add: demo_exec_def)
  then have "chain demo_env (demo_conn {}) x1 [demo_state, s1] [(b1, k1)]" using chain_apply [of _ _ _ "[demo_state]" "[]" b1 k1] a1 by simp
  then have "chain demo_env (demo_conn {}) x2 [demo_state, s1, s2] [(b1, k1), (b2, k2)]"
    using chain_apply [of _ _ _ "[demo_state, s1]" "[(b1, k1)]" b2 k2] a2 by simp
  then show ?thesis by fastforce
qed

section \<open>Properties\<close>

text \<open>
  C10: applied chains are certified. Of two consecutive applied blocks, the second is at the next
  height, names the block id under which the first was applied as its predecessor, and carries a commit for that
  id which the validators of the first block's height verify; and it is those validators
  whose hash the header of the first block has.
\<close>

theorem Applied_chain_certified:
  assumes "chain E A x ss bs" "int (length ss) < MaxInt64" "bs ! i = (bid, b)" "bs ! Suc i = (bid', b')" "Suc i < length bs"
  shows "\<exists>h h' c' vs. blk_Header b = Some h \<and> blk_Header b' = Some h' \<and> blk_Commit b' = Some c' \<and> st_Validators (ss ! i) = Some vs \<and>
    hdr_Height h = int i + 1 \<and> hdr_Height h' = int i + 2 \<and> hdr_LastBlockID h' = bid \<and> hdr_ValidatorsHash h = vs_Hash E vs \<and>
    VerifyCommit E vs (st_ChainID (ss ! i)) bid (int i + 1) c' = Inr None"
proof -
  have H: "history E (ex_db x) ss" and l: "length ss = Suc (length bs)" and L: "linked E ss bs" using chain_inv [OF assms(1,2)] by blast+
  have ht: "LastBlockHeight (ss ! i) = int i" "LastBlockHeight (ss ! Suc i) = int i + 1" using H l assms(5) by (auto simp: history_def)
  have w: "wrap64 (int i + 1) = int i + 1" "wrap64 (1 + int i) = int i + 1" "wrap64 (int i + 1 + 1) = int i + 2" using assms(2,5) l by (simp_all add: int64_defs)
  have 1: "validateBlock E (ss ! i) (Some b) = Inr None" "st_LastBlockID (ss ! Suc i) = bid" "LastValidators (ss ! Suc i) = st_Validators (ss ! i)"
      "st_ChainID (ss ! Suc i) = st_ChainID (ss ! i)" and 2: "validateBlock E (ss ! Suc i) (Some b') = Inr None"
    using L [unfolded linked_def, rule_format, of i] L [unfolded linked_def, rule_format, of "Suc i"] assms(3-5) by simp_all
  obtain h vs where b: "blk_Header b = Some h" "st_Validators (ss ! i) = Some vs" "hdr_Height h = int i + 1" "hdr_ValidatorsHash h = vs_Hash E vs"
    by (rule validateBlock_ok [OF 1(1)]) (use ht w in auto)
  obtain h' c' where "blk_Header b' = Some h'" "blk_Commit b' = Some c'" "hdr_Height h' = int i + 2" "hdr_LastBlockID h' = bid"
      "VerifyCommit E vs (st_ChainID (ss ! i)) bid (int i + 1) c' = Inr None"
    by (rule validateBlock_ok [OF 2]) (use ht w 1 b in auto)
  with b show ?thesis by blast
qed

theorem Applied_chain_certified_witness:
  "\<exists>(ss :: state list) (k2 :: block) c h'. length ss = 3 \<and> blk_Commit k2 = Some c \<and> blk_Header k2 = Some h' \<and> hdr_LastBlockID h' = demo_bid ''h'' \<and>
    (\<exists>vs. st_Validators (ss ! 0) = Some vs \<and> VerifyCommit demo_env vs (st_ChainID (ss ! 0)) (demo_bid ''h'') 1 c = Inr None)"
proof -
  obtain x ss k1 k2 where c: "chain demo_env (demo_conn {}) x ss [(demo_bid ''h'', k1), (demo_bid ''i'', k2)]" "length ss = 3"
    using demo_chain [of "demo_bid ''h''" "demo_bid ''i''"] by (auto simp: demo_bid_def)
  obtain h' c' vs where "blk_Header k2 = Some h'" "blk_Commit k2 = Some c'" "st_Validators (ss ! 0) = Some vs" "hdr_LastBlockID h' = demo_bid ''h''"
      "VerifyCommit demo_env vs (st_ChainID (ss ! 0)) (demo_bid ''h'') 1 c' = Inr None"
    using Applied_chain_certified [OF c(1), of 0 "demo_bid ''h''" k1 "demo_bid ''i''" k2] c(2) by (auto simp: int64_defs)
  then show ?thesis using c(2) by blast
qed

text \<open>
  C11: the past is on record. After any chain of applied blocks and failed attempts, the database loads
  the latest state, and for each height the validators, with their keys and powers, and the
  consensus parameters that were in force there; for greater heights it reports that
  there are none. The accums of a loaded set are those of the last change.
\<close>

theorem Chain_history:
  assumes "amino_ok E" "chain E A x ss bs" "int (length ss) < MaxInt64"
  shows "LoadState E (ex_db x) = Inr (exported_state (last ss)) \<and>
    (\<forall>i < length ss. (\<exists>vs. LoadValidators E (ex_db x) (int i + 1) = Inr (Inr (Some vs)) \<and> vset_view (Some vs) = vset_view (st_Validators (ss ! i))) \<and>
       LoadConsensusParams E (ex_db x) (int i + 1) = Inr (Inr (st_ConsensusParams (ss ! i)))) \<and>
    (\<forall>h > int (length ss). LoadValidators E (ex_db x) h = Inr (Inl (ErrNoValSetForHeight h)))"
proof -
  have H: "history E (ex_db x) ss" using chain_inv [OF assms(2,3)] by blast
  show ?thesis
    using history_state [OF assms(1) H] history_validators [OF assms(1) H] history_params [OF assms(1) H] history_beyond(1) [OF H] by blast
qed

theorem Chain_history_witness:
  "\<exists>db (ss :: state list). length ss = 3 \<and> LoadState demo_env db = Inr (exported_state (last ss)) \<and>
    (\<exists>vs. LoadValidators demo_env db 2 = Inr (Inr (Some vs)) \<and> vset_view (Some vs) = vset_view (st_Validators (ss ! 1)))"
proof -
  obtain x ss k1 k2 where c: "chain demo_env (demo_conn {}) x ss [(demo_bid ''h'', k1), (demo_bid ''i'', k2)]" "length ss = 3"
    using demo_chain [of "demo_bid ''h''" "demo_bid ''i''"] by (auto simp: demo_bid_def)
  note H = Chain_history [OF demo_env_simps(4) c(1)]
  have "\<exists>vs. LoadValidators demo_env (ex_db x) 2 = Inr (Inr (Some vs)) \<and> vset_view (Some vs) = vset_view (st_Validators (ss ! 1))"
    using H [THEN conjunct2, THEN conjunct1, rule_format, of 1] c(2) by (simp add: int64_defs)
  then show ?thesis using H c(2) by (auto simp: int64_defs)
qed

text \<open>
  C16: what the executor does with a block that validates, when the application answers all requests and removes
  no validator. If the parameters it asks for at the end of the block, if any, are valid, the block is
  applied without panic or error, and the state that results has validators again and these parameters;
  otherwise an error is returned with the old state. But a block without data, which validates if its header says
  so, makes the executor dereference nil.
\<close>

theorem Valid_block_is_applied:
  assumes "obliging A" "validateBlock E s (Some b) = Inr None" "state_good s" "mp_inv (ex_mempool x)"
  shows "if blk_Data b \<noteq> None then
      \<exists>arz eb app' app2 app3. execBlockOnProxyApp E A (ex_app x) b (LastValidators s) = Inr (Inr arz, app') \<and> ar_EndBlock arz = Some eb \<and>
        conn_EndBlock A app2 = Inr (Inr eb, app3) \<and>
        (case params_verdict s eb of
           None \<Rightarrow> \<exists>s' x'. ApplyBlock E A x s bid (Some b) = Inr (None, s', x') \<and> state_good s' \<and>
             st_ConsensusParams s' = cp_Update (st_ConsensusParams s) (ConsensusParamUpdates eb)
         | Some e \<Rightarrow> \<exists>x'. ApplyBlock E A x s bid (Some b) = Inr (Some (ErrUpdate (BadConsensusParams e)), s, x'))
    else ApplyBlock E A x s bid (Some b) = Inl NilDereference"
proof (cases "blk_Data b")
  case None
  obtain h where h: "blk_Header b = Some h" and basic: "blk_ValidateBasic E (Some b) = Inr None" using valid_header [OF assms(2)] by blast
  have n: "hdr_NumTxs h = 0" using basic h None by (auto simp: blk_ValidateBasic_def TotalTxsInBuckets_def split: if_splits)
  obtain lvs sv where sv: "LastValidators s = Some lvs" "getBeginBlockValidatorInfo b (Some lvs) = Inr sv"
    using assms(3) begin_info [OF assms(2)] unfolding state_good_def by blast
  obtain app' where "conn_BeginBlock A (ex_app x) (blk_Hash E (Some b)) (TM2PB_Header h) sv = Inr (None, app')"
    using assms(1) unfolding obliging_def by blast
  then have "execBlockOnProxyApp E A (ex_app x) b (LastValidators s) = Inl NilDereference"
    by (simp add: execBlockOnProxyApp_def NewABCIResponses_def h n sv blk_hashed_valid [OF basic] None)
  then show ?thesis using None by (simp add: ApplyBlock_def assms(2))
next
  case (Some d)
  then have d: "blk_Data b \<noteq> None" by simp
  from apply_outcome [OF assms(1-3) d assms(4), of bid] obtain arz eb app' app2 app3 where
    o: "execBlockOnProxyApp E A (ex_app x) b (LastValidators s) = Inr (Inr arz, app')" "ar_EndBlock arz = Some eb" "conn_EndBlock A app2 = Inr (Inr eb, app3)"
      "case params_verdict s eb of
       None \<Rightarrow> \<exists>s' x'. ApplyBlock E A x s bid (Some b) = Inr (None, s', x') \<and> state_good s' \<and> mp_inv (ex_mempool x') \<and>
         st_ConsensusParams s' = cp_Update (st_ConsensusParams s) (ConsensusParamUpdates eb)
       | Some e \<Rightarrow> \<exists>x'. ApplyBlock E A x s bid (Some b) = Inr (Some (ErrUpdate (BadConsensusParams e)), s, x')" by blast
  show ?thesis unfolding if_P [OF d]
    by (intro exI [of _ arz] exI [of _ eb] exI [of _ app'] exI [of _ app2] exI [of _ app3] conjI o(1-3)) (use o(4) in \<open>auto split: option.split_asm option.split\<close>)
qed

text \<open>An application that asks for blocks of 200 MB.\<close>

definition greedy_conn :: "nat app_conn" where
  "greedy_conn = (demo_conn {})\<lparr>conn_EndBlock := (\<lambda>a. Inr (Inr \<lparr>ValidatorUpdates = [], ConsensusParamUpdates =
     Some \<lparr>acp_BlockSize = Some \<lparr>bs_MaxBytes = 200000000, bs_MaxTxs = 0, bs_MaxGas = 0\<rparr>, acp_TxSize = None, acp_BlockGossip = None\<rparr>\<rparr>, a))\<rparr>"

lemma greedy_conn_props:
  "obliging greedy_conn" "conn_EndBlock greedy_conn a = Inr (Inr eb, a') \<Longrightarrow> params_verdict demo_state eb = Some MaxBytesTooBig"
  by (auto simp: greedy_conn_def obliging_def answers_def demo_conn_def params_verdict_def cp_Update_def cp_Validate_def pos_or_def
      demo_state_def DefaultConsensusParams_def MaxBlockSizeBytes_def DefaultBlockGossip_def)

theorem Valid_block_is_applied_witness:
  "\<exists>b s' x' x''. ApplyBlock demo_env (demo_conn {}) demo_exec demo_state (demo_bid ''h'') (Some b) = Inr (None, s', x') \<and> state_good s' \<and>
     ApplyBlock demo_env greedy_conn demo_exec demo_state (demo_bid ''h'') (Some b) =
       Inr (Some (ErrUpdate (BadConsensusParams MaxBytesTooBig)), demo_state, x'')"
proof -
  have s0: "st_Validators demo_state = Some demo_vset" "1 = wrap64 (LastBlockHeight demo_state + 1)"
    by (simp_all add: demo_state_def zero_state_def wrap64_def)
  obtain b where b: "validateBlock demo_env demo_state (Some b) = Inr None" "blk_Data b \<noteq> None"
    using demo_block_for [OF s0, of "\<lparr>commit_BlockID = zero_bid, Precommits = []\<rparr>"] by auto
  have m: "mp_inv (ex_mempool demo_exec)" by (simp add: demo_exec_def NewMempool_inv)
  have "obliging (demo_conn {})" using demo_agreeable by (simp add: agreeable_def)
  from Valid_block_is_applied [OF this b(1) demo_state_good m, of "demo_bid ''h''"] b(2) obtain s' x' where
    "ApplyBlock demo_env (demo_conn {}) demo_exec demo_state (demo_bid ''h'') (Some b) = Inr (None, s', x')" "state_good s'"
    by (auto simp: demo_conn_def params_verdict_def)
  moreover from Valid_block_is_applied [OF greedy_conn_props(1) b(1) demo_state_good m, of "demo_bid ''h''"] b(2) obtain x'' where
    "ApplyBlock demo_env greedy_conn demo_exec demo_state (demo_bid ''h'') (Some b) = Inr (Some (ErrUpdate (BadConsensusParams MaxBytesTooBig)), demo_state, x'')"
    by (auto dest!: greedy_conn_props(2))
  ultimately show ?thesis by blast
qed

text \<open>
  C23: whether the block of an honest proposer validates. A block made from the state for the next height,
  with a commit that the last validators verify (an empty one at the first height), validates if its
  transactions lie in as many buckets, counted with multiplicity, as there are transactions;
  otherwise it is rejected for a wrong number of them. A transaction between two segments lies in two
  buckets and is counted once in the header.
\<close>

theorem Proposed_block_verdict:
  assumes "st_MakeBlock E now s height txs (Some c) = Inr (b, ps)" "height = wrap64 (LastBlockHeight s + 1)"
    and "if height = 1 then Precommits c = [] else commit_ValidateBasic c = None \<and>
      (\<exists>lvs. LastValidators s = Some lvs \<and> VerifyCommit E lvs (st_ChainID s) (st_LastBlockID s) (wrap64 (height - 1)) c = Inr None)"
  shows "validateBlock E s (Some b) =
    Inr (if (\<Sum>t\<leftarrow>txs. int (bucket_count E height t)) = int (length txs) then None else Some (VeBasic WrongNumTxs))"
proof -
  obtain b0 h vs where "MakeBlock E now height txs (Some c) = Inr b0" "blk_Header b0 = Some h" "st_Validators s = Some vs"
      "b = b0\<lparr>blk_Header := Some (state_header E s vs h)\<rparr>"
    using assms(1) by (auto simp: st_MakeBlock_def Let_def elim!: bindP_Inr_E)
  then show ?thesis using state_header_validates assms(2,3) by blast
qed

theorem Proposed_block_verdict_witness:
  "\<exists>b ps b' ps'. st_MakeBlock demo_env 0 demo_state 1 [[CHR 0x10, CHR 0x10]] (Some \<lparr>commit_BlockID = zero_bid, Precommits = []\<rparr>) = Inr (b, ps) \<and>
    validateBlock demo_env demo_state (Some b) = Inr None \<and>
    st_MakeBlock demo_env 0 demo_state 1 [[CHR 0x10, CHR 0x20]] (Some \<lparr>commit_BlockID = zero_bid, Precommits = []\<rparr>) = Inr (b', ps') \<and>
    validateBlock demo_env demo_state (Some b') = Inr (Some (VeBasic WrongNumTxs))"
proof -
  let ?c = "\<lparr>commit_BlockID = zero_bid, Precommits = []\<rparr>"
  have j: "json_DMCTx demo_env = json_DMCTx demo_dmc" "data_String demo_env = data_String demo_dmc"
    by (simp_all add: demo_env_def with_codec_def demo_dmc_def ext.defs dmc_ext.defs demo_ext_def)
  have w: "1 = wrap64 (LastBlockHeight demo_state + 1)" by (simp add: demo_state_def zero_state_def wrap64_def)
  have mk: "\<exists>b ps. st_MakeBlock demo_env 0 demo_state 1 [t] (Some ?c) = Inr (b, ps)" if g: "getBucketId demo_env t 1 = Inr p" for t p
  proof -
    obtain b h d where b: "MakeBlock demo_env 0 1 [t] (Some ?c) = Inr b" "blk_Header b = Some h" "blk_Data b = Some d" "blk_Commit b = Some ?c"
      using g by (cases p) (auto simp: MakeBlock_def place_tx_def fillHeader_def zero_header_def)
    let ?b = "b\<lparr>blk_Header := Some (state_header demo_env demo_state demo_vset h)\<rparr>"
    obtain ps where "MakePartSet demo_env (Some ?b) (int 65536) = Inr (Some ps)"
      using MakePartSet_parts_of [OF demo_env_simps(4), of ?b 65536] b by auto
    then show ?thesis
      by (simp add: st_MakeBlock_def b demo_state_def zero_state_def DefaultConsensusParams_def DefaultBlockGossip_def)
  qed
  obtain b ps b' ps' where "st_MakeBlock demo_env 0 demo_state 1 [[CHR 0x10, CHR 0x10]] (Some ?c) = Inr (b, ps)"
      "st_MakeBlock demo_env 0 demo_state 1 [[CHR 0x10, CHR 0x20]] (Some ?c) = Inr (b', ps')"
    using mk demo_buckets(1,2) [OF j] by blast
  then show ?thesis
    using Proposed_block_verdict [OF _ w, of demo_env 0 "[[CHR 0x10, CHR 0x10]]" ?c] Proposed_block_verdict [OF _ w, of demo_env 0 "[[CHR 0x10, CHR 0x20]]" ?c]
      demo_buckets(3,4) [OF j] by auto
qed

end
