(* ===== verification/Consensus_State.thy ===== *)
theory Consensus_State
  imports Timeouts Height_Vote_Set Priv_Validator Block_Store Applied_Chain
begin

text \<open>
  \<^verbatim>\<open>consensus/state.go\<close>: the state machine of consensus, one definition per function, with the round state of
  \<^verbatim>\<open>consensus/types/round_state.go\<close>. A handler takes the state of the routine and returns the next one, or the
  panic that ends \<open>receiveRoutine\<close>. Logging, metrics, events and the write-ahead log have no effect on the
  state and are left out, but for the pointers \<open>recordMetrics\<close> follows. The evidence pool is never set.
\<close>

section \<open>The state\<close>

text \<open>
  The clock is read through \<open>env_Now\<close>, whose argument counts the readings. \<open>amino_ReadBlock\<close> is
  \<open>UnmarshalBinaryReader\<close> on a pointer to a block: given the bytes, the size limit and the block pointed to,
  the block left there and whether decoding succeeded.
\<close>

record 'a node_env = store_ext +
  env_App :: "'a app_conn"
  env_Config :: consensus_config
  env_Now :: "nat \<Rightarrow> time"
  amino_ReadBlock :: "bytes \<Rightarrow> int \<Rightarrow> block option \<Rightarrow> block option \<times> bool"

datatype consensus_message =
    ProposalMessage "proposal option"
  | BlockPartMessage int int "part option"
  | VoteMessage "vote option"

text \<open>
  Part sets are shared by pointers: \<open>rs_ProposalBlockParts\<close>, \<open>rs_LockedBlockParts\<close> and \<open>rs_ValidBlockParts\<close> are
  addresses in \<open>cs_heap\<close>. Blocks are values; \<open>rs_ValidShared\<close> says that \<open>ValidBlock\<close> was set to the pointer
  \<open>ProposalBlock\<close>, which has not been given a new block since. \<open>cs_internalMsgQueue\<close> holds the messages of the node to itself, and \<open>cs_killed\<close>
  says that the process asked to be killed.
\<close>

record 'a consensus =
  rs_Height :: int
  rs_Round :: int
  rs_Step :: int
  rs_StartTime :: time
  rs_CommitTime :: time
  rs_Validators :: "validator_set option"
  rs_Proposal :: "proposal option"
  rs_ProposalBlock :: "block option"
  rs_ProposalBlockParts :: "nat option"
  rs_LockedRound :: int
  rs_LockedBlock :: "block option"
  rs_LockedBlockParts :: "nat option"
  rs_ValidRound :: int
  rs_ValidBlock :: "block option"
  rs_ValidBlockParts :: "nat option"
  rs_ValidShared :: bool
  rs_Votes :: "height_vote_set option"
  rs_CommitRound :: int
  rs_LastCommit :: "vote_set option"
  rs_LastValidators :: "validator_set option"
  cs_state :: state
  cs_blockExec :: "'a exec"
  cs_blockStore :: block_store
  cs_privValidator :: "pv_world option"
  cs_internalMsgQueue :: "consensus_message list"
  cs_timeoutTicker :: ticker
  cs_nSteps :: int
  cs_heap :: "part_set list"
  cs_clock :: nat
  cs_killed :: bool

definition parts_at :: "'a consensus \<Rightarrow> nat option \<Rightarrow> part_set option" where
  "parts_at cs p = (case p of None \<Rightarrow> None | Some i \<Rightarrow> if i < length (cs_heap cs) then Some (cs_heap cs ! i) else None)"

definition new_parts :: "part_set_header \<Rightarrow> 'a consensus \<Rightarrow> (nat option \<times> 'a consensus) or_panic" where
  "new_parts header cs =
     bindP (NewPartSetFromHeader header) (\<lambda>ps. Inr (Some (length (cs_heap cs)), cs\<lparr>cs_heap := cs_heap cs @ [ps]\<rparr>))"

definition read_clock :: "('a, 'e) node_env_scheme \<Rightarrow> 'a consensus \<Rightarrow> time \<times> 'a consensus" where
  "read_clock E cs = (env_Now E (cs_clock cs), cs\<lparr>cs_clock := Suc (cs_clock cs)\<rparr>)"

section \<open>Managing the state\<close>

definition updateRoundStep :: "int \<Rightarrow> int \<Rightarrow> 'a consensus \<Rightarrow> 'a consensus" where
  "updateRoundStep round step cs = cs\<lparr>rs_Round := round, rs_Step := step\<rparr>"

definition newStep :: "'a consensus \<Rightarrow> 'a consensus" where
  "newStep cs = cs\<lparr>cs_nSteps := wrap64 (cs_nSteps cs + 1)\<rparr>"

definition scheduleTimeout :: "duration \<Rightarrow> int \<Rightarrow> int \<Rightarrow> int \<Rightarrow> 'a consensus \<Rightarrow> 'a consensus" where
  "scheduleTimeout d height round step cs = cs\<lparr>cs_timeoutTicker :=
     ScheduleTimeout \<lparr>ti_Duration = d, ti_Height = height, ti_Round = round, ti_Step = step\<rparr> (cs_timeoutTicker cs)\<rparr>"

definition time_Sub :: "time \<Rightarrow> time \<Rightarrow> duration" where
  "time_Sub t u = max MinInt64 (min MaxInt64 (t - u))"

definition scheduleRound0 :: "('a, 'e) node_env_scheme \<Rightarrow> 'a consensus \<Rightarrow> 'a consensus" where
  "scheduleRound0 E cs =
     (let (now, cs1) = read_clock E cs in
      scheduleTimeout (time_Sub (rs_StartTime cs) now) (rs_Height cs) 0 RoundStepNewHeight cs1)"

definition sendInternalMessage :: "consensus_message \<Rightarrow> 'a consensus \<Rightarrow> 'a consensus" where
  "sendInternalMessage m cs = cs\<lparr>cs_internalMsgQueue := cs_internalMsgQueue cs @ [m]\<rparr>"

definition add_precommit :: "'e ext_scheme \<Rightarrow> vote option \<Rightarrow> vote_set \<Rightarrow> vote_set or_panic" where
  "add_precommit E precommit s =
     (if precommit = None then Inr s
      else bindP (vts_AddVote E (Some s) precommit) (\<lambda>(added, err, s').
        if \<not> added \<or> err \<noteq> None then Inl (PanicCrisis ''Failed to reconstruct LastCommit'') else Inr s'))"

definition reconstructLastCommit :: "('a, 'e) node_env_scheme \<Rightarrow> state \<Rightarrow> 'a consensus \<Rightarrow> 'a consensus or_panic" where
  "reconstructLastCommit E s cs =
     (if LastBlockHeight s = 0 then Inr cs
      else
        bindP (LoadSeenCommit E (cs_blockStore cs) (LastBlockHeight s)) (\<lambda>seenCommit.
        bindP (deref seenCommit) (\<lambda>sc.
        bindP (deref (LastValidators s)) (\<lambda>lvs.
        bindP (NewVoteSet (st_ChainID s) (LastBlockHeight s) (commit_Round sc) VoteTypePrecommit lvs) (\<lambda>empty.
        bindP (foldP (add_precommit E) (Precommits sc) empty) (\<lambda>lastPrecommits.
        if \<not> HasTwoThirdsMajority (Some lastPrecommits)
        then Inl (PanicSanity ''Failed to reconstruct LastCommit: Does not have +2/3 maj'')
        else Inr (cs\<lparr>rs_LastCommit := Some lastPrecommits\<rparr>)))))))"

definition last_precommits :: "'a consensus \<Rightarrow> vote_set option or_panic" where
  "last_precommits cs =
     (case rs_Votes cs of None \<Rightarrow> Inr None
      | Some votes \<Rightarrow>
          if rs_CommitRound cs > - 1 then
            bindP (hvs_Precommits votes (rs_CommitRound cs)) (\<lambda>precommits.
              if \<not> HasTwoThirdsMajority precommits
              then Inl (PanicSanity ''updateToState(state) called but last Precommit round did not have +2/3'')
              else Inr precommits)
          else Inr None)"

definition start_time :: "('a, 'e) node_env_scheme \<Rightarrow> 'a consensus \<Rightarrow> time \<times> 'a consensus" where
  "start_time E cs =
     (if rs_CommitTime cs = zero_time
      then let (now, cs1) = read_clock E cs in (cfg_Commit (env_Config E) now, cs1)
      else (cfg_Commit (env_Config E) (rs_CommitTime cs), cs))"

definition updateToState :: "('a, 'e) node_env_scheme \<Rightarrow> state \<Rightarrow> 'a consensus \<Rightarrow> 'a consensus or_panic" where
  "updateToState E s cs =
     (if rs_CommitRound cs > - 1 \<and> 0 < rs_Height cs \<and> rs_Height cs \<noteq> LastBlockHeight s
      then Inl (PanicSanity ''updateToState() expected another state height'')
      else if \<not> st_IsEmpty (cs_state cs) \<and> wrap64 (LastBlockHeight (cs_state cs) + 1) \<noteq> rs_Height cs
      then Inl (PanicSanity ''Inconsistent cs.state.LastBlockHeight+1 vs cs.Height'')
      else if \<not> st_IsEmpty (cs_state cs) \<and> LastBlockHeight s \<le> LastBlockHeight (cs_state cs)
      then Inr (newStep cs)
      else
        bindP (last_precommits cs) (\<lambda>lastPrecommits.
        let height = wrap64 (LastBlockHeight s + 1);
            (startTime, cs1) = start_time E cs
        in
        bindP (deref (st_Validators s)) (\<lambda>validators.
        bindP (NewHeightVoteSet (st_ChainID s) height validators) (\<lambda>votes.
          Inr (newStep (cs1\<lparr>rs_Height := height, rs_Round := 0, rs_Step := RoundStepNewHeight, rs_StartTime := startTime,
            rs_Validators := Some validators, rs_Proposal := None, rs_ProposalBlock := None, rs_ProposalBlockParts := None,
            rs_LockedRound := 0, rs_LockedBlock := None, rs_LockedBlockParts := None,
            rs_ValidRound := 0, rs_ValidBlock := None, rs_ValidBlockParts := None,
            rs_Votes := Some votes, rs_CommitRound := - 1, rs_LastCommit := lastPrecommits,
            rs_LastValidators := LastValidators s, cs_state := s\<rparr>))))))"

text \<open>The fields Go leaves zero in \<open>NewConsensusState\<close>; the private validator is set afterwards.\<close>

definition zero_consensus :: "'a exec \<Rightarrow> block_store \<Rightarrow> 'a consensus" where
  "zero_consensus x bs =
     \<lparr>rs_Height = 0, rs_Round = 0, rs_Step = 0, rs_StartTime = zero_time, rs_CommitTime = zero_time, rs_Validators = None,
      rs_Proposal = None, rs_ProposalBlock = None, rs_ProposalBlockParts = None,
      rs_LockedRound = 0, rs_LockedBlock = None, rs_LockedBlockParts = None,
      rs_ValidRound = 0, rs_ValidBlock = None, rs_ValidBlockParts = None, rs_ValidShared = False,
      rs_Votes = None, rs_CommitRound = 0, rs_LastCommit = None, rs_LastValidators = None,
      cs_state = zero_state, cs_blockExec = x, cs_blockStore = bs, cs_privValidator = None,
      cs_internalMsgQueue = [], cs_timeoutTicker = NewTimeoutTicker, cs_nSteps = 0, cs_heap = [], cs_clock = 0, cs_killed = False\<rparr>"

definition NewConsensusState :: "('a, 'e) node_env_scheme \<Rightarrow> state \<Rightarrow> 'a exec \<Rightarrow> block_store \<Rightarrow> 'a consensus or_panic" where
  "NewConsensusState E s x bs = bindP (updateToState E s (zero_consensus x bs)) (reconstructLastCommit E s)"

definition SetPrivValidator :: "pv_world option \<Rightarrow> 'a consensus \<Rightarrow> 'a consensus" where
  "SetPrivValidator priv cs = cs\<lparr>cs_privValidator := priv\<rparr>"

definition LoadCommit :: "('a, 'e) node_env_scheme \<Rightarrow> int \<Rightarrow> 'a consensus \<Rightarrow> commit option or_panic" where
  "LoadCommit E height cs =
     (if height = bst_height (cs_blockStore cs) then LoadSeenCommit E (cs_blockStore cs) height
      else LoadBlockCommit E (cs_blockStore cs) height)"

section \<open>Signing\<close>

definition cs_signVote ::
  "('a, 'e) node_env_scheme \<Rightarrow> pv_world \<Rightarrow> int \<Rightarrow> bytes \<Rightarrow> part_set_header \<Rightarrow> 'a consensus
   \<Rightarrow> (sign_error option \<times> vote \<times> 'a consensus) or_panic" where
  "cs_signVote E priv t hash header cs =
     (let addr = pv_Address (pv_mem priv) in
      bindP (deref (rs_Validators cs)) (\<lambda>vs.
      let (valIndex, _) = GetByAddress vs addr;
          (timestamp, cs1) = read_clock E cs;
          (now, cs2) = read_clock E cs1;
          v = \<lparr>ValidatorAddress = addr, ValidatorIndex = valIndex, vote_Height = rs_Height cs, vote_Round = rs_Round cs,
               vote_Timestamp = timestamp, vote_Type = t, vote_BlockID = \<lparr>bid_Hash = hash, bid_PartsHeader = header\<rparr>,
               vote_Signature = None\<rparr>
      in
      bindP (signVote E now (st_ChainID (cs_state cs)) priv v) (\<lambda>(err, v', priv').
        Inr (err, v', cs2\<lparr>cs_privValidator := Some priv'\<rparr>))))"

definition signAddVote ::
  "('a, 'e) node_env_scheme \<Rightarrow> int \<Rightarrow> bytes \<Rightarrow> part_set_header \<Rightarrow> 'a consensus \<Rightarrow> 'a consensus or_panic" where
  "signAddVote E t hash header cs =
     (case cs_privValidator cs of None \<Rightarrow> Inr cs
      | Some priv \<Rightarrow>
          bindP (deref (rs_Validators cs)) (\<lambda>vs.
          if \<not> HasAddress vs (pv_Address (pv_mem priv)) then Inr cs
          else bindP (cs_signVote E priv t hash header cs) (\<lambda>(err, v, cs1).
            Inr (if err = None then sendInternalMessage (VoteMessage (Some v)) cs1 else cs1))))"

section \<open>Proposing\<close>

definition needProofBlock :: "('a, 'e) node_env_scheme \<Rightarrow> int \<Rightarrow> 'a consensus \<Rightarrow> bool or_panic" where
  "needProofBlock E height cs =
     (if height = 1 then Inr True
      else
        bindP (LoadBlockMeta E (cs_blockStore cs) (wrap64 (height - 1))) (\<lambda>lastBlockMeta.
        bindP (deref lastBlockMeta) (\<lambda>m.
        bindP (deref (bm_Header m)) (\<lambda>h.
          Inr (st_AppHash (cs_state cs) \<noteq> hdr_AppHash h)))))"

definition isProposer :: "pv_world \<Rightarrow> 'a consensus \<Rightarrow> (bool \<times> 'a consensus) or_panic" where
  "isProposer priv cs =
     bindP (deref (rs_Validators cs)) (\<lambda>vs.
     let (proposer, vs') = GetProposer vs in
     bindP (deref proposer) (\<lambda>p.
       Inr (v_Address p = pv_Address (pv_mem priv), cs\<lparr>rs_Validators := Some vs'\<rparr>)))"

definition isProposalComplete :: "'a consensus \<Rightarrow> bool or_panic" where
  "isProposalComplete cs =
     (case rs_Proposal cs of None \<Rightarrow> Inr False
      | Some p \<Rightarrow>
          if rs_ProposalBlock cs = None then Inr False
          else if POLRound p < 0 then Inr True
          else
            bindP (deref (rs_Votes cs)) (\<lambda>votes.
            bindP (hvs_Prevotes votes (POLRound p)) (\<lambda>prevotes.
              Inr (HasTwoThirdsMajority prevotes))))"

definition utxo_tx :: "'e dmc_ext_scheme \<Rightarrow> abci_validator \<Rightarrow> tx" where
  "utxo_tx E bal = json_MarshalTxUTXO E \<lparr>utxo_Address = av_Address bal, utxo_Balance = word_of_int (av_Power bal)\<rparr>"

definition proposal_commit :: "'a consensus \<Rightarrow> commit option or_panic" where
  "proposal_commit cs =
     (if rs_Height cs = 1 then Inr (Some \<lparr>commit_BlockID = zero_bid, Precommits = []\<rparr>)
      else if HasTwoThirdsMajority (rs_LastCommit cs)
      then bindP (deref (rs_LastCommit cs)) (\<lambda>lc. bindP (MakeCommit lc) (\<lambda>c. Inr (Some c)))
      else Inr None)"

definition createProposalBlock ::
  "('a, 'e) node_env_scheme \<Rightarrow> 'a consensus \<Rightarrow> ((block \<times> part_set option) option \<times> 'a consensus) or_panic" where
  "createProposalBlock E cs =
     bindP (proposal_commit cs) (\<lambda>com.
     case com of None \<Rightarrow> Inr (None, cs)
     | Some c \<Rightarrow>
         if rs_Height cs mod 100 = 1 \<and> rs_Height cs > 1 then
           bindP (conn_GetValidatorSet (env_App E) (ex_app (cs_blockExec cs)) (wrap64 (- 1 * rs_Height cs))) (\<lambda>(r, app).
           let cs1 = cs\<lparr>cs_blockExec := (cs_blockExec cs)\<lparr>ex_app := app\<rparr>\<rparr> in
           case r of Inl _ \<Rightarrow> Inl NilDereference
           | Inr balances \<Rightarrow>
               let (now, cs2) = read_clock E cs1 in
               bindP (st_MakeBlock E now (cs_state cs) (rs_Height cs) (map (utxo_tx E) (rgv_ValidatorSet balances)) (Some c)) (\<lambda>(b, ps).
                 Inr (Some (b, ps), cs2)))
         else
           bindP (mp_Reap (ex_mempool (cs_blockExec cs)) (bs_MaxTxs (cp_BlockSize (st_ConsensusParams (cs_state cs))))) (\<lambda>txs.
           let (now, cs1) = read_clock E cs in
           bindP (st_MakeBlock E now (cs_state cs) (rs_Height cs) txs (Some c)) (\<lambda>(b, ps). Inr (Some (b, ps), cs1))))"

text \<open>The block to propose and its parts: the locked one, else the valid one, else a new one.\<close>

definition decide_block ::
  "('a, 'e) node_env_scheme \<Rightarrow> 'a consensus \<Rightarrow> ((block \<times> part_set option) option \<times> 'a consensus) or_panic" where
  "decide_block E cs =
     (case rs_LockedBlock cs of
        Some b \<Rightarrow> Inr (Some (b, parts_at cs (rs_LockedBlockParts cs)), cs)
      | None \<Rightarrow>
          (case rs_ValidBlock cs of
             Some b \<Rightarrow> Inr (Some (b, parts_at cs (rs_ValidBlockParts cs)), cs)
           | None \<Rightarrow> createProposalBlock E cs))"

definition send_part :: "part_set option \<Rightarrow> int \<Rightarrow> 'a consensus \<Rightarrow> 'a consensus or_panic" where
  "send_part blockParts i cs =
     bindP (deref blockParts) (\<lambda>ps.
     bindP (GetPart ps i) (\<lambda>part.
       Inr (sendInternalMessage (BlockPartMessage (rs_Height cs) (rs_Round cs) part) cs)))"

definition defaultDecideProposal ::
  "('a, 'e) node_env_scheme \<Rightarrow> pv_world \<Rightarrow> int \<Rightarrow> int \<Rightarrow> 'a consensus \<Rightarrow> 'a consensus or_panic" where
  "defaultDecideProposal E priv height round cs =
     bindP (decide_block E cs) (\<lambda>(decision, cs1).
     case decision of None \<Rightarrow> Inr cs1
     | Some (block, blockParts) \<Rightarrow>
         bindP (deref (rs_Votes cs1)) (\<lambda>votes.
         bindP (POLInfo votes) (\<lambda>(polRound, polBlockID).
         let (timestamp, cs2) = read_clock E cs1;
             (now, cs3) = read_clock E cs2;
             proposal = NewProposal timestamp height round (ps_Header blockParts) polRound polBlockID
         in
         bindP (signProposal E now (st_ChainID (cs_state cs1)) priv proposal) (\<lambda>(err, proposal', priv').
         let cs4 = cs3\<lparr>cs_privValidator := Some priv'\<rparr> in
         if err = None
         then foldP (send_part blockParts) [0..ps_Total blockParts - 1] (sendInternalMessage (ProposalMessage (Some proposal')) cs4)
         else Inr cs4))))"

section \<open>Steps of a round\<close>

text \<open>\<open>HashesTo\<close> fills the header of the block it is called on.\<close>

definition hashed_block :: "'e ext_scheme \<Rightarrow> block option \<Rightarrow> block option" where
  "hashed_block E bo = map_option (blk_hashed E) bo"

text \<open>What a deferred function does after \<open>enterPrevote\<close>, \<open>enterPrevoteWait\<close>, \<open>enterPrecommit\<close>, \<open>enterPrecommitWait\<close>.\<close>

definition done_step :: "int \<Rightarrow> int \<Rightarrow> 'a consensus \<Rightarrow> 'a consensus" where
  "done_step round step cs = newStep (updateRoundStep round step cs)"

definition defaultDoPrevote :: "('a, 'e) node_env_scheme \<Rightarrow> 'a consensus \<Rightarrow> 'a consensus or_panic" where
  "defaultDoPrevote E cs =
     (if rs_LockedBlock cs \<noteq> None
      then signAddVote E VoteTypePrevote (blk_Hash E (rs_LockedBlock cs)) (ps_Header (parts_at cs (rs_LockedBlockParts cs))) cs
      else if rs_ProposalBlock cs = None then signAddVote E VoteTypePrevote [] zero_psh cs
      else
        bindP (validateBlock E (cs_state cs) (rs_ProposalBlock cs)) (\<lambda>err.
          if err \<noteq> None then signAddVote E VoteTypePrevote [] zero_psh cs
          else signAddVote E VoteTypePrevote (blk_Hash E (rs_ProposalBlock cs)) (ps_Header (parts_at cs (rs_ProposalBlockParts cs))) cs))"

definition enterPrevote :: "('a, 'e) node_env_scheme \<Rightarrow> int \<Rightarrow> int \<Rightarrow> 'a consensus \<Rightarrow> 'a consensus or_panic" where
  "enterPrevote E height round cs =
     (if rs_Height cs \<noteq> height \<or> round < rs_Round cs \<or> (rs_Round cs = round \<and> RoundStepPrevote \<le> rs_Step cs) then Inr cs
      else
        bindP (isProposalComplete cs) (\<lambda>_.
        bindP (defaultDoPrevote E cs) (\<lambda>cs1.
          Inr (done_step round RoundStepPrevote cs1))))"

definition propose_as ::
  "('a, 'e) node_env_scheme \<Rightarrow> pv_world \<Rightarrow> int \<Rightarrow> int \<Rightarrow> 'a consensus \<Rightarrow> 'a consensus or_panic" where
  "propose_as E priv height round cs =
     bindP (deref (rs_Validators cs)) (\<lambda>vs.
     if \<not> HasAddress vs (pv_Address (pv_mem priv)) then Inr cs
     else
       bindP (isProposer priv cs) (\<lambda>(ours, cs1).
         if ours then defaultDecideProposal E priv height round cs1 else Inr cs1))"

definition enterPropose :: "('a, 'e) node_env_scheme \<Rightarrow> int \<Rightarrow> int \<Rightarrow> 'a consensus \<Rightarrow> 'a consensus or_panic" where
  "enterPropose E height round cs =
     (if rs_Height cs \<noteq> height \<or> round < rs_Round cs \<or> (rs_Round cs = round \<and> RoundStepPropose \<le> rs_Step cs) then Inr cs
      else
        let cs1 = scheduleTimeout (cfg_Propose (env_Config E) round) height round RoundStepPropose cs in
        bindP (case cs_privValidator cs1 of None \<Rightarrow> Inr cs1 | Some priv \<Rightarrow> propose_as E priv height round cs1) (\<lambda>cs2.
        let cs3 = done_step round RoundStepPropose cs2 in
        bindP (isProposalComplete cs3) (\<lambda>complete.
          if complete then enterPrevote E height (rs_Round cs3) cs3 else Inr cs3)))"

definition round_validators :: "int \<Rightarrow> 'a consensus \<Rightarrow> validator_set option or_panic" where
  "round_validators round cs =
     (if rs_Round cs < round
      then bindP (deref (rs_Validators cs)) (\<lambda>vs. bindP (IncrementAccum vs (wrap64 (round - rs_Round cs))) (\<lambda>vs'. Inr (Some vs')))
      else Inr (rs_Validators cs))"

definition start_round :: "int \<Rightarrow> 'a consensus \<Rightarrow> 'a consensus or_panic" where
  "start_round round cs =
     bindP (round_validators round cs) (\<lambda>validators.
     let cs1 = (updateRoundStep round RoundStepNewRound cs)\<lparr>rs_Validators := validators\<rparr>;
         cs2 = (if round = 0 then cs1 else cs1\<lparr>rs_Proposal := None, rs_ProposalBlock := None, rs_ProposalBlockParts := None\<rparr>)
     in
     bindP (deref (rs_Votes cs2)) (\<lambda>votes.
     bindP (hvs_SetRound votes (wrap64 (round + 1))) (\<lambda>votes'.
       Inr (cs2\<lparr>rs_Votes := Some votes'\<rparr>))))"

definition enterNewRound :: "('a, 'e) node_env_scheme \<Rightarrow> int \<Rightarrow> int \<Rightarrow> 'a consensus \<Rightarrow> 'a consensus or_panic" where
  "enterNewRound E height round cs =
     (if rs_Height cs \<noteq> height \<or> round < rs_Round cs \<or> (rs_Round cs = round \<and> rs_Step cs \<noteq> RoundStepNewHeight) then Inr cs
      else
        let (now, cs0) = read_clock E cs in
        bindP (start_round round cs0) (\<lambda>cs1.
        bindP (if WaitForTxs (env_Config E) \<and> round = 0 then bindP (needProofBlock E height cs1) (\<lambda>n. Inr (\<not> n)) else Inr False) (\<lambda>waitForTxs.
        if waitForTxs
        then Inr (if CreateEmptyBlocksInterval (env_Config E) > 0
                  then scheduleTimeout (EmptyBlocksInterval (env_Config E)) height round RoundStepNewRound cs1 else cs1)
        else enterPropose E height round cs1)))"

definition enterPrevoteWait :: "('a, 'e) node_env_scheme \<Rightarrow> int \<Rightarrow> int \<Rightarrow> 'a consensus \<Rightarrow> 'a consensus or_panic" where
  "enterPrevoteWait E height round cs =
     (if rs_Height cs \<noteq> height \<or> round < rs_Round cs \<or> (rs_Round cs = round \<and> RoundStepPrevoteWait \<le> rs_Step cs) then Inr cs
      else
        bindP (deref (rs_Votes cs)) (\<lambda>votes.
        bindP (hvs_Prevotes votes round) (\<lambda>prevotes.
        if \<not> HasTwoThirdsAny prevotes then Inl (PanicSanity ''enterPrevoteWait, but Prevotes does not have any +2/3 votes'')
        else Inr (done_step round RoundStepPrevoteWait
          (scheduleTimeout (cfg_Prevote (env_Config E) round) height round RoundStepPrevoteWait cs)))))"

definition unlock :: "'a consensus \<Rightarrow> 'a consensus" where
  "unlock cs = cs\<lparr>rs_LockedRound := 0, rs_LockedBlock := None, rs_LockedBlockParts := None\<rparr>"

text \<open>The proposal block is replaced by the parts of a block still to be received.\<close>

definition fetch_block :: "part_set_header \<Rightarrow> 'a consensus \<Rightarrow> 'a consensus or_panic" where
  "fetch_block header cs =
     (if HasHeader (parts_at cs (rs_ProposalBlockParts cs)) header then Inr cs
      else bindP (new_parts header cs) (\<lambda>(p, cs1). Inr (cs1\<lparr>rs_ProposalBlock := None, rs_ProposalBlockParts := p\<rparr>)))"

definition precommit_polka :: "('a, 'e) node_env_scheme \<Rightarrow> int \<Rightarrow> block_id \<Rightarrow> 'a consensus \<Rightarrow> 'a consensus or_panic" where
  "precommit_polka E round blockID cs =
     (if length (bid_Hash blockID) = 0
      then signAddVote E VoteTypePrecommit [] zero_psh (if rs_LockedBlock cs = None then cs else unlock cs)
      else if blk_HashesTo E (rs_LockedBlock cs) (bid_Hash blockID)
      then signAddVote E VoteTypePrecommit (bid_Hash blockID) (bid_PartsHeader blockID) (cs\<lparr>rs_LockedRound := round\<rparr>)
      else if blk_HashesTo E (rs_ProposalBlock cs) (bid_Hash blockID)
      then
        bindP (validateBlock E (cs_state cs) (hashed_block E (rs_ProposalBlock cs))) (\<lambda>err.
        if err \<noteq> None then Inl (PanicConsensus ''enterPrecommit: +2/3 prevoted for an invalid block'')
        else signAddVote E VoteTypePrecommit (bid_Hash blockID) (bid_PartsHeader blockID)
          (cs\<lparr>rs_LockedRound := round, rs_LockedBlock := hashed_block E (rs_ProposalBlock cs), rs_LockedBlockParts := rs_ProposalBlockParts cs\<rparr>))
      else
        bindP (fetch_block (bid_PartsHeader blockID) (unlock cs)) (\<lambda>cs1.
          signAddVote E VoteTypePrecommit [] zero_psh cs1))"

definition enterPrecommit :: "('a, 'e) node_env_scheme \<Rightarrow> int \<Rightarrow> int \<Rightarrow> 'a consensus \<Rightarrow> 'a consensus or_panic" where
  "enterPrecommit E height round cs =
     (if rs_Height cs \<noteq> height \<or> round < rs_Round cs \<or> (rs_Round cs = round \<and> RoundStepPrecommit \<le> rs_Step cs) then Inr cs
      else
        bindP (deref (rs_Votes cs)) (\<lambda>votes.
        bindP (hvs_Prevotes votes round) (\<lambda>prevotes.
        let (blockID, ok) = TwoThirdsMajority prevotes in
        bindP (if \<not> ok then signAddVote E VoteTypePrecommit [] zero_psh cs
               else
                 bindP (POLInfo votes) (\<lambda>(polRound, _).
                 if polRound < round then Inl (PanicSanity ''This POLRound should be the round'')
                 else precommit_polka E round blockID cs)) (\<lambda>cs1.
          Inr (done_step round RoundStepPrecommit cs1)))))"

definition enterPrecommitWait :: "('a, 'e) node_env_scheme \<Rightarrow> int \<Rightarrow> int \<Rightarrow> 'a consensus \<Rightarrow> 'a consensus or_panic" where
  "enterPrecommitWait E height round cs =
     (if rs_Height cs \<noteq> height \<or> round < rs_Round cs \<or> (rs_Round cs = round \<and> RoundStepPrecommitWait \<le> rs_Step cs) then Inr cs
      else
        bindP (deref (rs_Votes cs)) (\<lambda>votes.
        bindP (hvs_Precommits votes round) (\<lambda>precommits.
        if \<not> HasTwoThirdsAny precommits then Inl (PanicSanity ''enterPrecommitWait, but Precommits does not have any +2/3 votes'')
        else Inr (done_step round RoundStepPrecommitWait
          (scheduleTimeout (cfg_Precommit (env_Config E) round) height round RoundStepPrecommitWait cs)))))"

section \<open>Committing\<close>

definition recordMetrics :: "('a, 'e) node_env_scheme \<Rightarrow> int \<Rightarrow> block \<Rightarrow> 'a consensus \<Rightarrow> unit or_panic" where
  "recordMetrics E height b cs =
     bindP (deref (rs_Validators cs)) (\<lambda>_.
     bindP (deref (blk_Commit b)) (\<lambda>_.
     bindP (deref (blk_Header b)) (\<lambda>_.
     if height > 1
     then bindP (LoadBlockMeta E (cs_blockStore cs) (wrap64 (height - 1))) (\<lambda>lastBlockMeta.
          bindP (deref lastBlockMeta) (\<lambda>m. bindP (deref (bm_Header m)) (\<lambda>_. Inr ())))
     else Inr ())))"

definition store_block :: "('a, 'e) node_env_scheme \<Rightarrow> block \<Rightarrow> part_set option \<Rightarrow> vote_set option \<Rightarrow> 'a consensus \<Rightarrow> 'a consensus or_panic" where
  "store_block E b blockParts precommits cs =
     bindP (deref (blk_Header b)) (\<lambda>h.
     if bst_height (cs_blockStore cs) < hdr_Height h
     then
       bindP (deref precommits) (\<lambda>pc.
       bindP (MakeCommit pc) (\<lambda>seenCommit.
       bindP (SaveBlock E (cs_blockStore cs) (Some b) blockParts (Some seenCommit)) (\<lambda>bs.
         Inr (cs\<lparr>cs_blockStore := bs\<rparr>))))
     else Inr cs)"

text \<open>An error of \<open>ApplyBlock\<close> kills the process.\<close>

definition apply_decided :: "('a, 'e) node_env_scheme \<Rightarrow> int \<Rightarrow> block_id \<Rightarrow> block \<Rightarrow> 'a consensus \<Rightarrow> 'a consensus or_panic" where
  "apply_decided E height bid b cs =
     bindP (st_Copy (cs_state cs)) (\<lambda>stateCopy.
     bindP (ApplyBlock E (env_App E) (cs_blockExec cs) stateCopy bid (Some b)) (\<lambda>(err, s', x').
     let cs1 = cs\<lparr>cs_blockExec := x'\<rparr> in
     if err \<noteq> None then Inr (cs1\<lparr>cs_killed := True\<rparr>)
     else
       bindP (recordMetrics E height b cs1) (\<lambda>_.
       bindP (updateToState E s' cs1) (\<lambda>cs2.
         Inr (scheduleRound0 E cs2)))))"

definition finalizeCommit :: "('a, 'e) node_env_scheme \<Rightarrow> int \<Rightarrow> 'a consensus \<Rightarrow> 'a consensus or_panic" where
  "finalizeCommit E height cs =
     (if rs_Height cs \<noteq> height \<or> rs_Step cs \<noteq> RoundStepCommit then Inr cs
      else
        bindP (deref (rs_Votes cs)) (\<lambda>votes.
        bindP (hvs_Precommits votes (rs_CommitRound cs)) (\<lambda>precommits.
        let (blockID, ok) = TwoThirdsMajority precommits;
            block = hashed_block E (rs_ProposalBlock cs);
            blockParts = parts_at cs (rs_ProposalBlockParts cs)
        in
        if \<not> ok then Inl (PanicSanity ''Cannot finalizeCommit, commit does not have two thirds majority'')
        else if \<not> HasHeader blockParts (bid_PartsHeader blockID)
        then Inl (PanicSanity ''Expected ProposalBlockParts header to be commit header'')
        else if \<not> blk_HashesTo E block (bid_Hash blockID)
        then Inl (PanicSanity ''Cannot finalizeCommit, ProposalBlock does not hash to commit hash'')
        else
          bindP (validateBlock E (cs_state cs) block) (\<lambda>err.
          if err \<noteq> None then Inl (PanicConsensus ''+2/3 committed an invalid block'')
          else
            bindP (deref block) (\<lambda>b.
            bindP (store_block E b blockParts precommits cs) (\<lambda>cs1.
              apply_decided E height \<lparr>bid_Hash = blk_Hash E block, bid_PartsHeader = ps_Header blockParts\<rparr> b cs1))))))"

definition tryFinalizeCommit :: "('a, 'e) node_env_scheme \<Rightarrow> int \<Rightarrow> 'a consensus \<Rightarrow> 'a consensus or_panic" where
  "tryFinalizeCommit E height cs =
     (if rs_Height cs \<noteq> height then Inl (PanicSanity ''tryFinalizeCommit() of another height'')
      else
        bindP (deref (rs_Votes cs)) (\<lambda>votes.
        bindP (hvs_Precommits votes (rs_CommitRound cs)) (\<lambda>precommits.
        let (blockID, ok) = TwoThirdsMajority precommits in
        if \<not> ok \<or> length (bid_Hash blockID) = 0 then Inr cs
        else if \<not> blk_HashesTo E (rs_ProposalBlock cs) (bid_Hash blockID) then Inr cs
        else finalizeCommit E height cs)))"

definition stage_commit :: "('a, 'e) node_env_scheme \<Rightarrow> block_id \<Rightarrow> 'a consensus \<Rightarrow> 'a consensus or_panic" where
  "stage_commit E blockID cs =
     (let cs1 = (if blk_HashesTo E (rs_LockedBlock cs) (bid_Hash blockID)
                 then cs\<lparr>rs_ProposalBlock := rs_LockedBlock cs, rs_ProposalBlockParts := rs_LockedBlockParts cs\<rparr> else cs)
      in if \<not> blk_HashesTo E (rs_ProposalBlock cs1) (bid_Hash blockID) then fetch_block (bid_PartsHeader blockID) cs1 else Inr cs1)"

definition enterCommit :: "('a, 'e) node_env_scheme \<Rightarrow> int \<Rightarrow> int \<Rightarrow> 'a consensus \<Rightarrow> 'a consensus or_panic" where
  "enterCommit E height commitRound cs =
     (if rs_Height cs \<noteq> height \<or> RoundStepCommit \<le> rs_Step cs then Inr cs
      else
        bindP (deref (rs_Votes cs)) (\<lambda>votes.
        bindP (hvs_Precommits votes commitRound) (\<lambda>precommits.
        let (blockID, ok) = TwoThirdsMajority precommits in
        if \<not> ok then Inl (PanicSanity ''RunActionCommit() expects +2/3 precommits'')
        else
          bindP (stage_commit E blockID cs) (\<lambda>cs1.
          let (now, cs2) = read_clock E ((updateRoundStep (rs_Round cs1) RoundStepCommit cs1)\<lparr>rs_CommitRound := commitRound\<rparr>) in
          tryFinalizeCommit E height (newStep (cs2\<lparr>rs_CommitTime := now\<rparr>))))))"

section \<open>Messages\<close>

datatype consensus_error =
    ErrInvalidProposalPOLRound | ErrPart part_set_error | ErrDecode | ErrVoteHeightMismatch | ErrVote hvs_error | ErrAddingVote

definition defaultSetProposal :: "proposal option \<Rightarrow> 'a consensus \<Rightarrow> (consensus_error option \<times> 'a consensus) or_panic" where
  "defaultSetProposal po cs =
     (if rs_Proposal cs \<noteq> None then Inr (None, cs)
      else bindP (deref po) (\<lambda>p.
        if prop_Height p \<noteq> rs_Height cs \<or> prop_Round p \<noteq> rs_Round cs then Inr (None, cs)
        else if RoundStepCommit \<le> rs_Step cs then Inr (None, cs)
        else if POLRound p \<noteq> - 1 \<and> (POLRound p < 0 \<or> prop_Round p \<le> POLRound p) then Inr (Some ErrInvalidProposalPOLRound, cs)
        else bindP (new_parts (BlockPartsHeader p) cs) (\<lambda>(parts, cs1).
          Inr (None, cs1\<lparr>rs_Proposal := Some p, rs_ProposalBlockParts := parts\<rparr>))))"

definition update_valid :: "('a, 'e) node_env_scheme \<Rightarrow> int \<Rightarrow> block_id \<Rightarrow> 'a consensus \<Rightarrow> 'a consensus" where
  "update_valid E round blockID cs =
     (if \<not> bid_IsZero blockID \<and> rs_ValidRound cs < round \<and> blk_HashesTo E (rs_ProposalBlock cs) (bid_Hash blockID)
      then cs\<lparr>rs_ValidRound := round, rs_ValidBlock := hashed_block E (rs_ProposalBlock cs), rs_ValidBlockParts := rs_ProposalBlockParts cs,
              rs_ValidShared := True\<rparr>
      else cs)"

text \<open>The parts are complete: the block is read, and may be the valid block, the one to prevote or the one to commit.\<close>

definition received_block :: "('a, 'e) node_env_scheme \<Rightarrow> int \<Rightarrow> 'a consensus \<Rightarrow> 'a consensus or_panic" where
  "received_block E height cs =
     bindP (deref (rs_Votes cs)) (\<lambda>votes.
     bindP (hvs_Prevotes votes (rs_Round cs)) (\<lambda>prevotes.
     let (blockID, hasTwoThirds) = TwoThirdsMajority prevotes;
         cs1 = (if hasTwoThirds then update_valid E (rs_Round cs) blockID cs else cs)
     in
     bindP (if rs_Step cs1 \<le> RoundStepPropose then isProposalComplete cs1 else Inr False) (\<lambda>complete.
       if complete then enterPrevote E height (rs_Round cs1) cs1
       else if rs_Step cs1 = RoundStepCommit then tryFinalizeCommit E height cs1
       else Inr cs1)))"

text \<open>The block is decoded into \<open>&cs.ProposalBlock\<close>: a nil pointer gets a block of its own, a block that is already there is
written through, and the valid block with it when it is the same pointer. (The locked block never is at this point: the round it was
locked in has its proposal, which no second one replaces.)\<close>

definition decode_into :: "block option \<Rightarrow> 'a consensus \<Rightarrow> 'a consensus" where
  "decode_into bo cs =
     (if rs_ProposalBlock cs = None then cs\<lparr>rs_ProposalBlock := bo, rs_ValidShared := False\<rparr>
      else if rs_ValidShared cs then cs\<lparr>rs_ProposalBlock := bo, rs_ValidBlock := bo\<rparr>
      else cs\<lparr>rs_ProposalBlock := bo\<rparr>)"

definition complete_block :: "('a, 'e) node_env_scheme \<Rightarrow> int \<Rightarrow> part_set \<Rightarrow> 'a consensus \<Rightarrow> (consensus_error option \<times> 'a consensus) or_panic" where
  "complete_block E height ps cs =
     bindP (GetReader ps) (\<lambda>reader.
     let (bo, ok) = amino_ReadBlock E (remaining reader) (bs_MaxBytes (cp_BlockSize (st_ConsensusParams (cs_state cs)))) (rs_ProposalBlock cs)
     in
     if \<not> ok then Inr (Some ErrDecode, decode_into bo cs)
     else
       bindP (deref bo) (\<lambda>b.
       bindP (deref (blk_Header b)) (\<lambda>_.
       bindP (received_block E height (decode_into (Some (blk_hashed E b)) cs)) (\<lambda>cs1. Inr (None, cs1)))))"

definition addProposalBlockPart :: "('a, 'e) node_env_scheme \<Rightarrow> int \<Rightarrow> part option \<Rightarrow> 'a consensus \<Rightarrow> (bool \<times> consensus_error option \<times> 'a consensus) or_panic" where
  "addProposalBlockPart E height part cs =
     (if rs_Height cs \<noteq> height then Inr (False, None, cs)
      else
        bindP (deref part) (\<lambda>p.
        case rs_ProposalBlockParts cs of None \<Rightarrow> Inr (False, None, cs)
        | Some i \<Rightarrow>
            bindP (deref (parts_at cs (Some i))) (\<lambda>ps.
            bindP (AddPart E ps p) (\<lambda>(added, err, ps').
            let cs1 = cs\<lparr>cs_heap := (cs_heap cs)[i := ps']\<rparr> in
            if err \<noteq> None then Inr (added, map_option ErrPart err, cs1)
            else if added \<and> IsComplete ps' then bindP (complete_block E height ps' cs1) (\<lambda>(e, cs2). Inr (True, e, cs2))
            else Inr (added, None, cs1)))))"

section \<open>Votes\<close>

definition unlock_by :: "('a, 'e) node_env_scheme \<Rightarrow> int \<Rightarrow> block_id \<Rightarrow> 'a consensus \<Rightarrow> 'a consensus" where
  "unlock_by E round blockID cs =
     (if rs_LockedBlock cs \<noteq> None \<and> rs_LockedRound cs < round \<and> round \<le> rs_Round cs \<and>
         \<not> blk_HashesTo E (rs_LockedBlock cs) (bid_Hash blockID)
      then unlock cs else cs)"

definition see_polka :: "('a, 'e) node_env_scheme \<Rightarrow> int \<Rightarrow> vote_set option \<Rightarrow> 'a consensus \<Rightarrow> 'a consensus" where
  "see_polka E round prevotes cs =
     (let (blockID, ok) = TwoThirdsMajority prevotes in
      if ok then
        let cs1 = unlock_by E round blockID cs in
        if round \<le> rs_Round cs1 then update_valid E round blockID cs1 else cs1
      else cs)"

definition added_prevote :: "('a, 'e) node_env_scheme \<Rightarrow> int \<Rightarrow> int \<Rightarrow> 'a consensus \<Rightarrow> 'a consensus or_panic" where
  "added_prevote E height round cs =
     bindP (deref (rs_Votes cs)) (\<lambda>votes.
     bindP (hvs_Prevotes votes round) (\<lambda>prevotes.
     let cs1 = see_polka E round prevotes cs in
     if rs_Round cs1 \<le> round \<and> HasTwoThirdsAny prevotes then
       bindP (enterNewRound E height round cs1) (\<lambda>cs2.
       if HasTwoThirdsMajority prevotes then enterPrecommit E height round cs2
       else bindP (enterPrevote E height round cs2) (enterPrevoteWait E height round))
     else
       case rs_Proposal cs1 of None \<Rightarrow> Inr cs1
       | Some p \<Rightarrow>
           if 0 \<le> POLRound p \<and> POLRound p = round
           then bindP (isProposalComplete cs1) (\<lambda>complete.
             if complete then enterPrevote E height (rs_Round cs1) cs1 else Inr cs1)
           else Inr cs1))"

definition added_precommit :: "('a, 'e) node_env_scheme \<Rightarrow> int \<Rightarrow> int \<Rightarrow> 'a consensus \<Rightarrow> 'a consensus or_panic" where
  "added_precommit E height round cs =
     bindP (deref (rs_Votes cs)) (\<lambda>votes.
     bindP (hvs_Precommits votes round) (\<lambda>precommits.
     let (blockID, ok) = TwoThirdsMajority precommits in
     if ok then
       if length (bid_Hash blockID) = 0 then enterNewRound E height (wrap64 (round + 1)) cs
       else
         bindP (enterNewRound E height round cs) (\<lambda>cs1.
         bindP (enterPrecommit E height round cs1) (\<lambda>cs2.
         bindP (enterCommit E height round cs2) (\<lambda>cs3.
         bindP (deref precommits) (\<lambda>pc.
           if SkipTimeoutCommit (env_Config E) \<and> HasAll pc then enterNewRound E (rs_Height cs3) 0 cs3 else Inr cs3))))
     else if rs_Round cs \<le> round \<and> HasTwoThirdsAny precommits then
       bindP (enterNewRound E height round cs) (\<lambda>cs1.
       bindP (enterPrecommit E height round cs1) (enterPrecommitWait E height round))
     else Inr cs))"

definition add_last_commit :: "('a, 'e) node_env_scheme \<Rightarrow> vote \<Rightarrow> 'a consensus \<Rightarrow> (bool \<times> consensus_error option \<times> 'a consensus) or_panic" where
  "add_last_commit E v cs =
     bindP (vts_AddVote E (rs_LastCommit cs) (Some v)) (\<lambda>(added, err, lc).
     let cs1 = cs\<lparr>rs_LastCommit := Some lc\<rparr>; e = map_option (ErrVote \<circ> VoteError) err in
     if \<not> added then Inr (False, e, cs1)
     else if SkipTimeoutCommit (env_Config E) \<and> HasAll lc
     then bindP (enterNewRound E (rs_Height cs1) 0 cs1) (\<lambda>cs2. Inr (True, e, cs2))
     else Inr (True, e, cs1))"

definition addVote :: "('a, 'e) node_env_scheme \<Rightarrow> vote \<Rightarrow> bytes \<Rightarrow> 'a consensus \<Rightarrow> (bool \<times> consensus_error option \<times> 'a consensus) or_panic" where
  "addVote E v peerID cs =
     (if wrap64 (vote_Height v + 1) = rs_Height cs then
        if \<not> (rs_Step cs = RoundStepNewHeight \<and> vote_Type v = VoteTypePrecommit) then Inr (False, Some ErrVoteHeightMismatch, cs)
        else add_last_commit E v cs
      else if vote_Height v \<noteq> rs_Height cs then Inr (False, Some ErrVoteHeightMismatch, cs)
      else
        bindP (deref (rs_Votes cs)) (\<lambda>votes.
        bindP (hvs_AddVote E votes v peerID) (\<lambda>(added, err, votes').
        let cs1 = cs\<lparr>rs_Votes := Some votes'\<rparr>; e = map_option ErrVote err; height = rs_Height cs in
        if \<not> added then Inr (False, e, cs1)
        else
          bindP (if vote_Type v = VoteTypePrevote then added_prevote E height (vote_Round v) cs1
                 else if vote_Type v = VoteTypePrecommit then added_precommit E height (vote_Round v) cs1
                 else Inl (PanicMsg ''Unexpected vote type'')) (\<lambda>cs2.
            Inr (True, e, cs2)))))"

text \<open>A conflicting vote of another validator is evidence for a pool that is nil.\<close>

definition tryAddVote :: "('a, 'e) node_env_scheme \<Rightarrow> vote option \<Rightarrow> bytes \<Rightarrow> 'a consensus \<Rightarrow> (consensus_error option \<times> 'a consensus) or_panic" where
  "tryAddVote E vo peerID cs =
     bindP (deref vo) (\<lambda>v.
     bindP (addVote E v peerID cs) (\<lambda>(_, err, cs1).
     case err of
       None \<Rightarrow> Inr (None, cs1)
     | Some ErrVoteHeightMismatch \<Rightarrow> Inr (err, cs1)
     | Some (ErrVote (VoteError (ErrVoteConflictingVotes _))) \<Rightarrow>
         bindP (deref (cs_privValidator cs1)) (\<lambda>priv.
           if ValidatorAddress v = pv_Address (pv_mem priv) then Inr (err, cs1) else Inl NilDereference)
     | Some _ \<Rightarrow> Inr (Some ErrAddingVote, cs1)))"

section \<open>The routine\<close>

definition handleMsg :: "('a, 'e) node_env_scheme \<Rightarrow> consensus_message \<Rightarrow> bytes \<Rightarrow> 'a consensus \<Rightarrow> 'a consensus or_panic" where
  "handleMsg E msg peerID cs =
     (case msg of
        ProposalMessage p \<Rightarrow> bindP (defaultSetProposal p cs) (\<lambda>(_, cs'). Inr cs')
      | BlockPartMessage height _ part \<Rightarrow> bindP (addProposalBlockPart E height part cs) (\<lambda>(_, _, cs'). Inr cs')
      | VoteMessage v \<Rightarrow> bindP (tryAddVote E v peerID cs) (\<lambda>(_, cs'). Inr cs'))"

text \<open>The copy of the round state that \<open>handleTimeout\<close> is given equals the round state when it is called.\<close>

definition handleTimeout :: "('a, 'e) node_env_scheme \<Rightarrow> timeout_info \<Rightarrow> 'a consensus \<Rightarrow> 'a consensus or_panic" where
  "handleTimeout E ti cs =
     (if ti_Height ti \<noteq> rs_Height cs \<or> ti_Round ti < rs_Round cs \<or> (ti_Round ti = rs_Round cs \<and> ti_Step ti < rs_Step cs) then Inr cs
      else if ti_Step ti = RoundStepNewHeight then enterNewRound E (ti_Height ti) 0 cs
      else if ti_Step ti = RoundStepNewRound then enterPropose E (ti_Height ti) 0 cs
      else if ti_Step ti = RoundStepPropose then enterPrevote E (ti_Height ti) (ti_Round ti) cs
      else if ti_Step ti = RoundStepPrevoteWait then enterPrecommit E (ti_Height ti) (ti_Round ti) cs
      else if ti_Step ti = RoundStepPrecommitWait then enterNewRound E (ti_Height ti) (wrap64 (ti_Round ti + 1)) cs
      else Inl (PanicMsg ''Invalid timeout step''))"

definition handleTxsAvailable :: "('a, 'e) node_env_scheme \<Rightarrow> int \<Rightarrow> 'a consensus \<Rightarrow> 'a consensus or_panic" where
  "handleTxsAvailable E height cs = enterPropose E height 0 cs"

text \<open>
  What moves a node: \<open>receiveRoutine\<close> takes a height from the mempool's channel, a message from a peer, the
  next message of its own, or one of the timeouts that fired (the goroutines that deliver them race, so any
  of them); the ticker receives a tick or its timer fires; a transaction reaches the mempool; the reactor
  records that a peer claims a majority. The channels lose what is taken from them.
\<close>

datatype node_event =
    EvTxsAvailable
  | EvPeerMsg consensus_message bytes
  | EvInternalMsg
  | EvTock nat
  | EvTick
  | EvTimer
  | EvCheckTx tx
  | EvPeerMaj23 int int bytes block_id

definition take_tock :: "nat \<Rightarrow> ticker \<Rightarrow> ticker" where
  "take_tock i t = t\<lparr>tk_tock := take i (tk_tock t) @ drop (Suc i) (tk_tock t)\<rparr>"

fun node_step :: "('a, 'e) node_env_scheme \<Rightarrow> node_event \<Rightarrow> 'a consensus \<Rightarrow> 'a consensus or_panic" where
  "node_step E EvTxsAvailable cs =
     (case mp_txsAvailable (ex_mempool (cs_blockExec cs)) of
        Some (Some height) \<Rightarrow> handleTxsAvailable E height
          (cs\<lparr>cs_blockExec := (cs_blockExec cs)\<lparr>ex_mempool := (ex_mempool (cs_blockExec cs))\<lparr>mp_txsAvailable := Some None\<rparr>\<rparr>\<rparr>)
      | _ \<Rightarrow> Inr cs)"
| "node_step E (EvPeerMsg m peerID) cs = handleMsg E m peerID cs"
| "node_step E EvInternalMsg cs =
     (case cs_internalMsgQueue cs of [] \<Rightarrow> Inr cs
      | m # ms \<Rightarrow> handleMsg E m [] (cs\<lparr>cs_internalMsgQueue := ms\<rparr>))"
| "node_step E (EvTock i) cs =
     (if i < length (tk_tock (cs_timeoutTicker cs))
      then handleTimeout E (tk_tock (cs_timeoutTicker cs) ! i) (cs\<lparr>cs_timeoutTicker := take_tock i (cs_timeoutTicker cs)\<rparr>)
      else Inr cs)"
| "node_step E EvTick cs = Inr (cs\<lparr>cs_timeoutTicker := receive_tick (cs_timeoutTicker cs)\<rparr>)"
| "node_step E EvTimer cs = Inr (cs\<lparr>cs_timeoutTicker := timer_fires (cs_timeoutTicker cs)\<rparr>)"
| "node_step E (EvCheckTx t) cs =
     bindP (mp_CheckTx (env_App E) (ex_app (cs_blockExec cs)) (ex_mempool (cs_blockExec cs)) t) (\<lambda>(_, mem, app).
       Inr (cs\<lparr>cs_blockExec := (cs_blockExec cs)\<lparr>ex_mempool := mem, ex_app := app\<rparr>\<rparr>))"
| "node_step E (EvPeerMaj23 round t peerID blockID) cs =
     bindP (deref (rs_Votes cs)) (\<lambda>votes.
     bindP (hvs_SetPeerMaj23 E votes round t peerID blockID) (\<lambda>(_, votes').
       Inr (cs\<lparr>rs_Votes := Some votes'\<rparr>)))"

text \<open>\<open>OnStart\<close>, after the catch-up from the write-ahead log.\<close>

definition start_node :: "('a, 'e) node_env_scheme \<Rightarrow> 'a consensus \<Rightarrow> 'a consensus" where
  "start_node E cs = scheduleRound0 E cs"

end
