(* ===== verification/Consensus_Safety.thy ===== *)
theory Consensus_Safety
  imports Consensus_State
begin

text \<open>
  What the consensus state machine keeps: heights, rounds and steps never go back, a lock is only
  given up for a later polka, what the node precommits has a polka, and the state only moves by blocks
  that validate and have a commit.
\<close>

section \<open>Majorities last\<close>

lemma record_vote_maj23: "record_vote E s v k p = Inr (c, s') \<Longrightarrow> vts_maj23 s' = vts_maj23 s"
  unfolding record_vote_def store_vote_def
  by (auto simp: Let_def elim!: bindP_Inr_E split: option.split_asm if_split_asm)

lemma count_vote_maj23: "count_vote s v k p bv = Inr s' \<Longrightarrow> vts_maj23 s \<noteq> None \<Longrightarrow> vts_maj23 s' = vts_maj23 s"
  unfolding count_vote_def by (auto simp: Let_def elim!: bindP_Inr_E split: if_split_asm)

lemma addVerifiedVote_maj23: "addVerifiedVote E s v k p = Inr (a, c, s') \<Longrightarrow> vts_maj23 s \<noteq> None \<Longrightarrow> vts_maj23 s' = vts_maj23 s"
  unfolding addVerifiedVote_def
  by (auto dest!: record_vote_maj23 count_vote_maj23 elim!: bindP_Inr_E split: option.split_asm if_split_asm prod.split_asm)

lemma vts_addVote_maj23: "vts_addVote E s vo = Inr (a, e, s') \<Longrightarrow> vts_maj23 s \<noteq> None \<Longrightarrow> vts_maj23 s' = vts_maj23 s"
  unfolding vts_addVote_def add_from_def
  by (auto simp: Let_def dest!: addVerifiedVote_maj23 elim!: bindP_Inr_E split: option.split_asm if_split_asm prod.split_asm)

lemma vts_SetPeerMaj23_maj23: "vts_SetPeerMaj23 E (Some s) p b = Inr (e, s') \<Longrightarrow> vts_maj23 s' = vts_maj23 s"
  unfolding vts_SetPeerMaj23_def by (auto simp: Let_def split: option.split_asm if_split_asm)

text \<open>\<open>hvs_ext h h'\<close>: \<open>h'\<close> is \<open>h\<close> with more rounds and more votes.\<close>

definition hvs_ext :: "height_vote_set \<Rightarrow> height_vote_set \<Rightarrow> bool" where
  "hvs_ext h h' \<longleftrightarrow> hvs_chainID h' = hvs_chainID h \<and> hvs_height h' = hvs_height h \<and> hvs_valSet h' = hvs_valSet h \<and>
     (\<forall>r rvs b. hvs_roundVoteSets h r = Some rvs \<longrightarrow> vts_maj23 (rvs_Prevotes rvs) = Some b \<longrightarrow>
        (\<exists>rvs'. hvs_roundVoteSets h' r = Some rvs' \<and> vts_maj23 (rvs_Prevotes rvs') = Some b))"

lemma hvs_ext_refl [simp]: "hvs_ext h h"
  by (simp add: hvs_ext_def)

lemma hvs_ext_trans: "hvs_ext a b \<Longrightarrow> hvs_ext b c \<Longrightarrow> hvs_ext a c"
  unfolding hvs_ext_def by metis

lemma hvs_addRound_ext: "hvs_addRound h r = Inr h' \<Longrightarrow> hvs_ext h h' \<and> hvs_round h' = hvs_round h"
  unfolding hvs_addRound_def by (auto simp: hvs_ext_def elim!: bindP_Inr_E split: if_split_asm)

lemma put_vote_set_ext:
  assumes "hvs_getVoteSet h r t = Inr (Some s)" "vts_maj23 s \<noteq> None \<longrightarrow> vts_maj23 s' = vts_maj23 s"
  shows "hvs_ext h (put_vote_set h r t s')"
  using assms unfolding hvs_getVoteSet_def put_vote_set_def hvs_ext_def
  by (auto split: option.split_asm if_split_asm)

lemma hvs_AddVote_ext:
  assumes "hvs_AddVote E h v p = Inr (a, e, h')"
  shows "hvs_ext h h' \<and> hvs_round h' = hvs_round h"
proof (cases "IsVoteTypeValid (vote_Type v)")
  case t: True
  let ?r = "vote_Round v" and ?t = "vote_Type v"
  obtain found where f: "hvs_getVoteSet h ?r ?t = Inr found"
    using assms t by (auto simp: hvs_AddVote_def elim!: bindP_Inr_E)
  let ?l = "case hvs_peerCatchupRounds h p of None \<Rightarrow> [] | Some l \<Rightarrow> l"
  show ?thesis
  proof (cases "found = None \<and> \<not> length ?l < 2")
    case True
    then show ?thesis using assms t f by (auto simp: hvs_AddVote_def Let_def)
  next
    case False
    let ?m = "if found = None
      then bindP (hvs_addRound h ?r) (\<lambda>h. Inr (h\<lparr>hvs_peerCatchupRounds := (hvs_peerCatchupRounds h)(p \<mapsto> ?l @ [?r])\<rparr>)) else Inr h"
    have "bindP ?m (\<lambda>h1. bindP (hvs_getVoteSet h1 ?r ?t) (\<lambda>voteSet. bindP (vts_AddVote E voteSet (Some v)) (\<lambda>(added, err, s).
        Inr (added, map_option VoteError err, put_vote_set h1 ?r ?t s)))) = Inr (a, e, h')"
      using assms t f False by (simp add: hvs_AddVote_def Let_def)
    then obtain h1 so x where m: "?m = Inr h1" and so: "hvs_getVoteSet h1 ?r ?t = Inr so" "vts_AddVote E so (Some v) = Inr x"
      and h': "h' = put_vote_set h1 ?r ?t (snd (snd x))"
      by (elim bindP_Inr_E) (auto split: prod.split_asm)
    obtain s where s: "hvs_getVoteSet h1 ?r ?t = Inr (Some s)" and s': "vts_addVote E s (Some v) = Inr x"
      using so by (cases so) (auto simp: vts_AddVote_def)
    have h1: "hvs_ext h h1 \<and> hvs_round h1 = hvs_round h"
      using m by (auto simp: hvs_ext_def dest!: hvs_addRound_ext elim!: bindP_Inr_E split: if_split_asm)
    have "vts_maj23 s \<noteq> None \<longrightarrow> vts_maj23 (snd (snd x)) = vts_maj23 s"
      using vts_addVote_maj23 s' by (metis prod.collapse)
    then show ?thesis using put_vote_set_ext [OF s] h1 h' hvs_ext_trans by auto
  qed
qed (use assms in \<open>simp add: hvs_AddVote_def\<close>)

lemma add_missing_rounds_ext: "foldP add_missing_round rs h = Inr h' \<Longrightarrow> hvs_ext h h'"
proof (induction rs arbitrary: h)
  case (Cons r rs)
  then obtain h1 where h1: "add_missing_round r h = Inr h1" "foldP add_missing_round rs h1 = Inr h'" by (auto elim!: bindP_Inr_E)
  then have "hvs_ext h h1" by (auto simp: add_missing_round_def dest!: hvs_addRound_ext split: if_split_asm)
  then show ?case using Cons.IH [OF h1(2)] hvs_ext_trans by blast
qed simp

lemma hvs_SetRound_ext:
  assumes "hvs_SetRound h r = Inr h'"
  shows "hvs_ext h h' \<and> hvs_round h' = r"
proof -
  obtain h1 where "foldP add_missing_round [hvs_round h + 1..r] h = Inr h1" "h' = h1\<lparr>hvs_round := r\<rparr>"
    using assms by (auto simp: hvs_SetRound_def elim!: bindP_Inr_E split: if_split_asm)
  then show ?thesis using add_missing_rounds_ext [of "[hvs_round h + 1..r]" h h1] by (auto simp: hvs_ext_def)
qed

lemma hvs_SetPeerMaj23_ext:
  assumes "hvs_SetPeerMaj23 E h r t p b = Inr (e, h')"
  shows "hvs_ext h h' \<and> hvs_round h' = hvs_round h"
  using assms unfolding hvs_SetPeerMaj23_def
  by (auto dest!: vts_SetPeerMaj23_maj23 intro!: put_vote_set_ext elim!: bindP_Inr_E split: if_split_asm prod.split_asm)

section \<open>Polkas and locks\<close>

definition polka :: "'a consensus \<Rightarrow> int \<Rightarrow> block_id \<Rightarrow> bool" where
  "polka cs r b \<longleftrightarrow> (\<exists>h rvs. rs_Votes cs = Some h \<and> hvs_roundVoteSets h r = Some rvs \<and> vts_maj23 (rvs_Prevotes rvs) = Some b)"

text \<open>
  Having precommitted a block of hash \<open>h\<close> in round \<open>r\<close>, the node is either still locked on it or has seen a
  polka for something else in a later round.
\<close>

definition guarded :: "('a, 'e) node_env_scheme \<Rightarrow> 'a consensus \<Rightarrow> int \<Rightarrow> bytes \<Rightarrow> bool" where
  "guarded E cs r h \<longleftrightarrow>
     (\<exists>b. rs_LockedBlock cs = Some b \<and> blk_Hash E (Some b) = h \<and> r \<le> rs_LockedRound cs) \<or>
     (\<exists>r' bid. r < r' \<and> polka cs r' bid \<and> bid_Hash bid \<noteq> h)"

definition lock_inv :: "'a consensus \<Rightarrow> bool" where
  "lock_inv cs \<longleftrightarrow> (rs_LockedBlock cs \<noteq> None \<longrightarrow> rs_LockedRound cs \<le> rs_Round cs \<and>
     (rs_LockedRound cs = rs_Round cs \<longrightarrow> RoundStepPrecommit \<le> rs_Step cs))"

definition block_precommit :: "'a consensus \<Rightarrow> vote \<Rightarrow> bool" where
  "block_precommit cs v \<longleftrightarrow> vote_Height v = rs_Height cs \<and> vote_Type v = VoteTypePrecommit \<and> bid_Hash (vote_BlockID v) \<noteq> []"

definition queue_inv :: "('a, 'e) node_env_scheme \<Rightarrow> 'a consensus \<Rightarrow> bool" where
  "queue_inv E cs \<longleftrightarrow> (\<forall>v. VoteMessage (Some v) \<in> set (cs_internalMsgQueue cs) \<longrightarrow> vote_Height v \<le> rs_Height cs \<and>
     (block_precommit cs v \<longrightarrow> polka cs (vote_Round v) (vote_BlockID v) \<and> guarded E cs (vote_Round v) (bid_Hash (vote_BlockID v))))"

definition ticker_timeouts :: "ticker \<Rightarrow> timeout_info set" where
  "ticker_timeouts t = set (tk_tick t) \<union> set (tk_tock t) \<union> (if tk_timer t then {tk_ti t} else {})"

definition timer_inv :: "'a consensus \<Rightarrow> bool" where
  "timer_inv cs \<longleftrightarrow> (\<forall>ti \<in> ticker_timeouts (cs_timeoutTicker cs). ti_Height ti \<le> rs_Height cs \<and>
     (ti_Height ti = rs_Height cs \<longrightarrow> ti_Round ti \<le> rs_Round cs))"

text \<open>The vote sets are well-formed as long as twice the power of the validators fits 64 bits.\<close>

definition votes_inv :: "('a, 'e) node_env_scheme \<Rightarrow> block_id set \<Rightarrow> 'a consensus \<Rightarrow> bool" where
  "votes_inv E B cs \<longleftrightarrow> (\<exists>vs h. st_Validators (cs_state cs) = Some vs \<and> rs_Votes cs = Some h \<and> hvs_valSet h = vs \<and>
     hvs_chainID h = st_ChainID (cs_state cs) \<and> hvs_height h = rs_Height cs \<and> (quorum_ok vs \<longrightarrow> hvs_wf E B h \<and> catchup_ok h) \<and>
     hvs_round h \<le> rs_Round cs + 1 \<and> (rs_Step cs = RoundStepNewHeight \<longrightarrow> hvs_round h = 0 \<and> rs_Round cs = 0))"

definition height_inv :: "'a consensus \<Rightarrow> bool" where
  "height_inv cs \<longleftrightarrow> 0 \<le> LastBlockHeight (cs_state cs) \<and> rs_Height cs = LastBlockHeight (cs_state cs) + 1 \<and>
     rs_Height cs < MaxInt64 \<and> 0 \<le> rs_Round cs"

definition cs_inv :: "('a, 'e) node_env_scheme \<Rightarrow> block_id set \<Rightarrow> 'a consensus \<Rightarrow> bool" where
  "cs_inv E B cs \<longleftrightarrow> height_inv cs \<and> votes_inv E B cs \<and> lock_inv cs \<and> queue_inv E cs \<and> timer_inv cs"

section \<open>Decisions\<close>

text \<open>
  \<open>decided E s t b bid t'\<close>: in state \<open>s\<close> the block \<open>b\<close> validates, \<open>bid\<close> is its identity, a commit for it verifies
  against the validators, and the store \<open>t'\<close> has it with this commit (or had it already).
\<close>

definition decided :: "('a, 'e) node_env_scheme \<Rightarrow> state \<Rightarrow> block_store \<Rightarrow> block \<Rightarrow> block_id \<Rightarrow> block_store \<Rightarrow> bool" where
  "decided E s t b bid t' \<longleftrightarrow> validateBlock E s (Some b) = Inr None \<and> bid_Hash bid = blk_Hash E (Some b) \<and>
     (\<exists>c vs. st_Validators s = Some vs \<and>
       (quorum_ok vs \<longrightarrow> VerifyCommit E vs (st_ChainID s) bid (LastBlockHeight s + 1) c = Inr None) \<and>
       (t' = t \<and> LastBlockHeight s + 1 \<le> bst_height t \<or>
        (\<exists>ps. ps_Header ps = bid_PartsHeader bid \<and> SaveBlock E t (Some b) ps (Some c) = Inr t')))"

type_synonym 'a core = "state \<times> 'a exec \<times> block_store"

definition core :: "'a consensus \<Rightarrow> 'a core" where
  "core cs = (cs_state cs, cs_blockExec cs, cs_blockStore cs)"

inductive grow :: "('a, 'e) node_env_scheme \<Rightarrow> 'a core \<Rightarrow> 'a core \<Rightarrow> bool" for E where
  grow_refl: "grow E c c"
| grow_other: "grow E c (s, x, t) \<Longrightarrow> ex_db x' = ex_db x \<Longrightarrow> grow E c (s, x', t)"
| grow_apply: "grow E c (s, x, t) \<Longrightarrow> decided E s t b bid t' \<Longrightarrow> ApplyBlock E (env_App E) x s bid (Some b) = Inr (None, s', x') \<Longrightarrow>
    grow E c (s', x', t')"
| grow_fail: "grow E c (s, x, t) \<Longrightarrow> decided E s t b bid t' \<Longrightarrow> ApplyBlock E (env_App E) x s bid (Some b) = Inr (Some err, s', x') \<Longrightarrow>
    grow E c (s, x', t')"

lemma grow_trans: "grow E b c \<Longrightarrow> grow E a b \<Longrightarrow> grow E a c"
  by (induction rule: grow.induct) (auto intro: grow.intros)

text \<open>The state reached the last heights of 64 bits.\<close>

definition far :: "'a core \<Rightarrow> bool" where
  "far c \<longleftrightarrow> MaxInt64 \<le> LastBlockHeight (fst c) + 1"

section \<open>Moving on\<close>

definition quiet :: "('a, 'e) node_env_scheme \<Rightarrow> 'a consensus \<Rightarrow> 'a consensus \<Rightarrow> bool" where
  "quiet E cs cs' \<longleftrightarrow> rs_Height cs' = rs_Height cs \<and> cs_state cs' = cs_state cs \<and>
     (rs_Round cs, rs_Step cs) \<le> (rs_Round cs', rs_Step cs') \<and>
     (\<forall>r b. polka cs r b \<longrightarrow> polka cs' r b) \<and> (\<forall>r h. h \<noteq> [] \<longrightarrow> guarded E cs r h \<longrightarrow> guarded E cs' r h)"

text \<open>
  \<open>adv\<close>: a step within a height. \<open>moves\<close>: a step that may also decide a block, after which the node is at a
  later height, unless the state reached the last heights.
\<close>

definition same_core :: "'a consensus \<Rightarrow> 'a consensus \<Rightarrow> bool" where
  "same_core cs cs' \<longleftrightarrow> cs_state cs' = cs_state cs \<and> cs_blockStore cs' = cs_blockStore cs \<and> ex_db (cs_blockExec cs') = ex_db (cs_blockExec cs)"

definition adv :: "('a, 'e) node_env_scheme \<Rightarrow> block_id set \<Rightarrow> 'a consensus \<Rightarrow> 'a consensus \<Rightarrow> bool" where
  "adv E B cs cs' \<longleftrightarrow> same_core cs cs' \<and> (cs_inv E B cs \<longrightarrow> cs_inv E B cs' \<and> quiet E cs cs')"

definition moves :: "('a, 'e) node_env_scheme \<Rightarrow> block_id set \<Rightarrow> 'a consensus \<Rightarrow> 'a consensus \<Rightarrow> bool" where
  "moves E B cs cs' \<longleftrightarrow> (cs_inv E B cs \<longrightarrow> grow E (core cs) (core cs') \<and>
     (cs_inv E B cs' \<and> (quiet E cs cs' \<or> rs_Height cs < rs_Height cs') \<or> far (core cs')))"

lemma quiet_refl: "quiet E cs cs"
  by (simp add: quiet_def)

lemma quiet_trans: "quiet E a b \<Longrightarrow> quiet E b c \<Longrightarrow> quiet E a c"
  unfolding quiet_def by (auto intro: order_trans)

lemma quiet_height: "quiet E a b \<Longrightarrow> rs_Height b = rs_Height a"
  by (simp add: quiet_def)

lemma same_core_grow:
  assumes "same_core a b"
  shows "grow E c (core a) \<Longrightarrow> grow E c (core b)" "far (core b) = far (core a)" "grow E (core a) (core b)"
proof -
  have g: "grow E c (core b)" if "grow E c (core a)" for c
    using grow_other [of E c "cs_state a" "cs_blockExec a" "cs_blockStore a" "cs_blockExec b"] that assms by (simp add: same_core_def core_def)
  then show "grow E c (core a) \<Longrightarrow> grow E c (core b)" "grow E (core a) (core b)" using grow_refl by blast+
  show "far (core b) = far (core a)" using assms by (simp add: far_def core_def same_core_def)
qed

lemma adv_refl: "adv E B cs cs"
  by (simp add: adv_def quiet_refl same_core_def)

lemma adv_trans: "adv E B a b \<Longrightarrow> adv E B b c \<Longrightarrow> adv E B a c"
  unfolding adv_def same_core_def using quiet_trans [of E a b c] by auto

lemma adv_bind:
  assumes "okP (adv E B cs) m" "\<And>cs1. m = Inr cs1 \<Longrightarrow> okP (adv E B cs1) (f cs1)"
  shows "okP (adv E B cs) (bindP m f)"
  using assms by (cases m) (auto simp: okP_def intro: adv_trans)

lemma adv_moves: "adv E B a b \<Longrightarrow> moves E B a b"
  using same_core_grow(3) [of a b E] by (auto simp: adv_def moves_def)

lemma moves_refl: "moves E B cs cs"
  by (rule adv_moves [OF adv_refl])

lemma adv_then: "adv E B a b \<Longrightarrow> moves E B b c \<Longrightarrow> moves E B a c"
  unfolding adv_def moves_def using same_core_grow(3) [of a b E] grow_trans [of E "core b" "core c" "core a"] quiet_trans [of E a b c] quiet_height [of E a b]
  by auto

lemma then_adv: "moves E B a b \<Longrightarrow> adv E B b c \<Longrightarrow> moves E B a c"
  unfolding adv_def moves_def using same_core_grow(1) [of b c E "core a"] same_core_grow(2) [of b c] quiet_trans [of E a b c] quiet_height [of E b c] by auto

lemma moves_bind:
  assumes "okP (adv E B cs) m" "\<And>cs1. m = Inr cs1 \<Longrightarrow> okP (moves E B cs1) (f cs1)"
  shows "okP (moves E B cs) (bindP m f)"
  using assms by (cases m) (auto simp: okP_def intro: adv_then)

lemma moves_bind_adv:
  assumes "okP (moves E B cs) m" "\<And>cs1. m = Inr cs1 \<Longrightarrow> okP (adv E B cs1) (f cs1)"
  shows "okP (moves E B cs) (bindP m f)"
  using assms by (cases m) (auto simp: okP_def intro: then_adv)

lemma okP_adv_moves: "okP (adv E B cs) m \<Longrightarrow> okP (moves E B cs) m"
  by (auto simp: okP_def adv_moves)

section \<open>Changes that matter little\<close>

definition harmless :: "'a consensus \<Rightarrow> consensus_message \<Rightarrow> bool" where
  "harmless cs m \<longleftrightarrow> (\<forall>v. m = VoteMessage (Some v) \<longrightarrow> vote_Height v = rs_Height cs \<and> \<not> block_precommit cs v)"

definition current :: "'a consensus \<Rightarrow> timeout_info set" where
  "current cs = {ti. ti_Height ti = rs_Height cs \<and> ti_Round ti \<le> rs_Round cs}"

definition frame :: "'a consensus \<Rightarrow> 'a consensus \<Rightarrow> bool" where
  "frame cs cs' \<longleftrightarrow> rs_Height cs' = rs_Height cs \<and> rs_Round cs' = rs_Round cs \<and> rs_Step cs' = rs_Step cs \<and>
     rs_LockedRound cs' = rs_LockedRound cs \<and> rs_LockedBlock cs' = rs_LockedBlock cs \<and> rs_Votes cs' = rs_Votes cs \<and>
     cs_state cs' = cs_state cs \<and> cs_blockStore cs' = cs_blockStore cs \<and> ex_db (cs_blockExec cs') = ex_db (cs_blockExec cs) \<and>
     (\<exists>q. cs_internalMsgQueue cs' = cs_internalMsgQueue cs @ q \<and> (\<forall>m \<in> set q. harmless cs m)) \<and>
     ticker_timeouts (cs_timeoutTicker cs') \<subseteq> ticker_timeouts (cs_timeoutTicker cs) \<union> current cs"

lemma frame_refl [simp]: "frame cs cs"
  by (simp add: frame_def)

lemma harmless_cong: "rs_Height cs' = rs_Height cs \<Longrightarrow> harmless cs' = harmless cs"
  by (simp add: harmless_def block_precommit_def fun_eq_iff)

lemma current_cong: "rs_Height cs' = rs_Height cs \<Longrightarrow> rs_Round cs' = rs_Round cs \<Longrightarrow> current cs' = current cs"
  by (simp add: current_def)

lemma frame_trans:
  assumes "frame a b" "frame b c"
  shows "frame a c"
proof -
  obtain q q' where q: "cs_internalMsgQueue b = cs_internalMsgQueue a @ q" "\<forall>m \<in> set q. harmless a m"
      "cs_internalMsgQueue c = cs_internalMsgQueue b @ q'" "\<forall>m \<in> set q'. harmless b m"
    using assms by (auto simp: frame_def)
  have "rs_Height b = rs_Height a" "rs_Round b = rs_Round a" using assms(1) by (simp_all add: frame_def)
  then have "cs_internalMsgQueue c = cs_internalMsgQueue a @ (q @ q') \<and> (\<forall>m \<in> set (q @ q'). harmless a m)"
    "current b = current a" using q by (auto simp: harmless_cong [of b a] current_cong [of b a])
  then show ?thesis using assms unfolding frame_def by auto
qed

lemma frame_bind:
  assumes "okP (frame cs) m" "\<And>cs1. m = Inr cs1 \<Longrightarrow> okP (frame cs1) (f cs1)"
  shows "okP (frame cs) (bindP m f)"
  using assms by (cases m) (auto simp: okP_def intro: frame_trans)

lemma polka_cong: "rs_Votes cs' = rs_Votes cs \<Longrightarrow> polka cs' = polka cs"
  by (simp add: polka_def fun_eq_iff)

lemma guarded_cong:
  "rs_Votes cs' = rs_Votes cs \<Longrightarrow> rs_LockedBlock cs' = rs_LockedBlock cs \<Longrightarrow> rs_LockedRound cs' = rs_LockedRound cs \<Longrightarrow>
   guarded E cs' = guarded E cs"
  by (simp add: guarded_def fun_eq_iff polka_cong [of cs' cs])

lemma frame_inv:
  assumes f: "frame cs cs'" and i: "cs_inv E B cs"
  shows "cs_inv E B cs'"
proof -
  have eqs: "rs_Height cs' = rs_Height cs" "rs_Round cs' = rs_Round cs" "rs_Step cs' = rs_Step cs" "rs_Votes cs' = rs_Votes cs"
      "rs_LockedRound cs' = rs_LockedRound cs" "rs_LockedBlock cs' = rs_LockedBlock cs" "cs_state cs' = cs_state cs"
    using f by (simp_all add: frame_def)
  obtain q where q: "cs_internalMsgQueue cs' = cs_internalMsgQueue cs @ q" "\<forall>m \<in> set q. harmless cs m"
    using f by (auto simp: frame_def)
  have b: "block_precommit cs' = block_precommit cs" using eqs by (simp add: block_precommit_def fun_eq_iff)
  have "queue_inv E cs'"
    using i q eqs unfolding cs_inv_def queue_inv_def b polka_cong [OF eqs(4)] guarded_cong [OF eqs(4,6,5)]
    by (fastforce simp: harmless_def)
  moreover have "timer_inv cs'"
    using f i eqs unfolding cs_inv_def timer_inv_def frame_def current_def by auto
  moreover have "height_inv cs'" "votes_inv E B cs'" "lock_inv cs'"
    using i unfolding cs_inv_def height_inv_def votes_inv_def lock_inv_def eqs by blast+
  ultimately show ?thesis by (simp add: cs_inv_def)
qed

lemma frame_adv:
  assumes "frame cs cs'"
  shows "adv E B cs cs'"
proof -
  have "same_core cs cs'" using assms by (simp add: frame_def same_core_def)
  moreover have "quiet E cs cs'"
    using assms by (simp add: frame_def quiet_def polka_cong [of cs' cs] guarded_cong [of cs' cs])
  ultimately show ?thesis using frame_inv [OF assms, of E B] unfolding adv_def by blast
qed

lemma frame_okP: "okP (frame cs) m \<Longrightarrow> okP (adv E B cs) m"
  by (simp add: okP_def frame_adv)

lemma ticker_schedule [simp]: "ticker_timeouts (ScheduleTimeout ti t) = insert ti (ticker_timeouts t)"
  by (auto simp: ticker_timeouts_def ScheduleTimeout_def)

text \<open>Fields no invariant speaks of.\<close>

lemma frame_updates [simp]:
  "frame cs (cs\<lparr>cs_clock := x0\<rparr>)" "frame cs (cs\<lparr>cs_privValidator := x1\<rparr>)" "frame cs (cs\<lparr>rs_Validators := x2\<rparr>)"
  "frame cs (cs\<lparr>cs_heap := x3\<rparr>)" "frame cs (cs\<lparr>rs_ProposalBlock := x4\<rparr>)" "frame cs (cs\<lparr>rs_ProposalBlockParts := x5\<rparr>)"
  "frame cs (cs\<lparr>rs_Proposal := x6\<rparr>)" "frame cs (cs\<lparr>rs_LockedBlockParts := x7\<rparr>)" "frame cs (cs\<lparr>rs_ValidRound := x8\<rparr>)"
  "frame cs (cs\<lparr>rs_ValidBlock := x9\<rparr>)" "frame cs (cs\<lparr>rs_ValidBlockParts := x10\<rparr>)" "frame cs (cs\<lparr>cs_nSteps := x11\<rparr>)"
  "frame cs (cs\<lparr>rs_CommitRound := x12\<rparr>)" "frame cs (cs\<lparr>rs_CommitTime := x13\<rparr>)" "frame cs (cs\<lparr>rs_LastCommit := x14\<rparr>)"
  "frame cs (cs\<lparr>cs_killed := x15\<rparr>)"
  by (simp_all add: frame_def)

lemma frame_clock [simp]: "frame cs (snd (read_clock E cs))"
  by (simp add: read_clock_def)

lemma frame_schedule: "h = rs_Height cs \<Longrightarrow> r \<le> rs_Round cs \<Longrightarrow> frame cs (scheduleTimeout d h r s cs)"
  by (auto simp: frame_def scheduleTimeout_def current_def)

lemma frame_send: "harmless cs m \<Longrightarrow> frame cs (sendInternalMessage m cs)"
  by (simp add: frame_def sendInternalMessage_def)

section \<open>Signing and proposing\<close>

lemma signVote_fields:
  "signVote E now c w v = Inr (err, v', w') \<Longrightarrow> vote_Height v' = vote_Height v \<and> vote_Round v' = vote_Round v \<and>
     vote_Type v' = vote_Type v \<and> vote_BlockID v' = vote_BlockID v \<and> ValidatorAddress v' = ValidatorAddress v \<and>
     ValidatorIndex v' = ValidatorIndex v"
  unfolding signVote_def by (auto simp: Let_def elim!: bindP_Inr_E split: if_split_asm option.split_asm prod.split_asm)

text \<open>Signing a vote adds at most that vote to the queue.\<close>

definition our_vote :: "'a consensus \<Rightarrow> int \<Rightarrow> block_id \<Rightarrow> vote \<Rightarrow> bool" where
  "our_vote cs t bid v \<longleftrightarrow> vote_Height v = rs_Height cs \<and> vote_Round v = rs_Round cs \<and> vote_Type v = t \<and> vote_BlockID v = bid"

lemma cs_signVote_frame:
  "cs_signVote E priv t hash header cs = Inr (err, v, cs') \<Longrightarrow>
   frame cs cs' \<and> our_vote cs t \<lparr>bid_Hash = hash, bid_PartsHeader = header\<rparr> v"
  unfolding cs_signVote_def
  by (auto simp: Let_def read_clock_def frame_def our_vote_def dest!: signVote_fields elim!: bindP_Inr_E split: prod.split_asm)

lemma signAddVote_frame:
  assumes "signAddVote E t hash header cs = Inr cs'"
  shows "frame cs cs' \<or> (\<exists>v cs1. frame cs cs1 \<and> cs' = sendInternalMessage (VoteMessage (Some v)) cs1 \<and>
    our_vote cs t \<lparr>bid_Hash = hash, bid_PartsHeader = header\<rparr> v)"
  using assms unfolding signAddVote_def
  by (auto dest!: cs_signVote_frame elim!: bindP_Inr_E split: option.split_asm if_split_asm prod.split_asm)

lemma signAddVote_harmless:
  assumes "t \<noteq> VoteTypePrecommit \<or> hash = []"
  shows "okP (frame cs) (signAddVote E t hash header cs)"
  unfolding okP_def
proof (intro allI impI)
  fix cs' assume "signAddVote E t hash header cs = Inr cs'"
  from signAddVote_frame [OF this] show "frame cs cs'"
  proof
    assume "\<exists>v cs1. frame cs cs1 \<and> cs' = sendInternalMessage (VoteMessage (Some v)) cs1 \<and>
      our_vote cs t \<lparr>bid_Hash = hash, bid_PartsHeader = header\<rparr> v"
    then obtain v cs1 where v: "frame cs cs1" "cs' = sendInternalMessage (VoteMessage (Some v)) cs1"
      "our_vote cs t \<lparr>bid_Hash = hash, bid_PartsHeader = header\<rparr> v" by blast
    have "rs_Height cs1 = rs_Height cs" using v(1) by (simp add: frame_def)
    then have "harmless cs1 (VoteMessage (Some v))" using assms v(3) by (auto simp: harmless_def block_precommit_def our_vote_def)
    then show ?thesis using frame_send frame_trans v(1,2) by blast
  qed
qed

lemma createProposalBlock_frame: "okP (\<lambda>(d, cs'). frame cs cs') (createProposalBlock E cs)"
  unfolding okP_def createProposalBlock_def
  by (auto simp: Let_def read_clock_def frame_def elim!: bindP_Inr_E split: option.split_asm if_split_asm prod.split_asm sum.split_asm)

lemma decide_block_frame: "okP (\<lambda>(d, cs'). frame cs cs') (decide_block E cs)"
  using createProposalBlock_frame [of cs E] by (simp add: decide_block_def split: option.split)

lemma send_part_frame: "okP (frame cs) (send_part ps i cs)"
  unfolding okP_def send_part_def by (auto simp: harmless_def intro!: frame_send elim!: bindP_Inr_E)

lemma send_parts_frame: "okP (frame cs) (foldP (send_part ps) is cs)"
  by (induction "is" arbitrary: cs) (auto intro!: frame_bind send_part_frame)

lemma defaultDecideProposal_frame: "okP (frame cs) (defaultDecideProposal E priv height round cs)"
  unfolding okP_def
proof (intro allI impI)
  fix cs' assume r: "defaultDecideProposal E priv height round cs = Inr cs'"
  then obtain d cs1 where d: "decide_block E cs = Inr (d, cs1)" unfolding defaultDecideProposal_def by (auto elim!: bindP_Inr_E)
  then have f: "frame cs cs1" using decide_block_frame [of cs E] by (simp add: okP_def)
  show "frame cs cs'"
  proof (cases d)
    case None
    then show ?thesis using r d f by (simp add: defaultDecideProposal_def)
  next
    case (Some bp)
    have "(\<exists>k w. cs' = cs1\<lparr>cs_clock := k, cs_privValidator := w\<rparr>) \<or>
        (\<exists>k w p. foldP (send_part (snd bp)) [0..ps_Total (snd bp) - 1]
          (sendInternalMessage (ProposalMessage (Some p)) (cs1\<lparr>cs_clock := k, cs_privValidator := w\<rparr>)) = Inr cs')"
      using r d Some unfolding defaultDecideProposal_def
      by (auto simp: Let_def read_clock_def elim!: bindP_Inr_E split: prod.split_asm if_split_asm) (intro exI, rule refl)
    then show ?thesis
    proof (elim disjE exE)
      fix k w assume "cs' = cs1\<lparr>cs_clock := k, cs_privValidator := w\<rparr>"
      then have "frame cs1 cs'" by (simp add: frame_def)
      then show ?thesis by (rule frame_trans [OF f])
    next
      fix k w p let ?c = "cs1\<lparr>cs_clock := k, cs_privValidator := w\<rparr>" let ?d = "sendInternalMessage (ProposalMessage (Some p)) ?c"
      assume "foldP (send_part (snd bp)) [0..ps_Total (snd bp) - 1] ?d = Inr cs'"
      then have e: "frame ?d cs'" using send_parts_frame [of ?d "snd bp" "[0..ps_Total (snd bp) - 1]"] by (simp add: okP_def)
      have "frame cs1 ?c" by (simp add: frame_def)
      then have "frame cs1 ?d" by (rule frame_trans) (rule frame_send, simp add: harmless_def)
      then show ?thesis using frame_trans [OF f] frame_trans e by blast
    qed
  qed
qed

section \<open>Steps\<close>

lemma moves_assume: "(cs_inv E B cs \<Longrightarrow> okP (moves E B cs) m) \<Longrightarrow> okP (moves E B cs) m"
  by (auto simp: okP_def moves_def)

lemma adv_quietI:
  assumes "cs_inv E B cs \<Longrightarrow> cs_inv E B cs' \<and> quiet E cs cs'"
    "cs_state cs' = cs_state cs" "cs_blockExec cs' = cs_blockExec cs" "cs_blockStore cs' = cs_blockStore cs"
  shows "adv E B cs cs'"
  using assms by (auto simp: adv_def same_core_def)

lemma done_step_fields [simp]:
  "rs_Height (done_step r s cs) = rs_Height cs" "rs_Round (done_step r s cs) = r" "rs_Step (done_step r s cs) = s"
  "rs_LockedRound (done_step r s cs) = rs_LockedRound cs" "rs_LockedBlock (done_step r s cs) = rs_LockedBlock cs"
  "rs_Votes (done_step r s cs) = rs_Votes cs" "cs_state (done_step r s cs) = cs_state cs"
  "cs_blockExec (done_step r s cs) = cs_blockExec cs" "cs_blockStore (done_step r s cs) = cs_blockStore cs"
  "cs_internalMsgQueue (done_step r s cs) = cs_internalMsgQueue cs" "cs_timeoutTicker (done_step r s cs) = cs_timeoutTicker cs"
  by (simp_all add: done_step_def newStep_def updateRoundStep_def)

lemma queue_inv_cong:
  assumes "queue_inv E cs" "rs_Height cs' = rs_Height cs" "cs_internalMsgQueue cs' = cs_internalMsgQueue cs"
    "\<And>r b. polka cs r b \<Longrightarrow> polka cs' r b" "\<And>r h. h \<noteq> [] \<Longrightarrow> guarded E cs r h \<Longrightarrow> guarded E cs' r h"
  shows "queue_inv E cs'"
  using assms unfolding queue_inv_def block_precommit_def by auto

lemma votes_inv_cong:
  assumes "votes_inv E B cs" "rs_Height cs' = rs_Height cs" "rs_Round cs' = rs_Round cs" "rs_Votes cs' = rs_Votes cs" "cs_state cs' = cs_state cs"
    "rs_Step cs' = RoundStepNewHeight \<Longrightarrow> rs_Step cs = RoundStepNewHeight"
  shows "votes_inv E B cs'"
  using assms unfolding votes_inv_def by auto

lemma done_step_adv:
  assumes "(rs_Round cs, rs_Step cs) \<le> (round, step)" "RoundStepNewHeight < step"
  shows "adv E B cs (done_step round step cs)"
proof (rule adv_quietI)
  let ?cs = "done_step round step cs"
  have p: "polka ?cs = polka cs" "guarded E ?cs = guarded E cs" by (rule polka_cong guarded_cong; simp)+
  have r: "rs_Round cs < round \<or> rs_Round cs = round \<and> rs_Step cs \<le> step" using assms(1) by auto
  assume i: "cs_inv E B cs"
  have "height_inv ?cs" "votes_inv E B ?cs" "lock_inv ?cs" "timer_inv ?cs"
    using i r assms(2) unfolding cs_inv_def height_inv_def votes_inv_def lock_inv_def timer_inv_def by auto
  moreover have "queue_inv E ?cs" by (rule queue_inv_cong [of E cs]) (use i p in \<open>auto simp: cs_inv_def\<close>)
  ultimately show "cs_inv E B ?cs \<and> quiet E cs ?cs" using assms(1) p by (simp add: cs_inv_def quiet_def)
qed simp_all

lemma done_step_frame:
  assumes "frame a b" "rs_Round a \<le> r"
  shows "frame (done_step r s a) (done_step r s b)"
proof -
  have "current a \<subseteq> current (done_step r s a)" using assms(2) by (auto simp: current_def)
  moreover have "harmless (done_step r s a) = harmless a" by (rule harmless_cong) simp
  ultimately show ?thesis using assms(1) unfolding frame_def by auto
qed

text \<open>Handlers up to a commit stay at their height and do not go back to an earlier round.\<close>

definition onward :: "'a consensus \<Rightarrow> 'a consensus \<Rightarrow> bool" where
  "onward cs cs' \<longleftrightarrow> rs_Height cs' = rs_Height cs \<and> rs_Round cs \<le> rs_Round cs'"

lemma onward_refl [simp]: "onward cs cs"
  by (simp add: onward_def)

lemma onward_trans: "onward a b \<Longrightarrow> onward b c \<Longrightarrow> onward a c"
  by (simp add: onward_def)

lemma frame_onward: "frame a b \<Longrightarrow> onward a b"
  by (simp add: frame_def onward_def)

lemma onward_bind:
  assumes "okP (onward cs) m" "\<And>cs1. m = Inr cs1 \<Longrightarrow> okP (onward cs1) (f cs1)"
  shows "okP (onward cs) (bindP m f)"
  using assms by (cases m) (auto simp: okP_def intro: onward_trans)

lemma done_step_onward: "rs_Round cs \<le> r \<Longrightarrow> onward cs (done_step r s cs)"
  by (simp add: onward_def)

lemma defaultDoPrevote_frame: "okP (frame cs) (defaultDoPrevote E cs)"
proof -
  have "okP (frame cs) (signAddVote E VoteTypePrevote h p cs)" for h p by (rule signAddVote_harmless) simp
  then show ?thesis unfolding defaultDoPrevote_def by (auto simp: okP_bindP) (simp add: okP_def)
qed

lemma enterPrevote_cases:
  assumes "enterPrevote E h r cs = Inr cs'"
  obtains "cs' = cs"
  | cs1 where "rs_Height cs = h" "(rs_Round cs, rs_Step cs) < (r, RoundStepPrevote)" "frame cs cs1" "cs' = done_step r RoundStepPrevote cs1"
proof (cases "rs_Height cs \<noteq> h \<or> r < rs_Round cs \<or> (rs_Round cs = r \<and> RoundStepPrevote \<le> rs_Step cs)")
  case True
  then show ?thesis using assms that(1) by (simp add: enterPrevote_def)
next
  case False
  then obtain cs1 where "defaultDoPrevote E cs = Inr cs1" "cs' = done_step r RoundStepPrevote cs1"
    using assms by (auto simp: enterPrevote_def elim!: bindP_Inr_E)
  then show ?thesis using that(2) [of cs1] False defaultDoPrevote_frame [of cs E] by (auto simp: okP_def)
qed

lemma step_adv: "frame cs cs1 \<Longrightarrow> (rs_Round cs, rs_Step cs) \<le> (r, s) \<Longrightarrow> RoundStepNewHeight < s \<Longrightarrow> adv E B cs (done_step r s cs1)"
  by (rule adv_trans [OF frame_adv done_step_adv]) (auto simp: frame_def)

lemma step_onward: "frame cs cs1 \<Longrightarrow> rs_Round cs \<le> r \<Longrightarrow> onward cs (done_step r s cs1)"
  by (auto simp: frame_def onward_def)

lemma enterPrevote_adv: "okP (adv E B cs) (enterPrevote E h r cs)"
  unfolding okP_def by (auto elim!: enterPrevote_cases intro!: adv_refl step_adv simp: steps)

lemma enterPrevote_onward: "okP (onward cs) (enterPrevote E h r cs)"
  unfolding okP_def by (auto elim!: enterPrevote_cases intro!: step_onward)

lemma propose_as_frame: "okP (frame cs) (propose_as E priv h r cs)"
proof -
  have "okP (frame cs) (defaultDecideProposal E priv h r (cs\<lparr>rs_Validators := Some vs\<rparr>))" for vs
    using defaultDecideProposal_frame [of "cs\<lparr>rs_Validators := Some vs\<rparr>" E priv h r] frame_trans [OF frame_updates(3)]
    unfolding okP_def by blast
  then show ?thesis unfolding propose_as_def isProposer_def
    by (auto simp: okP_bindP Let_def split: prod.split) (auto simp: okP_def)
qed

lemma enterPropose_cases:
  assumes "enterPropose E h r cs = Inr cs'" "r \<le> rs_Round cs"
  obtains "cs' = cs"
  | cs1 where "rs_Height cs = h" "rs_Round cs = r" "rs_Step cs < RoundStepPropose" "frame cs cs1"
      "cs' = done_step r RoundStepPropose cs1 \<or> enterPrevote E h r (done_step r RoundStepPropose cs1) = Inr cs'"
proof (cases "rs_Height cs \<noteq> h \<or> r < rs_Round cs \<or> (rs_Round cs = r \<and> RoundStepPropose \<le> rs_Step cs)")
  case True
  then show ?thesis using assms that(1) by (simp add: enterPropose_def)
next
  case False
  let ?c = "scheduleTimeout (cfg_Propose (env_Config E) r) h r RoundStepPropose cs"
  obtain cs1 where c: "(case cs_privValidator ?c of None \<Rightarrow> Inr ?c | Some priv \<Rightarrow> propose_as E priv h r ?c) = Inr cs1"
    "cs' = done_step r RoundStepPropose cs1 \<or> enterPrevote E h r (done_step r RoundStepPropose cs1) = Inr cs'"
    using assms(1) False by (auto simp: enterPropose_def Let_def elim!: bindP_Inr_E split: if_split_asm)
  have "frame cs ?c" using False assms(2) by (intro frame_schedule) auto
  moreover have "frame ?c cs1" using c(1) propose_as_frame [of ?c E] by (auto simp: okP_def split: option.split_asm)
  ultimately have "frame cs cs1" by (rule frame_trans)
  then show ?thesis using that(2) [of cs1] c(2) False assms(2) by auto
qed

lemma enterPropose_adv: "r \<le> rs_Round cs \<Longrightarrow> okP (adv E B cs) (enterPropose E h r cs)"
  unfolding okP_def
proof (intro allI impI)
  fix cs' assume r: "r \<le> rs_Round cs" and e: "enterPropose E h r cs = Inr cs'"
  show "adv E B cs cs'"
    using e r
  proof (cases rule: enterPropose_cases)
    case (2 cs1)
    then have "adv E B cs (done_step r RoundStepPropose cs1)" by (intro step_adv) (auto simp: steps)
    then show ?thesis
      using 2(5) adv_trans enterPrevote_adv [of E B "done_step r RoundStepPropose cs1" h r] by (auto simp: okP_def)
  qed (simp add: adv_refl)
qed

lemma enterPropose_onward: "r \<le> rs_Round cs \<Longrightarrow> okP (onward cs) (enterPropose E h r cs)"
  unfolding okP_def
proof (intro allI impI)
  fix cs' assume r: "r \<le> rs_Round cs" and e: "enterPropose E h r cs = Inr cs'"
  show "onward cs cs'"
    using e r
  proof (cases rule: enterPropose_cases)
    case (2 cs1)
    then have "onward cs (done_step r RoundStepPropose cs1)" by (intro step_onward) auto
    then show ?thesis
      using 2(5) onward_trans enterPrevote_onward [of "done_step r RoundStepPropose cs1" E h r] by (auto simp: okP_def)
  qed simp
qed

section \<open>Rounds\<close>

lemma votes_adv_aux:
  assumes "rs_Votes cs = Some h" "rs_Votes cs' = Some h'" "hvs_ext h h'"
    "rs_LockedBlock cs' = rs_LockedBlock cs" "rs_LockedRound cs' = rs_LockedRound cs"
  shows "polka cs r b \<Longrightarrow> polka cs' r b" "guarded E cs r k \<Longrightarrow> guarded E cs' r k"
proof -
  have p: "polka cs r b \<Longrightarrow> polka cs' r b" for r b using assms(1-3) by (auto simp: polka_def hvs_ext_def)
  then show "polka cs r b \<Longrightarrow> polka cs' r b" "guarded E cs r k \<Longrightarrow> guarded E cs' r k"
    using assms(4,5) unfolding guarded_def by auto
qed

lemma start_round_cases:
  assumes "start_round r cs = Inr cs'"
  obtains h h' where "rs_Votes cs = Some h" "rs_Votes cs' = Some h'" "hvs_SetRound h (wrap64 (r + 1)) = Inr h'"
    "frame cs (cs'\<lparr>rs_Round := rs_Round cs, rs_Step := rs_Step cs, rs_Votes := rs_Votes cs\<rparr>)" "rs_Round cs' = r" "rs_Step cs' = RoundStepNewRound"
  using assms unfolding start_round_def
  by (auto simp: Let_def updateRoundStep_def frame_def elim!: bindP_Inr_E split: if_split_asm)

lemma start_round_adv:
  assumes g: "rs_Round cs < r \<or> rs_Round cs = r \<and> rs_Step cs = RoundStepNewHeight" and m: "r < MaxInt64"
  shows "okP (adv E B cs) (start_round r cs)"
  unfolding okP_def
proof (intro allI impI)
  fix cs' assume "start_round r cs = Inr cs'"
  then obtain h h' where h: "rs_Votes cs = Some h" "rs_Votes cs' = Some h'" "hvs_SetRound h (wrap64 (r + 1)) = Inr h'"
    and f: "frame cs (cs'\<lparr>rs_Round := rs_Round cs, rs_Step := rs_Step cs, rs_Votes := rs_Votes cs\<rparr>)"
    and rs: "rs_Round cs' = r" "rs_Step cs' = RoundStepNewRound"
    by (rule start_round_cases)
  let ?a = "cs'\<lparr>rs_Round := rs_Round cs, rs_Step := rs_Step cs, rs_Votes := rs_Votes cs\<rparr>"
  have x: "hvs_ext h h'" "hvs_round h' = wrap64 (r + 1)" using hvs_SetRound_ext [OF h(3)] by simp_all
  have pg: "polka ?a q b \<Longrightarrow> polka cs' q b" "guarded E ?a q k \<Longrightarrow> guarded E cs' q k" for q b k
    using votes_adv_aux [of ?a h cs' h'] h x(1) by simp_all
  have "adv E B ?a cs'"
  proof (rule adv_quietI)
    assume i: "cs_inv E B ?a"
    obtain vs where v: "st_Validators (cs_state cs') = Some vs" "hvs_valSet h = vs" "hvs_chainID h = st_ChainID (cs_state cs')"
        "hvs_height h = rs_Height cs'" "quorum_ok vs \<longrightarrow> hvs_wf E B h \<and> catchup_ok h" "hvs_round h \<le> rs_Round cs + 1"
        "rs_Step cs = RoundStepNewHeight \<longrightarrow> hvs_round h = 0"
      using i h by (auto simp: cs_inv_def votes_inv_def)
    have r0: "0 \<le> rs_Round cs" using i by (simp add: cs_inv_def height_inv_def)
    then have w: "wrap64 (r + 1) = r + 1" using g m by (auto simp: int64_defs)
    then have "hvs_round h < r + 1" using g r0 v(6,7) by auto
    then have "quorum_ok vs \<longrightarrow> hvs_wf E B h' \<and> catchup_ok h'"
      using v(5) hvs_SetRound_ok [of E B h "r + 1"] h(3) w by auto
    then have "votes_inv E B cs'"
      using v(1-4) h(2) x w rs unfolding votes_inv_def by (auto simp: hvs_ext_def steps)
    moreover have "height_inv cs'" "lock_inv cs'" "timer_inv cs'"
      using i g rs r0 unfolding cs_inv_def height_inv_def lock_inv_def timer_inv_def by (auto simp: steps)
    moreover have "queue_inv E cs'" by (rule queue_inv_cong [of E ?a]) (use i pg in \<open>auto simp: cs_inv_def\<close>)
    ultimately show "cs_inv E B cs' \<and> quiet E ?a cs'"
      using g rs pg by (auto simp: cs_inv_def quiet_def steps)
  qed simp_all
  then show "adv E B cs cs'" by (rule adv_trans [OF frame_adv [OF f]])
qed

lemma enterNewRound_cases:
  assumes "enterNewRound E h r cs = Inr cs'"
  obtains "cs' = cs" "rs_Height cs = h \<Longrightarrow> r \<le> rs_Round cs"
  | cs0 cs1 where "rs_Height cs = h" "rs_Round cs < r \<or> rs_Round cs = r \<and> rs_Step cs = RoundStepNewHeight" "frame cs cs0"
      "start_round r cs0 = Inr cs1"
      "cs' = cs1 \<or> cs' = scheduleTimeout (EmptyBlocksInterval (env_Config E)) h r RoundStepNewRound cs1 \<or> enterPropose E h r cs1 = Inr cs'"
proof (cases "rs_Height cs \<noteq> h \<or> r < rs_Round cs \<or> (rs_Round cs = r \<and> rs_Step cs \<noteq> RoundStepNewHeight)")
  case True
  then show ?thesis using assms that(1) by (auto simp: enterNewRound_def)
next
  case False
  let ?c = "snd (read_clock E cs)"
  obtain cs1 where "start_round r ?c = Inr cs1"
    "cs' = cs1 \<or> cs' = scheduleTimeout (EmptyBlocksInterval (env_Config E)) h r RoundStepNewRound cs1 \<or> enterPropose E h r cs1 = Inr cs'"
    using assms False unfolding enterNewRound_def
    by (auto simp: Let_def read_clock_def elim!: bindP_Inr_E split: if_split_asm prod.split_asm)
  moreover have "rs_Round cs < r \<or> rs_Round cs = r \<and> rs_Step cs = RoundStepNewHeight" using False by auto
  ultimately show ?thesis using that(2) [of ?c cs1] False frame_clock by metis
qed

lemma enterNewRound_adv:
  assumes "r < MaxInt64"
  shows "okP (adv E B cs) (enterNewRound E h r cs)"
  unfolding okP_def
proof (intro allI impI)
  fix cs' assume "enterNewRound E h r cs = Inr cs'"
  then show "adv E B cs cs'"
  proof (cases rule: enterNewRound_cases)
    case (2 cs0 cs1)
    have g: "rs_Round cs0 < r \<or> rs_Round cs0 = r \<and> rs_Step cs0 = RoundStepNewHeight" using 2(2,3) by (simp add: frame_def)
    have a: "adv E B cs cs1" using adv_trans [OF frame_adv [OF 2(3)]] start_round_adv [OF g assms, of E B] 2(4) by (auto simp: okP_def)
    obtain f: "frame cs0 (cs1\<lparr>rs_Round := rs_Round cs0, rs_Step := rs_Step cs0, rs_Votes := rs_Votes cs0\<rparr>)" and r: "rs_Round cs1 = r"
      using start_round_cases [OF 2(4)] by blast
    have "rs_Height cs1 = h" using f 2(1,3) by (simp add: frame_def)
    then have "frame cs1 (scheduleTimeout (EmptyBlocksInterval (env_Config E)) h r RoundStepNewRound cs1)"
      using r by (intro frame_schedule) auto
    then have "adv E B cs1 cs'" using 2(5) r enterPropose_adv [of r cs1 E B h] by (auto simp: okP_def intro: frame_adv adv_refl)
    then show ?thesis by (rule adv_trans [OF a])
  qed (simp add: adv_refl)
qed

lemma enterNewRound_onward:
  assumes "enterNewRound E h r cs = Inr cs'"
  shows "onward cs cs' \<and> (rs_Height cs = h \<longrightarrow> r \<le> rs_Round cs')"
  using assms
proof (cases rule: enterNewRound_cases)
  case (2 cs0 cs1)
  have f: "frame cs0 (cs1\<lparr>rs_Round := rs_Round cs0, rs_Step := rs_Step cs0, rs_Votes := rs_Votes cs0\<rparr>)" and r: "rs_Round cs1 = r"
    using start_round_cases [OF 2(4)] by blast+
  have "onward cs cs1" using f r 2(2,3) by (auto simp: frame_def onward_def)
  moreover have "onward cs1 cs'"
    using 2(5) r enterPropose_onward [of r cs1 E h] by (auto simp: okP_def onward_def scheduleTimeout_def)
  ultimately show ?thesis using r by (auto simp: onward_def)
qed simp

lemma wait_adv:
  assumes "rs_Height cs = h" "r \<le> rs_Round cs" "\<not> (r < rs_Round cs \<or> (rs_Round cs = r \<and> s \<le> rs_Step cs))" "RoundStepNewHeight < s"
  shows "adv E B cs (done_step r s (scheduleTimeout d h r s cs))"
  by (rule step_adv [OF frame_schedule]) (use assms in auto)

lemma enterPrevoteWait_adv:
  assumes "rs_Height cs = h \<Longrightarrow> r \<le> rs_Round cs"
  shows "okP (adv E B cs) (enterPrevoteWait E h r cs)"
proof (cases "rs_Height cs \<noteq> h \<or> r < rs_Round cs \<or> (rs_Round cs = r \<and> RoundStepPrevoteWait \<le> rs_Step cs)")
  case False
  then have "adv E B cs (done_step r RoundStepPrevoteWait (scheduleTimeout (cfg_Prevote (env_Config E) r) h r RoundStepPrevoteWait cs))"
    using assms by (intro wait_adv) (auto simp: steps)
  then show ?thesis using False unfolding enterPrevoteWait_def by (auto simp: okP_def elim!: bindP_Inr_E split: if_split_asm)
qed (simp add: enterPrevoteWait_def adv_refl)

lemma enterPrecommitWait_adv:
  assumes "rs_Height cs = h \<Longrightarrow> r \<le> rs_Round cs"
  shows "okP (adv E B cs) (enterPrecommitWait E h r cs)"
proof (cases "rs_Height cs \<noteq> h \<or> r < rs_Round cs \<or> (rs_Round cs = r \<and> RoundStepPrecommitWait \<le> rs_Step cs)")
  case False
  then have "adv E B cs (done_step r RoundStepPrecommitWait (scheduleTimeout (cfg_Precommit (env_Config E) r) h r RoundStepPrecommitWait cs))"
    using assms by (intro wait_adv) (auto simp: steps)
  then show ?thesis using False unfolding enterPrecommitWait_def by (auto simp: okP_def elim!: bindP_Inr_E split: if_split_asm)
qed (simp add: enterPrecommitWait_def adv_refl)

section \<open>Locking and unlocking\<close>

lemma unlock_fields [simp]:
  "rs_Height (unlock cs) = rs_Height cs" "rs_Round (unlock cs) = rs_Round cs" "rs_Step (unlock cs) = rs_Step cs"
  "rs_Votes (unlock cs) = rs_Votes cs" "rs_LockedBlock (unlock cs) = None" "cs_state (unlock cs) = cs_state cs"
  "cs_blockExec (unlock cs) = cs_blockExec cs" "cs_blockStore (unlock cs) = cs_blockStore cs"
  "cs_internalMsgQueue (unlock cs) = cs_internalMsgQueue cs" "cs_timeoutTicker (unlock cs) = cs_timeoutTicker cs"
  by (simp_all add: unlock_def)

lemma guarded_by_polka: "polka cs r' bid \<Longrightarrow> r < r' \<Longrightarrow> bid_Hash bid \<noteq> h \<Longrightarrow> guarded E cs r h"
  unfolding guarded_def by blast

lemma not_HashesTo: "\<not> blk_HashesTo E (Some b) h \<Longrightarrow> blk_Hash E (Some b) \<noteq> [] \<Longrightarrow> h \<noteq> blk_Hash E (Some b)"
  by (auto simp: blk_HashesTo_def)

lemma guarded_unlock:
  assumes "polka cs r bid" "\<And>b. rs_LockedBlock cs = Some b \<Longrightarrow> rs_LockedRound cs < r \<and> \<not> blk_HashesTo E (Some b) (bid_Hash bid)"
    and g: "guarded E cs q h" "h \<noteq> []" and v: "rs_Votes cs' = rs_Votes cs"
  shows "guarded E cs' q h"
proof -
  note p = polka_cong [OF v]
  from g(1) consider b where "rs_LockedBlock cs = Some b" "blk_Hash E (Some b) = h" "q \<le> rs_LockedRound cs"
    | r' bid' where "q < r'" "polka cs r' bid'" "bid_Hash bid' \<noteq> h"
    unfolding guarded_def by blast
  then show ?thesis
  proof cases
    case 1
    then show ?thesis using assms(2) [OF 1(1)] assms(1) g(2) p not_HashesTo [of E b "bid_Hash bid"]
      by (intro guarded_by_polka [of cs' r bid]) auto
  next
    case 2
    then show ?thesis using p by (intro guarded_by_polka [of cs' r' bid']) auto
  qed
qed

lemma unlock_adv:
  assumes "polka cs r bid" "\<And>b. cs_inv E B cs \<Longrightarrow> rs_LockedBlock cs = Some b \<Longrightarrow> rs_LockedRound cs < r \<and> \<not> blk_HashesTo E (Some b) (bid_Hash bid)"
  shows "adv E B cs (unlock cs)"
proof (rule adv_quietI)
  assume i: "cs_inv E B cs"
  have p: "polka (unlock cs) = polka cs" by (rule polka_cong) simp
  have g: "guarded E (unlock cs) q h" if "guarded E cs q h" "h \<noteq> []" for q h
    using guarded_unlock [OF assms(1) assms(2) [OF i] that] by simp
  have "queue_inv E (unlock cs)" by (rule queue_inv_cong [of E cs]) (use i g p in \<open>auto simp: cs_inv_def\<close>)
  moreover have "height_inv (unlock cs)" "lock_inv (unlock cs)" "timer_inv (unlock cs)"
    using i by (auto simp: cs_inv_def height_inv_def lock_inv_def timer_inv_def)
  moreover have "votes_inv E B (unlock cs)" by (rule votes_inv_cong [of E B cs]) (use i in \<open>simp_all add: cs_inv_def\<close>)
  ultimately show "cs_inv E B (unlock cs) \<and> quiet E cs (unlock cs)" using p g by (simp add: cs_inv_def quiet_def)
qed simp_all

definition lock_on :: "int \<Rightarrow> block \<Rightarrow> nat option \<Rightarrow> 'a consensus \<Rightarrow> 'a consensus" where
  "lock_on r b p cs = cs\<lparr>rs_LockedRound := r, rs_LockedBlock := Some b, rs_LockedBlockParts := p\<rparr>"

lemma lock_fields [simp]:
  "rs_Height (lock_on r b p cs) = rs_Height cs" "rs_Round (lock_on r b p cs) = rs_Round cs" "rs_Step (lock_on r b p cs) = rs_Step cs"
  "rs_Votes (lock_on r b p cs) = rs_Votes cs" "rs_LockedBlock (lock_on r b p cs) = Some b" "rs_LockedRound (lock_on r b p cs) = r"
  "cs_state (lock_on r b p cs) = cs_state cs" "cs_blockExec (lock_on r b p cs) = cs_blockExec cs"
  "cs_blockStore (lock_on r b p cs) = cs_blockStore cs" "cs_internalMsgQueue (lock_on r b p cs) = cs_internalMsgQueue cs"
  "cs_timeoutTicker (lock_on r b p cs) = cs_timeoutTicker cs"
  by (simp_all add: lock_on_def)

text \<open>Locking is justified by the polka of the round, and so is dropping an older lock.\<close>

lemma lock_adv:
  assumes p: "polka cs r bid" and b: "blk_HashesTo E (Some b) (bid_Hash bid)"
    and s: "rs_Round cs = r" "rs_Step cs < RoundStepPrecommit"
  shows "adv E B cs (done_step r RoundStepPrecommit (lock_on r b pp cs))"
proof (rule adv_quietI)
  let ?c = "done_step r RoundStepPrecommit (lock_on r b pp cs)"
  assume i: "cs_inv E B cs"
  have hb: "blk_Hash E (Some b) = bid_Hash bid" using b by (auto simp: blk_HashesTo_def split: if_split_asm)
  have pp: "polka ?c = polka cs" by (rule polka_cong) simp
  have l: "rs_LockedRound cs < r" if "rs_LockedBlock cs \<noteq> None" using i s that by (auto simp: cs_inv_def lock_inv_def steps)
  have g: "guarded E ?c q h" if g: "guarded E cs q h" "h \<noteq> []" for q h
  proof -
    from g(1) consider b' where "rs_LockedBlock cs = Some b'" "blk_Hash E (Some b') = h" "q \<le> rs_LockedRound cs"
      | r' bid' where "q < r'" "polka cs r' bid'" "bid_Hash bid' \<noteq> h"
      unfolding guarded_def by blast
    then show ?thesis
    proof cases
      case 1
      then have q: "q < r" using l by simp
      show ?thesis
      proof (cases "h = bid_Hash bid")
        case True
        then show ?thesis using q hb by (simp add: guarded_def)
      next
        case False
        then show ?thesis using p pp q by (intro guarded_by_polka [of ?c r bid]) auto
      qed
    next
      case 2
      then show ?thesis using pp by (intro guarded_by_polka [of ?c r' bid']) auto
    qed
  qed
  have "queue_inv E ?c" by (rule queue_inv_cong [of E cs]) (use i g pp in \<open>auto simp: cs_inv_def\<close>)
  moreover have "height_inv ?c" "lock_inv ?c" "timer_inv ?c"
    using i s by (auto simp: cs_inv_def height_inv_def lock_inv_def timer_inv_def steps)
  moreover have "votes_inv E B ?c" by (rule votes_inv_cong [of E B cs]) (use i s in \<open>simp_all add: cs_inv_def steps\<close>)
  ultimately show "cs_inv E B ?c \<and> quiet E cs ?c" using pp g s by (simp add: cs_inv_def quiet_def)
qed simp_all

lemma send_fields [simp]:
  "rs_Height (sendInternalMessage m cs) = rs_Height cs" "rs_Round (sendInternalMessage m cs) = rs_Round cs"
  "rs_Step (sendInternalMessage m cs) = rs_Step cs" "rs_Votes (sendInternalMessage m cs) = rs_Votes cs"
  "rs_LockedBlock (sendInternalMessage m cs) = rs_LockedBlock cs" "rs_LockedRound (sendInternalMessage m cs) = rs_LockedRound cs"
  "cs_state (sendInternalMessage m cs) = cs_state cs" "cs_blockExec (sendInternalMessage m cs) = cs_blockExec cs"
  "cs_blockStore (sendInternalMessage m cs) = cs_blockStore cs" "cs_timeoutTicker (sendInternalMessage m cs) = cs_timeoutTicker cs"
  "cs_internalMsgQueue (sendInternalMessage m cs) = cs_internalMsgQueue cs @ [m]"
  by (simp_all add: sendInternalMessage_def)

lemma send_adv:
  assumes "vote_Height v = rs_Height cs" "polka cs (vote_Round v) (vote_BlockID v)" "guarded E cs (vote_Round v) (bid_Hash (vote_BlockID v))"
  shows "adv E B cs (sendInternalMessage (VoteMessage (Some v)) cs)"
proof (rule adv_quietI)
  let ?c = "sendInternalMessage (VoteMessage (Some v)) cs"
  assume i: "cs_inv E B cs"
  have p: "polka ?c = polka cs" "guarded E ?c = guarded E cs" "block_precommit ?c = block_precommit cs"
    by (rule polka_cong guarded_cong; simp)+ (simp add: block_precommit_def fun_eq_iff)
  have "queue_inv E ?c" using i assms unfolding cs_inv_def queue_inv_def p by auto
  moreover have "height_inv ?c" "lock_inv ?c" "timer_inv ?c"
    using i by (auto simp: cs_inv_def height_inv_def lock_inv_def timer_inv_def)
  moreover have "votes_inv E B ?c" by (rule votes_inv_cong [of E B cs]) (use i in \<open>simp_all add: cs_inv_def\<close>)
  ultimately show "cs_inv E B ?c \<and> quiet E cs ?c" using p by (simp add: cs_inv_def quiet_def)
qed simp_all

lemma done_send: "done_step r s (sendInternalMessage m cs) = sendInternalMessage m (done_step r s cs)"
  by (simp add: done_step_def sendInternalMessage_def newStep_def updateRoundStep_def)

lemma bid_eta: "\<lparr>bid_Hash = bid_Hash bid, bid_PartsHeader = bid_PartsHeader bid\<rparr> = bid"
  by simp

lemma hashed_HashesTo: "blk_HashesTo E (hashed_block E bo) h = blk_HashesTo E bo h" "blk_Hash E (hashed_block E bo) = blk_Hash E bo"
proof -
  show "blk_Hash E (hashed_block E bo) = blk_Hash E bo" by (cases bo) (simp_all add: hashed_block_def blk_hashed_def)
  then show "blk_HashesTo E (hashed_block E bo) h = blk_HashesTo E bo h" by (simp add: blk_HashesTo_def hashed_block_def)
qed

lemma sign_lock_adv:
  assumes p: "polka cs r bid" and b: "blk_HashesTo E (Some b) (bid_Hash bid)" and s: "rs_Round cs = r" "rs_Step cs < RoundStepPrecommit"
  shows "okP (\<lambda>cs1. adv E B cs (done_step r RoundStepPrecommit cs1))
    (signAddVote E VoteTypePrecommit (bid_Hash bid) (bid_PartsHeader bid) (lock_on r b pp cs))"
  unfolding okP_def
proof (intro allI impI)
  let ?L = "lock_on r b pp cs" and ?d = "done_step r RoundStepPrecommit"
  fix cs1 assume "signAddVote E VoteTypePrecommit (bid_Hash bid) (bid_PartsHeader bid) ?L = Inr cs1"
  from signAddVote_frame [OF this] consider "frame ?L cs1"
    | v c where "frame ?L c" "cs1 = sendInternalMessage (VoteMessage (Some v)) c" "our_vote ?L VoteTypePrecommit bid v"
    unfolding bid_eta by blast
  moreover have L: "adv E B cs (?d c)" "polka (?d c) = polka cs" "rs_LockedBlock c = Some b" "rs_LockedRound c = r" if "frame ?L c" for c
  proof -
    have "frame (?d ?L) (?d c)" using done_step_frame [OF that] s by simp
    then show "adv E B cs (?d c)" by (rule adv_trans [OF lock_adv [OF p b s] frame_adv])
    show "polka (?d c) = polka cs" by (rule polka_cong) (use that in \<open>simp add: frame_def\<close>)
    show "rs_LockedBlock c = Some b" "rs_LockedRound c = r" using that by (simp_all add: frame_def)
  qed
  ultimately show "adv E B cs (?d cs1)"
  proof cases
    case (2 v c)
    have "adv E B (?d c) (sendInternalMessage (VoteMessage (Some v)) (?d c))"
    proof (rule send_adv)
      show "vote_Height v = rs_Height (?d c)" using 2(1,3) by (simp add: our_vote_def frame_def)
      have v: "vote_Round v = r" "vote_BlockID v = bid" using 2(3) s(1) by (simp_all add: our_vote_def)
      then show "polka (?d c) (vote_Round v) (vote_BlockID v)" using L(2) [OF 2(1)] p by simp
      have "blk_Hash E (Some b) = bid_Hash bid" using b by (auto simp: blk_HashesTo_def split: if_split_asm)
      then show "guarded E (?d c) (vote_Round v) (bid_Hash (vote_BlockID v))"
        using L(3,4) [OF 2(1)] v by (simp add: guarded_def)
    qed
    then show ?thesis using 2(2) adv_trans [OF L(1) [OF 2(1)]] by (simp add: done_send)
  qed (rule L(1))
qed

lemma fetch_block_frame: "okP (frame cs) (fetch_block header cs)"
  unfolding okP_def fetch_block_def new_parts_def
  by (auto simp: frame_def elim!: bindP_Inr_E split: if_split_asm)

lemma precommit_nil_adv:
  assumes "adv E B cs c" "rs_Round c = r" "rs_Step c < RoundStepPrecommit"
  shows "okP (\<lambda>cs1. adv E B cs (done_step r RoundStepPrecommit cs1)) (signAddVote E VoteTypePrecommit [] zero_psh c)"
proof (rule okP_weaken [OF signAddVote_harmless])
  fix cs1 assume "frame c cs1"
  then have "adv E B c (done_step r RoundStepPrecommit cs1)" using assms by (intro step_adv) (auto simp: steps)
  then show "adv E B cs (done_step r RoundStepPrecommit cs1)" by (rule adv_trans [OF assms(1)])
qed simp

lemma precommit_polka_adv:
  assumes p: "polka cs r bid" and s: "rs_Round cs = r" "rs_Step cs < RoundStepPrecommit"
  shows "okP (\<lambda>cs1. adv E B cs (done_step r RoundStepPrecommit cs1)) (precommit_polka E r bid cs)"
proof -
  let ?h = "bid_Hash bid" and ?P = "\<lambda>cs1. adv E B cs (done_step r RoundStepPrecommit cs1)"
  have l: "cs_inv E B cs \<Longrightarrow> rs_LockedBlock cs = Some b \<Longrightarrow> rs_LockedRound cs < r" for b
    using s by (auto simp: cs_inv_def lock_inv_def steps)
  consider (nil) "length ?h = 0" | (locked) b where "length ?h \<noteq> 0" "rs_LockedBlock cs = Some b" "blk_HashesTo E (Some b) ?h"
    | (proposal) b where "length ?h \<noteq> 0" "\<not> blk_HashesTo E (rs_LockedBlock cs) ?h" "rs_ProposalBlock cs = Some b" "blk_HashesTo E (Some b) ?h"
    | (unknown) "length ?h \<noteq> 0" "\<not> blk_HashesTo E (rs_LockedBlock cs) ?h" "\<not> blk_HashesTo E (rs_ProposalBlock cs) ?h"
    by (cases "rs_LockedBlock cs"; cases "rs_ProposalBlock cs") (auto simp: blk_HashesTo_def)
  then show ?thesis
  proof cases
    case nil
    then have "adv E B cs (unlock cs)" using unlock_adv [OF p, of E B] l by (auto simp: blk_HashesTo_def)
    then have "adv E B cs (if rs_LockedBlock cs = None then cs else unlock cs)" by (simp add: adv_refl)
    from precommit_nil_adv [OF this, of r] show ?thesis using nil s by (simp add: precommit_polka_def)
  next
    case (locked b)
    then have "cs\<lparr>rs_LockedRound := r\<rparr> = lock_on r b (rs_LockedBlockParts cs) cs" by (cases cs) (simp add: lock_on_def)
    then show ?thesis using locked sign_lock_adv [OF p locked(3) s] by (simp add: precommit_polka_def)
  next
    case (proposal b)
    have e: "cs\<lparr>rs_LockedRound := r, rs_LockedBlock := hashed_block E (rs_ProposalBlock cs), rs_LockedBlockParts := rs_ProposalBlockParts cs\<rparr> =
        lock_on r (blk_hashed E b) (rs_ProposalBlockParts cs) cs" using proposal(3) by (simp add: lock_on_def hashed_block_def)
    have "blk_HashesTo E (Some (blk_hashed E b)) ?h"
      using proposal(3,4) hashed_HashesTo(1) [of E "Some b"] by (simp add: hashed_block_def)
    from sign_lock_adv [OF p this s, of B "rs_ProposalBlockParts cs"] show ?thesis
      using proposal(1-4) e by (simp add: precommit_polka_def okP_bindP) (simp add: okP_def)
  next
    case unknown
    have u: "adv E B cs (unlock cs)" by (rule unlock_adv [OF p]) (use unknown(2) l in auto)
    have "okP ?P (bindP (fetch_block (bid_PartsHeader bid) (unlock cs)) (signAddVote E VoteTypePrecommit [] zero_psh))"
      by (rule okP_bindI [OF fetch_block_frame], rule precommit_nil_adv [OF adv_trans [OF u frame_adv]])
        (use s in \<open>auto simp: frame_def\<close>)
    then show ?thesis using unknown by (simp add: precommit_polka_def)
  qed
qed

lemma polkaI: "rs_Votes cs = Some h \<Longrightarrow> hvs_Prevotes h r = Inr so \<Longrightarrow> TwoThirdsMajority so = (bid, True) \<Longrightarrow> polka cs r bid"
  unfolding polka_def hvs_Prevotes_def hvs_getVoteSet_def TwoThirdsMajority_def by (auto split: option.split_asm)

lemma enterPrecommit_cases:
  assumes "enterPrecommit E h r cs = Inr cs'" "rs_Height cs = h \<longrightarrow> r \<le> rs_Round cs"
  obtains "cs' = cs"
  | cs1 where "rs_Round cs = r" "rs_Step cs < RoundStepPrecommit" "cs' = done_step r RoundStepPrecommit cs1"
      "signAddVote E VoteTypePrecommit [] zero_psh cs = Inr cs1"
  | cs1 bid where "rs_Round cs = r" "rs_Step cs < RoundStepPrecommit" "cs' = done_step r RoundStepPrecommit cs1"
      "polka cs r bid" "precommit_polka E r bid cs = Inr cs1"
proof (cases "rs_Height cs \<noteq> h \<or> r < rs_Round cs \<or> (rs_Round cs = r \<and> RoundStepPrecommit \<le> rs_Step cs)")
  case True
  then show ?thesis using assms that(1) by (simp add: enterPrecommit_def)
next
  case False
  then have g: "rs_Round cs = r" "rs_Step cs < RoundStepPrecommit" using assms(2) by auto
  obtain h so where v: "rs_Votes cs = Some h" "hvs_Prevotes h r = Inr so"
    using assms(1) False by (auto simp: enterPrecommit_def elim!: bindP_Inr_E)
  obtain bid ok where m: "TwoThirdsMajority so = (bid, ok)" by (cases "TwoThirdsMajority so")
  have "\<exists>cs1. cs' = done_step r RoundStepPrecommit cs1 \<and>
      (if ok then precommit_polka E r bid cs = Inr cs1 else signAddVote E VoteTypePrecommit [] zero_psh cs = Inr cs1)"
    using assms(1) False v m by (auto simp: enterPrecommit_def elim!: bindP_Inr_E split: if_split_asm prod.split_asm)
  then show ?thesis using g that(2,3) polkaI [OF v] m by (cases ok) auto
qed

lemma enterPrecommit_adv:
  assumes "rs_Height cs = h \<longrightarrow> r \<le> rs_Round cs"
  shows "okP (adv E B cs) (enterPrecommit E h r cs)"
  unfolding okP_def
proof (intro allI impI)
  fix cs' assume "enterPrecommit E h r cs = Inr cs'"
  then show "adv E B cs cs'" using assms
  proof (cases rule: enterPrecommit_cases)
    case (2 cs1)
    then show ?thesis using precommit_nil_adv [OF adv_refl [of E B cs]] by (auto simp: okP_def)
  next
    case (3 cs1 bid)
    then show ?thesis using precommit_polka_adv [OF 3(4), of E B] by (auto simp: okP_def)
  qed (simp_all add: adv_refl)
qed

lemma signAddVote_onward: "signAddVote E t hash header cs = Inr cs' \<Longrightarrow> onward cs cs'"
  using signAddVote_frame [of E t hash header cs cs'] by (auto simp: onward_def frame_def)

lemma precommit_polka_onward: "precommit_polka E r bid cs = Inr cs' \<Longrightarrow> onward cs cs'"
  unfolding precommit_polka_def
  by (auto simp: onward_def unlock_def dest!: signAddVote_onward fetch_block_frame [unfolded okP_def, rule_format] frame_onward
      elim!: bindP_Inr_E split: if_split_asm)

lemma enterPrecommit_onward:
  assumes "enterPrecommit E h r cs = Inr cs'" "rs_Height cs = h \<longrightarrow> r \<le> rs_Round cs"
  shows "onward cs cs'"
  using assms
proof (cases rule: enterPrecommit_cases)
  case (2 cs1)
  then show ?thesis using signAddVote_onward [of E VoteTypePrecommit "[]" zero_psh cs cs1] by (auto simp: onward_def)
next
  case (3 cs1 bid)
  then show ?thesis using precommit_polka_onward [OF 3(5)] by (auto simp: onward_def)
qed simp_all

section \<open>Committing\<close>

lemma maj23_majority: "TwoThirdsMajority so = (bid, True) \<Longrightarrow> \<exists>s. so = Some s \<and> vts_maj23 s = Some bid"
  by (auto simp: TwoThirdsMajority_def split: option.split_asm)

lemma commit_verifies:
  assumes i: "cs_inv E B cs" and inj: "inj_on (bid_Key E) B" and v: "rs_Votes cs = Some h" "hvs_Precommits h r = Inr (Some s)" "vts_maj23 s = Some bid"
    and vs: "st_Validators (cs_state cs) = Some vs" "quorum_ok vs"
  shows "VerifyCommit E vs (st_ChainID (cs_state cs)) bid (rs_Height cs) \<lparr>commit_BlockID = bid, Precommits = vts_votes s\<rparr> = Inr None"
    and "MakeCommit s = Inr \<lparr>commit_BlockID = bid, Precommits = vts_votes s\<rparr>"
proof -
  have h: "hvs_wf E B h" "hvs_valSet h = vs" "hvs_chainID h = st_ChainID (cs_state cs)" "hvs_height h = rs_Height cs"
    using i v(1) vs by (auto simp: cs_inv_def votes_inv_def)
  then have s: "set_of E B h r VoteTypePrecommit s"
    using getVoteSet_ok [OF h(1), of VoteTypePrecommit r] v(2) by (auto simp: hvs_Precommits_def type_cases)
  show "VerifyCommit E vs (st_ChainID (cs_state cs)) bid (rs_Height cs) \<lparr>commit_BlockID = bid, Precommits = vts_votes s\<rparr> = Inr None"
    using decided_commit [of E B s bid] s h inj v(3) vs(2) by (simp add: set_of_def)
  show "MakeCommit s = Inr \<lparr>commit_BlockID = bid, Precommits = vts_votes s\<rparr>" using s v(3) by (simp add: set_of_def MakeCommit_def)
qed

lemma NewHeightVoteSet_fields:
  "NewHeightVoteSet c h vs = Inr hvs \<Longrightarrow> hvs_chainID hvs = c \<and> hvs_height hvs = h \<and> hvs_valSet hvs = vs \<and> hvs_round hvs = 0 \<and> h \<noteq> 0"
  unfolding NewHeightVoteSet_def hvs_Reset_def hvs_addRound_def NewVoteSet_def
  by (auto elim!: bindP_Inr_E split: if_split_asm)

lemma new_votes_inv:
  assumes "NewHeightVoteSet (st_ChainID s) h vs = Inr hvs" "st_Validators s = Some vs" "cs_state cs = s" "rs_Votes cs = Some hvs"
    "rs_Height cs = h" "rs_Round cs = 0"
  shows "votes_inv E B cs"
  using assms NewHeightVoteSet_fields [OF assms(1)] NewHeightVoteSet_ok [of h vs "st_ChainID s" E B]
  unfolding votes_inv_def by auto

text \<open>A fresh height: nothing is locked, and everything queued or scheduled is of earlier heights.\<close>

lemma fresh_inv:
  assumes "height_inv cs'" "votes_inv E B cs'" "rs_LockedBlock cs' = None" "rs_Round cs' = 0"
    and q: "\<And>v. VoteMessage (Some v) \<in> set (cs_internalMsgQueue cs') \<Longrightarrow> vote_Height v < rs_Height cs'"
    and t: "\<And>ti. ti \<in> ticker_timeouts (cs_timeoutTicker cs') \<Longrightarrow> ti_Height ti < rs_Height cs'"
  shows "cs_inv E B cs'"
proof -
  have "queue_inv E cs'" using q by (force simp: queue_inv_def block_precommit_def)
  moreover have "timer_inv cs'" using t by (force simp: timer_inv_def)
  ultimately show ?thesis using assms(1-3) by (simp add: cs_inv_def lock_inv_def)
qed

lemma updateToState_cases:
  assumes "updateToState E s cs = Inr cs'" "\<not> (\<not> st_IsEmpty (cs_state cs) \<and> LastBlockHeight s \<le> LastBlockHeight (cs_state cs))"
  obtains vs h where "st_Validators s = Some vs" "NewHeightVoteSet (st_ChainID s) (wrap64 (LastBlockHeight s + 1)) vs = Inr h"
    "rs_Votes cs' = Some h" "cs_state cs' = s" "rs_Height cs' = wrap64 (LastBlockHeight s + 1)" "rs_Round cs' = 0"
    "rs_Step cs' = RoundStepNewHeight" "rs_LockedBlock cs' = None" "cs_blockExec cs' = cs_blockExec cs" "cs_blockStore cs' = cs_blockStore cs"
    "cs_internalMsgQueue cs' = cs_internalMsgQueue cs" "cs_timeoutTicker cs' = cs_timeoutTicker cs" "rs_LastValidators cs' = LastValidators s"
    "rs_CommitRound cs' = - 1" "rs_Validators cs' = Some vs" "last_precommits cs = Inr (rs_LastCommit cs')"
  using assms unfolding updateToState_def start_time_def
  by (auto simp: Let_def newStep_def read_clock_def elim!: bindP_Inr_E split: if_split_asm prod.split_asm)

lemma scheduleRound0_frame: "rs_Round cs = 0 \<Longrightarrow> frame cs (scheduleRound0 E cs)"
  by (auto simp: scheduleRound0_def read_clock_def scheduleTimeout_def frame_def current_def Let_def)

lemma next_height_inv:
  assumes i: "cs_inv E B cs" and L: "LastBlockHeight s' = rs_Height cs" "rs_Height cs + 1 < MaxInt64"
    and u: "updateToState E s' cs = Inr cs2"
  shows "cs_inv E B (scheduleRound0 E cs2)" "rs_Height cs < rs_Height (scheduleRound0 E cs2)"
    "core (scheduleRound0 E cs2) = (s', cs_blockExec cs, cs_blockStore cs)"
proof -
  have h: "0 \<le> LastBlockHeight (cs_state cs)" "rs_Height cs = LastBlockHeight (cs_state cs) + 1" using i by (auto simp: cs_inv_def height_inv_def)
  have n: "\<not> (\<not> st_IsEmpty (cs_state cs) \<and> LastBlockHeight s' \<le> LastBlockHeight (cs_state cs))" using L h by simp
  have w: "wrap64 (LastBlockHeight s' + 1) = rs_Height cs + 1" using L h by (simp add: int64_defs)
  obtain vs k where c: "st_Validators s' = Some vs" "NewHeightVoteSet (st_ChainID s') (rs_Height cs + 1) vs = Inr k"
    "rs_Votes cs2 = Some k" "cs_state cs2 = s'" "rs_Height cs2 = rs_Height cs + 1" "rs_Round cs2 = 0" "rs_LockedBlock cs2 = None"
    "cs_blockExec cs2 = cs_blockExec cs" "cs_blockStore cs2 = cs_blockStore cs"
    "cs_internalMsgQueue cs2 = cs_internalMsgQueue cs" "cs_timeoutTicker cs2 = cs_timeoutTicker cs"
    using updateToState_cases [OF u n] unfolding w by metis
  have "cs_inv E B cs2"
  proof (rule fresh_inv)
    show "height_inv cs2" using c(4-6) h L by (simp add: height_inv_def)
    show "votes_inv E B cs2" by (rule new_votes_inv [OF c(2,1)]) (use c in auto)
    show "vote_Height v < rs_Height cs2" if "VoteMessage (Some v) \<in> set (cs_internalMsgQueue cs2)" for v
      using i that c(5,10) by (force simp: cs_inv_def queue_inv_def)
    show "ti_Height ti < rs_Height cs2" if "ti \<in> ticker_timeouts (cs_timeoutTicker cs2)" for ti
      using i that c(5,11) by (force simp: cs_inv_def timer_inv_def)
  qed (use c in auto)
  moreover have f: "frame cs2 (scheduleRound0 E cs2)" by (rule scheduleRound0_frame [OF c(6)])
  ultimately show "cs_inv E B (scheduleRound0 E cs2)" by (rule frame_inv [rotated])
  show "rs_Height cs < rs_Height (scheduleRound0 E cs2)" using f c(5) by (simp add: frame_def)
  show "core (scheduleRound0 E cs2) = (s', cs_blockExec cs, cs_blockStore cs)"
    using c(4,8,9) by (simp add: core_def scheduleRound0_def read_clock_def scheduleTimeout_def)
qed

lemma st_Copy_same: "st_Copy s = Inr s' \<Longrightarrow> s' = s"
  by (auto simp: st_Copy_def elim!: bindP_Inr_E)

lemma valid_height:
  assumes "validateBlock E s (Some b) = Inr None" "0 \<le> LastBlockHeight s" "LastBlockHeight s + 1 < MaxInt64"
  shows "\<exists>h. blk_Header b = Some h \<and> hdr_Height h = LastBlockHeight s + 1 \<and> blk_hashed E b = b"
proof -
  obtain h where "blk_Header b = Some h" "hdr_Height h = wrap64 (LastBlockHeight s + 1)" "blk_ValidateBasic E (Some b) = Inr None"
    using validateBlock_ok [OF assms(1)] by (metis option.inject)
  then show ?thesis using assms(2,3) blk_hashed_valid [of E b] by (auto simp: int64_defs)
qed

lemma applied_height:
  assumes "ApplyBlock E A x s bid (Some b) = Inr (None, s', x')" "0 \<le> LastBlockHeight s" "LastBlockHeight s + 1 < MaxInt64"
  shows "LastBlockHeight s' = LastBlockHeight s + 1"
proof -
  obtain h arz s1 k where a: "validateBlock E s (Some b) = Inr None" "blk_Header (blk_hashed E b) = Some h" "updateState E s bid h arz = Inr (Inr s1)"
      "s' = s1\<lparr>st_AppHash := k\<rparr>"
    using ApplyBlock_ok [OF assms(1)] by (metis option.inject)
  then show ?thesis using valid_height [OF a(1) assms(2,3)] updateState_ok(3) [OF a(3)] by auto
qed

lemma core_updates [simp]:
  "cs_inv E B (cs\<lparr>cs_blockExec := x\<rparr>) = cs_inv E B cs" "cs_inv E B (cs\<lparr>cs_blockStore := t\<rparr>) = cs_inv E B cs"
  "cs_inv E B (cs\<lparr>cs_killed := k\<rparr>) = cs_inv E B cs"
  "quiet E cs (cs'\<lparr>cs_blockExec := x\<rparr>) = quiet E cs cs'" "quiet E (cs\<lparr>cs_blockStore := t\<rparr>) cs' = quiet E cs cs'"
  "quiet E cs (cs'\<lparr>cs_killed := k\<rparr>) = quiet E cs cs'"
  by (simp_all add: cs_inv_def quiet_def height_inv_def votes_inv_def lock_inv_def timer_inv_def queue_inv_def block_precommit_def
      polka_def guarded_def)

text \<open>The outcome of \<open>apply_decided\<close>, from the store \<open>t\<close> before the block was saved.\<close>

lemma apply_decided_adv:
  assumes i: "cs_inv E B cs" and d: "decided E (cs_state cs) t b bid (cs_blockStore cs)"
    and a: "apply_decided E height bid b cs = Inr cs'"
  defines "c0 \<equiv> (cs_state cs, cs_blockExec cs, t)"
  shows "grow E c0 (core cs') \<and> (cs_inv E B cs' \<and> (quiet E cs cs' \<or> rs_Height cs < rs_Height cs') \<or> far (core cs'))"
proof -
  have h: "0 \<le> LastBlockHeight (cs_state cs)" "rs_Height cs = LastBlockHeight (cs_state cs) + 1" "rs_Height cs < MaxInt64"
    using i by (auto simp: cs_inv_def height_inv_def)
  obtain err s' x' where ab: "ApplyBlock E (env_App E) (cs_blockExec cs) (cs_state cs) bid (Some b) = Inr (err, s', x')"
    and rest: "if err \<noteq> None then cs' = cs\<lparr>cs_blockExec := x', cs_killed := True\<rparr>
      else (\<exists>cs2. updateToState E s' (cs\<lparr>cs_blockExec := x'\<rparr>) = Inr cs2 \<and> cs' = scheduleRound0 E cs2)"
    using a unfolding apply_decided_def by (auto simp: Let_def dest!: st_Copy_same elim!: bindP_Inr_E split: if_split_asm prod.split_asm)
  show ?thesis
  proof (cases err)
    case (Some e)
    have "grow E c0 (cs_state cs, x', cs_blockStore cs)" using grow_fail [OF grow_refl d] ab Some by (simp add: c0_def)
    then show ?thesis using rest Some i by (simp add: core_def quiet_refl)
  next
    case None
    let ?c = "cs\<lparr>cs_blockExec := x'\<rparr>"
    obtain cs2 where u: "updateToState E s' ?c = Inr cs2" "cs' = scheduleRound0 E cs2" using rest None by auto
    have g: "grow E c0 (s', x', cs_blockStore cs)" using grow_apply [OF grow_refl d] ab None by (simp add: c0_def)
    have l: "LastBlockHeight s' = rs_Height cs" using applied_height ab None h by auto
    have ic: "cs_inv E B ?c" using i by simp
    show ?thesis
    proof (cases "rs_Height cs + 1 < MaxInt64")
      case True
      then show ?thesis using next_height_inv [OF ic _ _ u(1)] l u(2) g by (simp add: core_def)
    next
      case False
      have n: "\<not> (\<not> st_IsEmpty (cs_state ?c) \<and> LastBlockHeight s' \<le> LastBlockHeight (cs_state ?c))" using l h by simp
      have "core cs' = (s', x', cs_blockStore cs)"
        unfolding u(2) by (rule updateToState_cases [OF u(1) n]) (simp add: core_def scheduleRound0_def read_clock_def scheduleTimeout_def)
      then show ?thesis using g l False by (simp add: far_def)
    qed
  qed
qed

lemma finalizeCommit_moves:
  assumes inj: "inj_on (bid_Key E) B"
  shows "okP (moves E B cs) (finalizeCommit E height cs)"
proof (rule moves_assume, unfold okP_def, intro allI impI)
  fix cs' assume i: "cs_inv E B cs" and f: "finalizeCommit E height cs = Inr cs'"
  have h: "0 \<le> LastBlockHeight (cs_state cs)" "rs_Height cs = LastBlockHeight (cs_state cs) + 1" "rs_Height cs < MaxInt64"
    using i by (auto simp: cs_inv_def height_inv_def)
  show "moves E B cs cs'"
  proof (cases "rs_Height cs \<noteq> height \<or> rs_Step cs \<noteq> RoundStepCommit")
    case True
    then show ?thesis using f by (simp add: finalizeCommit_def moves_refl)
  next
    case False
    let ?ps = "parts_at cs (rs_ProposalBlockParts cs)" and ?b = "hashed_block E (rs_ProposalBlock cs)"
    obtain votes so bid b cs1 where v: "rs_Votes cs = Some votes" "hvs_Precommits votes (rs_CommitRound cs) = Inr so" "TwoThirdsMajority so = (bid, True)"
      and b: "HasHeader ?ps (bid_PartsHeader bid)" "blk_HashesTo E ?b (bid_Hash bid)" "validateBlock E (cs_state cs) ?b = Inr None" "?b = Some b"
      and st: "store_block E b ?ps so cs = Inr cs1"
      and ap: "apply_decided E height \<lparr>bid_Hash = blk_Hash E ?b, bid_PartsHeader = ps_Header ?ps\<rparr> b cs1 = Inr cs'"
      using f False unfolding finalizeCommit_def by (auto simp: Let_def elim!: bindP_Inr_E split: if_split_asm prod.split_asm)
    obtain s where s: "so = Some s" "vts_maj23 s = Some bid" using maj23_majority [OF v(3)] by auto
    have bid: "\<lparr>bid_Hash = blk_Hash E ?b, bid_PartsHeader = ps_Header ?ps\<rparr> = bid"
      using b(1,2) by (cases bid; cases "bid_PartsHeader bid")
        (auto simp: HasHeader_def psh_Equals_def blk_HashesTo_def ps_Header_def split: option.split_asm if_split_asm)
    obtain hd where hd: "blk_Header b = Some hd" "hdr_Height hd = LastBlockHeight (cs_state cs) + 1"
      using valid_height [of E "cs_state cs" b] b(3,4) h by auto
    obtain vs where vs: "st_Validators (cs_state cs) = Some vs" using i by (auto simp: cs_inv_def votes_inv_def)
    have t': "cs1 = cs\<lparr>cs_blockStore := cs_blockStore cs1\<rparr>"
      "cs_blockStore cs1 = cs_blockStore cs \<and> LastBlockHeight (cs_state cs) + 1 \<le> bst_height (cs_blockStore cs) \<or>
       (\<exists>c. MakeCommit s = Inr c \<and> SaveBlock E (cs_blockStore cs) (Some b) ?ps (Some c) = Inr (cs_blockStore cs1))"
      using st hd s(1) unfolding store_block_def by (auto elim!: bindP_Inr_E split: if_split_asm)
    let ?c = "\<lparr>commit_BlockID = bid, Precommits = vts_votes s\<rparr>"
    have "MakeCommit s = Inr c \<Longrightarrow> c = ?c" for c using s(2) by (auto simp: MakeCommit_def split: if_split_asm)
    moreover have "quorum_ok vs \<longrightarrow> VerifyCommit E vs (st_ChainID (cs_state cs)) bid (LastBlockHeight (cs_state cs) + 1) ?c = Inr None"
      using commit_verifies(1) [OF i inj v(1) _ s(2) vs] v(2) s(1) h(2) by simp
    moreover have "bid_Hash bid = blk_Hash E (Some b)" "ps_Header ?ps = bid_PartsHeader bid" using bid b(4) by auto
    ultimately have d: "decided E (cs_state cs) (cs_blockStore cs) b bid (cs_blockStore cs1)"
      unfolding decided_def using b(3,4) t'(2) vs by (intro conjI exI [of _ ?c] exI [of _ vs]) auto
    have eq: "cs_state cs1 = cs_state cs" "cs_blockExec cs1 = cs_blockExec cs" "rs_Height cs1 = rs_Height cs" "cs_inv E B cs1"
        "quiet E cs1 cs' = quiet E cs cs'" using i by (subst t'(1), simp)+
    show ?thesis
      using apply_decided_adv [OF eq(4) _ ap [unfolded bid], of "cs_blockStore cs"] d eq unfolding moves_def core_def by simp
  qed
qed

lemma tryFinalizeCommit_moves:
  assumes "inj_on (bid_Key E) B"
  shows "okP (moves E B cs) (tryFinalizeCommit E height cs)"
  using finalizeCommit_moves [OF assms, of cs height] unfolding tryFinalizeCommit_def
  by (auto simp: okP_def moves_refl elim!: bindP_Inr_E split: if_split_asm prod.split_asm)

lemma stage_commit_frame: "okP (frame cs) (stage_commit E bid cs)"
proof -
  let ?c = "if blk_HashesTo E (rs_LockedBlock cs) (bid_Hash bid)
    then cs\<lparr>rs_ProposalBlock := rs_LockedBlock cs, rs_ProposalBlockParts := rs_LockedBlockParts cs\<rparr> else cs"
  have "frame cs ?c" by (simp add: frame_def)
  moreover have "okP (frame ?c) (fetch_block (bid_PartsHeader bid) ?c)" by (rule fetch_block_frame)
  ultimately have "okP (frame cs) (fetch_block (bid_PartsHeader bid) ?c)" unfolding okP_def using frame_trans by blast
  then show ?thesis using \<open>frame cs ?c\<close> by (auto simp: stage_commit_def Let_def)
qed

lemma enterCommit_moves:
  assumes "inj_on (bid_Key E) B"
  shows "okP (moves E B cs) (enterCommit E height r cs)"
  unfolding okP_def
proof (intro allI impI)
  fix cs' assume e: "enterCommit E height r cs = Inr cs'"
  show "moves E B cs cs'"
  proof (cases "rs_Height cs \<noteq> height \<or> RoundStepCommit \<le> rs_Step cs")
    case True
    then show ?thesis using e by (simp add: enterCommit_def moves_refl)
  next
    case False
    obtain bid cs1 where c1: "stage_commit E bid cs = Inr cs1"
      "tryFinalizeCommit E height (newStep ((snd (read_clock E ((updateRoundStep (rs_Round cs1) RoundStepCommit cs1)\<lparr>rs_CommitRound := r\<rparr>)))
         \<lparr>rs_CommitTime := fst (read_clock E ((updateRoundStep (rs_Round cs1) RoundStepCommit cs1)\<lparr>rs_CommitRound := r\<rparr>))\<rparr>)) = Inr cs'"
      using e False unfolding enterCommit_def
      by (auto simp: Let_def read_clock_def elim!: bindP_Inr_E split: if_split_asm prod.split_asm)
    let ?d = "newStep ((snd (read_clock E ((updateRoundStep (rs_Round cs1) RoundStepCommit cs1)\<lparr>rs_CommitRound := r\<rparr>)))
         \<lparr>rs_CommitTime := fst (read_clock E ((updateRoundStep (rs_Round cs1) RoundStepCommit cs1)\<lparr>rs_CommitRound := r\<rparr>))\<rparr>)"
    have f: "frame cs cs1" using stage_commit_frame [of cs E bid] c1(1) by (simp add: okP_def)
    then have a: "adv E B cs (done_step (rs_Round cs) RoundStepCommit cs1)"
      using False by (intro step_adv) (auto simp: steps)
    have "frame (done_step (rs_Round cs) RoundStepCommit cs1) ?d"
      using f by (simp add: frame_def done_step_def newStep_def read_clock_def updateRoundStep_def)
    then have "adv E B cs ?d" using adv_trans [OF a frame_adv] by blast
    then show ?thesis using tryFinalizeCommit_moves [OF assms, of ?d height] c1(2) adv_then unfolding okP_def by blast
  qed
qed

section \<open>Messages\<close>

lemma defaultSetProposal_frame: "okP (\<lambda>(e, cs'). frame cs cs') (defaultSetProposal p cs)"
  unfolding okP_def defaultSetProposal_def new_parts_def
  by (auto simp: frame_def elim!: bindP_Inr_E split: if_split_asm)

lemma update_valid_frame: "frame cs (update_valid E r bid cs)"
  by (simp add: update_valid_def frame_def)

lemma received_block_moves:
  assumes "inj_on (bid_Key E) B"
  shows "okP (moves E B cs) (received_block E height cs)"
  unfolding okP_def
proof (intro allI impI)
  fix cs' assume r: "received_block E height cs = Inr cs'"
  then obtain h so where v: "rs_Votes cs = Some h" "hvs_Prevotes h (rs_Round cs) = Inr so"
    by (auto simp: received_block_def elim!: bindP_Inr_E)
  obtain bid k where m: "TwoThirdsMajority so = (bid, k)" by (cases "TwoThirdsMajority so")
  define c where "c = (if k then update_valid E (rs_Round cs) bid cs else cs)"
  have "frame cs c" by (simp add: update_valid_frame c_def)
  then have a: "adv E B cs c" by (rule frame_adv)
  have "cs' = c \<or> enterPrevote E height (rs_Round c) c = Inr cs' \<or> tryFinalizeCommit E height c = Inr cs'"
    using r v m by (cases k) (auto simp: received_block_def Let_def c_def elim!: bindP_Inr_E split: if_split_asm)
  then have "moves E B c cs'"
    using okP_adv_moves [OF enterPrevote_adv [of E B c height "rs_Round c"]] tryFinalizeCommit_moves [OF assms, of c height] moves_refl [of E B c]
    unfolding okP_def by blast
  then show "moves E B cs cs'" by (rule adv_then [OF a])
qed

lemma decode_into_frame: "frame cs (decode_into bo cs)"
  by (simp add: decode_into_def frame_def)

lemma complete_block_moves:
  assumes "inj_on (bid_Key E) B"
  shows "okP (\<lambda>(e, cs'). moves E B cs cs') (complete_block E height ps cs)"
proof -
  have f: "adv E B cs (decode_into bo cs)" for bo by (rule frame_adv [OF decode_into_frame])
  have "okP (moves E B cs) (received_block E height (decode_into bo cs))" for bo
    using received_block_moves [OF assms, of "decode_into bo cs" height] adv_then [OF f] unfolding okP_def by blast
  then show ?thesis unfolding complete_block_def
    using adv_moves [OF f] by (auto simp: okP_def elim!: bindP_Inr_E split: if_split_asm prod.split_asm)
qed

lemma addProposalBlockPart_moves:
  assumes "inj_on (bid_Key E) B"
  shows "okP (\<lambda>(a, e, cs'). moves E B cs cs') (addProposalBlockPart E height part cs)"
proof -
  have f: "adv E B cs (cs\<lparr>cs_heap := h\<rparr>)" for h by (rule frame_adv) simp
  have "okP (\<lambda>(e, cs'). moves E B cs cs') (complete_block E height ps (cs\<lparr>cs_heap := h\<rparr>))" for h ps
    using complete_block_moves [OF assms, of "cs\<lparr>cs_heap := h\<rparr>" height ps] adv_then [OF f] unfolding okP_def by blast
  then show ?thesis unfolding addProposalBlockPart_def
    using adv_moves [OF f] by (auto simp: okP_def moves_refl Let_def elim!: bindP_Inr_E split: if_split_asm prod.split_asm option.split_asm)
qed

section \<open>Votes\<close>

lemma see_polka_adv:
  assumes "rs_Votes cs = Some h" "hvs_Prevotes h r = Inr so"
  shows "adv E B cs (see_polka E r so cs)" "onward cs (see_polka E r so cs)" "rs_Round (see_polka E r so cs) = rs_Round cs"
proof -
  obtain bid ok where m: "TwoThirdsMajority so = (bid, ok)" by (cases "TwoThirdsMajority so")
  let ?u = "unlock_by E r bid cs"
  have u: "adv E B cs ?u" if ok
  proof (cases "rs_LockedBlock cs \<noteq> None \<and> rs_LockedRound cs < r \<and> r \<le> rs_Round cs \<and> \<not> blk_HashesTo E (rs_LockedBlock cs) (bid_Hash bid)")
    case True
    then have "adv E B cs (unlock cs)" using m that by (intro unlock_adv [OF polkaI [OF assms, of bid]]) auto
    then show ?thesis using True by (simp add: unlock_by_def)
  next
    case False
    then show ?thesis unfolding unlock_by_def by (subst if_not_P) (simp_all add: adv_refl)
  qed
  have f: "frame ?u (if r \<le> rs_Round ?u then update_valid E r bid ?u else ?u)" by (simp add: update_valid_frame)
  have "adv E B cs (if r \<le> rs_Round ?u then update_valid E r bid ?u else ?u)" if ok using adv_trans [OF u [OF that] frame_adv [OF f]] .
  then show "adv E B cs (see_polka E r so cs)" using m by (simp add: see_polka_def adv_refl Let_def)
  show "onward cs (see_polka E r so cs)" "rs_Round (see_polka E r so cs) = rs_Round cs"
    using m by (simp_all add: see_polka_def onward_def unlock_by_def unlock_def update_valid_def Let_def)
qed

lemma added_prevote_adv:
  assumes "rs_Height cs = height" "r < MaxInt64"
  shows "okP (adv E B cs) (added_prevote E height r cs)"
  unfolding okP_def
proof (intro allI impI)
  fix cs' assume a: "added_prevote E height r cs = Inr cs'"
  then obtain h so where v: "rs_Votes cs = Some h" "hvs_Prevotes h r = Inr so" by (auto simp: added_prevote_def elim!: bindP_Inr_E)
  let ?c = "see_polka E r so cs"
  have c: "adv E B cs ?c" "rs_Height ?c = height" using see_polka_adv(1,2) [OF v] assms(1) by (auto simp: onward_def)
  have "okP (adv E B ?c) (bindP (enterNewRound E height r ?c) (\<lambda>cs2.
      if HasTwoThirdsMajority so then enterPrecommit E height r cs2
      else bindP (enterPrevote E height r cs2) (enterPrevoteWait E height r)))"
  proof (rule adv_bind [OF enterNewRound_adv [OF assms(2)]])
    fix cs2 assume n: "enterNewRound E height r ?c = Inr cs2"
    have r: "rs_Height cs2 = height" "r \<le> rs_Round cs2" using enterNewRound_onward [OF n] c(2) by (simp_all add: onward_def)
    have "okP (adv E B cs2) (bindP (enterPrevote E height r cs2) (enterPrevoteWait E height r))"
      by (rule adv_bind [OF enterPrevote_adv], rule enterPrevoteWait_adv)
        (use r enterPrevote_onward [of cs2 E height r] in \<open>force simp: okP_def onward_def\<close>)
    then show "okP (adv E B cs2) (if HasTwoThirdsMajority so then enterPrecommit E height r cs2
        else bindP (enterPrevote E height r cs2) (enterPrevoteWait E height r))"
      using enterPrecommit_adv [of cs2 height r E B] r by simp
  qed
  then have "adv E B ?c cs'"
    using a v enterPrevote_adv [of E B ?c height "rs_Round ?c"] adv_refl [of E B ?c]
    by (auto simp: added_prevote_def Let_def okP_def elim!: bindP_Inr_E [of "isProposalComplete _"] split: if_split_asm option.split_asm)
  then show "adv E B cs cs'" by (rule adv_trans [OF c(1)])
qed

lemma added_precommit_moves:
  assumes h: "rs_Height cs = height" and r: "r < MaxInt64" "wrap64 (r + 1) < MaxInt64" and inj: "inj_on (bid_Key E) B"
  shows "okP (moves E B cs) (added_precommit E height r cs)"
  unfolding okP_def
proof (intro allI impI)
  fix cs' assume a: "added_precommit E height r cs = Inr cs'"
  then obtain h so where v: "rs_Votes cs = Some h" "hvs_Precommits h r = Inr so" by (auto simp: added_precommit_def elim!: bindP_Inr_E)
  obtain bid ok where m: "TwoThirdsMajority so = (bid, ok)" by (cases "TwoThirdsMajority so")
  let ?n = "enterNewRound E height r cs" and ?p = "enterPrecommit E height r"
  have np: "rs_Height cs1 = height \<longrightarrow> r \<le> rs_Round cs1" if "?n = Inr cs1" for cs1
    using enterNewRound_onward [OF that] assms(1) by (auto simp: onward_def)
  have skip: "okP (adv E B c) (bindP (deref so) (\<lambda>pc. if SkipTimeoutCommit (env_Config E) \<and> HasAll pc then enterNewRound E (rs_Height c) 0 c else Inr c))" for c
    using enterNewRound_adv [of 0 E B c "rs_Height c"] by (auto simp: okP_def adv_refl int64_defs elim!: bindP_Inr_E split: if_split_asm)
  have commit: "okP (moves E B cs) (bindP ?n (\<lambda>cs1. bindP (?p cs1) (\<lambda>cs2. bindP (enterCommit E height r cs2) (\<lambda>cs3.
      bindP (deref so) (\<lambda>pc. if SkipTimeoutCommit (env_Config E) \<and> HasAll pc then enterNewRound E (rs_Height cs3) 0 cs3 else Inr cs3)))))"
    by (intro moves_bind [OF enterNewRound_adv] moves_bind [OF enterPrecommit_adv] moves_bind_adv [OF enterCommit_moves] r inj np skip)
  have wait: "okP (adv E B cs) (bindP ?n (\<lambda>cs1. bindP (?p cs1) (enterPrecommitWait E height r)))"
  proof (intro adv_bind enterNewRound_adv enterPrecommit_adv enterPrecommitWait_adv r np)
    fix cs1 cs2 assume e: "?n = Inr cs1" "?p cs1 = Inr cs2" "rs_Height cs2 = height"
    have "onward cs1 cs2" by (rule enterPrecommit_onward [OF e(2) np [OF e(1)]])
    then show "r \<le> rs_Round cs2" using np [OF e(1)] e(3) by (simp add: onward_def)
  qed
  show "moves E B cs cs'"
  proof (cases ok)
    case True
    then show ?thesis using a v m commit okP_adv_moves [OF enterNewRound_adv [OF r(2), of E B cs height]]
      by (simp add: added_precommit_def okP_def split: if_split_asm)
  next
    case False
    then show ?thesis using a v m okP_adv_moves [OF wait] by (auto simp: added_precommit_def okP_def moves_refl split: if_split_asm)
  qed
qed

text \<open>Votes whose round is not among the last two of 64 bits, for blocks in \<open>B\<close>.\<close>

definition vote_fits :: "block_id set \<Rightarrow> vote \<Rightarrow> bool" where
  "vote_fits B v \<longleftrightarrow> vote_BlockID v \<in> B \<and> MinInt64 \<le> vote_Round v \<and> vote_Round v + 1 < MaxInt64"

lemma votes_update_adv:
  assumes h: "rs_Votes cs = Some h" and x: "hvs_ext h h'" "hvs_round h' = hvs_round h"
    and w: "hvs_wf E B h \<Longrightarrow> catchup_ok h \<Longrightarrow> hvs_wf E B h' \<and> catchup_ok h'"
  shows "adv E B cs (cs\<lparr>rs_Votes := Some h'\<rparr>)"
proof (rule adv_quietI)
  let ?c = "cs\<lparr>rs_Votes := Some h'\<rparr>"
  assume i: "cs_inv E B cs"
  have pg: "polka cs q b \<Longrightarrow> polka ?c q b" "guarded E cs q k \<Longrightarrow> guarded E ?c q k" for q b k
    using votes_adv_aux [of cs h ?c h'] h x(1) by simp_all
  have "queue_inv E ?c" by (rule queue_inv_cong [of E cs]) (use i pg in \<open>auto simp: cs_inv_def\<close>)
  moreover have "height_inv ?c" "lock_inv ?c" "timer_inv ?c"
    using i by (auto simp: cs_inv_def height_inv_def lock_inv_def timer_inv_def)
  moreover have "votes_inv E B ?c" using i h x w by (auto simp: cs_inv_def votes_inv_def hvs_ext_def)
  ultimately show "cs_inv E B ?c \<and> quiet E cs ?c" using pg by (simp add: cs_inv_def quiet_def)
qed simp_all

lemma hvs_AddVote_adv:
  assumes "rs_Votes cs = Some h" "hvs_AddVote E h v p = Inr (a, e, h')" "vote_BlockID v \<in> B"
  shows "adv E B cs (cs\<lparr>rs_Votes := Some h'\<rparr>)"
  by (rule votes_update_adv [OF assms(1)]) (use assms hvs_AddVote_ext [OF assms(2)] hvs_AddVote_ok [of E B h v p] in auto)

lemma add_last_commit_adv: "okP (\<lambda>(a, e, cs'). adv E B cs cs') (add_last_commit E v cs)"
proof -
  have f: "adv E B cs (cs\<lparr>rs_LastCommit := lc\<rparr>)" for lc by (rule frame_adv) simp
  have "okP (adv E B cs) (enterNewRound E h 0 (cs\<lparr>rs_LastCommit := lc\<rparr>))" for lc h
    using enterNewRound_adv [of 0 E B "cs\<lparr>rs_LastCommit := lc\<rparr>" h] adv_trans [OF f] unfolding okP_def by (auto simp: int64_defs)
  then show ?thesis unfolding add_last_commit_def
    using f by (auto simp: okP_def Let_def elim!: bindP_Inr_E split: if_split_asm prod.split_asm)
qed

lemma addVote_moves:
  assumes v: "vote_fits B v" and inj: "inj_on (bid_Key E) B"
  shows "okP (\<lambda>(a, e, cs'). moves E B cs cs') (addVote E v p cs)"
proof -
  have r: "vote_Round v < MaxInt64" "wrap64 (vote_Round v + 1) < MaxInt64" using v by (simp_all add: vote_fits_def int64_defs)
  have x: "moves E B cs cs'" if a: "rs_Votes cs = Some h" "hvs_AddVote E h v p = Inr (b, e, h')"
      "cs' = cs\<lparr>rs_Votes := Some h'\<rparr> \<or> added_prevote E (rs_Height cs) (vote_Round v) (cs\<lparr>rs_Votes := Some h'\<rparr>) = Inr cs' \<or>
       added_precommit E (rs_Height cs) (vote_Round v) (cs\<lparr>rs_Votes := Some h'\<rparr>) = Inr cs'" for h b e h' cs'
  proof -
    let ?c = "cs\<lparr>rs_Votes := Some h'\<rparr>"
    have "adv E B cs ?c" using hvs_AddVote_adv [OF a(1,2)] v by (simp add: vote_fits_def)
    moreover have "moves E B ?c cs'"
      using a(3) okP_adv_moves [OF added_prevote_adv [OF _ r(1), of ?c "rs_Height cs" E B]] added_precommit_moves [OF _ r inj, of ?c "rs_Height cs"] moves_refl [of E B ?c]
      by (auto simp: okP_def)
    ultimately show ?thesis by (rule adv_then)
  qed
  have l: "okP (\<lambda>(a, e, cs'). moves E B cs cs') (add_last_commit E v cs)" using add_last_commit_adv [where E = E and B = B and cs = cs and v = v] by (auto simp: okP_def adv_moves)
  show ?thesis unfolding okP_def
  proof (intro allI impI, clarify)
    fix a e cs' assume A: "addVote E v p cs = Inr (a, e, cs')"
    show "moves E B cs cs'"
    proof (cases "wrap64 (vote_Height v + 1) = rs_Height cs \<or> vote_Height v \<noteq> rs_Height cs")
      case True
      then have "cs' = cs \<or> add_last_commit E v cs = Inr (a, e, cs')" using A by (simp add: addVote_def split: if_split_asm)
      then show ?thesis using l by (auto simp: okP_def moves_refl)
    next
      case False
      then obtain h b e' h' where h: "rs_Votes cs = Some h" "hvs_AddVote E h v p = Inr (b, e', h')"
        using A by (auto simp: addVote_def elim!: bindP_Inr_E)
      have "cs' = cs\<lparr>rs_Votes := Some h'\<rparr> \<or> added_prevote E (rs_Height cs) (vote_Round v) (cs\<lparr>rs_Votes := Some h'\<rparr>) = Inr cs' \<or>
           added_precommit E (rs_Height cs) (vote_Round v) (cs\<lparr>rs_Votes := Some h'\<rparr>) = Inr cs'"
        using A False h by (auto simp: addVote_def Let_def elim!: bindP_Inr_E split: if_split_asm)
      then show ?thesis by (rule x [OF h])
    qed
  qed
qed

lemma tryAddVote_moves:
  assumes "\<And>v. vo = Some v \<Longrightarrow> vote_fits B v" "inj_on (bid_Key E) B"
  shows "okP (\<lambda>(e, cs'). moves E B cs cs') (tryAddVote E vo p cs)"
proof (cases vo)
  case (Some v)
  show ?thesis unfolding okP_def
  proof (intro allI impI, clarify)
    fix e cs' assume t: "tryAddVote E vo p cs = Inr (e, cs')"
    then obtain a err cs1 where v: "addVote E v p cs = Inr (a, err, cs1)" unfolding tryAddVote_def Some by (auto elim!: bindP_Inr_E)
    have "cs' = cs1" using t v unfolding tryAddVote_def Some
      by (auto elim!: bindP_Inr_E split: option.split_asm consensus_error.split_asm hvs_error.split_asm vote_error.split_asm if_split_asm)
    then show "moves E B cs cs'" using addVote_moves [OF assms(1) [OF Some] assms(2), of cs p] v by (simp add: okP_def)
  qed
qed (simp add: tryAddVote_def)

section \<open>The routine\<close>

definition msg_fits :: "block_id set \<Rightarrow> consensus_message \<Rightarrow> bool" where
  "msg_fits B m \<longleftrightarrow> (\<forall>v. m = VoteMessage (Some v) \<longrightarrow> vote_fits B v)"

lemma handleMsg_moves:
  assumes "msg_fits B m" "inj_on (bid_Key E) B"
  shows "okP (moves E B cs) (handleMsg E m p cs)"
proof (cases m)
  case (ProposalMessage x)
  then show ?thesis using defaultSetProposal_frame [of cs x] by (auto simp: handleMsg_def okP_def adv_moves frame_adv elim!: bindP_Inr_E)
next
  case (BlockPartMessage h r part)
  then show ?thesis using addProposalBlockPart_moves [OF assms(2), of cs h part] by (auto simp: handleMsg_def okP_def elim!: bindP_Inr_E)
next
  case (VoteMessage vo)
  then have "okP (\<lambda>(e, cs'). moves E B cs cs') (tryAddVote E vo p cs)" using assms by (intro tryAddVote_moves) (auto simp: msg_fits_def)
  then show ?thesis using VoteMessage by (auto simp: handleMsg_def okP_def elim!: bindP_Inr_E)
qed

lemma handleTimeout_moves:
  assumes "ti_Height ti = rs_Height cs \<longrightarrow> ti_Round ti \<le> rs_Round cs" "rs_Round cs + 1 < MaxInt64"
  shows "okP (moves E B cs) (handleTimeout E ti cs)"
proof (rule moves_assume)
  assume i: "cs_inv E B cs"
  then have r: "0 \<le> rs_Round cs" by (simp add: cs_inv_def height_inv_def)
  have p: "okP (moves E B cs) (enterPropose E (ti_Height ti) 0 cs)" using okP_adv_moves [OF enterPropose_adv [of 0 cs]] r by simp
  have n: "okP (moves E B cs) (enterNewRound E (ti_Height ti) 0 cs)" by (rule okP_adv_moves [OF enterNewRound_adv]) (simp add: int64_defs)
  have c: "okP (moves E B cs) (enterPrecommit E (ti_Height ti) (ti_Round ti) cs)" by (rule okP_adv_moves [OF enterPrecommit_adv]) (use assms(1) in auto)
  show ?thesis
  proof (cases "ti_Height ti \<noteq> rs_Height cs \<or> ti_Round ti < rs_Round cs \<or> (ti_Round ti = rs_Round cs \<and> ti_Step ti < rs_Step cs)")
    case True
    then show ?thesis by (simp add: handleTimeout_def moves_refl)
  next
    case False
    then have "wrap64 (ti_Round ti + 1) < MaxInt64" using assms r by (simp add: int64_defs)
    then have "okP (moves E B cs) (enterNewRound E (ti_Height ti) (wrap64 (ti_Round ti + 1)) cs)" by (rule okP_adv_moves [OF enterNewRound_adv])
    then show ?thesis using p n c okP_adv_moves [OF enterPrevote_adv [of E B cs "ti_Height ti" "ti_Round ti"]] False unfolding handleTimeout_def by auto
  qed
qed

end
