(* ===== verification/Consensus_Runs.thy ===== *)
theory Consensus_Runs
  imports Consensus_Safety
begin

text \<open>
  Runs of a node: consensus from its start, with the events of \<open>node_step\<close> in any order, and what holds
  along every run. The chain of applied blocks that \<^verbatim>\<open>state/execution.go\<close> builds only grows by decisions.
\<close>

section \<open>One event\<close>

text \<open>
  The votes handled are for blocks of \<open>B\<close> and their rounds leave room to count on; so does the round a
  timeout ends, and the height of the chain.
\<close>

definition admissible :: "block_id set \<Rightarrow> node_event \<Rightarrow> 'a consensus \<Rightarrow> bool" where
  "admissible B e cs \<longleftrightarrow> LastBlockHeight (cs_state cs) + 1 < MaxInt64 \<and>
     (case e of EvPeerMsg m p \<Rightarrow> msg_fits B m
      | EvInternalMsg \<Rightarrow> (\<forall>m ms. cs_internalMsgQueue cs = m # ms \<longrightarrow> msg_fits B m)
      | EvTock i \<Rightarrow> rs_Round cs + 1 < MaxInt64
      | _ \<Rightarrow> True)"

lemma ticker_frame:
  assumes "ticker_timeouts t \<subseteq> ticker_timeouts (cs_timeoutTicker cs)"
  shows "frame cs (cs\<lparr>cs_timeoutTicker := t\<rparr>)"
  using assms by (auto simp: frame_def)

lemma receive_tick_timeouts: "ticker_timeouts (receive_tick t) \<subseteq> ticker_timeouts t"
  by (auto simp: ticker_timeouts_def receive_tick_def split: list.splits)

lemma timer_fires_timeouts: "ticker_timeouts (timer_fires t) \<subseteq> ticker_timeouts t"
  by (auto simp: ticker_timeouts_def timer_fires_def)

lemma take_tock_timeouts: "ticker_timeouts (take_tock i t) \<subseteq> ticker_timeouts t"
  by (auto simp: ticker_timeouts_def take_tock_def dest: in_set_takeD in_set_dropD)

lemma exec_frame: "ex_db x = ex_db (cs_blockExec cs) \<Longrightarrow> frame cs (cs\<lparr>cs_blockExec := x\<rparr>)"
  by (simp add: frame_def)

lemma pop_adv:
  assumes "set ms \<subseteq> set (cs_internalMsgQueue cs)"
  shows "adv E B cs (cs\<lparr>cs_internalMsgQueue := ms\<rparr>)"
proof (rule adv_quietI)
  let ?c = "cs\<lparr>cs_internalMsgQueue := ms\<rparr>"
  assume i: "cs_inv E B cs"
  have p: "polka ?c = polka cs" "guarded E ?c = guarded E cs" by (rule polka_cong guarded_cong; simp)+
  have "queue_inv E ?c" using i assms unfolding cs_inv_def queue_inv_def block_precommit_def p by auto
  moreover have "height_inv ?c" "lock_inv ?c" "timer_inv ?c"
    using i by (auto simp: cs_inv_def height_inv_def lock_inv_def timer_inv_def)
  moreover have "votes_inv E B ?c" by (rule votes_inv_cong [of E B cs]) (use i in \<open>simp_all add: cs_inv_def\<close>)
  ultimately show "cs_inv E B ?c \<and> quiet E cs ?c" using p by (simp add: cs_inv_def quiet_def)
qed simp_all

lemma okP_after: "adv E B cs c \<Longrightarrow> okP (moves E B c) m \<Longrightarrow> okP (moves E B cs) m"
  unfolding okP_def using adv_then by blast

lemma tock_moves:
  assumes "i < length (tk_tock (cs_timeoutTicker cs))" "rs_Round cs + 1 < MaxInt64"
  shows "okP (moves E B cs) (handleTimeout E (tk_tock (cs_timeoutTicker cs) ! i) (cs\<lparr>cs_timeoutTicker := take_tock i (cs_timeoutTicker cs)\<rparr>))"
proof (rule moves_assume)
  assume I: "cs_inv E B cs"
  let ?ti = "tk_tock (cs_timeoutTicker cs) ! i" and ?c = "cs\<lparr>cs_timeoutTicker := take_tock i (cs_timeoutTicker cs)\<rparr>"
  have "?ti \<in> ticker_timeouts (cs_timeoutTicker cs)" using assms(1) by (simp add: ticker_timeouts_def)
  then have "ti_Height ?ti = rs_Height cs \<longrightarrow> ti_Round ?ti \<le> rs_Round cs" using I by (auto simp: cs_inv_def timer_inv_def)
  then have "okP (moves E B ?c) (handleTimeout E ?ti ?c)" using assms(2) by (intro handleTimeout_moves) auto
  then show ?thesis by (rule okP_after [OF frame_adv [OF ticker_frame [OF take_tock_timeouts]]])
qed

lemma txs_moves: "ex_db x = ex_db (cs_blockExec cs) \<Longrightarrow> okP (moves E B cs) (handleTxsAvailable E h (cs\<lparr>cs_blockExec := x\<rparr>))"
proof (rule moves_assume)
  assume x: "ex_db x = ex_db (cs_blockExec cs)" and I: "cs_inv E B cs"
  then have "0 \<le> rs_Round (cs\<lparr>cs_blockExec := x\<rparr>)" by (simp add: cs_inv_def height_inv_def)
  then show "okP (moves E B cs) (handleTxsAvailable E h (cs\<lparr>cs_blockExec := x\<rparr>))"
    unfolding handleTxsAvailable_def by (rule okP_after [OF frame_adv [OF exec_frame [OF x]] okP_adv_moves [OF enterPropose_adv]])
qed

lemma node_step_moves:
  assumes a: "admissible B e cs" and inj: "inj_on (bid_Key E) B"
  shows "okP (moves E B cs) (node_step E e cs)"
proof (cases e)
  case EvTxsAvailable
  then show ?thesis by (auto simp: moves_refl split: option.split intro!: txs_moves)
next
  case (EvPeerMsg m p)
  then show ?thesis using a handleMsg_moves [OF _ inj] by (simp add: admissible_def)
next
  case EvInternalMsg
  show ?thesis
  proof (cases "cs_internalMsgQueue cs")
    case (Cons m ms)
    then have "adv E B cs (cs\<lparr>cs_internalMsgQueue := ms\<rparr>)" by (intro pop_adv) auto
    moreover have "msg_fits B m" using a EvInternalMsg Cons by (simp add: admissible_def)
    ultimately show ?thesis using EvInternalMsg Cons okP_after [OF _ handleMsg_moves [OF _ inj]] by simp
  qed (simp add: EvInternalMsg moves_refl)
next
  case (EvTock i)
  then show ?thesis using a tock_moves by (auto simp: moves_refl admissible_def)
next
  case EvTick
  then show ?thesis by (simp add: adv_moves frame_adv ticker_frame receive_tick_timeouts)
next
  case EvTimer
  then show ?thesis by (simp add: adv_moves frame_adv ticker_frame timer_fires_timeouts)
next
  case (EvCheckTx t)
  then show ?thesis by (auto simp: okP_def intro!: adv_moves frame_adv exec_frame elim!: bindP_Inr_E split: prod.split_asm)
next
  case (EvPeerMaj23 r t p b)
  show ?thesis unfolding okP_def EvPeerMaj23
  proof (intro allI impI)
    fix cs' assume "node_step E (EvPeerMaj23 r t p b) cs = Inr cs'"
    then obtain h x h' where h: "rs_Votes cs = Some h" "hvs_SetPeerMaj23 E h r t p b = Inr (x, h')" "cs' = cs\<lparr>rs_Votes := Some h'\<rparr>"
      by (auto elim!: bindP_Inr_E)
    show "moves E B cs cs'" unfolding h(3)
      by (rule adv_moves [OF votes_update_adv [OF h(1)]]) (use h(2) hvs_SetPeerMaj23_ext [OF h(2)] hvs_SetPeerMaj23_ok [of E B h r t p b] in auto)
  qed
qed

section \<open>Runs\<close>

inductive reach :: "('a, 'e) node_env_scheme \<Rightarrow> block_id set \<Rightarrow> 'a consensus \<Rightarrow> 'a consensus \<Rightarrow> bool" for E B cs0 where
  reach_start: "reach E B cs0 cs0"
| reach_event: "reach E B cs0 cs \<Longrightarrow> admissible B e cs \<Longrightarrow> node_step E e cs = Inr cs' \<Longrightarrow> reach E B cs0 cs'"

inductive_cases reach_last: "reach E B cs0 cs"

lemma moves_trans: "moves E B a b \<Longrightarrow> moves E B b c \<Longrightarrow> \<not> far (core b) \<Longrightarrow> moves E B a c"
  unfolding moves_def using grow_trans [of E "core b" "core c" "core a"] quiet_trans [of E a b c] quiet_height [of E a b] quiet_height [of E b c]
  by (auto dest: order.strict_trans)

lemma reach_moves: "reach E B cs0 cs \<Longrightarrow> inj_on (bid_Key E) B \<Longrightarrow> moves E B cs0 cs"
proof (induction rule: reach.induct)
  case (reach_event cs e cs')
  then have "moves E B cs cs'" using node_step_moves [of B e cs E] by (simp add: okP_def)
  moreover have "\<not> far (core cs)" using reach_event(2) by (simp add: admissible_def far_def core_def)
  ultimately show ?case using moves_trans reach_event by blast
qed (rule moves_refl)

lemma reach_near: "reach E B cs cs' \<Longrightarrow> \<not> far (core cs') \<Longrightarrow> \<not> far (core cs)"
proof (induction rule: reach.induct)
  case (reach_event c e c')
  then have "\<not> far (core c)" by (simp add: admissible_def far_def core_def)
  then show ?case by (rule reach_event.IH)
qed

text \<open>A node that starts from a state, with its private validator, when nothing is in flight.\<close>

definition started :: "('a, 'e) node_env_scheme \<Rightarrow> state \<Rightarrow> 'a exec \<Rightarrow> block_store \<Rightarrow> pv_world option \<Rightarrow> 'a consensus \<Rightarrow> bool" where
  "started E s x t priv cs0 \<longleftrightarrow> (\<exists>cs. NewConsensusState E s x t = Inr cs \<and> cs0 = start_node E (SetPrivValidator priv cs))"

lemma zero_fields:
  "cs_blockExec (zero_consensus x t) = x" "cs_blockStore (zero_consensus x t) = t" "cs_internalMsgQueue (zero_consensus x t) = []"
  "cs_timeoutTicker (zero_consensus x t) = NewTimeoutTicker"
  by (simp_all add: zero_consensus_def)

lemma started_inv:
  assumes s: "started E s x t priv cs0" and h: "0 \<le> LastBlockHeight s" "LastBlockHeight s + 1 < MaxInt64"
  shows "cs_inv E B cs0" "core cs0 = (s, x, t)" "rs_Height cs0 = LastBlockHeight s + 1"
proof -
  obtain cs1 cs where u: "updateToState E s (zero_consensus x t) = Inr cs1" and r: "reconstructLastCommit E s cs1 = Inr cs"
      and c0: "cs0 = start_node E (SetPrivValidator priv cs)"
    using s by (auto simp: started_def NewConsensusState_def elim!: bindP_Inr_E)
  have e: "\<not> (\<not> st_IsEmpty (cs_state (zero_consensus x t)) \<and> LastBlockHeight s \<le> LastBlockHeight (cs_state (zero_consensus x t)))"
    by (simp add: zero_consensus_def zero_state_def st_IsEmpty_def)
  have w: "wrap64 (LastBlockHeight s + 1) = LastBlockHeight s + 1" using h by (simp add: int64_defs)
  obtain vs k where c: "st_Validators s = Some vs" "NewHeightVoteSet (st_ChainID s) (LastBlockHeight s + 1) vs = Inr k"
      "rs_Votes cs1 = Some k" "cs_state cs1 = s" "rs_Height cs1 = LastBlockHeight s + 1" "rs_Round cs1 = 0" "rs_LockedBlock cs1 = None"
      "cs_blockExec cs1 = x" "cs_blockStore cs1 = t" "cs_internalMsgQueue cs1 = []" "cs_timeoutTicker cs1 = NewTimeoutTicker"
    using updateToState_cases [OF u e] unfolding w zero_fields by metis
  have "cs_inv E B cs1"
  proof (rule fresh_inv)
    show "height_inv cs1" using c(4-6) h by (simp add: height_inv_def)
    show "votes_inv E B cs1" by (rule new_votes_inv [OF c(2,1)]) (use c in auto)
  qed (use c in \<open>auto simp: ticker_timeouts_def NewTimeoutTicker_def\<close>)
  moreover have f: "frame cs1 cs0"
  proof -
    have "frame cs1 cs" using r unfolding reconstructLastCommit_def by (auto simp: frame_def elim!: bindP_Inr_E split: if_split_asm)
    moreover have "frame cs (SetPrivValidator priv cs)" by (simp add: SetPrivValidator_def)
    moreover have "frame (SetPrivValidator priv cs) cs0"
      unfolding c0 start_node_def by (rule scheduleRound0_frame) (use \<open>frame cs1 cs\<close> c(6) in \<open>simp add: SetPrivValidator_def frame_def\<close>)
    ultimately show ?thesis using frame_trans by blast
  qed
  ultimately show "cs_inv E B cs0" by (rule frame_inv [rotated])
  show "rs_Height cs0 = LastBlockHeight s + 1" using f c(5) by (simp add: frame_def)
  have "cs_state cs = s" "cs_blockExec cs = x" "cs_blockStore cs = t"
    using r c(4,8,9) unfolding reconstructLastCommit_def by (auto elim!: bindP_Inr_E split: if_split_asm)
  then show "core cs0 = (s, x, t)"
    by (simp add: c0 core_def start_node_def scheduleRound0_def scheduleTimeout_def read_clock_def SetPrivValidator_def)
qed

section \<open>The chain grows by decisions\<close>

text \<open>Blocks from index \<open>n\<close> on have a commit by the validators of the state they were applied to.\<close>

definition certified :: "'e ext_scheme \<Rightarrow> nat \<Rightarrow> state list \<Rightarrow> (block_id \<times> block) list \<Rightarrow> bool" where
  "certified E n ss bs \<longleftrightarrow> (\<forall>i. n \<le> i \<longrightarrow> i < length bs \<longrightarrow> bid_Hash (fst (bs ! i)) = blk_Hash E (Some (snd (bs ! i))) \<and>
     (\<exists>vs c. st_Validators (ss ! i) = Some vs \<and>
       (quorum_ok vs \<longrightarrow> VerifyCommit E vs (st_ChainID (ss ! i)) (fst (bs ! i)) (LastBlockHeight (ss ! i) + 1) c = Inr None)))"

lemma certified_snoc:
  assumes "certified E n ss bs" "length ss = Suc (length bs)" "decided E (last ss) t b bid t'"
  shows "certified E n (ss @ [s']) (bs @ [(bid, b)])"
proof -
  have l: "last ss = ss ! length bs" using assms(2) by (metis Suc_neq_Zero diff_Suc_1 last_conv_nth length_0_conv)
  show ?thesis using assms unfolding certified_def decided_def l by (auto simp: nth_append less_Suc_eq)
qed

lemma chain_length: "chain E A x ss bs \<Longrightarrow> length ss = Suc (length bs)"
  by (induction rule: chain.induct) auto

text \<open>
  A chain that grew from \<open>c\<close>: \<open>ss\<close> and \<open>bs\<close> are continued, by certified blocks only, to the state and the
  executor of the new core.
\<close>

definition continues :: "('a, 'e) node_env_scheme \<Rightarrow> state list \<Rightarrow> (block_id \<times> block) list \<Rightarrow> state list \<Rightarrow> (block_id \<times> block) list \<Rightarrow> bool" where
  "continues E ss bs ss' bs' \<longleftrightarrow> (\<exists>us cs. ss' = ss @ us \<and> bs' = bs @ cs) \<and> certified E (length bs) ss' bs'"

lemma grow_chain:
  assumes "grow E c d" "chain E (env_App E) (fst (snd c)) ss bs" "last ss = fst c"
  shows "\<exists>ss' bs'. chain E (env_App E) (fst (snd d)) ss' bs' \<and> last ss' = fst d \<and> continues E ss bs ss' bs'"
  using assms
proof (induction rule: grow.induct)
  case (grow_refl c)
  then show ?case by (intro exI [of _ ss] exI [of _ bs]) (auto simp: continues_def certified_def)
next
  case (grow_other c s x t x')
  then obtain ss' bs' where "chain E (env_App E) x ss' bs'" "last ss' = s" "continues E ss bs ss' bs'" by auto
  then show ?case using chain_other grow_other(2) by (intro exI [of _ ss'] exI [of _ bs']) auto
next
  case (grow_apply c s x t b bid t' s' x')
  then obtain ss' bs' where c: "chain E (env_App E) x ss' bs'" "last ss' = s" "continues E ss bs ss' bs'" by auto
  have "chain E (env_App E) x' (ss' @ [s']) (bs' @ [(bid, b)])" using chain_apply [OF c(1)] c(2) grow_apply(3) by simp
  moreover have "continues E ss bs (ss' @ [s']) (bs' @ [(bid, b)])"
    using c(3) certified_snoc [OF _ chain_length [OF c(1)], of E "length bs" t b bid t' s'] grow_apply(2) c(2) by (auto simp: continues_def)
  ultimately show ?case by (intro exI [of _ "ss' @ [s']"] exI [of _ "bs' @ [(bid, b)]"]) auto
next
  case (grow_fail c s x t b bid t' err s' x')
  then obtain ss' bs' where c: "chain E (env_App E) x ss' bs'" "last ss' = s" "continues E ss bs ss' bs'" by auto
  have "chain E (env_App E) x' ss' bs'" using chain_fail [OF c(1)] c(2) grow_fail(3) by simp
  then show ?case using c by (intro exI [of _ ss'] exI [of _ bs']) auto
qed

end
