(* ===== verification/Solo_Run.thy ===== *)
theory Solo_Run
  imports Consensus_Runs
begin

text \<open>
  A network of one validator: the run in which it proposes, prevotes, precommits and commits its first
  block, event by event, and the properties of runs with this run as their example.
\<close>

section \<open>Votes of a lone validator\<close>

definition empty_votes :: "bytes \<Rightarrow> int \<Rightarrow> int \<Rightarrow> int \<Rightarrow> validator_set \<Rightarrow> vote_set" where
  "empty_votes chainID height r t vs = \<lparr>vts_chainID = chainID, vts_height = height, vts_round = r, vts_type = t, vts_valSet = vs,
     vts_votesBitArray = NewBitArray (vs_Size vs), vts_votes = replicate (nat (vs_Size vs)) None,
     vts_sum = 0, vts_maj23 = None, vts_votesByBlock = Map.empty, vts_peerMaj23s = Map.empty\<rparr>"

definition empty_round :: "bytes \<Rightarrow> int \<Rightarrow> validator_set \<Rightarrow> int \<Rightarrow> round_vote_set" where
  "empty_round c h vs r = \<lparr>rvs_Prevotes = empty_votes c h r VoteTypePrevote vs, rvs_Precommits = empty_votes c h r VoteTypePrecommit vs\<rparr>"

definition round_votes :: "bytes \<Rightarrow> int \<Rightarrow> validator_set \<Rightarrow> int \<Rightarrow> (int \<rightharpoonup> round_vote_set) \<Rightarrow> height_vote_set" where
  "round_votes c h vs r m = \<lparr>hvs_chainID = c, hvs_height = h, hvs_valSet = vs, hvs_round = r, hvs_roundVoteSets = m, hvs_peerCatchupRounds = Map.empty\<rparr>"

lemma new_height_votes: "h \<noteq> 0 \<Longrightarrow> NewHeightVoteSet c h vs = Inr (round_votes c h vs 0 [0 \<mapsto> empty_round c h vs 0])"
  by (simp add: NewHeightVoteSet_def hvs_Reset_def hvs_addRound_def NewVoteSet_def round_votes_def empty_round_def empty_votes_def)

lemma first_round_votes:
  "h \<noteq> 0 \<Longrightarrow> hvs_SetRound (round_votes c h vs 0 [0 \<mapsto> empty_round c h vs 0]) 1 =
     Inr (round_votes c h vs 1 [0 \<mapsto> empty_round c h vs 0, 1 \<mapsto> empty_round c h vs 1])"
  by (simp add: hvs_SetRound_def add_missing_round_def hvs_addRound_def NewVoteSet_def round_votes_def empty_round_def empty_votes_def)

definition lone :: "'e ext_scheme \<Rightarrow> validator_set \<Rightarrow> validator \<Rightarrow> pub_key \<Rightarrow> bool" where
  "lone E vs val k \<longleftrightarrow> Validators vs = [val] \<and> Proposer vs = Some val \<and> v_PubKey val = Some k \<and> pk_Address E k = v_Address val \<and>
     v_Address val \<noteq> [] \<and> 0 < VotingPower val \<and> quorum_ok vs"

lemma solo_add:
  assumes l: "lone E vs val k" and v: "ValidatorIndex v = 0" "ValidatorAddress v = v_Address val" "vote_Height v = h" "vote_Round v = r" "vote_Type v = t"
    and sig: "VerifyBytes E k (vote_SignBytes E c v) (vote_Signature v)"
  shows "\<exists>s. vts_addVote E (empty_votes c h r t vs) (Some v) = Inr (True, None, s) \<and> vts_maj23 s = Some (vote_BlockID v) \<and>
    HasTwoThirdsAny (Some s) \<and> vts_type s = t \<and> vts_votes s = [Some v]"
proof -
  have vs: "Validators vs = [val]" "v_PubKey val = Some k" "pk_Address E k = v_Address val" "v_Address val \<noteq> []" "0 < VotingPower val" "quorum_ok vs"
    using l by (simp_all add: lone_def)
  have tot: "total_power vs = VotingPower val" using quorum_total [OF vs(6)] vs(1) by simp
  have small: "2 * VotingPower val \<le> MaxInt64" using vs(1,6) by (simp add: quorum_ok_def)
  have q: "wrap64 (two_thirds (VotingPower val) + 1) \<le> VotingPower val" "0 < wrap64 (two_thirds (VotingPower val) + 1)"
    "two_thirds (VotingPower val) < VotingPower val" "wrap64 (VotingPower val) = VotingPower val"
    using small vs(5) by (simp_all add: two_thirds_def go_quot_def int64_defs)
  obtain z where z: "NewBitArray 1 = Some z" by (simp add: NewBitArray_def)
  obtain z' where z': "mark_index 0 (Some z) = Inr (Some z')"
    using mark_index_put [OF NewBitArray_wf [OF z], of 0] NewBitArray_Bits [OF z] by auto
  show ?thesis
    using v vs(1-4) sig q
    by (simp add: vts_addVote_def empty_votes_def vs_Size_def GetByIndex_def add_from_def getVote_def slice_at_def bv_getByIndex_def
        vote_Verify_def addVerifiedVote_def record_vote_def store_vote_def z z' count_vote_def newBlockVotes_def bv_addVerifiedVote_def
        tot HasTwoThirdsAny_def Let_def)
qed

section \<open>Its own parts\<close>

text \<open>A part set that has received the first \<open>n\<close> parts of its data, in order.\<close>

definition received :: "'e ext_scheme \<Rightarrow> nat \<Rightarrow> bytes \<Rightarrow> nat \<Rightarrow> part_set \<Rightarrow> bool" where
  "received E k bz n s \<longleftrightarrow> ps_wf E s \<and> ps_total s = int (n_parts k bz) \<and> ps_hash s = simpleHashFromHashes E (data_hashes E k bz) \<and>
     ps_parts s = map (\<lambda>i. Some (data_part E k bz i)) [0..<n] @ replicate (n_parts k bz - n) None"

lemma received_none: "received E k bz 0 s0" if "NewPartSetFromHeader (ps_Header (Some (data_set E k bz ba))) = Inr s0"
  using NewPartSetFromHeader_wf [OF that, of E] that
  by (auto simp: received_def data_set_def ps_Header_def NewPartSetFromHeader_def)

lemma received_next:
  assumes r: "received E k bz n s" and n: "n < n_parts k bz" "int (n_parts k bz) < MaxInt64"
  shows "\<exists>s'. AddPart E s (data_part E k bz n) = Inr (True, None, s') \<and> received E k bz (Suc n) s'"
proof -
  let ?p = "data_part E k bz n"
  have w: "ps_wf E s" and t: "ps_total s = int (n_parts k bz)" "ps_hash s = simpleHashFromHashes E (data_hashes E k bz)"
      "ps_parts s = map (\<lambda>i. Some (data_part E k bz i)) [0..<n] @ replicate (n_parts k bz - n) None"
    using r by (simp_all add: received_def)
  have i: "part_Index ?p = int n" by (simp add: data_part_def)
  have slot: "ps_parts s ! n = None" using n(1) by (simp add: t(3) nth_append)
  have v: "sp_Verify E (part_Proof ?p) (int n) (ps_total s) (part_Hash E ?p) (ps_hash s)"
    using compute_aunts [of n "data_hashes E k bz" E] n
    by (simp add: t sp_Verify_def data_part_def part_Hash_def data_hashes_def)
  let ?s = "s\<lparr>ps_parts := (ps_parts s)[n := Some ?p], ps_partsBitArray := map_option (ba_put n True) (ps_partsBitArray s), ps_count := ps_count s + 1\<rparr>"
  have a: "AddPart E s ?p = Inr (True, None, ?s)" using AddPart_cases [OF w i] slot v n(1) by (simp add: t(1))
  have "replicate (n_parts k bz - n) (None :: part option) = None # replicate (n_parts k bz - Suc n) None"
    using n(1) by (metis Suc_diff_Suc replicate_Suc)
  then have "received E k bz (Suc n) ?s"
    using add_slot_wf [OF w i _ slot v] n(1) t by (simp add: received_def list_update_append)
  then show ?thesis using a by blast
qed

lemma received_complete_iff: "received E k bz n s \<Longrightarrow> n \<le> n_parts k bz \<Longrightarrow> IsComplete s \<longleftrightarrow> n = n_parts k bz"
  using IsComplete_iff [of E s] by (auto simp: received_def)

lemma received_all:
  assumes r: "received E k bz (n_parts k bz) s" and k: "0 < k" "bz \<noteq> []"
  shows "\<exists>rd. GetReader s = Inr rd \<and> remaining rd = bz" "ps_Header (Some s) = ps_Header (Some (data_set E k bz ba))"
    "ps_parts s = ps_parts (data_set E k bz ba)"
proof -
  have c: "IsComplete s" using received_complete_iff [OF r] by simp
  have p: "ps_parts s = map (\<lambda>i. Some (data_part E k bz i)) [0..<n_parts k bz]" using r by (simp add: received_def)
  have n: "0 < n_parts k bz" by (rule n_parts_pos [OF k])
  then have l: "[0..<n_parts k bz] = 0 # [1..<n_parts k bz]" by (simp add: upt_conv_Cons)
  let ?r = "\<lparr>psr_i = 0, psr_parts = ps_parts s, psr_reader = part_Bytes (data_part E k bz 0)\<rparr>"
  have "GetReader s = Inr ?r" using c n by (simp add: GetReader_def NewPartSetReader_def slice_at_def p)
  moreover have "remaining ?r = concat (map (chunk k bz) [0..<n_parts k bz])"
    unfolding remaining_def p l by (simp add: data_part_def comp_def)
  ultimately show "\<exists>rd. GetReader s = Inr rd \<and> remaining rd = bz" using concat_all_chunks [OF k(1), of bz] by auto
  show "ps_Header (Some s) = ps_Header (Some (data_set E k bz ba))" using r by (simp add: received_def ps_Header_def data_set_def)
  show "ps_parts s = ps_parts (data_set E k bz ba)" by (simp add: p data_set_def)
qed

section \<open>Its own signatures\<close>

text \<open>The file signer of the key \<open>k\<close> of address \<open>a\<close>, whose signatures verify, when it signed nothing after \<open>hrs\<close>.\<close>

definition signer :: "'e ext_scheme \<Rightarrow> address \<Rightarrow> pub_key \<Rightarrow> pv_world \<Rightarrow> bool" where
  "signer E a k w \<longleftrightarrow> pv_Address (pv_mem w) = a \<and> pv_filePath (pv_mem w) \<noteq> [] \<and>
     (\<forall>m. \<exists>sig. pv_PrivKey (pv_mem w) m = Some sig \<and> VerifyBytes E k m (Some sig))"

lemma sign_core_new:
  assumes "signer E a k w" "last_hrs (pv_mem w) < (h, r, s)"
  shows "\<exists>sig w'. sign_core w h r s m differ = Inr (None, Some (None, Some sig), w') \<and> VerifyBytes E k m (Some sig) \<and>
    signer E a k w' \<and> last_hrs (pv_mem w') = (h, r, s)"
proof -
  obtain sig where sig: "pv_PrivKey (pv_mem w) m = Some sig" "VerifyBytes E k m (Some sig)" using assms(1) by (auto simp: signer_def)
  have "checkHRS (pv_mem w) h r s = Inr (False, None)" using assms(2) by (simp add: checkHRS_ok)
  moreover obtain w' where "saveSigned w h r s m sig = Inr w'" "signer E a k w'" "last_hrs (pv_mem w') = (h, r, s)"
    using assms(1) by (simp add: saveSigned_def pv_save_def signer_def last_hrs_def)
  ultimately show ?thesis using sig by (simp add: sign_core_def)
qed

lemma signVote_new:
  assumes "signer E a k w" "voteToStep v = Inr st" "last_hrs (pv_mem w) < (vote_Height v, vote_Round v, st)"
  shows "\<exists>sig w'. signVote E now c w v = Inr (None, v\<lparr>vote_Signature := Some sig\<rparr>, w') \<and> VerifyBytes E k (vote_SignBytes E c v) (Some sig) \<and>
    signer E a k w' \<and> last_hrs (pv_mem w') = (vote_Height v, vote_Round v, st)"
proof -
  obtain sig w' where "sign_core w (vote_Height v) (vote_Round v) st (vote_SignBytes E c v)
       (\<lambda>b. checkVotesOnlyDifferByTimestamp E now b (vote_SignBytes E c v)) = Inr (None, Some (None, Some sig), w')"
      "VerifyBytes E k (vote_SignBytes E c v) (Some sig)" "signer E a k w'" "last_hrs (pv_mem w') = (vote_Height v, vote_Round v, st)"
    using sign_core_new [OF assms(1,3)] by blast
  then show ?thesis using assms(2) by (auto simp: signVote_core set_vote_def)
qed

lemma signProposal_new:
  assumes "signer E a k w" "last_hrs (pv_mem w) < (prop_Height p, prop_Round p, stepPropose)"
  shows "\<exists>sig w'. signProposal E now c w p = Inr (None, p\<lparr>prop_Signature := Some sig\<rparr>, w') \<and>
    signer E a k w' \<and> last_hrs (pv_mem w') = (prop_Height p, prop_Round p, stepPropose)"
proof -
  obtain sig w' where "sign_core w (prop_Height p) (prop_Round p) stepPropose (prop_SignBytes E c p)
       (\<lambda>b. checkProposalsOnlyDifferByTimestamp E now b (prop_SignBytes E c p)) = Inr (None, Some (None, Some sig), w')"
      "signer E a k w'" "last_hrs (pv_mem w') = (prop_Height p, prop_Round p, stepPropose)"
    using sign_core_new [OF assms(1,2)] by blast
  then show ?thesis by (auto simp: signProposal_core set_proposal_def)
qed

section \<open>A height with one validator\<close>

lemma search_one: "search_address [val] (v_Address val) = 0"
  by (simp add: search_address_def sort_Search_def search_loop.simps)

lemma lone_lookups:
  assumes "lone E vs val k"
  shows "HasAddress vs (v_Address val)" "\<exists>x. GetByAddress vs (v_Address val) = (0, x)" "GetProposer vs = (Some val, vs)"
  using assms by (auto simp: lone_def HasAddress_def GetByAddress_def GetProposer_def search_one)

definition own_vote :: "'e ext_scheme \<Rightarrow> bytes \<Rightarrow> validator \<Rightarrow> pub_key \<Rightarrow> int \<Rightarrow> int \<Rightarrow> block_id \<Rightarrow> vote \<Rightarrow> bool" where
  "own_vote E c val k h t bid v \<longleftrightarrow> ValidatorIndex v = 0 \<and> ValidatorAddress v = v_Address val \<and> vote_Height v = h \<and> vote_Round v = 0 \<and>
     vote_Type v = t \<and> vote_BlockID v = bid \<and> VerifyBytes E k (vote_SignBytes E c v) (vote_Signature v)"

lemma own_vote_added:
  assumes l: "lone E vs val k" and v: "own_vote E c val k h t bid v" and t: "t = VoteTypePrevote \<or> t = VoteTypePrecommit"
    and m: "m 0 = Some rvs" "(if t = VoteTypePrevote then rvs_Prevotes rvs else rvs_Precommits rvs) = empty_votes c h 0 t vs"
  shows "\<exists>s. hvs_AddVote E (round_votes c h vs r m) v p = Inr (True, None, round_votes c h vs r
      (m(0 \<mapsto> (if t = VoteTypePrevote then rvs\<lparr>rvs_Prevotes := s\<rparr> else rvs\<lparr>rvs_Precommits := s\<rparr>)))) \<and>
    vts_maj23 s = Some bid \<and> HasTwoThirdsAny (Some s) \<and> vts_type s = t \<and> vts_votes s = [Some v]"
proof -
  have own: "ValidatorIndex v = 0" "ValidatorAddress v = v_Address val" "vote_Height v = h" "vote_Round v = 0" "vote_Type v = t" "vote_BlockID v = bid"
      "VerifyBytes E k (vote_SignBytes E c v) (vote_Signature v)"
    using v by (simp_all add: own_vote_def)
  obtain s where "vts_addVote E (empty_votes c h 0 t vs) (Some v) = Inr (True, None, s)" "vts_maj23 s = Some bid" "HasTwoThirdsAny (Some s)"
      "vts_type s = t" "vts_votes s = [Some v]"
    using solo_add [OF l own(1-5,7)] own(6) by blast
  then show ?thesis using t m
    by (auto simp: hvs_AddVote_def own type_cases hvs_getVoteSet_def round_votes_def vts_AddVote_def put_vote_set_def Let_def split: if_splits)
qed

lemma signAddVote_own:
  assumes l: "lone E vs val k" and cs: "rs_Validators cs = Some vs" "cs_privValidator cs = Some w" "rs_Round cs = 0" "rs_Height cs = h"
    "st_ChainID (cs_state cs) = c"
    and w: "signer E (v_Address val) k w" "last_hrs (pv_mem w) < (h, 0, st)"
    and t: "t = VoteTypePrevote \<and> st = stepPrevote \<or> t = VoteTypePrecommit \<and> st = stepPrecommit"
  shows "\<exists>v w' n. signAddVote E t hash hdr cs = Inr (cs\<lparr>cs_privValidator := Some w', cs_clock := n,
      cs_internalMsgQueue := cs_internalMsgQueue cs @ [VoteMessage (Some v)]\<rparr>) \<and>
    own_vote E c val k h t \<lparr>bid_Hash = hash, bid_PartsHeader = hdr\<rparr> v \<and> signer E (v_Address val) k w' \<and> last_hrs (pv_mem w') = (h, 0, st)"
proof -
  have a: "pv_Address (pv_mem w) = v_Address val" using w(1) by (simp add: signer_def)
  obtain x where x: "GetByAddress vs (v_Address val) = (0, x)" using lone_lookups(2) [OF l] by blast
  let ?v = "\<lparr>ValidatorAddress = v_Address val, ValidatorIndex = 0, vote_Height = h, vote_Round = 0,
      vote_Timestamp = env_Now E (cs_clock cs), vote_Type = t, vote_BlockID = \<lparr>bid_Hash = hash, bid_PartsHeader = hdr\<rparr>, vote_Signature = None\<rparr>"
  have st: "voteToStep ?v = Inr st" using t by (auto simp: voteToStep_def)
  have "last_hrs (pv_mem w) < (vote_Height ?v, vote_Round ?v, st)" using w(2) by simp
  then obtain sig w' where s: "signVote E (env_Now E (Suc (cs_clock cs))) c w ?v = Inr (None, ?v\<lparr>vote_Signature := Some sig\<rparr>, w')"
      "VerifyBytes E k (vote_SignBytes E c ?v) (Some sig)" "signer E (v_Address val) k w'" "last_hrs (pv_mem w') = (h, 0, st)"
    using signVote_new [OF w(1) st, of "env_Now E (Suc (cs_clock cs))" c] by auto
  let ?v' = "?v\<lparr>vote_Signature := Some sig\<rparr>"
  have "cs_signVote E w t hash hdr cs = Inr (None, ?v', cs\<lparr>cs_clock := Suc (Suc (cs_clock cs)), cs_privValidator := Some w'\<rparr>)"
    using s(1) by (simp add: cs_signVote_def cs a x read_clock_def)
  then have "signAddVote E t hash hdr cs = Inr (cs\<lparr>cs_privValidator := Some w', cs_clock := Suc (Suc (cs_clock cs)),
      cs_internalMsgQueue := cs_internalMsgQueue cs @ [VoteMessage (Some ?v')]\<rparr>)"
    using lone_lookups(1) [OF l] by (simp add: signAddVote_def cs a sendInternalMessage_def)
  moreover have "own_vote E c val k h t \<lparr>bid_Hash = hash, bid_PartsHeader = hdr\<rparr> ?v'"
    using s(2) by (simp add: own_vote_def vote_SignBytes_def CanonicalVote_def)
  ultimately show ?thesis using s(3,4) by blast
qed

text \<open>
  The node of the validator \<open>val\<close> in the first round of the height after \<open>s\<close>: its step, the votes it has, the
  step it signed last and the messages to itself that it has not handled.
\<close>

definition during :: "state \<Rightarrow> 'a exec \<Rightarrow> block_store \<Rightarrow> validator_set \<Rightarrow> int \<Rightarrow> int \<Rightarrow> 'a consensus \<Rightarrow> bool" where
  "during s x t vs h step cs \<longleftrightarrow> rs_Height cs = h \<and> rs_Round cs = 0 \<and> rs_Step cs = step \<and> rs_Validators cs = Some vs \<and> rs_ValidRound cs = 0 \<and>
     cs_state cs = s \<and> cs_blockExec cs = x \<and> cs_blockStore cs = t \<and> \<not> cs_killed cs"

definition signed_upto :: "('a, 'e) node_env_scheme \<Rightarrow> validator \<Rightarrow> pub_key \<Rightarrow> int \<times> int \<times> int \<Rightarrow> 'a consensus \<Rightarrow> bool" where
  "signed_upto E val k hrs cs \<longleftrightarrow> (\<exists>w. cs_privValidator cs = Some w \<and> signer E (v_Address val) k w \<and> last_hrs (pv_mem w) = hrs)"

definition first_votes :: "state \<Rightarrow> int \<Rightarrow> validator_set \<Rightarrow> int \<rightharpoonup> round_vote_set" where
  "first_votes s h vs = [0 \<mapsto> empty_round (st_ChainID s) h vs 0, 1 \<mapsto> empty_round (st_ChainID s) h vs 1]"

definition waiting :: "('a, 'e) node_env_scheme \<Rightarrow> state \<Rightarrow> 'a exec \<Rightarrow> block_store \<Rightarrow> validator_set \<Rightarrow> validator \<Rightarrow> pub_key \<Rightarrow> int \<Rightarrow> 'a consensus \<Rightarrow> bool" where
  "waiting E s x t vs val k h cs \<longleftrightarrow> during s x t vs h RoundStepNewHeight cs \<and>
     (\<exists>hrs < (h, 0, stepPropose). signed_upto E val k hrs cs) \<and> cs_internalMsgQueue cs = [] \<and>
     rs_Votes cs = Some (round_votes (st_ChainID s) h vs 0 [0 \<mapsto> empty_round (st_ChainID s) h vs 0]) \<and>
     rs_Proposal cs = None \<and> rs_ProposalBlock cs = None \<and> rs_ProposalBlockParts cs = None \<and> rs_LockedBlock cs = None \<and> rs_ValidBlock cs = None"

definition own_parts :: "'e ext_scheme \<Rightarrow> int \<Rightarrow> nat \<Rightarrow> bytes \<Rightarrow> nat \<Rightarrow> consensus_message list" where
  "own_parts E h z bz n = map (\<lambda>i. BlockPartMessage h 0 (Some (data_part E z bz i))) [n..<n_parts z bz]"

definition proposed :: "('a, 'e) node_env_scheme \<Rightarrow> state \<Rightarrow> 'a exec \<Rightarrow> block_store \<Rightarrow> validator_set \<Rightarrow> validator \<Rightarrow> pub_key \<Rightarrow> int \<Rightarrow> part_set_header \<Rightarrow> nat \<Rightarrow> bytes \<Rightarrow> 'a consensus \<Rightarrow> bool" where
  "proposed E s x t vs val k h hdr z bz cs \<longleftrightarrow> during s x t vs h RoundStepPropose cs \<and> signed_upto E val k (h, 0, stepPropose) cs \<and>
     rs_Votes cs = Some (round_votes (st_ChainID s) h vs 1 (first_votes s h vs)) \<and>
     (\<exists>p. cs_internalMsgQueue cs = ProposalMessage (Some p) # own_parts E h z bz 0 \<and> prop_Height p = h \<and> prop_Round p = 0 \<and>
       POLRound p = - 1 \<and> BlockPartsHeader p = hdr) \<and>
     rs_Proposal cs = None \<and> rs_ProposalBlock cs = None \<and> rs_LockedBlock cs = None"

text \<open>The block it makes.\<close>

definition makes :: "('a, 'e) node_env_scheme \<Rightarrow> state \<Rightarrow> 'a exec \<Rightarrow> int \<Rightarrow> vote_set option \<Rightarrow> nat \<Rightarrow> block \<Rightarrow> part_set \<Rightarrow> bool" where
  "makes E s x h lc n b ps \<longleftrightarrow> (\<forall>cs. rs_Height cs = h \<and> cs_state cs = s \<and> cs_blockExec cs = x \<and> rs_LastCommit cs = lc \<and> cs_clock cs = n \<longrightarrow>
     (\<exists>n'. createProposalBlock E cs = Inr (Some (b, Some ps), cs\<lparr>cs_clock := n'\<rparr>)))"

lemma send_all:
  "foldP (send_part (Some (data_set E z bz ba))) [0..int (n_parts z bz) - 1] cs =
     Inr (cs\<lparr>cs_internalMsgQueue := cs_internalMsgQueue cs @ map (\<lambda>i. BlockPartMessage (rs_Height cs) (rs_Round cs) (Some (data_part E z bz i))) [0..<n_parts z bz]\<rparr>)"
proof -
  have "n \<le> n_parts z bz \<Longrightarrow> foldP (send_part (Some (data_set E z bz ba))) (map int [0..<n]) cs =
     Inr (cs\<lparr>cs_internalMsgQueue := cs_internalMsgQueue cs @ map (\<lambda>i. BlockPartMessage (rs_Height cs) (rs_Round cs) (Some (data_part E z bz i))) [0..<n]\<rparr>)" for n
    by (induction n) (simp_all add: send_part_def GetPart_def slice_at_def data_set_def sendInternalMessage_def)
  from this [of "n_parts z bz"] show ?thesis using upto_nat [of 0 "n_parts z bz"] by simp
qed

lemma no_pol: "POLInfo (round_votes c h vs 1 [0 \<mapsto> empty_round c h vs 0, 1 \<mapsto> empty_round c h vs 1]) = Inr (- 1, zero_bid)"
  by (simp add: POLInfo_def numeral_2_eq_2 hvs_getVoteSet_def round_votes_def empty_round_def empty_votes_def TwoThirdsMajority_def)

lemma decides_proposal:
  assumes l: "lone E vs val k" and d: "during s x t vs h st cs" and w: "cs_privValidator cs = Some w" "signer E (v_Address val) k w" "last_hrs (pv_mem w) < (h, 0, stepPropose)"
    and v: "rs_Votes cs = Some (round_votes (st_ChainID s) h vs 1 (first_votes s h vs))" and q: "cs_internalMsgQueue cs = []"
    and none: "rs_LockedBlock cs = None" "rs_ValidBlock cs = None"
    and mk: "makes E s x h (rs_LastCommit cs) (cs_clock cs) b (data_set E z bz ba)"
  shows "\<exists>p w' n. propose_as E w h 0 cs = Inr (cs\<lparr>cs_privValidator := Some w', cs_clock := n,
      cs_internalMsgQueue := ProposalMessage (Some p) # own_parts E h z bz 0\<rparr>) \<and> prop_Height p = h \<and> prop_Round p = 0 \<and> POLRound p = - 1 \<and>
    BlockPartsHeader p = ps_Header (Some (data_set E z bz ba)) \<and> signer E (v_Address val) k w' \<and> last_hrs (pv_mem w') = (h, 0, stepPropose)"
proof -
  have cs: "rs_Height cs = h" "rs_Round cs = 0" "rs_Validators cs = Some vs" "cs_state cs = s" "cs_blockExec cs = x" using d by (simp_all add: during_def)
  have a: "pv_Address (pv_mem w) = v_Address val" using w(2) by (simp add: signer_def)
  have same: "cs\<lparr>rs_Validators := Some vs\<rparr> = cs" using cs(3) by simp
  have pr: "isProposer w cs = Inr (True, cs)" using lone_lookups(3) [OF l] by (simp add: isProposer_def cs a same)
  obtain n where n: "createProposalBlock E cs = Inr (Some (b, Some (data_set E z bz ba)), cs\<lparr>cs_clock := n\<rparr>)"
    using mk cs by (auto simp: makes_def)
  let ?p = "NewProposal (env_Now E n) h 0 (ps_Header (Some (data_set E z bz ba))) (- 1) zero_bid"
  have hr: "prop_Height ?p = h" "prop_Round ?p = 0" "POLRound ?p = - 1" "BlockPartsHeader ?p = ps_Header (Some (data_set E z bz ba))"
    by (simp_all add: NewProposal_def)
  then obtain sig w' where s': "signProposal E (env_Now E (Suc n)) (st_ChainID s) w ?p = Inr (None, ?p\<lparr>prop_Signature := Some sig\<rparr>, w')"
      "signer E (v_Address val) k w'" "last_hrs (pv_mem w') = (h, 0, stepPropose)"
    using signProposal_new [OF w(2), of ?p "env_Now E (Suc n)" "st_ChainID s"] w(3) by auto
  let ?p' = "?p\<lparr>prop_Signature := Some sig\<rparr>"
  have tot: "ps_Total (Some (data_set E z bz ba)) = int (n_parts z bz)" by (simp add: ps_Total_def data_set_def)
  have "defaultDecideProposal E w h 0 cs = Inr (cs\<lparr>cs_clock := Suc (Suc n), cs_privValidator := Some w',
      cs_internalMsgQueue := ProposalMessage (Some ?p') # own_parts E h z bz 0\<rparr>)"
    unfolding defaultDecideProposal_def decide_block_def
    by (simp add: none n v first_votes_def no_pol read_clock_def cs s' tot send_all q sendInternalMessage_def own_parts_def)
  then have "propose_as E w h 0 cs = Inr (cs\<lparr>cs_privValidator := Some w', cs_clock := Suc (Suc n),
      cs_internalMsgQueue := ProposalMessage (Some ?p') # own_parts E h z bz 0\<rparr>)"
    using lone_lookups(1) [OF l] by (simp add: propose_as_def cs a pr)
  moreover have "prop_Height ?p' = h" "prop_Round ?p' = 0" "POLRound ?p' = - 1" "BlockPartsHeader ?p' = ps_Header (Some (data_set E z bz ba))"
    using hr by simp_all
  ultimately show ?thesis using s'(2,3) by blast
qed

lemma wakes_up:
  assumes l: "lone E vs val k" and w: "waiting E s x t vs val k h cs" and h: "h \<noteq> 0" and cfg: "\<not> WaitForTxs (env_Config E)"
    and mk: "makes E s x h (rs_LastCommit cs) (Suc (cs_clock cs)) b (data_set E z bz ba)"
  shows "\<exists>cs'. enterNewRound E h 0 cs = Inr cs' \<and> proposed E s x t vs val k h (ps_Header (Some (data_set E z bz ba))) z bz cs'"
proof -
  have d: "rs_Height cs = h" "rs_Round cs = 0" "rs_Step cs = RoundStepNewHeight" "rs_Validators cs = Some vs" "rs_ValidRound cs = 0"
      "cs_state cs = s" "cs_blockExec cs = x" "cs_blockStore cs = t" "\<not> cs_killed cs" "cs_internalMsgQueue cs = []"
      "rs_Votes cs = Some (round_votes (st_ChainID s) h vs 0 [0 \<mapsto> empty_round (st_ChainID s) h vs 0])"
      "rs_Proposal cs = None" "rs_ProposalBlock cs = None" "rs_ProposalBlockParts cs = None" "rs_LockedBlock cs = None" "rs_ValidBlock cs = None"
    using w by (simp_all add: waiting_def during_def)
  obtain pw where pw: "cs_privValidator cs = Some pw" "signer E (v_Address val) k pw" "last_hrs (pv_mem pw) < (h, 0, stepPropose)"
    using w by (auto simp: waiting_def signed_upto_def)
  have one: "wrap64 (0 + 1) = 1" by (simp add: wrap64_def)
  define c1 where "c1 = cs\<lparr>cs_clock := Suc (cs_clock cs), rs_Step := RoundStepNewRound,
    rs_Votes := Some (round_votes (st_ChainID s) h vs 1 (first_votes s h vs))\<rparr>"
  have r: "start_round 0 (cs\<lparr>cs_clock := Suc (cs_clock cs)\<rparr>) = Inr c1"
    by (simp add: start_round_def round_validators_def d updateRoundStep_def one [simplified] first_round_votes [OF h] c1_def first_votes_def)
  define c2 where "c2 = scheduleTimeout (cfg_Propose (env_Config E) 0) h 0 RoundStepPropose c1"
  have e: "during s x t vs h RoundStepNewRound c2" "cs_privValidator c2 = Some pw" "cs_internalMsgQueue c2 = []" "rs_LockedBlock c2 = None"
      "rs_ValidBlock c2 = None" "rs_LastCommit c2 = rs_LastCommit cs" "cs_clock c2 = Suc (cs_clock cs)" "rs_Proposal c2 = None" "rs_ProposalBlock c2 = None"
      "rs_Votes c2 = Some (round_votes (st_ChainID s) h vs 1 (first_votes s h vs))"
    by (simp_all add: c2_def scheduleTimeout_def c1_def during_def d pw)
  obtain p w' n where p: "propose_as E pw h 0 c2 = Inr (c2\<lparr>cs_privValidator := Some w', cs_clock := n,
        cs_internalMsgQueue := ProposalMessage (Some p) # own_parts E h z bz 0\<rparr>)"
      "prop_Height p = h" "prop_Round p = 0" "POLRound p = - 1" "BlockPartsHeader p = ps_Header (Some (data_set E z bz ba))"
      "signer E (v_Address val) k w'" "last_hrs (pv_mem w') = (h, 0, stepPropose)"
    using decides_proposal [OF l e(1,2) pw(2,3) e(10,3,4,5), of b z bz ba] mk e(6,7) by auto
  define c3 where "c3 = done_step 0 RoundStepPropose (c2\<lparr>cs_privValidator := Some w', cs_clock := n,
        cs_internalMsgQueue := ProposalMessage (Some p) # own_parts E h z bz 0\<rparr>)"
  have g: "\<not> (rs_Height c1 \<noteq> h \<or> 0 < rs_Round c1 \<or> (rs_Round c1 = 0 \<and> RoundStepPropose \<le> rs_Step c1))" by (simp add: c1_def d steps)
  have "isProposalComplete c3 = Inr False" using e(8) by (simp add: isProposalComplete_def c3_def done_step_def newStep_def updateRoundStep_def)
  then have "enterPropose E h 0 c1 = Inr c3"
    unfolding enterPropose_def if_not_P [OF g] Let_def c2_def [symmetric] by (simp add: e(2) p(1) c3_def [symmetric])
  then have "enterNewRound E h 0 cs = Inr c3" using r cfg by (simp add: enterNewRound_def d read_clock_def)
  moreover have "proposed E s x t vs val k h (ps_Header (Some (data_set E z bz ba))) z bz c3"
    using e p(2-7) by (auto simp: proposed_def during_def signed_upto_def c3_def done_step_def newStep_def updateRoundStep_def)
  ultimately show ?thesis by blast
qed

text \<open>It handles its proposal, and the parts of its block one by one.\<close>

definition receiving :: "('a, 'e) node_env_scheme \<Rightarrow> state \<Rightarrow> 'a exec \<Rightarrow> block_store \<Rightarrow> validator_set \<Rightarrow> validator \<Rightarrow> pub_key \<Rightarrow> int \<Rightarrow> nat \<Rightarrow> bytes \<Rightarrow> nat \<Rightarrow> 'a consensus \<Rightarrow> bool" where
  "receiving E s x t vs val k h z bz j cs \<longleftrightarrow> during s x t vs h RoundStepPropose cs \<and> signed_upto E val k (h, 0, stepPropose) cs \<and>
     rs_Votes cs = Some (round_votes (st_ChainID s) h vs 1 (first_votes s h vs)) \<and> cs_internalMsgQueue cs = own_parts E h z bz j \<and>
     (\<exists>p. rs_Proposal cs = Some p \<and> POLRound p = - 1) \<and> rs_ProposalBlock cs = None \<and> rs_LockedBlock cs = None \<and>
     (\<exists>a. rs_ProposalBlockParts cs = Some a \<and> a < length (cs_heap cs) \<and> received E z bz j (cs_heap cs ! a))"

definition sound_block :: "('a, 'e) node_env_scheme \<Rightarrow> state \<Rightarrow> block \<Rightarrow> nat \<Rightarrow> bytes \<Rightarrow> bool" where
  "sound_block E s b z bz \<longleftrightarrow> validateBlock E s (Some b) = Inr None \<and> blk_Data b \<noteq> None \<and> blk_Hash E (Some b) \<noteq> [] \<and>
     bz = MarshalBinary E (AmBlock b) \<and> bz \<noteq> [] \<and> 0 < z \<and> int (n_parts z bz) < MaxInt64 \<and>
     amino_ReadBlock E bz (bs_MaxBytes (cp_BlockSize (st_ConsensusParams s))) None = (Some b, True)"

definition own_bid :: "'e ext_scheme \<Rightarrow> block \<Rightarrow> nat \<Rightarrow> bytes \<Rightarrow> block_id" where
  "own_bid E b z bz = \<lparr>bid_Hash = blk_Hash E (Some b),
     bid_PartsHeader = \<lparr>psh_Total = int (n_parts z bz), psh_Hash = simpleHashFromHashes E (data_hashes E z bz)\<rparr>\<rparr>"

lemma data_set_Header: "ps_Header (Some (data_set E z bz ba)) = bid_PartsHeader (own_bid E b z bz)"
  by (simp add: ps_Header_def data_set_def own_bid_def)

definition prevoted :: "('a, 'e) node_env_scheme \<Rightarrow> state \<Rightarrow> 'a exec \<Rightarrow> block_store \<Rightarrow> validator_set \<Rightarrow> validator \<Rightarrow> pub_key \<Rightarrow> int \<Rightarrow> block \<Rightarrow> nat \<Rightarrow> bytes \<Rightarrow> 'a consensus \<Rightarrow> bool" where
  "prevoted E s x t vs val k h b z bz cs \<longleftrightarrow> during s x t vs h RoundStepPrevote cs \<and> signed_upto E val k (h, 0, stepPrevote) cs \<and>
     rs_Votes cs = Some (round_votes (st_ChainID s) h vs 1 (first_votes s h vs)) \<and>
     (\<exists>v. cs_internalMsgQueue cs = [VoteMessage (Some v)] \<and> own_vote E (st_ChainID s) val k h VoteTypePrevote (own_bid E b z bz) v) \<and>
     rs_ProposalBlock cs = Some b \<and> rs_LockedBlock cs = None \<and>
     (\<exists>a. rs_ProposalBlockParts cs = Some a \<and> a < length (cs_heap cs) \<and> received E z bz (n_parts z bz) (cs_heap cs ! a))"

lemma takes_proposal:
  assumes "proposed E s x t vs val k h (ps_Header (Some (data_set E z bz ba))) z bz cs"
  shows "\<exists>cs'. node_step E EvInternalMsg cs = Inr cs' \<and> receiving E s x t vs val k h z bz 0 cs'"
proof -
  obtain p where p: "cs_internalMsgQueue cs = ProposalMessage (Some p) # own_parts E h z bz 0" "prop_Height p = h" "prop_Round p = 0"
      "POLRound p = - 1" "BlockPartsHeader p = ps_Header (Some (data_set E z bz ba))"
    using assms by (auto simp: proposed_def)
  have d: "rs_Proposal cs = None" "rs_Height cs = h" "rs_Round cs = 0" "rs_Step cs = RoundStepPropose" using assms by (simp_all add: proposed_def during_def)
  have "0 \<le> psh_Total (ps_Header (Some (data_set E z bz ba)))" by (simp add: ps_Header_def data_set_def)
  then obtain s0 where s0: "NewPartSetFromHeader (ps_Header (Some (data_set E z bz ba))) = Inr s0" by (auto simp: NewPartSetFromHeader_def)
  let ?c = "cs\<lparr>cs_internalMsgQueue := own_parts E h z bz 0, cs_heap := cs_heap cs @ [s0], rs_Proposal := Some p, rs_ProposalBlockParts := Some (length (cs_heap cs))\<rparr>"
  have "node_step E EvInternalMsg cs = Inr ?c"
    using p d s0 by (simp add: handleMsg_def defaultSetProposal_def steps new_parts_def)
  moreover have "receiving E s x t vs val k h z bz 0 ?c"
    using assms p(4) received_none [OF s0] by (auto simp: proposed_def receiving_def during_def signed_upto_def)
  ultimately show ?thesis by blast
qed

lemma takes_part:
  assumes r: "receiving E s x t vs val k h z bz j cs" and j: "Suc j < n_parts z bz" "int (n_parts z bz) < MaxInt64"
  shows "\<exists>cs'. node_step E EvInternalMsg cs = Inr cs' \<and> receiving E s x t vs val k h z bz (Suc j) cs'"
proof -
  obtain a where a: "rs_ProposalBlockParts cs = Some a" "a < length (cs_heap cs)" "received E z bz j (cs_heap cs ! a)" using r by (auto simp: receiving_def)
  obtain s' where s': "AddPart E (cs_heap cs ! a) (data_part E z bz j) = Inr (True, None, s')" "received E z bz (Suc j) s'"
    using received_next [OF a(3)] j by auto
  have inc: "\<not> IsComplete s'" using received_complete_iff [OF s'(2)] j by simp
  have q: "cs_internalMsgQueue cs = BlockPartMessage h 0 (Some (data_part E z bz j)) # own_parts E h z bz (Suc j)" "rs_Height cs = h"
    using r j by (simp_all add: receiving_def during_def own_parts_def upt_conv_Cons)
  let ?c = "cs\<lparr>cs_internalMsgQueue := own_parts E h z bz (Suc j), cs_heap := (cs_heap cs)[a := s']\<rparr>"
  have "node_step E EvInternalMsg cs = Inr ?c"
    using q a s' inc by (simp add: handleMsg_def addProposalBlockPart_def parts_at_def)
  moreover have "receiving E s x t vs val k h z bz (Suc j) ?c"
    using r a s'(2) by (auto simp: receiving_def during_def signed_upto_def)
  ultimately show ?thesis by blast
qed

lemma first_votes_0 [simp]: "first_votes s h vs 0 = Some (empty_round (st_ChainID s) h vs 0)" "first_votes s h vs 1 = Some (empty_round (st_ChainID s) h vs 1)"
  by (simp_all add: first_votes_def)

lemma no_majority: "m r = Some (empty_round c h vs r') \<Longrightarrow> hvs_Prevotes (round_votes c h vs n m) r = Inr (Some (empty_votes c h r' VoteTypePrevote vs))"
  by (simp add: hvs_Prevotes_def hvs_getVoteSet_def round_votes_def empty_round_def)

lemma empty_no_majority [simp]: "TwoThirdsMajority (Some (empty_votes c h r t vs)) = (zero_bid, False)"
  by (simp add: TwoThirdsMajority_def empty_votes_def)

lemma sound_blockD:
  assumes "sound_block E s b z bz"
  shows "validateBlock E s (Some b) = Inr None" "blk_hashed E b = b" "\<exists>hd. blk_Header b = Some hd" "blk_HashesTo E (Some b) (bid_Hash (own_bid E b z bz))"
    "0 < z" "bz \<noteq> []" "int (n_parts z bz) < MaxInt64" "length (bid_Hash (own_bid E b z bz)) \<noteq> 0"
  using assms valid_header [of E s b] by (auto simp: sound_block_def blk_HashesTo_def own_bid_def dest: blk_hashed_valid)

lemma prevotes_own:
  assumes l: "lone E vs val k" and B: "sound_block E s b z bz" and d: "during s x t vs h RoundStepPropose cs"
    and w: "signed_upto E val k (h, 0, stepPropose) cs" and c: "isProposalComplete cs = Inr True"
    and cs: "rs_Votes cs = Some (round_votes (st_ChainID s) h vs 1 (first_votes s h vs))" "cs_internalMsgQueue cs = []"
      "rs_ProposalBlock cs = Some b" "rs_LockedBlock cs = None"
    and a: "rs_ProposalBlockParts cs = Some a" "a < length (cs_heap cs)" "received E z bz (n_parts z bz) (cs_heap cs ! a)"
  shows "\<exists>cs'. enterPrevote E h 0 cs = Inr cs' \<and> prevoted E s x t vs val k h b z bz cs'"
proof -
  note D = sound_blockD [OF B]
  have e: "rs_Height cs = h" "rs_Round cs = 0" "rs_Step cs = RoundStepPropose" "rs_Validators cs = Some vs" "cs_state cs = s"
    using d by (simp_all add: during_def)
  obtain pw where pw: "cs_privValidator cs = Some pw" "signer E (v_Address val) k pw" "last_hrs (pv_mem pw) = (h, 0, stepPropose)"
    using w by (auto simp: signed_upto_def)
  have lt: "last_hrs (pv_mem pw) < (h, 0, stepPrevote)" by (simp add: pw stepPropose_def stepPrevote_def)
  have hd: "ps_Header (parts_at cs (rs_ProposalBlockParts cs)) = bid_PartsHeader (own_bid E b z bz)"
    using received_all(2) [OF a(3) D(5,6), of undefined] a(1,2) by (simp add: parts_at_def data_set_Header [where b = b])
  obtain v w' n where v: "signAddVote E VoteTypePrevote (blk_Hash E (Some b)) (bid_PartsHeader (own_bid E b z bz)) cs =
      Inr (cs\<lparr>cs_privValidator := Some w', cs_clock := n, cs_internalMsgQueue := [VoteMessage (Some v)]\<rparr>)"
      "own_vote E (st_ChainID s) val k h VoteTypePrevote (own_bid E b z bz) v" "signer E (v_Address val) k w'" "last_hrs (pv_mem w') = (h, 0, stepPrevote)"
    using signAddVote_own [OF l e(4) pw(1) e(2,1) refl pw(2) lt, of VoteTypePrevote "blk_Hash E (Some b)" "bid_PartsHeader (own_bid E b z bz)"] e(5) cs(2)
    by (auto simp: own_bid_def)
  let ?c = "done_step 0 RoundStepPrevote (cs\<lparr>cs_privValidator := Some w', cs_clock := n, cs_internalMsgQueue := [VoteMessage (Some v)]\<rparr>)"
  have g: "\<not> (rs_Height cs \<noteq> h \<or> 0 < rs_Round cs \<or> (rs_Round cs = 0 \<and> RoundStepPrevote \<le> rs_Step cs))" by (simp add: e steps)
  have "defaultDoPrevote E cs = Inr (cs\<lparr>cs_privValidator := Some w', cs_clock := n, cs_internalMsgQueue := [VoteMessage (Some v)]\<rparr>)"
    using hd v(1) D(1) e(5) by (simp add: defaultDoPrevote_def cs)
  then have "enterPrevote E h 0 cs = Inr ?c" unfolding enterPrevote_def if_not_P [OF g] by (simp add: c)
  moreover have "prevoted E s x t vs val k h b z bz ?c"
    using d cs a v by (auto simp: prevoted_def during_def signed_upto_def done_step_def newStep_def updateRoundStep_def)
  ultimately show ?thesis by blast
qed

lemma takes_last_part:
  assumes l: "lone E vs val k" and B: "sound_block E s b z bz" and r: "receiving E s x t vs val k h z bz j cs" and j: "Suc j = n_parts z bz"
  shows "\<exists>cs'. node_step E EvInternalMsg cs = Inr cs' \<and> prevoted E s x t vs val k h b z bz cs'"
proof -
  note D = sound_blockD [OF B]
  obtain a where a: "rs_ProposalBlockParts cs = Some a" "a < length (cs_heap cs)" "received E z bz j (cs_heap cs ! a)" using r by (auto simp: receiving_def)
  obtain s' where s': "AddPart E (cs_heap cs ! a) (data_part E z bz j) = Inr (True, None, s')" "received E z bz (n_parts z bz) s'"
    using received_next [OF a(3) _ D(7)] unfolding j [symmetric] by blast
  have com: "IsComplete s'" using received_complete_iff [OF s'(2)] by simp
  obtain rd where rd: "GetReader s' = Inr rd" "remaining rd = bz" using received_all(1) [OF s'(2) D(5,6)] by blast
  obtain p where p: "rs_Proposal cs = Some p" "POLRound p = - 1" using r by (auto simp: receiving_def)
  have q: "cs_internalMsgQueue cs = [BlockPartMessage h 0 (Some (data_part E z bz j))]"
    using r unfolding receiving_def own_parts_def j [symmetric] by (simp add: upt_conv_Cons)
  let ?c = "cs\<lparr>cs_internalMsgQueue := [], cs_heap := (cs_heap cs)[a := s'], rs_ProposalBlock := Some b, rs_ValidShared := False\<rparr>"
  have d: "during s x t vs h RoundStepPropose ?c" "signed_upto E val k (h, 0, stepPropose) ?c" "rs_Height cs = h" "rs_Round cs = 0" "cs_state cs = s"
      "rs_Step cs = RoundStepPropose" "rs_Votes ?c = Some (round_votes (st_ChainID s) h vs 1 (first_votes s h vs))" "rs_ProposalBlock cs = None"
    using r by (auto simp: receiving_def during_def signed_upto_def)
  have cmp: "isProposalComplete ?c = Inr True" using p by (simp add: isProposalComplete_def)
  obtain c' where c': "enterPrevote E h 0 ?c = Inr c'" "prevoted E s x t vs val k h b z bz c'"
    using prevotes_own [OF l B d(1,2) cmp d(7)] a s'(2) r by (auto simp: receiving_def)
  have "received_block E h ?c = Inr c'"
    using c'(1) cmp d(4,6,7) by (simp add: received_block_def no_majority [of _ _ _ _ _ 0] steps)
  then have "complete_block E h s' (cs\<lparr>cs_internalMsgQueue := [], cs_heap := (cs_heap cs)[a := s']\<rparr>) = Inr (None, c')"
    using B D(2,3) d(5,8) rd by (auto simp: complete_block_def decode_into_def sound_block_def)
  then have "node_step E EvInternalMsg cs = Inr c'"
    using q a s'(1) com d(3) by (simp add: handleMsg_def addProposalBlockPart_def parts_at_def)
  then show ?thesis using c'(2) by blast
qed

text \<open>It counts its prevote and precommits.\<close>

definition precommitted :: "('a, 'e) node_env_scheme \<Rightarrow> state \<Rightarrow> 'a exec \<Rightarrow> block_store \<Rightarrow> validator_set \<Rightarrow> validator \<Rightarrow> pub_key \<Rightarrow> int \<Rightarrow> block \<Rightarrow> nat \<Rightarrow> bytes \<Rightarrow> 'a consensus \<Rightarrow> bool" where
  "precommitted E s x t vs val k h b z bz cs \<longleftrightarrow> during s x t vs h RoundStepPrecommit cs \<and> signed_upto E val k (h, 0, stepPrecommit) cs \<and>
     (\<exists>m rvs. rs_Votes cs = Some (round_votes (st_ChainID s) h vs 1 m) \<and> m 0 = Some rvs \<and>
       rvs_Precommits rvs = empty_votes (st_ChainID s) h 0 VoteTypePrecommit vs) \<and>
     (\<exists>v. cs_internalMsgQueue cs = [VoteMessage (Some v)] \<and> own_vote E (st_ChainID s) val k h VoteTypePrecommit (own_bid E b z bz) v) \<and>
     rs_LockedBlock cs = Some b \<and> rs_ProposalBlock cs = Some b \<and>
     (\<exists>a. rs_ProposalBlockParts cs = Some a \<and> rs_LockedBlockParts cs = Some a \<and> a < length (cs_heap cs) \<and> received E z bz (n_parts z bz) (cs_heap cs ! a))"

lemma pol_found:
  assumes "m 1 = Some (empty_round c h vs 1)" "m 0 = Some rvs" "vts_maj23 (rvs_Prevotes rvs) = Some bid"
  shows "POLInfo (round_votes c h vs 1 m) = Inr (0, bid)"
  using assms by (simp add: POLInfo_def numeral_2_eq_2 hvs_getVoteSet_def round_votes_def empty_round_def)
    (simp add: TwoThirdsMajority_def empty_votes_def)

lemma next_height_differs: "0 < h \<Longrightarrow> h + 1 < MaxInt64 \<Longrightarrow> wrap64 (h + 1) \<noteq> h"
  by (simp add: int64_defs)

lemma same_round_stays: "rs_Height cs = h \<Longrightarrow> rs_Round cs = 0 \<Longrightarrow> rs_Step cs \<noteq> RoundStepNewHeight \<Longrightarrow> enterNewRound E h 0 cs = Inr cs"
  by (simp add: enterNewRound_def)

lemma precommits_own:
  assumes l: "lone E vs val k" and B: "sound_block E s b z bz" and d: "during s x t vs h RoundStepPrevote cs"
    and w: "signed_upto E val k (h, 0, stepPrevote) cs"
    and v: "rs_Votes cs = Some (round_votes (st_ChainID s) h vs 1 m)" "m 1 = Some (empty_round (st_ChainID s) h vs 1)" "m 0 = Some rvs"
      "vts_maj23 (rvs_Prevotes rvs) = Some (own_bid E b z bz)" "rvs_Precommits rvs = empty_votes (st_ChainID s) h 0 VoteTypePrecommit vs"
    and cs: "cs_internalMsgQueue cs = []" "rs_ProposalBlock cs = Some b" "rs_LockedBlock cs = None"
    and a: "rs_ProposalBlockParts cs = Some a" "a < length (cs_heap cs)" "received E z bz (n_parts z bz) (cs_heap cs ! a)"
  shows "\<exists>cs'. enterPrecommit E h 0 cs = Inr cs' \<and> precommitted E s x t vs val k h b z bz cs'"
proof -
  note D = sound_blockD [OF B]
  have e: "rs_Height cs = h" "rs_Round cs = 0" "rs_Step cs = RoundStepPrevote" "rs_Validators cs = Some vs" "cs_state cs = s"
    using d by (simp_all add: during_def)
  obtain pw where pw: "cs_privValidator cs = Some pw" "signer E (v_Address val) k pw" "last_hrs (pv_mem pw) = (h, 0, stepPrevote)"
    using w by (auto simp: signed_upto_def)
  have lt: "last_hrs (pv_mem pw) < (h, 0, stepPrecommit)" by (simp add: pw stepPrecommit_def stepPrevote_def)
  define c1 where "c1 = cs\<lparr>rs_LockedRound := 0, rs_LockedBlock := Some b, rs_LockedBlockParts := Some a\<rparr>"
  have e1: "rs_Validators c1 = Some vs" "cs_privValidator c1 = Some pw" "rs_Round c1 = 0" "rs_Height c1 = h" "st_ChainID (cs_state c1) = st_ChainID s"
      "cs_internalMsgQueue c1 = []"
    by (simp_all add: c1_def e pw cs)
  let ?bid = "own_bid E b z bz"
  obtain u w' n where u: "signAddVote E VoteTypePrecommit (bid_Hash ?bid) (bid_PartsHeader ?bid) c1 =
      Inr (c1\<lparr>cs_privValidator := Some w', cs_clock := n, cs_internalMsgQueue := [VoteMessage (Some u)]\<rparr>)"
      "own_vote E (st_ChainID s) val k h VoteTypePrecommit ?bid u" "signer E (v_Address val) k w'" "last_hrs (pv_mem w') = (h, 0, stepPrecommit)"
    using signAddVote_own [OF l e1(1-5) pw(2) lt, of VoteTypePrecommit "bid_Hash ?bid" "bid_PartsHeader ?bid"] e1(6)
    by (auto simp: own_bid_def)
  let ?c = "done_step 0 RoundStepPrecommit (c1\<lparr>cs_privValidator := Some w', cs_clock := n, cs_internalMsgQueue := [VoteMessage (Some u)]\<rparr>)"
  have pp: "precommit_polka E 0 ?bid cs = Inr (c1\<lparr>cs_privValidator := Some w', cs_clock := n, cs_internalMsgQueue := [VoteMessage (Some u)]\<rparr>)"
    using D(1,2,4,8) u(1) by (simp add: precommit_polka_def cs e(5) hashed_block_def c1_def a(1)) (simp add: blk_HashesTo_def)
  have g: "\<not> (rs_Height cs \<noteq> h \<or> 0 < rs_Round cs \<or> (rs_Round cs = 0 \<and> RoundStepPrecommit \<le> rs_Step cs))" by (simp add: e steps)
  have pv: "hvs_Prevotes (round_votes (st_ChainID s) h vs 1 m) 0 = Inr (Some (rvs_Prevotes rvs))"
    by (simp add: hvs_Prevotes_def hvs_getVoteSet_def round_votes_def v(3))
  have mj: "TwoThirdsMajority (Some (rvs_Prevotes rvs)) = (?bid, True)" by (simp add: TwoThirdsMajority_def v(4))
  have "enterPrecommit E h 0 cs = Inr ?c"
    unfolding enterPrecommit_def if_not_P [OF g] by (simp add: v(1) pv mj pol_found [OF v(2-4)] pp)
  moreover have "precommitted E s x t vs val k h b z bz ?c"
    using d cs a u v by (auto simp: precommitted_def during_def signed_upto_def done_step_def newStep_def updateRoundStep_def c1_def)
  ultimately show ?thesis by blast
qed

lemma takes_prevote:
  assumes l: "lone E vs val k" and B: "sound_block E s b z bz" and p: "prevoted E s x t vs val k h b z bz cs" and h: "0 < h" "h + 1 < MaxInt64"
  shows "\<exists>cs'. node_step E EvInternalMsg cs = Inr cs' \<and> precommitted E s x t vs val k h b z bz cs'"
proof -
  let ?bid = "own_bid E b z bz" and ?c = "st_ChainID s"
  obtain v where v: "cs_internalMsgQueue cs = [VoteMessage (Some v)]" "own_vote E ?c val k h VoteTypePrevote ?bid v" using p by (auto simp: prevoted_def)
  have vt: "vote_Height v = h" "vote_Round v = 0" "vote_Type v = VoteTypePrevote" using v(2) by (simp_all add: own_vote_def)
  obtain u where u: "hvs_AddVote E (round_votes ?c h vs 1 (first_votes s h vs)) v [] = Inr (True, None, round_votes ?c h vs 1
      ((first_votes s h vs)(0 \<mapsto> (empty_round ?c h vs 0)\<lparr>rvs_Prevotes := u\<rparr>)))" "vts_maj23 u = Some ?bid" "HasTwoThirdsAny (Some u)"
    using own_vote_added [OF l v(2), of "first_votes s h vs" "empty_round ?c h vs 0" 1 "[]"] by (auto simp: empty_round_def)
  let ?m = "(first_votes s h vs)(0 \<mapsto> (empty_round ?c h vs 0)\<lparr>rvs_Prevotes := u\<rparr>)"
  let ?cs = "cs\<lparr>cs_internalMsgQueue := [], rs_Votes := Some (round_votes ?c h vs 1 ?m)\<rparr>"
  have d: "during s x t vs h RoundStepPrevote ?cs" "signed_upto E val k (h, 0, stepPrevote) ?cs" "rs_ProposalBlock ?cs = Some b" "rs_LockedBlock ?cs = None"
      "rs_Height cs = h" "rs_Round cs = 0" "rs_Step cs = RoundStepPrevote" "rs_ValidRound cs = 0" "rs_Votes cs = Some (round_votes ?c h vs 1 (first_votes s h vs))"
    using p by (auto simp: prevoted_def during_def signed_upto_def)
  obtain c' where c': "enterPrecommit E h 0 ?cs = Inr c'" "precommitted E s x t vs val k h b z bz c'"
    using precommits_own [OF l B d(1,2), of ?m "(empty_round ?c h vs 0)\<lparr>rvs_Prevotes := u\<rparr>"] u(2) d(3,4) p by (auto simp: prevoted_def empty_round_def)
  have pv: "hvs_Prevotes (round_votes ?c h vs 1 ?m) 0 = Inr (Some u)" by (simp add: hvs_Prevotes_def hvs_getVoteSet_def round_votes_def)
  have sp: "see_polka E 0 (Some u) ?cs = ?cs"
    using d(4,6,8) u(2) by (simp add: see_polka_def TwoThirdsMajority_def unlock_by_def update_valid_def)
  have "enterNewRound E h 0 ?cs = Inr ?cs" by (rule same_round_stays) (simp_all add: d(5-7) steps)
  then have "added_prevote E h 0 ?cs = Inr c'"
    using c'(1) u(2,3) d(6) sp by (simp add: added_prevote_def pv HasTwoThirdsMajority_def)
  then have "node_step E EvInternalMsg cs = Inr c'"
    using u(1) v(1) d(5,9) vt next_height_differs [OF h] by (simp add: handleMsg_def tryAddVote_def addVote_def)
  then show ?thesis using c'(2) by blast
qed

text \<open>It counts its precommit, stores the block and applies it.\<close>

lemma received_parts_of:
  assumes r: "received E z bz (n_parts z bz) ps" and z: "0 < z" and bz: "bz = MarshalBinary E (AmBlock b)"
  shows "parts_of E b ps"
proof -
  have ne: "chunk z bz i \<noteq> []" if "i < n_parts z bz" for i using n_parts_last [OF z that] z by (simp add: chunk_def)
  have "IsComplete ps" using received_complete_iff [OF r] by simp
  moreover have "ps_parts ps = map (\<lambda>i. Some (data_part E z bz i)) [0..<n_parts z bz]" "ps_total ps = int (n_parts z bz)" using r by (simp_all add: received_def)
  ultimately show ?thesis using ne concat_all_chunks [OF z, of bz] bz by (simp add: parts_of_def data_part_def comp_def)
qed

lemma header_height:
  assumes "validateBlock E s (Some b) = Inr None" "h = LastBlockHeight s + 1" "0 < h" "h < MaxInt64"
  obtains hd c where "blk_Header b = Some hd" "hdr_Height hd = h" "blk_Commit b = Some c"
  by (rule validateBlock_ok [OF assms(1)]) (use assms in \<open>auto simp: int64_defs\<close>)

text \<open>The records of earlier heights that \<open>recordMetrics\<close> reads.\<close>

definition meta_at :: "'e ext_scheme \<Rightarrow> block_store \<Rightarrow> int \<Rightarrow> bool" where
  "meta_at E t h \<longleftrightarrow> (\<exists>m hd. LoadBlockMeta E t h = Inr (Some m) \<and> bm_Header m = Some hd)"

lemma stores_block:
  assumes e: "entry_ok E (bst_height t + 1) (b, ps, c)" and t: "cs_blockStore cs = t" and m: "MakeCommit u = Inr c"
    and meta: "0 < bst_height t \<longrightarrow> meta_at E t (bst_height t)"
  shows "\<exists>t'. store_block E b (Some ps) (Some u) cs = Inr (cs\<lparr>cs_blockStore := t'\<rparr>) \<and> bst_height t' = bst_height t + 1 \<and>
    (0 < bst_height t \<longrightarrow> meta_at E t' (bst_height t))"
proof -
  obtain hd where hd: "blk_Header b = Some hd" "hdr_Height hd = bst_height t + 1" using e by (auto simp: entry_ok_def)
  obtain t' where t': "SaveBlock E t (Some b) (Some ps) (Some c) = Inr t'" "bst_height t' = bst_height t + 1"
      and f: "\<forall>k. k \<notin> {calcBlockMetaKey (bst_height t + 1), calcBlockCommitKey (bst_height t + 1 - 1), calcSeenCommitKey (bst_height t + 1), blockStoreKey, []} \<and>
        (\<forall>i. k \<noteq> calcBlockPartKey (bst_height t + 1) i) \<longrightarrow> db_read (bst_db t') k = db_read (bst_db t) k"
    using SaveBlock_reads [OF e refl] by blast
  have "db_read (bst_db t') (calcBlockMetaKey (bst_height t)) = db_read (bst_db t) (calcBlockMetaKey (bst_height t))"
    using f by simp
  then have "meta_at E t' (bst_height t) = meta_at E t (bst_height t)" by (simp add: meta_at_def LoadBlockMeta_def)
  then show ?thesis using t' hd t m meta by (intro exI [of _ t']) (simp add: store_block_def)
qed

text \<open>The node at the start of the height after \<open>s'\<close>.\<close>

definition moved_on :: "('a, 'e) node_env_scheme \<Rightarrow> validator \<Rightarrow> pub_key \<Rightarrow> int \<Rightarrow> state \<Rightarrow> 'a exec \<Rightarrow> 'a consensus \<Rightarrow> bool" where
  "moved_on E val k h s' x' cs \<longleftrightarrow> rs_Height cs = h \<and> rs_Round cs = 0 \<and> rs_Step cs = RoundStepNewHeight \<and> cs_state cs = s' \<and> cs_blockExec cs = x' \<and>
     bst_height (cs_blockStore cs) = h - 1 \<and> \<not> cs_killed cs \<and> cs_internalMsgQueue cs = [] \<and> signed_upto E val k (h - 1, 0, stepPrecommit) cs"

lemma start_time_clock: "\<exists>st n. start_time E cs = (st, cs\<lparr>cs_clock := n\<rparr>)"
proof (cases "rs_CommitTime cs = zero_time")
  case False
  then show ?thesis by (intro exI [of _ "cfg_Commit (env_Config E) (rs_CommitTime cs)"] exI [of _ "cs_clock cs"]) (simp add: start_time_def)
qed (auto simp: start_time_def read_clock_def)

lemma applies_decided:
  assumes B: "validateBlock E s (Some b) = Inr None" "blk_Data b \<noteq> None" and A: "agreeable (env_App E)" "state_good s" "mp_inv (ex_mempool x)" "st_ConsensusParams s \<noteq> zero_params"
    and h: "h = LastBlockHeight s + 1" "0 < h" "h + 1 < MaxInt64"
    and cs: "rs_Height cs = h" "rs_Validators cs = Some vs" "cs_state cs = s" "cs_blockExec cs = x" "bst_height (cs_blockStore cs) = h" "\<not> cs_killed cs"
      "cs_internalMsgQueue cs = []" "signed_upto E val k (h, 0, stepPrecommit) cs" "rs_CommitRound cs = 0"
    and votes: "rs_Votes cs = Some votes" "hvs_Precommits votes 0 = Inr (Some u)" "vts_maj23 u \<noteq> None"
    and meta: "1 < h \<longrightarrow> meta_at E (cs_blockStore cs) (h - 1)"
  shows "\<exists>s' x' cs'. apply_decided E h bid b cs = Inr cs' \<and> ApplyBlock E (env_App E) x s bid (Some b) = Inr (None, s', x') \<and> moved_on E val k (h + 1) s' x' cs'"
proof -
  obtain s' x' where a: "ApplyBlock E (env_App E) x s bid (Some b) = Inr (None, s', x')" "state_good s'"
    using apply_succeeds [OF A(1) B(1) A(2) B(2) A(3)] by blast
  have n: "LastBlockHeight s = int (nat (h - 1))" "int (nat (h - 1)) + 1 < MaxInt64" using h by simp_all
  have s': "LastBlockHeight s' = h" using ApplyBlock_state(2) [OF a(1) n A(4)] h by simp
  obtain vs' lvs' where vs': "st_Validators s' = Some vs'" using a(2) by (auto simp: state_good_def)
  have cp: "st_Copy s = Inr s" using A(2) by (auto simp: state_good_def st_Copy_def)
  have w: "wrap64 (h - 1) = h - 1" "wrap64 (h + 1) = h + 1" "wrap64 h = h" using h(2,3) by (simp_all add: int64_defs)
  obtain hd c where hc: "blk_Header b = Some hd" "blk_Commit b = Some c" by (rule header_height [OF B(1) h(1,2)]) (use h in auto)
  let ?c1 = "cs\<lparr>cs_blockExec := x'\<rparr>"
  have rm: "recordMetrics E h b ?c1 = Inr ()" using hc cs(2) meta w(1) by (auto simp: recordMetrics_def meta_at_def)
  obtain c2 where c2: "updateToState E s' ?c1 = Inr c2" "moved_on E val k (h + 1) s' x' c2"
  proof -
    have lp: "last_precommits ?c1 = Inr (Some u)" using votes cs(9) by (simp add: last_precommits_def HasTwoThirdsMajority_def)
    have nv: "NewHeightVoteSet (st_ChainID s') (h + 1) vs' = Inr (round_votes (st_ChainID s') (h + 1) vs' 0 [0 \<mapsto> empty_round (st_ChainID s') (h + 1) vs' 0])"
      by (rule new_height_votes) (use h in simp)
    obtain st n where st: "start_time E ?c1 = (st, ?c1\<lparr>cs_clock := n\<rparr>)" using start_time_clock by blast
    have g: "\<not> (rs_CommitRound ?c1 > - 1 \<and> 0 < rs_Height ?c1 \<and> rs_Height ?c1 \<noteq> LastBlockHeight s')"
        "\<not> (\<not> st_IsEmpty (cs_state ?c1) \<and> wrap64 (LastBlockHeight (cs_state ?c1) + 1) \<noteq> rs_Height ?c1)"
        "\<not> (\<not> st_IsEmpty (cs_state ?c1) \<and> LastBlockHeight s' \<le> LastBlockHeight (cs_state ?c1))"
      using s' cs(1,3) h(1) w(3) by simp_all
    have "\<exists>c2. updateToState E s' ?c1 = Inr c2 \<and> moved_on E val k (h + 1) s' x' c2"
      unfolding updateToState_def if_not_P [OF g(1)] if_not_P [OF g(2)] if_not_P [OF g(3)]
      using cs by (simp add: lp st s' w(2) vs' nv Let_def moved_on_def newStep_def signed_upto_def)
    then show thesis using that by blast
  qed
  have "moved_on E val k (h + 1) s' x' (scheduleRound0 E c2)"
    using c2(2) by (simp add: moved_on_def scheduleRound0_def scheduleTimeout_def read_clock_def signed_upto_def)
  moreover have "apply_decided E h bid b cs = Inr (scheduleRound0 E c2)" using a(1) cs(3,4) cp rm c2(1) by (simp add: apply_decided_def)
  ultimately show ?thesis using a(1) by blast
qed

text \<open>What the rest of the node has to provide: an application that answers, and the stores at their heights.\<close>

definition provided :: "('a, 'e) node_env_scheme \<Rightarrow> state \<Rightarrow> 'a exec \<Rightarrow> block_store \<Rightarrow> int \<Rightarrow> bool" where
  "provided E s x t h \<longleftrightarrow> agreeable (env_App E) \<and> \<not> WaitForTxs (env_Config E) \<and> \<not> SkipTimeoutCommit (env_Config E) \<and> state_good s \<and> mp_inv (ex_mempool x) \<and>
     st_ConsensusParams s \<noteq> zero_params \<and> h = LastBlockHeight s + 1 \<and> 0 < h \<and> h + 1 < MaxInt64 \<and> bst_height t = h - 1 \<and> (1 < h \<longrightarrow> meta_at E t (h - 1))"

lemma finalizes_own:
  assumes B: "sound_block E s b z bz" and P: "provided E s x t h" and d: "during s x t vs h RoundStepCommit cs"
    and votes: "rs_Votes cs = Some votes" "hvs_Precommits votes 0 = Inr (Some u)" "vts_maj23 u = Some (own_bid E b z bz)"
      "vts_type u = VoteTypePrecommit" "vts_votes u \<noteq> []"
    and w: "signed_upto E val k (h, 0, stepPrecommit) cs" "rs_CommitRound cs = 0" "cs_internalMsgQueue cs = []" "rs_ProposalBlock cs = Some b"
    and a: "rs_ProposalBlockParts cs = Some a" "a < length (cs_heap cs)" "received E z bz (n_parts z bz) (cs_heap cs ! a)"
  shows "\<exists>s' x' cs'. tryFinalizeCommit E h cs = Inr cs' \<and> ApplyBlock E (env_App E) x s (own_bid E b z bz) (Some b) = Inr (None, s', x') \<and>
    moved_on E val k (h + 1) s' x' cs'"
proof -
  let ?bid = "own_bid E b z bz" and ?ps = "cs_heap cs ! a"
  note D = sound_blockD [OF B]
  have bd: "blk_Data b \<noteq> None" "bz = MarshalBinary E (AmBlock b)" using B by (simp_all add: sound_block_def)
  have e: "rs_Height cs = h" "rs_Step cs = RoundStepCommit" "rs_Validators cs = Some vs" "cs_state cs = s" "cs_blockExec cs = x" "cs_blockStore cs = t" "\<not> cs_killed cs"
    using d by (simp_all add: during_def)
  have p: "agreeable (env_App E)" "state_good s" "mp_inv (ex_mempool x)" "st_ConsensusParams s \<noteq> zero_params" "h = LastBlockHeight s + 1" "0 < h" "h + 1 < MaxInt64"
      "bst_height t = h - 1" "1 < h \<longrightarrow> meta_at E t (h - 1)"
    using P unfolding provided_def by blast+
  have hm: "h < MaxInt64" using p(7) by simp
  obtain hd c where hc: "blk_Header b = Some hd" "hdr_Height hd = h" "blk_Commit b = Some c" by (rule header_height [OF D(1) p(5,6) hm])
  have mj: "TwoThirdsMajority (Some u) = (?bid, True)" by (simp add: TwoThirdsMajority_def votes(3))
  have pa: "parts_at cs (rs_ProposalBlockParts cs) = Some ?ps" using a by (simp add: parts_at_def)
  have hdr: "ps_Header (Some ?ps) = bid_PartsHeader ?bid"
    using received_all(2) [OF a(3) D(5,6), of undefined] by (simp add: data_set_Header [where b = b])
  have mc: "MakeCommit u = Inr \<lparr>commit_BlockID = ?bid, Precommits = vts_votes u\<rparr>" by (simp add: MakeCommit_def votes)
  have en: "entry_ok E (bst_height t + 1) (b, ?ps, \<lparr>commit_BlockID = ?bid, Precommits = vts_votes u\<rparr>)"
    using hc bd(1) p(8) votes(5) received_parts_of [OF a(3) D(5) bd(2)] by (simp add: entry_ok_def)
  obtain t' where t': "store_block E b (Some ?ps) (Some u) cs = Inr (cs\<lparr>cs_blockStore := t'\<rparr>)" "bst_height t' = h" "1 < h \<longrightarrow> meta_at E t' (h - 1)"
    using stores_block [OF en e(6) mc] p(8,9) by auto
  let ?c = "cs\<lparr>cs_blockStore := t'\<rparr>"
  have w': "signed_upto E val k (h, 0, stepPrecommit) ?c" "vts_maj23 u \<noteq> None" using w(1) votes(3) by (simp_all add: signed_upto_def)
  obtain s' x' cs' where f: "apply_decided E h ?bid b ?c = Inr cs'" "ApplyBlock E (env_App E) x s ?bid (Some b) = Inr (None, s', x')" "moved_on E val k (h + 1) s' x' cs'"
    using applies_decided [OF D(1) bd(1) p(1-7), of ?c vs val k votes u ?bid] e w w' t' votes by auto
  have hh: "HasHeader (Some ?ps) (bid_PartsHeader ?bid)" by (simp add: HasHeader_def hdr psh_Equals_def)
  have "finalizeCommit E h cs = Inr cs'"
    using f(1) D(1,2,4) t'(1) hdr hh
    by (simp add: finalizeCommit_def e votes(1,2) w(2,4) mj hashed_block_def pa own_bid_def)
  then have "tryFinalizeCommit E h cs = Inr cs'" using D(4,8) by (simp add: tryFinalizeCommit_def e votes(1,2) w(2,4) mj)
  then show ?thesis using f by blast
qed

lemma takes_precommit:
  assumes l: "lone E vs val k" and B: "sound_block E s b z bz" and P: "provided E s x t h" and p: "precommitted E s x t vs val k h b z bz cs"
  shows "\<exists>s' x' cs'. node_step E EvInternalMsg cs = Inr cs' \<and> ApplyBlock E (env_App E) x s (own_bid E b z bz) (Some b) = Inr (None, s', x') \<and>
    moved_on E val k (h + 1) s' x' cs'"
proof -
  let ?bid = "own_bid E b z bz" and ?c = "st_ChainID s"
  note D = sound_blockD [OF B]
  obtain v where v: "cs_internalMsgQueue cs = [VoteMessage (Some v)]" "own_vote E ?c val k h VoteTypePrecommit ?bid v" using p by (auto simp: precommitted_def)
  have vt: "vote_Height v = h" "vote_Round v = 0" "vote_Type v = VoteTypePrecommit" using v(2) by (simp_all add: own_vote_def)
  obtain m rvs where m: "rs_Votes cs = Some (round_votes ?c h vs 1 m)" "m 0 = Some rvs" "rvs_Precommits rvs = empty_votes ?c h 0 VoteTypePrecommit vs"
    using p by (auto simp: precommitted_def)
  obtain a where a: "rs_ProposalBlockParts cs = Some a" "rs_LockedBlockParts cs = Some a" "a < length (cs_heap cs)" "received E z bz (n_parts z bz) (cs_heap cs ! a)"
    using p by (auto simp: precommitted_def)
  obtain u where u: "hvs_AddVote E (round_votes ?c h vs 1 m) v [] = Inr (True, None, round_votes ?c h vs 1 (m(0 \<mapsto> rvs\<lparr>rvs_Precommits := u\<rparr>)))"
      "vts_maj23 u = Some ?bid" "HasTwoThirdsAny (Some u)" "vts_type u = VoteTypePrecommit" "vts_votes u = [Some v]"
    using own_vote_added [OF l v(2), of m rvs 1 "[]"] m(2,3) by auto
  let ?votes = "round_votes ?c h vs 1 (m(0 \<mapsto> rvs\<lparr>rvs_Precommits := u\<rparr>))"
  have q: "\<not> SkipTimeoutCommit (env_Config E)" "0 < h" "h + 1 < MaxInt64" using P unfolding provided_def by blast+
  define c1 where "c1 = cs\<lparr>cs_internalMsgQueue := [], rs_Votes := Some ?votes\<rparr>"
  have d: "rs_Height c1 = h" "rs_Round c1 = 0" "rs_Step c1 = RoundStepPrecommit" "rs_LockedBlock c1 = Some b" "rs_ProposalBlock c1 = Some b"
      "rs_Votes c1 = Some ?votes" "rs_LockedBlockParts c1 = Some a" "rs_ProposalBlockParts c1 = Some a" "rs_Height cs = h"
    using p a by (simp_all add: c1_def precommitted_def during_def)
  have pc: "hvs_Precommits ?votes 0 = Inr (Some u)" by (simp add: hvs_Precommits_def hvs_getVoteSet_def round_votes_def)
  have mj: "TwoThirdsMajority (Some u) = (?bid, True)" by (simp add: TwoThirdsMajority_def u(2))
  have st: "stage_commit E ?bid c1 = Inr c1" using D(4) by (simp add: stage_commit_def d)
  define c2 where "c2 = newStep (c1\<lparr>rs_Step := RoundStepCommit, rs_CommitRound := 0, cs_clock := Suc (cs_clock c1), rs_CommitTime := env_Now E (cs_clock c1)\<rparr>)"
  have d2: "during s x t vs h RoundStepCommit c2" "rs_Votes c2 = Some ?votes" "signed_upto E val k (h, 0, stepPrecommit) c2" "rs_CommitRound c2 = 0"
      "cs_internalMsgQueue c2 = []" "rs_ProposalBlock c2 = Some b" "rs_ProposalBlockParts c2 = Some a" "cs_heap c2 = cs_heap cs"
    using p a d(5) by (simp_all add: c2_def c1_def newStep_def precommitted_def during_def signed_upto_def)
  obtain s' x' cs' where f: "tryFinalizeCommit E h c2 = Inr cs'" "ApplyBlock E (env_App E) x s ?bid (Some b) = Inr (None, s', x')" "moved_on E val k (h + 1) s' x' cs'"
    using finalizes_own [OF B P d2(1,2) pc u(2,4) _ d2(3-7)] a(3,4) u(5) d2(8) by auto
  have "enterNewRound E h 0 c1 = Inr c1" by (rule same_round_stays) (simp_all add: d(1-3) steps)
  moreover have "enterPrecommit E h 0 c1 = Inr c1" by (simp add: enterPrecommit_def d(1-3))
  moreover have "enterCommit E h 0 c1 = Inr cs'"
    using f(1) by (simp add: enterCommit_def d(1,2,3,6) steps pc mj st read_clock_def updateRoundStep_def c2_def)
  ultimately have "added_precommit E h 0 c1 = Inr cs'"
    using D(8) q(1) by (simp add: added_precommit_def d(6) pc mj)
  then have "node_step E EvInternalMsg cs = Inr cs'"
    using u(1) v(1) d(9) m(1) vt next_height_differs [OF q(2,3)] by (simp add: handleMsg_def tryAddVote_def addVote_def c1_def)
  then show ?thesis using f by blast
qed

section \<open>The whole height\<close>

lemma reach_trans: "reach E B b c \<Longrightarrow> reach E B a b \<Longrightarrow> reach E B a c"
  by (induction rule: reach.induct) (auto intro: reach.intros)

lemma reach_one: "node_step E e cs = Inr cs' \<Longrightarrow> admissible B e cs \<Longrightarrow> reach E B cs cs'"
  by (rule reach_event [OF reach_start])

lemma own_message_fits:
  assumes "cs_internalMsgQueue cs = m # ms" "msg_fits B m" "node_step E EvInternalMsg cs = Inr cs'" "during s x t vs h st cs" "LastBlockHeight s + 1 < MaxInt64"
  shows "reach E B cs cs'"
  by (rule reach_one [OF assms(3)]) (use assms in \<open>simp add: admissible_def during_def\<close>)

lemma own_vote_step:
  assumes "cs_internalMsgQueue cs = [VoteMessage (Some v)]" "own_vote E c val k h t bid v" "bid \<in> B" "node_step E EvInternalMsg cs = Inr cs'"
    "during s x t' vs h st cs" "LastBlockHeight s + 1 < MaxInt64"
  shows "reach E B cs cs'"
  by (rule own_message_fits [OF assms(1) _ assms(4-6)]) (use assms(2,3) in \<open>simp add: own_vote_def msg_fits_def vote_fits_def int64_defs\<close>)

lemma takes_parts:
  assumes l: "lone E vs val k" and B: "sound_block E s b z bz" and r: "receiving E s x t vs val k h z bz j cs" and j: "j + n = n_parts z bz" "0 < n"
    and near: "LastBlockHeight s + 1 < MaxInt64"
  shows "\<exists>cs'. foldP (node_step E) (replicate n EvInternalMsg) cs = Inr cs' \<and> prevoted E s x t vs val k h b z bz cs' \<and> reach E I cs cs'"
  using r j
proof (induction n arbitrary: j cs)
  case (Suc n)
  have q: "\<exists>ms. cs_internalMsgQueue cs = BlockPartMessage h 0 (Some (data_part E z bz j)) # ms"
    using Suc.prems by (simp add: receiving_def own_parts_def upt_conv_Cons)
  have fits: "reach E I cs c1" if "node_step E EvInternalMsg cs = Inr c1" for c1
    using q own_message_fits [OF _ _ that _ near] Suc.prems(1) by (auto simp: msg_fits_def receiving_def)
  show ?case
  proof (cases "n = 0")
    case True
    then show ?thesis using takes_last_part [OF l B Suc.prems(1)] Suc.prems(2) fits by auto
  next
    case False
    then have "Suc j < n_parts z bz" using Suc.prems(2) by simp
    then obtain c1 where c1: "node_step E EvInternalMsg cs = Inr c1" "receiving E s x t vs val k h z bz (Suc j) c1"
      using takes_part [OF Suc.prems(1) _ sound_blockD(7) [OF B]] by blast
    then show ?thesis using Suc.IH [of "Suc j" c1] Suc.prems(2) False fits [OF c1(1)] reach_trans by auto
  qed
qed simp

text \<open>All steps of the height, by way of the state in which the precommit is queued.\<close>

lemma decides_height:
  assumes l: "lone E vs val k" and w: "waiting E s x t vs val k h cs" and P: "provided E s x t h" and B: "sound_block E s b z bz"
    and mk: "makes E s x h (rs_LastCommit cs) (Suc (cs_clock cs)) b (data_set E z bz ba)" and I: "own_bid E b z bz \<in> I"
  shows "\<exists>c1 c4 s' x' cs'. enterNewRound E h 0 cs = Inr c1 \<and> foldP (node_step E) (replicate (n_parts z bz + 3) EvInternalMsg) c1 = Inr cs' \<and>
    reach E I c1 c4 \<and> precommitted E s x t vs val k h b z bz c4 \<and> reach E I c4 cs' \<and>
    ApplyBlock E (env_App E) x s (own_bid E b z bz) (Some b) = Inr (None, s', x') \<and> moved_on E val k (h + 1) s' x' cs'"
proof -
  have p: "\<not> WaitForTxs (env_Config E)" "0 < h" "h + 1 < MaxInt64" using P unfolding provided_def by blast+
  have near: "LastBlockHeight s + 1 < MaxInt64" using P unfolding provided_def by auto
  obtain c1 where 1: "enterNewRound E h 0 cs = Inr c1" "proposed E s x t vs val k h (ps_Header (Some (data_set E z bz ba))) z bz c1"
    using wakes_up [OF l w _ p(1) mk] p(2) by auto
  obtain c2 where 2: "node_step E EvInternalMsg c1 = Inr c2" "receiving E s x t vs val k h z bz 0 c2" using takes_proposal [OF 1(2)] by blast
  have r1: "reach E I c1 c2" using 1(2) own_message_fits [OF _ _ 2(1) _ near, of "ProposalMessage _"] by (auto simp: proposed_def msg_fits_def)
  obtain c3 where 3: "foldP (node_step E) (replicate (n_parts z bz) EvInternalMsg) c2 = Inr c3" "prevoted E s x t vs val k h b z bz c3" "reach E I c2 c3"
    using takes_parts [OF l B 2(2) _ _ near, of "n_parts z bz"] n_parts_pos [OF sound_blockD(5,6) [OF B]] by auto
  obtain c4 where 4: "node_step E EvInternalMsg c3 = Inr c4" "precommitted E s x t vs val k h b z bz c4" using takes_prevote [OF l B 3(2) p(2,3)] by blast
  have r3: "reach E I c3 c4" using 3(2) own_vote_step [OF _ _ I 4(1) _ near] unfolding prevoted_def by blast
  obtain s' x' cs' where 5: "node_step E EvInternalMsg c4 = Inr cs'" "ApplyBlock E (env_App E) x s (own_bid E b z bz) (Some b) = Inr (None, s', x')"
      "moved_on E val k (h + 1) s' x' cs'" using takes_precommit [OF l B P 4(2)] by blast
  have r4: "reach E I c4 cs'" using 4(2) own_vote_step [OF _ _ I 5(1) _ near] unfolding precommitted_def by blast
  have r: "replicate (n_parts z bz + 3) EvInternalMsg = [EvInternalMsg] @ replicate (n_parts z bz) EvInternalMsg @ [EvInternalMsg, EvInternalMsg]"
    by (simp add: numeral_3_eq_3 replicate_append_same flip: replicate_Suc) (simp add: replicate_app_Cons_same)
  have "foldP (node_step E) (replicate (n_parts z bz + 3) EvInternalMsg) c1 = Inr cs'"
    unfolding r foldP_append using 2(1) 3(1) 4(1) 5(1) by simp
  moreover have "reach E I c1 c4" using reach_trans r1 3(3) r3 by blast
  ultimately show ?thesis using 1(1) 4(2) r4 5(2,3) by blast
qed

end
