(* ===== verification/Node_Runs.thy ===== *)
theory Node_Runs
  imports Solo_Run
begin

text \<open>
  The properties of runs of a node: the chain it builds, the locking rule, progress, and what a peer can do
  to it. The example run is that of a lone validator that decides its first block.
\<close>

section \<open>A lone validator from its start\<close>

definition first_commit :: commit where
  "first_commit = \<lparr>commit_BlockID = zero_bid, Precommits = []\<rparr>"

text \<open>
  The empty first block can be handled: its hash is not empty, and the decoder reads the encoding back within
  the size limit of the parameters. The clock is read for the fourth time when the block is made.
\<close>

definition first_block_fits :: "('a, 'e) node_env_scheme \<Rightarrow> state \<Rightarrow> bool" where
  "first_block_fits E s \<longleftrightarrow> amino_ok E \<and> 0 < BlockPartSizeBytes (st_ConsensusParams s) \<and>
     (\<forall>b ps. st_MakeBlock E (env_Now E 3) s 1 [] (Some first_commit) = Inr (b, ps) \<longrightarrow> blk_Hash E (Some b) \<noteq> [] \<and>
       int (length (MarshalBinary E (AmBlock b))) + BlockPartSizeBytes (st_ConsensusParams s) < MaxInt64 \<and>
       amino_ReadBlock E (MarshalBinary E (AmBlock b)) (bs_MaxBytes (cp_BlockSize (st_ConsensusParams s))) None = (Some b, True))"

lemma n_parts_le: "int (n_parts z bz) \<le> int (length bz) + int z"
proof -
  have "n_parts z bz \<le> length bz + z" unfolding n_parts_def by (meson diff_le_self div_le_dividend le_trans)
  then show ?thesis by simp
qed

lemma bindP_done: "bindP m (foldP f []) = m"
  by (cases m) simp_all

lemma first_block:
  assumes f: "first_block_fits E s" and vs: "st_Validators s = Some vs" and s: "LastBlockHeight s = 0"
  shows "\<exists>b z bz ba. st_MakeBlock E (env_Now E 3) s 1 [] (Some first_commit) = Inr (b, Some (data_set E z bz ba)) \<and> sound_block E s b z bz"
proof -
  define z where "z = nat (BlockPartSizeBytes (st_ConsensusParams s))"
  have z: "0 < z" "BlockPartSizeBytes (st_ConsensusParams s) = int z" using f by (auto simp: first_block_fits_def z_def)
  obtain b0 where b0: "MakeBlock E (env_Now E 3) 1 [] (Some first_commit) = Inr b0" by (simp add: MakeBlock_def)
  obtain h where h: "blk_Header b0 = Some h" "blk_Data b0 \<noteq> None" "blk_Commit b0 = Some first_commit"
    using b0 by (auto simp: MakeBlock_def fillHeader_def zero_header_def)
  define b where "b = b0\<lparr>blk_Header := Some (state_header E s vs h)\<rparr>"
  define bz where "bz = MarshalBinary E (AmBlock b)"
  have "amino_ok E" using f by (simp add: first_block_fits_def)
  then have ne: "bz \<noteq> []" using amino_okD(3) [of E "AmBlock b"] h by (simp add: bz_def b_def)
  obtain ba where ba: "NewPartSetFromData E bz (int z) = Inr (data_set E z bz ba)" using NewPartSetFromData_eq [OF z(1) ne] by blast
  have mk: "st_MakeBlock E (env_Now E 3) s 1 [] (Some first_commit) = Inr (b, Some (data_set E z bz ba))"
    using ba by (simp add: st_MakeBlock_def b0 h vs MakePartSet_def z(2) b_def [symmetric] bz_def [symmetric])
  have one: "1 = wrap64 (LastBlockHeight s + 1)" by (simp add: s wrap64_def)
  have v: "validateBlock E s (Some b) = Inr None"
    using state_header_validates [OF b0 h(1) b_def vs one] by (simp add: first_commit_def)
  have "sound_block E s b z bz"
    using f mk v ne z h(2) n_parts_le [of z bz] by (auto simp: sound_block_def first_block_fits_def bz_def b_def)
  then show ?thesis using mk by blast
qed

lemma makes_first:
  assumes mk: "st_MakeBlock E (env_Now E n) s 1 [] (Some first_commit) = Inr (b, Some ps)" and m: "mp_txs (ex_mempool x) = []" "\<not> mp_rechecking (ex_mempool x)"
  shows "makes E s x 1 lc n b ps"
proof -
  have "\<exists>n'. createProposalBlock E cs = Inr (Some (b, Some ps), cs\<lparr>cs_clock := n'\<rparr>)"
    if "rs_Height cs = 1" "cs_state cs = s" "cs_blockExec cs = x" "cs_clock cs = n" for cs
    using that mk m
    by (intro exI [of _ "Suc n"]) (simp add: createProposalBlock_def proposal_commit_def first_commit_def mp_Reap_def collectTxs_def read_clock_def)
  then show ?thesis by (auto simp: makes_def)
qed

text \<open>The node once its first timeout has fired and is taken from the channel.\<close>

definition fresh_node :: "('a, 'e) node_env_scheme \<Rightarrow> state \<Rightarrow> 'a exec \<Rightarrow> block_store \<Rightarrow> validator_set \<Rightarrow> 'a consensus" where
  "fresh_node E s x t vs = newStep ((zero_consensus x t)\<lparr>cs_clock := 1, rs_Height := 1, rs_Round := 0, rs_Step := RoundStepNewHeight,
      rs_StartTime := cfg_Commit (env_Config E) (env_Now E 0), rs_Validators := Some vs, rs_Proposal := None, rs_ProposalBlock := None,
      rs_ProposalBlockParts := None, rs_LockedRound := 0, rs_LockedBlock := None, rs_LockedBlockParts := None, rs_ValidRound := 0,
      rs_ValidBlock := None, rs_ValidBlockParts := None,
      rs_Votes := Some (round_votes (st_ChainID s) 1 vs 0 [0 \<mapsto> empty_round (st_ChainID s) 1 vs 0]), rs_CommitRound := - 1, rs_LastCommit := None,
      rs_LastValidators := LastValidators s, cs_state := s\<rparr>)"

lemma NewConsensusState_fresh:
  assumes "st_Validators s = Some vs" "LastBlockHeight s = 0"
  shows "NewConsensusState E s x t = Inr (fresh_node E s x t vs)"
proof -
  have "wrap64 1 = 1" by (simp add: wrap64_def)
  then have "updateToState E s (zero_consensus x t) = Inr (fresh_node E s x t vs)"
    using assms by (simp add: fresh_node_def updateToState_def zero_consensus_def zero_state_def st_IsEmpty_def last_precommits_def start_time_def
        read_clock_def new_height_votes)
  then show ?thesis using assms(2) by (simp add: NewConsensusState_def reconstructLastCommit_def)
qed

lemma first_wake_up:
  assumes st: "started E s x t (Some w) cs0" and vs: "st_Validators s = Some vs" and s: "LastBlockHeight s = 0"
    and w: "signer E (v_Address val) k w" "last_hrs (pv_mem w) < (1, 0, stepPropose)"
  shows "\<exists>cs. foldP (node_step E) [EvTick, EvTimer, EvTock 0] cs0 = enterNewRound E 1 0 cs \<and> waiting E s x t vs val k 1 cs \<and>
    rs_LastCommit cs = None \<and> cs_clock cs = 2 \<and> (\<forall>B c1. enterNewRound E 1 0 cs = Inr c1 \<longrightarrow> reach E B cs0 c1)"
proof -
  let ?c = "fresh_node E s x t vs"
  define ti where "ti = \<lparr>ti_Duration = time_Sub (rs_StartTime ?c) (env_Now E 1), ti_Height = 1, ti_Round = 0, ti_Step = RoundStepNewHeight\<rparr>"
  let ?tk = "ScheduleTimeout ti NewTimeoutTicker"
  have c0: "cs0 = ?c\<lparr>cs_privValidator := Some w, cs_clock := 2, cs_timeoutTicker := ?tk\<rparr>"
    using st NewConsensusState_fresh [OF vs s, of E x t] unfolding started_def
    by (simp add: start_node_def SetPrivValidator_def scheduleRound0_def read_clock_def scheduleTimeout_def ti_def)
      (simp add: fresh_node_def newStep_def zero_consensus_def numeral_2_eq_2)
  define c2 where "c2 = ?c\<lparr>cs_privValidator := Some w, cs_clock := 2, cs_timeoutTicker := take_tock 0 (timer_fires (receive_tick ?tk))\<rparr>"
  have tk: "tk_tock (timer_fires (receive_tick ?tk)) = [ti]"
    by (simp add: NewTimeoutTicker_def ScheduleTimeout_def receive_tick_def timer_fires_def tick_ignored_def zero_timeout_def ti_def)
  have to: "handleTimeout E ti c2 = enterNewRound E 1 0 c2" by (simp add: handleTimeout_def ti_def c2_def fresh_node_def newStep_def)
  define ca cb where "ca = ?c\<lparr>cs_privValidator := Some w, cs_clock := 2, cs_timeoutTicker := receive_tick ?tk\<rparr>"
    and "cb = ?c\<lparr>cs_privValidator := Some w, cs_clock := 2, cs_timeoutTicker := timer_fires (receive_tick ?tk)\<rparr>"
  have ab: "node_step E EvTick cs0 = Inr ca" "node_step E EvTimer ca = Inr cb" "node_step E (EvTock 0) cb = enterNewRound E 1 0 c2"
    using to by (simp_all add: c0 ca_def cb_def tk c2_def)
  have near: "LastBlockHeight (cs_state cs0) + 1 < MaxInt64" "LastBlockHeight (cs_state ca) + 1 < MaxInt64" "LastBlockHeight (cs_state cb) + 1 < MaxInt64"
    using s by (simp_all add: c0 ca_def cb_def fresh_node_def newStep_def int64_defs)
  have r: "rs_Round cb = 0" by (simp add: cb_def fresh_node_def newStep_def)
  have R: "reach E B cs0 c1" if c1: "enterNewRound E 1 0 c2 = Inr c1" for B c1
  proof -
    have "reach E B cs0 ca" by (rule reach_one [OF ab(1)]) (simp add: admissible_def near)
    then have "reach E B cs0 cb" by (rule reach_event [OF _ _ ab(2)]) (simp add: admissible_def near)
    then show ?thesis by (rule reach_event [OF _ _ ab(3) [unfolded c1]]) (simp add: admissible_def near r, simp add: int64_defs)
  qed
  have "foldP (node_step E) [EvTick, EvTimer, EvTock 0] cs0 = handleTimeout E ti c2" by (simp add: c0 tk c2_def bindP_done)
  then have F: "foldP (node_step E) [EvTick, EvTimer, EvTock 0] cs0 = enterNewRound E 1 0 c2" unfolding to .
  have "signed_upto E val k (last_hrs (pv_mem w)) c2" using w(1) by (simp add: signed_upto_def c2_def)
  then have "waiting E s x t vs val k 1 c2"
    using w(2) unfolding waiting_def
    by (intro conjI) (simp add: during_def c2_def fresh_node_def newStep_def zero_consensus_def, blast, simp_all add: c2_def fresh_node_def newStep_def zero_consensus_def)
  moreover have "rs_LastCommit c2 = None" "cs_clock c2 = 2" by (simp_all add: c2_def fresh_node_def newStep_def)
  ultimately show ?thesis using F R by blast
qed

section \<open>An example node\<close>

text \<open>Every hash is \<open>k\<close>, and the codec writes the first block in one byte.\<close>

definition solo_block :: block where
  "solo_block = \<lparr>blk_Header = Some \<lparr>hdr_ChainID = ''chain'', hdr_Height = 1, hdr_Time = 0, hdr_NumTxs = 0, hdr_LastBlockID = zero_bid,
     hdr_TotalTxs = 0, hdr_LastBucketHashes = None, hdr_DataHash = ''k'', hdr_ValidatorsHash = ''k'', hdr_ConsensusHash = ''k'',
     hdr_AppHash = [], hdr_LastResultsHash = []\<rparr>, blk_Data = Some \<lparr>TxBuckets = empty_buckets\<rparr>, blk_Commit = Some first_commit\<rparr>"

definition solo_ext :: store_ext where
  "solo_ext = (dmc_ext.extend demo_dmc (store_ext.fields show_int (\<lambda>s. Some (read_int s))))\<lparr>sha256 := (\<lambda>_. ''k''),
     MarshalBinaryBare := (\<lambda>i. sx_enc (e_item i)), UnmarshalBinaryBare := (\<lambda>t s. d_item t (sx_read s)),
     MarshalBinary := (\<lambda>i. if i = AmBlock solo_block then ''b'' else CHR ''c'' # sx_enc (e_item i)),
     UnmarshalBinary := (\<lambda>t s. if s = ''b'' then Some (AmBlock solo_block) else d_item t (sx_read (tl s))),
     UnmarshalBinaryReader := (\<lambda>t n s. if s = ''b'' then Some (AmBlock solo_block) else d_item t (sx_read (tl s)))\<rparr>"

definition solo_env :: "nat node_env" where
  "solo_env = store_ext.extend solo_ext (node_env.fields (demo_conn {}) DefaultConsensusConfig (\<lambda>_. 0)
     (\<lambda>s n b. if s = ''b'' then (Some solo_block, True) else (None, False)))"

lemma solo_env_simps [simp]:
  "sha256 solo_env = (\<lambda>_. ''k'')" "ed25519_Verify solo_env = (\<lambda>k m s. s = k @ m)" "env_App solo_env = demo_conn {}"
  "env_Config solo_env = DefaultConsensusConfig" "env_Now solo_env n = 0" "MarshalBinary solo_env (AmBlock solo_block) = ''b''"
  "amino_ReadBlock solo_env ''b'' sz b = (Some solo_block, True)" "amino_ok solo_env" "tmhash_Sum solo_env m = ''k''"
  by (simp_all add: solo_env_def solo_ext_def demo_dmc_def demo_ext_def ext.defs dmc_ext.defs store_ext.defs node_env.defs amino_ok_def codec_item
      tmhash_Sum_def tmhash_Size_def)

lemma solo_hashes: "hs \<noteq> [] \<Longrightarrow> set hs \<subseteq> {''k''} \<Longrightarrow> simpleHashFromHashes solo_env hs = ''k''"
proof (cases hs)
  case (Cons h t)
  assume "set hs \<subseteq> {''k''}"
  then show ?thesis using Cons by (cases t) (simp_all add: SimpleHashFromTwoHashes_def Let_def)
qed simp

lemma solo_map: "m \<noteq> [] \<Longrightarrow> SimpleHashFromMap solo_env m = ''k''"
proof -
  assume m: "m \<noteq> []"
  define kvs where "kvs = sm_kvs (fold (\<lambda>(k, v) sm. sm_Set sm k v) m newSimpleMap)"
  have "length (KVPairs_Sort kvs) = length m" by (simp add: kvs_def fold_sm_Set newSimpleMap_def KVPairs_Sort_def)
  then have ne: "KVPairs_Sort kvs \<noteq> []" using m by auto
  have "\<not> sm_sorted (fold (\<lambda>(k, v) sm. sm_Set sm k v) m newSimpleMap)" using m by (simp add: fold_sm_Set newSimpleMap_def)
  then have "SimpleHashFromMap solo_env m = simpleHashFromHashes solo_env (map (KVPair_Hash solo_env) (KVPairs_Sort kvs))"
    by (simp add: SimpleHashFromMap_def sm_Hash_def Let_def hashKVPairs_def SimpleHashFromHashers_def sm_Sort_def kvs_def)
  also have "\<dots> = ''k''" using ne by (intro solo_hashes) (auto simp: KVPair_Hash_def)
  finally show ?thesis .
qed

lemma solo_data_hash: "data_Hash solo_env (Some \<lparr>TxBuckets = empty_buckets\<rparr>) = ''k''"
proof -
  have "fold (\<lambda>b h. SimpleHashFromTwoHashes solo_env h (Txs_Hash solo_env (Txs b))) bs ''k'' = ''k''" for bs
    by (induction bs) (simp_all add: SimpleHashFromTwoHashes_def)
  moreover obtain b bs where e: "empty_buckets = b # bs" by (simp add: empty_buckets_def upt_conv_Cons)
  ultimately show ?thesis unfolding data_Hash_def e by (simp add: TxBuckets_Hash_Cons)
qed

lemma solo_makes: "st_MakeBlock solo_env 0 demo_state 1 [] (Some first_commit) = Inr (b, ps) \<Longrightarrow> b = solo_block"
  by (auto simp: st_MakeBlock_def MakeBlock_def fillHeader_def zero_header_def solo_data_hash demo_state_def zero_state_def state_header_def
      vs_Hash_def demo_vset_def SimpleHashFromHashers_def Validator_Hash_def aminoHash_def cp_Hash_def solo_map solo_block_def wrap64_def Let_def elim!: bindP_Inr_E)

lemma solo_fits: "first_block_fits solo_env demo_state"
proof -
  have "blk_Hash solo_env (Some solo_block) \<noteq> []"
    by (simp add: blk_Hash_def solo_block_def fillHeader_def hdr_Hash_def solo_map first_commit_def)
  then show ?thesis
    by (auto simp: first_block_fits_def dest!: solo_makes) (simp_all add: demo_state_def zero_state_def DefaultConsensusParams_def DefaultBlockGossip_def int64_defs)
qed

definition solo_world :: pv_world where
  "solo_world = \<lparr>pv_mem = GenFilePV solo_env (PubKeyEd25519 ''k'') (\<lambda>m. Some (SignatureEd25519 (''k'' @ m))) ''f'', pv_file = None\<rparr>"

abbreviation solo_val :: validator where
  "solo_val \<equiv> \<lparr>v_Address = ''k'', v_PubKey = Some (PubKeyEd25519 ''k''), VotingPower = 1, Accum = 0\<rparr>"

abbreviation solo_store :: block_store where
  "solo_store \<equiv> \<lparr>bst_db = NewMemDB, bst_height = 0\<rparr>"

lemma solo_node_ok:
  "lone solo_env demo_vset solo_val (PubKeyEd25519 ''k'')" "signer solo_env ''k'' (PubKeyEd25519 ''k'') solo_world"
  "last_hrs (pv_mem solo_world) < (1, 0, stepPropose)" "st_Validators demo_state = Some demo_vset" "LastBlockHeight demo_state = 0"
  by (simp_all add: lone_def demo_vset_def quorum_ok_def powers_ok_def cache_ok_def sum_powers_def safeAddClip_eq clip64_def int64_defs
      signer_def solo_world_def GenFilePV_def last_hrs_def demo_state_def zero_state_def stepNone_def)

section \<open>The first height of a lone validator\<close>

lemma lone_run:
  assumes st: "started E s x t (Some w) cs0" and l: "lone E vs val k" and vs: "st_Validators s = Some vs" and w: "signer E (v_Address val) k w"
    "last_hrs (pv_mem w) < (1, 0, stepPropose)" and P: "provided E s x t 1" and f: "first_block_fits E s"
    and m: "mp_txs (ex_mempool x) = []" "\<not> mp_rechecking (ex_mempool x)"
  shows "\<exists>n b z bz s' x' c4 cs. foldP (node_step E) ([EvTick, EvTimer, EvTock 0] @ replicate n EvInternalMsg) cs0 = Inr cs \<and>
    reach E {own_bid E b z bz} cs0 c4 \<and> precommitted E s x t vs val k 1 b z bz c4 \<and> reach E {own_bid E b z bz} c4 cs \<and>
    sound_block E s b z bz \<and> ApplyBlock E (env_App E) x s (own_bid E b z bz) (Some b) = Inr (None, s', x') \<and> moved_on E val k 2 s' x' cs"
proof -
  have s: "LastBlockHeight s = 0" using P unfolding provided_def by simp
  obtain b z bz ba where b: "st_MakeBlock E (env_Now E 3) s 1 [] (Some first_commit) = Inr (b, Some (data_set E z bz ba))" "sound_block E s b z bz"
    using first_block [OF f vs s] by blast
  obtain cs where cs: "foldP (node_step E) [EvTick, EvTimer, EvTock 0] cs0 = enterNewRound E 1 0 cs" "waiting E s x t vs val k 1 cs"
      "rs_LastCommit cs = None" "cs_clock cs = 2" "\<And>B c1. enterNewRound E 1 0 cs = Inr c1 \<Longrightarrow> reach E B cs0 c1"
    using first_wake_up [OF st vs s w] by blast
  have mk: "makes E s x 1 (rs_LastCommit cs) (Suc (cs_clock cs)) b (data_set E z bz ba)"
    using makes_first [of E 3 s b "data_set E z bz ba" x "rs_LastCommit cs"] b(1) m cs(4) by (simp add: eval_nat_numeral)
  obtain c1 c4 s' x' c' where f: "enterNewRound E 1 0 cs = Inr c1" "foldP (node_step E) (replicate (n_parts z bz + 3) EvInternalMsg) c1 = Inr c'"
      "reach E {own_bid E b z bz} c1 c4" "precommitted E s x t vs val k 1 b z bz c4" "reach E {own_bid E b z bz} c4 c'"
      "ApplyBlock E (env_App E) x s (own_bid E b z bz) (Some b) = Inr (None, s', x')" "moved_on E val k (1 + 1) s' x' c'"
    using decides_height [OF l cs(2) P b(2) mk, of "{own_bid E b z bz}"] by blast
  have "moved_on E val k 2 s' x' c'" using f(7) by simp
  moreover have "foldP (node_step E) ([EvTick, EvTimer, EvTock 0] @ replicate (n_parts z bz + 3) EvInternalMsg) cs0 = Inr c'"
    unfolding foldP_append cs(1) f(1) using f(2) by simp
  moreover have "reach E {own_bid E b z bz} cs0 c4" using reach_trans [OF f(3)] cs(5) [OF f(1)] by blast
  ultimately show ?thesis using f(4-6) b(2) by blast
qed

definition solo_exec :: "nat exec" where
  "solo_exec = demo_exec\<lparr>ex_db := SaveState solo_env NewMemDB demo_state\<rparr>"

lemma solo_provided: "provided solo_env demo_state solo_exec solo_store 1"
proof -
  have "mp_inv (ex_mempool solo_exec)" by (simp add: solo_exec_def demo_exec_def NewMempool_inv)
  moreover have "st_ConsensusParams demo_state \<noteq> zero_params" "LastBlockHeight demo_state = 0"
    by (simp_all add: demo_state_def zero_state_def DefaultConsensusParams_def zero_params_def DefaultBlockSize_def)
  ultimately show ?thesis using demo_agreeable demo_state_good
    by (simp add: provided_def WaitForTxs_def DefaultConsensusConfig_def int64_defs)
qed

definition solo_start :: "nat consensus" where
  "solo_start = start_node solo_env (SetPrivValidator (Some solo_world) (fresh_node solo_env demo_state solo_exec solo_store demo_vset))"

lemma solo_started: "started solo_env demo_state solo_exec solo_store (Some solo_world) solo_start"
  using NewConsensusState_fresh [OF solo_node_ok(4,5)] unfolding started_def solo_start_def by blast

lemma solo_mempool: "mp_txs (ex_mempool solo_exec) = []" "\<not> mp_rechecking (ex_mempool solo_exec)"
  by (simp_all add: solo_exec_def demo_exec_def NewMempool_def)

lemma solo_signer: "signer solo_env (v_Address solo_val) (PubKeyEd25519 ''k'') solo_world"
  using solo_node_ok(2) by simp

lemmas solo_run = lone_run [OF solo_started solo_node_ok(1,4) solo_signer solo_node_ok(3) solo_provided solo_fits solo_mempool]

lemma solo_chain: "chain solo_env (env_App solo_env) solo_exec [demo_state] []"
proof -
  have v: "NewValidator solo_env (PubKeyEd25519 ''k'') 1 = NewValidator demo_env (PubKeyEd25519 ''k'') 1"
    by (simp add: NewValidator_def tmhash_Sum_def tmhash_Size_def)
  have "ValidateAndComplete 0 demo_doc = (None, demo_doc\<lparr>gd_ConsensusParams := Some DefaultConsensusParams\<rparr>)"
    by (simp add: ValidateAndComplete_def demo_doc_def zero_time_def)
  moreover have "mapP (genesis_val solo_env) (gd_Validators demo_doc) = Inr [NewValidator demo_env (PubKeyEd25519 ''k'') 1]"
    by (simp add: demo_doc_def genesis_val_def v)
  moreover have "NewValidatorSet None = Inr \<lparr>Validators = [], Proposer = None, totalVotingPower = 0\<rparr>" by (simp add: NewValidatorSet_def)
  ultimately have "MakeGenesisState solo_env 0 demo_doc = Inr (Inr demo_state)"
    using demo_genesis_set by (simp add: MakeGenesisState_def demo_state_def) (simp add: demo_doc_def)
  then show ?thesis by (rule chain_start) (simp add: solo_exec_def)
qed

section \<open>Runs from a start\<close>

definition hrs_of :: "'a consensus \<Rightarrow> int \<times> int \<times> int" where
  "hrs_of cs = (rs_Height cs, rs_Round cs, rs_Step cs)"

lemma run_moves:
  assumes "started E s x t priv cs0" "0 \<le> LastBlockHeight s" "LastBlockHeight s + 1 < MaxInt64" "inj_on (bid_Key E) B" "reach E B cs0 cs"
  shows "grow E (core cs0) (core cs)" "cs_inv E B cs \<or> far (core cs)"
  using reach_moves [OF assms(5,4)] started_inv(1) [OF assms(1-3), of B] by (auto simp: moves_def)

lemma later_moves:
  assumes "started E s x t priv cs0" "0 \<le> LastBlockHeight s" "LastBlockHeight s + 1 < MaxInt64" "inj_on (bid_Key E) B"
    and "reach E B cs0 cs" "reach E B cs cs'" "LastBlockHeight (cs_state cs') + 1 < MaxInt64"
  shows "cs_inv E B cs" "quiet E cs cs' \<or> rs_Height cs < rs_Height cs'"
proof -
  have n: "\<not> far (core cs')" using assms(7) by (simp add: far_def core_def)
  show i: "cs_inv E B cs" using run_moves(2) [OF assms(1-5)] reach_near [OF assms(6) n] by blast
  show "quiet E cs cs' \<or> rs_Height cs < rs_Height cs'" using reach_moves [OF assms(6,4)] i n by (auto simp: moves_def)
qed

section \<open>Properties\<close>




text \<open>
  C1: The chain of a node only grows by decisions. Whatever messages, timeouts and transactions a node
  handles after its start on a chain of applied blocks, the chain it holds is a continuation of that one; every
  new block hashes to the id it was applied under, and if the powers of the validators of its height are not negative
  and their doubled sum fits 64 bits, a commit for this id verifies against them. The block ids in the votes handled have
  distinct keys (\<open>inj_on (bid_Key E) B\<close>), and the rounds handled are below the largest int. The node is at the
  height after the last block, until the 64-bit heights are used up.
\<close>

theorem Runs_continue_chain:
  assumes "started E s x t priv cs0" "chain E (env_App E) x ss bs" "last ss = s" "0 \<le> LastBlockHeight s" "LastBlockHeight s + 1 < MaxInt64"
    and "inj_on (bid_Key E) B" "reach E B cs0 cs"
  shows "\<exists>ss' bs'. chain E (env_App E) (cs_blockExec cs) ss' bs' \<and> last ss' = cs_state cs \<and> continues E ss bs ss' bs' \<and>
    (rs_Height cs = LastBlockHeight (cs_state cs) + 1 \<or> MaxInt64 \<le> LastBlockHeight (cs_state cs) + 1)"
proof -
  have c0: "core cs0 = (s, x, t)" by (rule started_inv(2) [OF assms(1,4,5)])
  note m = run_moves [OF assms(1,4-7)]
  have "rs_Height cs = LastBlockHeight (cs_state cs) + 1 \<or> MaxInt64 \<le> LastBlockHeight (cs_state cs) + 1"
    using m(2) by (auto simp: cs_inv_def height_inv_def far_def core_def)
  then show ?thesis using grow_chain [OF m(1), of ss bs] assms(2,3) c0 by (auto simp: core_def)
qed

theorem Runs_continue_chain_witness:
  "\<exists>(cs :: nat consensus) ss' bs'. rs_Height cs = 2 \<and> chain solo_env (env_App solo_env) (cs_blockExec cs) ss' bs' \<and> last ss' = cs_state cs \<and>
    continues solo_env [demo_state] [] ss' bs' \<and> bs' \<noteq> []"
proof -
  obtain b z bz c4 cs s' x' where r: "reach solo_env {own_bid solo_env b z bz} solo_start c4" "reach solo_env {own_bid solo_env b z bz} c4 cs"
      "moved_on solo_env solo_val (PubKeyEd25519 ''k'') 2 s' x' cs"
    using solo_run by blast
  have h: "0 \<le> LastBlockHeight demo_state" "LastBlockHeight demo_state + 1 < MaxInt64" by (simp_all add: solo_node_ok(5) int64_defs)
  obtain ss' bs' where c: "chain solo_env (env_App solo_env) (cs_blockExec cs) ss' bs'" "last ss' = cs_state cs" "continues solo_env [demo_state] [] ss' bs'"
      "rs_Height cs = LastBlockHeight (cs_state cs) + 1 \<or> MaxInt64 \<le> LastBlockHeight (cs_state cs) + 1"
    using Runs_continue_chain [OF solo_started solo_chain _ h _ reach_trans [OF r(2,1)]] by auto
  have two: "rs_Height cs = 2" using r(3) by (simp add: moved_on_def)
  have "bs' \<noteq> []"
  proof
    assume "bs' = []"
    then have "ss' = [demo_state]" using c(3) chain_length [OF c(1)] by (auto simp: continues_def)
    then show False using c(2,4) two solo_node_ok(5) by (simp add: int64_defs)
  qed
  then show ?thesis using c two by blast
qed

text \<open>
  C2: The locking rule. A precommit for a block that a node has signed and queued for itself, at its
  height, has a prevote majority of its round behind it; and in every later state of that height the node is
  still locked on the block, in that round or a later one, or has seen a prevote majority for something else
  in a later round.
\<close>

theorem Precommit_stays_locked:
  assumes "started E s x t priv cs0" "0 \<le> LastBlockHeight s" "LastBlockHeight s + 1 < MaxInt64" "inj_on (bid_Key E) B"
    and "reach E B cs0 cs" "VoteMessage (Some v) \<in> set (cs_internalMsgQueue cs)" "vote_Height v = rs_Height cs" "vote_Type v = VoteTypePrecommit"
      "bid_Hash (vote_BlockID v) \<noteq> []" "reach E B cs cs'" "rs_Height cs' = rs_Height cs" "LastBlockHeight (cs_state cs') + 1 < MaxInt64"
  shows "polka cs (vote_Round v) (vote_BlockID v) \<and>
    ((\<exists>b. rs_LockedBlock cs' = Some b \<and> blk_Hash E (Some b) = bid_Hash (vote_BlockID v) \<and> vote_Round v \<le> rs_LockedRound cs') \<or>
     (\<exists>r bid. vote_Round v < r \<and> polka cs' r bid \<and> bid_Hash bid \<noteq> bid_Hash (vote_BlockID v)))"
proof -
  note L = later_moves [OF assms(1-5,10,12)]
  have "block_precommit cs v" using assms(7-9) by (simp add: block_precommit_def)
  then have p: "polka cs (vote_Round v) (vote_BlockID v)" "guarded E cs (vote_Round v) (bid_Hash (vote_BlockID v))"
    using L(1) assms(6) by (auto simp: cs_inv_def queue_inv_def)
  moreover have "quiet E cs cs'" using L(2) assms(11) by simp
  ultimately have "guarded E cs' (vote_Round v) (bid_Hash (vote_BlockID v))" using assms(9) by (simp add: quiet_def)
  then show ?thesis using p(1) by (simp add: guarded_def)
qed

theorem Precommit_stays_locked_witness:
  "\<exists>B (cs :: nat consensus) v. reach solo_env B solo_start cs \<and> VoteMessage (Some v) \<in> set (cs_internalMsgQueue cs) \<and>
    vote_Type v = VoteTypePrecommit \<and> polka cs (vote_Round v) (vote_BlockID v)"
proof -
  obtain b z bz c4 where r: "reach solo_env {own_bid solo_env b z bz} solo_start c4" and s: "sound_block solo_env demo_state b z bz"
      and p: "precommitted solo_env demo_state solo_exec solo_store demo_vset solo_val (PubKeyEd25519 ''k'') 1 b z bz c4"
    using solo_run by blast
  obtain v where q: "cs_internalMsgQueue c4 = [VoteMessage (Some v)]" "own_vote solo_env (st_ChainID demo_state) solo_val (PubKeyEd25519 ''k'') 1 VoteTypePrecommit (own_bid solo_env b z bz) v"
    using p unfolding precommitted_def by blast
  have c: "rs_Height c4 = 1" "cs_state c4 = demo_state" using p by (simp_all add: precommitted_def during_def)
  have h: "0 \<le> LastBlockHeight demo_state" "LastBlockHeight demo_state + 1 < MaxInt64" by (simp_all add: solo_node_ok(5) int64_defs)
  have v: "vote_Height v = rs_Height c4" "vote_Type v = VoteTypePrecommit" "bid_Hash (vote_BlockID v) \<noteq> []"
    using q(2) c(1) sound_blockD [OF s] by (simp_all add: own_vote_def own_bid_def)
  have "polka c4 (vote_Round v) (vote_BlockID v)"
    using Precommit_stays_locked [OF solo_started h _ r, of v c4] q(1) v c(2) h(2) reach_start [of solo_env "{own_bid solo_env b z bz}" c4] by simp
  then show ?thesis using r q(1) v(2) by (intro exI [of _ "{own_bid solo_env b z bz}"] exI [of _ c4] exI [of _ v]) simp
qed

text \<open>
  C12: Height, round and step of a node never go back, whatever it handles.
\<close>

theorem Steps_only_forward:
  assumes "started E s x t priv cs0" "0 \<le> LastBlockHeight s" "LastBlockHeight s + 1 < MaxInt64" "inj_on (bid_Key E) B"
    and "reach E B cs0 cs" "reach E B cs cs'" "LastBlockHeight (cs_state cs') + 1 < MaxInt64"
  shows "hrs_of cs \<le> hrs_of cs'"
  using later_moves(2) [OF assms] by (auto simp: hrs_of_def quiet_def)

theorem Steps_only_forward_witness:
  "\<exists>B (cs :: nat consensus) (cs' :: nat consensus). reach solo_env B solo_start cs \<and> reach solo_env B cs cs' \<and>
    rs_Step cs = RoundStepPrecommit \<and> rs_Height cs' = 2 \<and> hrs_of cs \<le> hrs_of cs'"
proof -
  obtain b z bz c4 cs s' x' where r: "reach solo_env {own_bid solo_env b z bz} solo_start c4" "reach solo_env {own_bid solo_env b z bz} c4 cs"
      and p: "precommitted solo_env demo_state solo_exec solo_store demo_vset solo_val (PubKeyEd25519 ''k'') 1 b z bz c4"
      and s: "sound_block solo_env demo_state b z bz" "ApplyBlock solo_env (env_App solo_env) solo_exec demo_state (own_bid solo_env b z bz) (Some b) = Inr (None, s', x')"
      and m: "moved_on solo_env solo_val (PubKeyEd25519 ''k'') 2 s' x' cs"
    using solo_run by blast
  have h: "0 \<le> LastBlockHeight demo_state" "LastBlockHeight demo_state + 1 < MaxInt64" by (simp_all add: solo_node_ok(5) int64_defs)
  have "LastBlockHeight s' = 1" using applied_height [OF s(2)] solo_node_ok(5) h by simp
  then have n: "LastBlockHeight (cs_state cs) + 1 < MaxInt64" using m by (simp add: moved_on_def int64_defs)
  have "hrs_of c4 \<le> hrs_of cs" by (rule Steps_only_forward [OF solo_started h _ r n]) simp
  moreover have "rs_Step c4 = RoundStepPrecommit" "rs_Height cs = 2" using p m by (simp_all add: precommitted_def during_def moved_on_def)
  ultimately show ?thesis using r by blast
qed

end
