(* ===== verification/Dmc_Coin.thy ===== *)
theory Dmc_Coin
  imports Applied_Chain "HOL-Library.AList"
begin

text \<open>
  \<^verbatim>\<open>abci/app/dmccoin\<close>: the key-value stores of \<^verbatim>\<open>kvs.go\<close>, the state and the accounts on top of them, the
  execution of transactions and the coin application, with the local client of \<^verbatim>\<open>abci/client/local_client.go\<close>
  that connects an application to the node. Only \<open>MemKVS\<close> implements the interface \<open>KVS\<close>, so a store is one.
  Logging is left out.
\<close>

section \<open>Stores\<close>

text \<open>
  What the language leaves open: the order in which a map is ranged over, and how \<open>sort.Slice\<close> orders
  equal elements.
\<close>

record coin_rt =
  map_range :: "(bytes \<times> bytes) list \<Rightarrow> (bytes \<times> bytes) list"
  sort_Slice :: "(account \<Rightarrow> account \<Rightarrow> bool) \<Rightarrow> account list \<Rightarrow> account list"

text \<open>A map is an association list with distinct keys.\<close>

record mem_kvs =
  kvs_m :: "(bytes \<times> bytes) list"

definition NewMemKVS :: mem_kvs where
  "NewMemKVS = \<lparr>kvs_m = []\<rparr>"

definition mkv_Set :: "mem_kvs \<Rightarrow> bytes \<Rightarrow> bytes \<Rightarrow> mem_kvs" where
  "mkv_Set mkv k v = mkv\<lparr>kvs_m := AList.update k v (kvs_m mkv)\<rparr>"

definition mkv_Get :: "mem_kvs \<Rightarrow> bytes \<Rightarrow> bytes" where
  "mkv_Get mkv k = (case map_of (kvs_m mkv) k of Some v \<Rightarrow> v | None \<Rightarrow> [])"

text \<open>A prefix longer than the key, or than a key of the map, is out of range.\<close>

definition mkv_GetAll :: "coin_rt \<Rightarrow> mem_kvs \<Rightarrow> bytes \<Rightarrow> nat \<Rightarrow> bytes list or_panic" where
  "mkv_GetAll R mkv key prefixSize =
     foldP (\<lambda>(k, v) vs.
         bindP (go_slice k 0 (int prefixSize)) (\<lambda>p.
         bindP (go_slice key 0 (int prefixSize)) (\<lambda>q. Inr (if p = q then vs @ [v] else vs))))
       (map_range R (kvs_m mkv)) []"

definition mkv_GetAllAcc :: "coin_rt \<Rightarrow> mem_kvs \<Rightarrow> bytes list" where
  "mkv_GetAllAcc R mkv = map snd (map_range R (kvs_m mkv))"

text \<open>
  The cache in front of a store. The list element that a cached value points to is the one that holds its key.
\<close>

record kv_cache =
  kvc_store :: mem_kvs
  kvc_cache :: "(bytes \<times> bytes) list"
  kvc_keys :: "bytes list"

definition kvc_Reset :: "kv_cache \<Rightarrow> kv_cache" where
  "kvc_Reset c = c\<lparr>kvc_cache := [], kvc_keys := []\<rparr>"

definition NewKVCache :: "mem_kvs option \<Rightarrow> kv_cache" where
  "NewKVCache store = kvc_Reset \<lparr>kvc_store = (case store of None \<Rightarrow> NewMemKVS | Some m \<Rightarrow> m), kvc_cache = [], kvc_keys = []\<rparr>"

definition kvc_Set :: "kv_cache \<Rightarrow> bytes \<Rightarrow> bytes \<Rightarrow> kv_cache" where
  "kvc_Set c k v =
     (let keys = (if map_of (kvc_cache c) k \<noteq> None then remove1 k (kvc_keys c) @ [k] else kvc_keys c @ [k]) in
      c\<lparr>kvc_keys := keys, kvc_cache := AList.update k v (kvc_cache c)\<rparr>)"

definition kvc_Get :: "kv_cache \<Rightarrow> bytes \<Rightarrow> bytes \<times> kv_cache" where
  "kvc_Get c k =
     (case map_of (kvc_cache c) k of
        Some v \<Rightarrow> (v, c)
      | None \<Rightarrow> let v = mkv_Get (kvc_store c) k in
          (v, c\<lparr>kvc_cache := AList.update k v (kvc_cache c), kvc_keys := kvc_keys c @ [k]\<rparr>))"

definition kvc_GetAll :: "coin_rt \<Rightarrow> kv_cache \<Rightarrow> bytes \<Rightarrow> nat \<Rightarrow> bytes list or_panic" where
  "kvc_GetAll R c key prefixSize = mkv_GetAll R (kvc_store c) key prefixSize"

definition kvc_Sync :: "kv_cache \<Rightarrow> kv_cache" where
  "kvc_Sync c =
     kvc_Reset (c\<lparr>kvc_store := fold (\<lambda>k m. mkv_Set m k (case map_of (kvc_cache c) k of Some v \<Rightarrow> v | None \<Rightarrow> []))
       (kvc_keys c) (kvc_store c)\<rparr>)"

section \<open>The state\<close>

record coin_state =
  cst_chainID :: bytes
  cst_store :: mem_kvs
  cst_readCache :: "(bytes \<times> bytes) list option"
  cst_writeCache :: "kv_cache option"

definition NewState :: "mem_kvs \<Rightarrow> coin_state" where
  "NewState store = \<lparr>cst_chainID = [], cst_store = store, cst_readCache = Some [], cst_writeCache = None\<rparr>"

definition SetChainID :: "coin_state \<Rightarrow> bytes \<Rightarrow> coin_state" where
  "SetChainID s chainID = s\<lparr>cst_chainID := chainID, cst_store := mkv_Set (cst_store s) ''base/chain_id'' chainID\<rparr>"

definition GetChainID :: "coin_state \<Rightarrow> bytes \<times> coin_state" where
  "GetChainID s =
     (if cst_chainID s \<noteq> [] then (cst_chainID s, s)
      else let c = mkv_Get (cst_store s) ''base/chain_id'' in (c, s\<lparr>cst_chainID := c\<rparr>))"

definition cst_Get :: "coin_state \<Rightarrow> bytes \<Rightarrow> bytes" where
  "cst_Get s k =
     (case cst_readCache s of
        Some c \<Rightarrow> (case map_of c k of Some v \<Rightarrow> v | None \<Rightarrow> mkv_Get (cst_store s) k)
      | None \<Rightarrow> mkv_Get (cst_store s) k)"

text \<open>A match is copied into an element of the nil result.\<close>

definition cst_GetAll :: "coin_rt \<Rightarrow> coin_state \<Rightarrow> bytes \<Rightarrow> nat \<Rightarrow> bytes list or_panic" where
  "cst_GetAll R s key prefixSize =
     (case cst_readCache s of
        None \<Rightarrow> Inr []
      | Some c \<Rightarrow>
          foldP (\<lambda>(k, v) vs.
              bindP (go_slice k 0 (int prefixSize)) (\<lambda>p.
              bindP (go_slice key 0 (int prefixSize)) (\<lambda>q. if p = q then Inl IndexOutOfRange else Inr vs)))
            (map_range R c) [])"

definition cst_Set :: "coin_state \<Rightarrow> bytes \<Rightarrow> bytes \<Rightarrow> coin_state" where
  "cst_Set s k v =
     s\<lparr>cst_readCache := map_option (AList.update k v) (cst_readCache s), cst_store := mkv_Set (cst_store s) k v\<rparr>"

definition CacheSync :: "coin_state \<Rightarrow> coin_state or_panic" where
  "CacheSync s = bindP (deref (cst_writeCache s)) (\<lambda>c. Inr (s\<lparr>cst_writeCache := Some (kvc_Sync c)\<rparr>))"

section \<open>Accounts\<close>

definition zero_account :: account where
  "zero_account = \<lparr>acc_PubKey = None, acc_Height = 0, acc_Balance = 0, acc_Address = []\<rparr>"

definition TopkAccounts :: "coin_rt \<Rightarrow> account list \<Rightarrow> nat \<Rightarrow> account list" where
  "TopkAccounts R acc k =
     (let accounts = sort_Slice R (\<lambda>a b. acc_Balance a < acc_Balance b) acc in
      if k < length accounts then take k accounts else accounts)"

definition AccountKey :: "bytes \<Rightarrow> bytes" where
  "AccountKey addr = ''base/a/'' @ addr"

definition GetAccount :: "'e dmc_ext_scheme \<Rightarrow> mem_kvs \<Rightarrow> bytes \<Rightarrow> account option" where
  "GetAccount E store addr =
     (let data = mkv_Get store (AccountKey addr) in if length data = 0 then None else Some (json_Account E data))"

definition GetAllAccountsInSegment :: "'e dmc_ext_scheme \<Rightarrow> coin_rt \<Rightarrow> mem_kvs \<Rightarrow> bytes \<Rightarrow> nat \<Rightarrow> account list or_panic" where
  "GetAllAccountsInSegment E R store addr prefixSize =
     bindP (mkv_GetAll R store (AccountKey addr) prefixSize) (\<lambda>data. Inr (map (json_Account E) data))"

definition GetAllAccounts :: "'e dmc_ext_scheme \<Rightarrow> coin_rt \<Rightarrow> mem_kvs \<Rightarrow> account list" where
  "GetAllAccounts E R store = map (json_Account E) (mkv_GetAllAcc R store)"

definition SetAccount :: "'e dmc_ext_scheme \<Rightarrow> mem_kvs \<Rightarrow> bytes \<Rightarrow> account \<Rightarrow> mem_kvs" where
  "SetAccount E store addr acc = mkv_Set store (AccountKey addr) (wire_JSONAccount E acc)"

abbreviation st_SetAccount :: "'e dmc_ext_scheme \<Rightarrow> coin_state \<Rightarrow> bytes \<Rightarrow> account \<Rightarrow> coin_state" where
  "st_SetAccount E s addr acc \<equiv> s\<lparr>cst_store := SetAccount E (cst_store s) addr acc\<rparr>"

section \<open>The contract of a store\<close>

text \<open>What the interface \<open>KVS\<close> promises of \<open>Get\<close> and \<open>Set\<close>, and what a sequence of writes then leaves.\<close>

locale kv_contract =
  fixes ok :: "'s \<Rightarrow> bool" and get :: "'s \<Rightarrow> bytes \<Rightarrow> bytes" and put :: "'s \<Rightarrow> bytes \<Rightarrow> bytes \<Rightarrow> 's"
  assumes put_ok: "ok s \<Longrightarrow> ok (put s k v)"
    and get_put: "ok s \<Longrightarrow> get (put s k v) = (get s)(k := v)"
begin

lemma puts_ok: "ok s \<Longrightarrow> ok (fold (\<lambda>k s. put s k (f k)) ks s)"
  by (induction ks arbitrary: s) (simp_all add: put_ok)

lemma get_puts: "ok s \<Longrightarrow> get (fold (\<lambda>k s. put s k (f k)) ks s) = (\<lambda>k. if k \<in> set ks then f k else get s k)"
proof (induction ks arbitrary: s)
  case (Cons k ks)
  then show ?case by (auto simp: put_ok get_put)
qed simp

end

interpretation mkv: kv_contract "\<lambda>_. True" mkv_Get mkv_Set
  by unfold_locales (auto simp: mkv_Get_def mkv_Set_def update_conv fun_eq_iff)

interpretation cst: kv_contract "\<lambda>_. True" cst_Get cst_Set
  by unfold_locales (auto simp: cst_Get_def cst_Set_def update_conv mkv.get_put fun_eq_iff split: option.split)

text \<open>The cache: every cached key has one place in the list.\<close>

definition kvc_ok :: "kv_cache \<Rightarrow> bool" where
  "kvc_ok c \<longleftrightarrow> distinct (kvc_keys c) \<and> set (kvc_keys c) = fst ` set (kvc_cache c)"

abbreviation kvc_read :: "kv_cache \<Rightarrow> bytes \<Rightarrow> bytes" where
  "kvc_read c k \<equiv> fst (kvc_Get c k)"

lemma kvc_read_eq: "kvc_read c k = (case map_of (kvc_cache c) k of Some v \<Rightarrow> v | None \<Rightarrow> mkv_Get (kvc_store c) k)"
  by (simp add: kvc_Get_def Let_def split: option.split)

lemma cached_iff: "kvc_ok c \<Longrightarrow> map_of (kvc_cache c) k = None \<longleftrightarrow> k \<notin> set (kvc_keys c)"
  by (simp add: kvc_ok_def map_of_eq_None_iff)

interpretation kvc: kv_contract kvc_ok kvc_read kvc_Set
proof
  fix c k v assume c: "kvc_ok c"
  show "kvc_ok (kvc_Set c k v)"
    using c cached_iff [OF c, of k] by (auto simp: kvc_ok_def kvc_Set_def Let_def dom_update)
  show "kvc_read (kvc_Set c k v) = (kvc_read c)(k := v)"
    by (auto simp: kvc_read_eq kvc_Set_def Let_def update_conv fun_eq_iff split: option.split)
qed

lemma kvc_Get_spec:
  assumes "kvc_ok c"
  shows "kvc_ok (snd (kvc_Get c k))" "kvc_read (snd (kvc_Get c k)) = kvc_read c" "kvc_store (snd (kvc_Get c k)) = kvc_store c"
proof -
  have "kvc_ok (snd (kvc_Get c k)) \<and> kvc_read (snd (kvc_Get c k)) = kvc_read c \<and> kvc_store (snd (kvc_Get c k)) = kvc_store c"
  proof (cases "map_of (kvc_cache c) k")
    case None
    then have "k \<notin> set (kvc_keys c)" using cached_iff [OF assms] by simp
    then show ?thesis using assms None
      by (auto simp: kvc_ok_def kvc_Get_def Let_def dom_update update_conv fun_eq_iff split: option.split)
  qed (use assms in \<open>simp add: kvc_Get_def\<close>)
  then show "kvc_ok (snd (kvc_Get c k))" "kvc_read (snd (kvc_Get c k)) = kvc_read c" "kvc_store (snd (kvc_Get c k)) = kvc_store c" by blast+
qed

lemma kvc_Sync_spec:
  assumes "kvc_ok c"
  shows "kvc_ok (kvc_Sync c)" "mkv_Get (kvc_store (kvc_Sync c)) = kvc_read c" "kvc_read (kvc_Sync c) = kvc_read c"
proof -
  show "kvc_ok (kvc_Sync c)" by (simp add: kvc_Sync_def kvc_Reset_def kvc_ok_def)
  have "mkv_Get (kvc_store (kvc_Sync c)) k = kvc_read c k" for k
    using cached_iff [OF assms, of k] by (auto simp: kvc_Sync_def kvc_Reset_def mkv.get_puts kvc_read_eq split: option.split)
  then show m: "mkv_Get (kvc_store (kvc_Sync c)) = kvc_read c" by blast
  have "kvc_read (kvc_Sync c) = mkv_Get (kvc_store (kvc_Sync c))" by (simp add: fun_eq_iff kvc_read_eq kvc_Sync_def kvc_Reset_def)
  then show "kvc_read (kvc_Sync c) = kvc_read c" using m by simp
qed

section \<open>The cache implements a store\<close>

text \<open>A client of the cache, and the same client of one map.\<close>

datatype kv_op = OpSet bytes bytes | OpGet bytes | OpSync

fun kvc_run :: "kv_op list \<Rightarrow> kv_cache \<Rightarrow> bytes list \<times> kv_cache" where
  "kvc_run [] c = ([], c)"
| "kvc_run (OpSet k v # ops) c = kvc_run ops (kvc_Set c k v)"
| "kvc_run (OpGet k # ops) c = (let (v, c') = kvc_Get c k; (vs, c'') = kvc_run ops c' in (v # vs, c''))"
| "kvc_run (OpSync # ops) c = kvc_run ops (kvc_Sync c)"

fun map_run :: "kv_op list \<Rightarrow> (bytes \<Rightarrow> bytes) \<Rightarrow> bytes list \<times> (bytes \<Rightarrow> bytes)" where
  "map_run [] m = ([], m)"
| "map_run (OpSet k v # ops) m = map_run ops (m(k := v))"
| "map_run (OpGet k # ops) m = (let (vs, m') = map_run ops m in (m k # vs, m'))"
| "map_run (OpSync # ops) m = map_run ops m"

lemma kvc_run_refines:
  "kvc_ok c \<Longrightarrow> \<exists>c'. kvc_run ops c = (fst (map_run ops (kvc_read c)), c') \<and> kvc_ok c' \<and> kvc_read c' = snd (map_run ops (kvc_read c)) \<and>
    (OpSync \<notin> set ops \<longrightarrow> kvc_store c' = kvc_store c)"
proof (induction ops c rule: kvc_run.induct [case_names Nil Set Get Sync])
  case (Set k v ops c)
  have s: "kvc_store (kvc_Set c k v) = kvc_store c" by (simp add: kvc_Set_def Let_def)
  obtain c' where "kvc_run ops (kvc_Set c k v) = (fst (map_run ops ((kvc_read c)(k := v))), c')" "kvc_ok c'"
      "kvc_read c' = snd (map_run ops ((kvc_read c)(k := v)))" "OpSync \<notin> set ops \<longrightarrow> kvc_store c' = kvc_store c"
    using Set.IH [OF kvc.put_ok [OF Set.prems]] unfolding kvc.get_put [OF Set.prems] s by blast
  then show ?case by (intro exI [of _ c'] conjI impI) simp_all
next
  case (Get k ops c)
  obtain v c1 where g: "kvc_Get c k = (v, c1)" by fastforce
  then have c1: "kvc_ok c1" "kvc_read c1 = kvc_read c" "kvc_store c1 = kvc_store c" "v = kvc_read c k"
    using kvc_Get_spec [OF Get.prems, of k] by simp_all
  obtain c' where "kvc_run ops c1 = (fst (map_run ops (kvc_read c)), c')" "kvc_ok c'" "kvc_read c' = snd (map_run ops (kvc_read c))"
      "OpSync \<notin> set ops \<longrightarrow> kvc_store c' = kvc_store c"
    using Get.IH [OF refl g [symmetric] c1(1)] unfolding c1(2,3) by blast
  then show ?case by (intro exI [of _ c'] conjI impI) (simp_all add: g Let_def split: prod.split)
next
  case (Sync ops c)
  obtain c' where "kvc_run ops (kvc_Sync c) = (fst (map_run ops (kvc_read c)), c')" "kvc_ok c'" "kvc_read c' = snd (map_run ops (kvc_read c))"
    using Sync.IH [OF kvc_Sync_spec(1) [OF Sync.prems]] unfolding kvc_Sync_spec(3) [OF Sync.prems] by blast
  then show ?case by (intro exI [of _ c'] conjI impI) simp_all
next
  case (Nil c)
  then show ?case by (intro exI [of _ c] conjI impI) simp_all
qed

section \<open>Accounts in a store\<close>

lemma GetAccount_SetAccount:
  assumes "wire_JSONAccount E a \<noteq> []" "json_Account E (wire_JSONAccount E a) = a"
  shows "GetAccount E (SetAccount E m addr a) = (GetAccount E m)(addr \<mapsto> a)"
proof
  fix addr' :: bytes
  have "AccountKey addr' = AccountKey addr \<longleftrightarrow> addr' = addr" by (simp add: AccountKey_def)
  then show "GetAccount E (SetAccount E m addr a) addr' = ((GetAccount E m)(addr \<mapsto> a)) addr'"
    using assms by (simp add: GetAccount_def SetAccount_def mkv.get_put Let_def)
qed

text \<open>The store of the application holds accounts only, each under the key of an address.\<close>

definition account_store :: "'e dmc_ext_scheme \<Rightarrow> mem_kvs \<Rightarrow> bool" where
  "account_store E m \<longleftrightarrow> distinct (map fst (kvs_m m)) \<and> (\<forall>(k, v) \<in> set (kvs_m m). (\<exists>addr. k = AccountKey addr) \<and> (\<exists>a. v = wire_JSONAccount E a))"

lemma NewMemKVS_accounts: "account_store E NewMemKVS"
  by (simp add: account_store_def NewMemKVS_def)

lemma set_alist_update: "set (AList.update k v xs) \<subseteq> insert (k, v) (set xs)"
  by (induction xs) auto

lemma SetAccount_accounts: "account_store E m \<Longrightarrow> account_store E (SetAccount E m addr a)"
  using set_alist_update [of "AccountKey addr" "wire_JSONAccount E a" "kvs_m m"] by (auto simp: account_store_def SetAccount_def mkv_Set_def distinct_update)

definition all_accounts :: "'e dmc_ext_scheme \<Rightarrow> mem_kvs \<Rightarrow> account list" where
  "all_accounts E m = map (\<lambda>(k, v). json_Account E v) (kvs_m m)"

text \<open>What the language promises of the order of a map and of \<open>sort.Slice\<close>.\<close>

definition fair_rt :: "coin_rt \<Rightarrow> bool" where
  "fair_rt R \<longleftrightarrow> (\<forall>xs. mset (map_range R xs) = mset xs) \<and>
     (\<forall>(f :: account \<Rightarrow> 64 word) xs. mset (sort_Slice R (\<lambda>a b. f a < f b) xs) = mset xs \<and> sorted (map f (sort_Slice R (\<lambda>a b. f a < f b) xs)))"

lemma GetAllAccounts_mset: "fair_rt R \<Longrightarrow> mset (GetAllAccounts E R m) = mset (all_accounts E m)"
proof -
  assume "fair_rt R"
  then have "mset (map_range R (kvs_m m)) = mset (kvs_m m)" by (simp add: fair_rt_def)
  then have "image_mset (\<lambda>(k, v). json_Account E v) (mset (map_range R (kvs_m m))) = image_mset (\<lambda>(k, v). json_Account E v) (mset (kvs_m m))" by simp
  then show ?thesis by (simp add: GetAllAccounts_def mkv_GetAllAcc_def all_accounts_def case_prod_beta' o_def)
qed

text \<open>Every account is in every segment: the prefix compared is that of the key, not that of the address.\<close>

lemma segment_all:
  assumes "fair_rt R" "account_store E m"
  shows "GetAllAccountsInSegment E R m seg 2 = Inr (GetAllAccounts E R m)"
proof -
  let ?f = "\<lambda>(k, v) vs. bindP (go_slice k 0 (int 2)) (\<lambda>p. bindP (go_slice (AccountKey seg) 0 (int 2)) (\<lambda>q. Inr (if p = q then vs @ [v] else vs)))"
  have "set (map_range R (kvs_m m)) = set (kvs_m m)" using assms(1) unfolding fair_rt_def by (metis set_mset_mset)
  then have k: "\<forall>kv \<in> set (map_range R (kvs_m m)). \<exists>addr. fst kv = AccountKey addr" using assms(2) by (auto simp: account_store_def)
  have "foldP ?f kvs vs = Inr (vs @ map snd kvs)" if "\<forall>kv \<in> set kvs. \<exists>addr. fst kv = AccountKey addr" for kvs vs
    using that by (induction kvs arbitrary: vs) (auto simp: go_slice_def AccountKey_def numeral_2_eq_2)
  from this [OF k] show ?thesis by (simp add: GetAllAccountsInSegment_def mkv_GetAll_def GetAllAccounts_def mkv_GetAllAcc_def)
qed

section \<open>Properties\<close>

text \<open>
  C35: a cache in front of a store behaves as the store alone. Whatever a client sets, reads and syncs, its
  reads return what one map with all its writes returns; the store behind the cache changes at a sync
  only, and a sync at the end leaves in it what that map holds.
\<close>

theorem KVCache_refines_store:
  "\<exists>c'. kvc_run ops (NewKVCache (Some m)) = (fst (map_run ops (mkv_Get m)), c') \<and>
    mkv_Get (kvc_store (kvc_Sync c')) = snd (map_run ops (mkv_Get m)) \<and> (OpSync \<notin> set ops \<longrightarrow> kvc_store c' = m)"
proof -
  have c: "kvc_ok (NewKVCache (Some m))" "kvc_store (NewKVCache (Some m)) = m" "kvc_read (NewKVCache (Some m)) = mkv_Get m"
    by (simp_all add: NewKVCache_def kvc_Reset_def kvc_ok_def kvc_read_eq fun_eq_iff)
  obtain c' where c': "kvc_run ops (NewKVCache (Some m)) = (fst (map_run ops (mkv_Get m)), c')" "kvc_ok c'"
      "kvc_read c' = snd (map_run ops (mkv_Get m))" "OpSync \<notin> set ops \<longrightarrow> kvc_store c' = m"
    using kvc_run_refines [OF c(1), of ops] unfolding c(2,3) by blast
  then show ?thesis using kvc_Sync_spec(2) [OF c'(2)] by (intro exI [of _ c'] conjI) simp_all
qed

theorem KVCache_refines_store_witness:
  "\<exists>c'. kvc_run [OpSet ''k'' ''v'', OpGet ''k'', OpGet ''x''] (NewKVCache (Some \<lparr>kvs_m = [(''x'', ''y'')]\<rparr>)) = ([''v'', ''y''], c') \<and>
    mkv_Get (kvc_store (kvc_Sync c')) ''k'' = ''v'' \<and> kvc_store c' = \<lparr>kvs_m = [(''x'', ''y'')]\<rparr>"
proof -
  have "mkv_Get \<lparr>kvs_m = [(''x'', ''y'')]\<rparr> ''x'' = ''y''" by (simp add: mkv_Get_def)
  then show ?thesis
    using KVCache_refines_store [of "[OpSet ''k'' ''v'', OpGet ''k'', OpGet ''x'']" "\<lparr>kvs_m = [(''x'', ''y'')]\<rparr>"] by auto
qed

end
