(* ===== verification/Dmc_App.thy ===== *)
theory Dmc_App
  imports Dmc_Coin
begin

text \<open>
  The coin application: \<^verbatim>\<open>abci/app/dmccoin/execution.go\<close> and \<^verbatim>\<open>dmccoin.go\<close>, the base application of
  \<^verbatim>\<open>abci/types/application.go\<close>, and both behind the local client, as the connections the node calls.
\<close>

section \<open>Executing transactions\<close>

text \<open>Every response of \<open>ExecTx\<close> has code 0; they differ in the log.\<close>

datatype coin_log = LogMsg string | LogTotals "64 word" "64 word" | LogTx bytes

fun getInputs :: "'e dmc_ext_scheme \<Rightarrow> coin_state \<Rightarrow> tx_input list \<Rightarrow> (bytes \<rightharpoonup> account) \<Rightarrow> ((bytes \<rightharpoonup> account) \<times> int) or_panic" where
  "getInputs E s [] accounts = Inr (accounts, 1)"
| "getInputs E s (i # ins) accounts =
     (if accounts (in_Address i) \<noteq> None then Inr (Map.empty, 0)
      else case GetAccount E (cst_store s) (in_Address i) of
        None \<Rightarrow> Inr (Map.empty, 0)
      | Some acc \<Rightarrow>
          bindP (deref (in_PubKey i)) (\<lambda>k.
            getInputs E s ins (accounts(in_Address i \<mapsto> (if \<not> pk_Equals k (acc_PubKey acc) then acc\<lparr>acc_PubKey := Some k\<rparr> else acc)))))"

definition getInput :: "'e dmc_ext_scheme \<Rightarrow> coin_state \<Rightarrow> tx_input \<Rightarrow> (account \<times> int) or_panic" where
  "getInput E s i =
     bindP (deref (GetAccount E (cst_store s) (in_Address i))) (\<lambda>acc.
     bindP (deref (in_PubKey i)) (\<lambda>k.
       Inr (if \<not> pk_Equals k (acc_PubKey acc) then acc\<lparr>acc_PubKey := Some k\<rparr> else acc, 1)))"

fun getOrMakeOutputs :: "'e dmc_ext_scheme \<Rightarrow> coin_state \<Rightarrow> (bytes \<rightharpoonup> account) \<Rightarrow> tx_output list \<Rightarrow> (bytes \<rightharpoonup> account) \<times> int" where
  "getOrMakeOutputs E s accounts [] = (accounts, 1)"
| "getOrMakeOutputs E s accounts (out # outs) =
     (let (chain, outAddress, _) = ChainAndAddress out in
      if chain \<noteq> None then getOrMakeOutputs E s accounts outs
      else if accounts outAddress \<noteq> None then (Map.empty, 0)
      else let acc = (case GetAccount E (cst_store s) outAddress of None \<Rightarrow> zero_account | Some a \<Rightarrow> a) in
        getOrMakeOutputs E s (accounts(outAddress \<mapsto> acc)) outs)"

definition getOrMakeOutput :: "'e dmc_ext_scheme \<Rightarrow> coin_state \<Rightarrow> account \<Rightarrow> tx_output \<Rightarrow> account \<times> int" where
  "getOrMakeOutput E s accounts out =
     ((case GetAccount E (cst_store s) (out_Address out) of None \<Rightarrow> zero_account | Some a \<Rightarrow> a), 1)"

definition validateInputBasic :: "'e dmc_ext_scheme \<Rightarrow> tx_input \<Rightarrow> int or_panic" where
  "validateInputBasic E i = bindP (in_ValidateBasic E i) (\<lambda>res. if res = 0 then Inr res else Inr 1)"

fun validateInputsBasic :: "'e dmc_ext_scheme \<Rightarrow> tx_input list \<Rightarrow> int or_panic" where
  "validateInputsBasic E [] = Inr 1"
| "validateInputsBasic E (i # ins) =
     bindP (in_ValidateBasic E i) (\<lambda>res. if res = 0 then Inr res else validateInputsBasic E ins)"

definition validateInputAdvanced :: "'e dmc_ext_scheme \<Rightarrow> account \<Rightarrow> bytes \<Rightarrow> tx_input \<Rightarrow> int or_panic" where
  "validateInputAdvanced E acc signBytes i =
     (if acc_Balance acc < in_Coins i then Inr 0
      else bindP (deref (acc_PubKey acc)) (\<lambda>k. if \<not> VerifyBytes E k signBytes (in_Signature i) then Inr 0 else Inr 1))"

fun validateInputsAdvanced ::
  "'e dmc_ext_scheme \<Rightarrow> (bytes \<rightharpoonup> account) \<Rightarrow> bytes \<Rightarrow> tx_input list \<Rightarrow> 64 word \<Rightarrow> (64 word \<times> int) or_panic" where
  "validateInputsAdvanced E accounts signBytes [] tot = Inr (tot, 1)"
| "validateInputsAdvanced E accounts signBytes (i # ins) tot =
     (case accounts (in_Address i) of
        None \<Rightarrow> Inl (PanicSanity ''validateInputsAdvanced() expects account in accounts'')
      | Some acc \<Rightarrow>
          bindP (validateInputAdvanced E acc signBytes i) (\<lambda>res.
            if res = 0 then Inr (tot, res) else validateInputsAdvanced E accounts signBytes ins (tot + in_Coins i)))"

definition validateOutputBasic :: "tx_output \<Rightarrow> int" where
  "validateOutputBasic out = (let res = out_ValidateBasic out in if res = 0 then res else 1)"

fun validateOutputsBasic :: "tx_output list \<Rightarrow> int" where
  "validateOutputsBasic [] = 1"
| "validateOutputsBasic (out # outs) = (let res = out_ValidateBasic out in if res = 0 then res else validateOutputsBasic outs)"

definition sumOutputs :: "tx_output list \<Rightarrow> 64 word" where
  "sumOutputs outs = fold (\<lambda>out tot. tot + out_Coins out) outs 0"

definition adjustByInput :: "'e dmc_ext_scheme \<Rightarrow> coin_state \<Rightarrow> account \<Rightarrow> tx_input \<Rightarrow> (account \<times> coin_state) or_panic" where
  "adjustByInput E s acc i =
     (if acc_Balance acc < in_Coins i then Inl (PanicSanity ''adjustByInput() expects sufficient funds'')
      else let acc' = acc\<lparr>acc_Balance := acc_Balance acc - in_Coins i, acc_Height := wrap64 (acc_Height acc + 1)\<rparr> in
        Inr (acc', st_SetAccount E s (in_Address i) acc'))"

fun adjustByInputs ::
  "'e dmc_ext_scheme \<Rightarrow> coin_state \<Rightarrow> (bytes \<rightharpoonup> account) \<Rightarrow> tx_input list \<Rightarrow> ((bytes \<rightharpoonup> account) \<times> coin_state) or_panic" where
  "adjustByInputs E s accounts [] = Inr (accounts, s)"
| "adjustByInputs E s accounts (i # ins) =
     (case accounts (in_Address i) of
        None \<Rightarrow> Inl (PanicSanity ''adjustByInputs() expects account in accounts'')
      | Some acc \<Rightarrow>
          if acc_Balance acc < in_Coins i then Inl (PanicSanity ''adjustByInputs() expects sufficient funds'')
          else let acc' = acc\<lparr>acc_Balance := acc_Balance acc - in_Coins i, acc_Height := wrap64 (acc_Height acc + 1)\<rparr> in
            adjustByInputs E (st_SetAccount E s (in_Address i) acc') (accounts(in_Address i \<mapsto> acc')) ins)"

definition adjustByOutput :: "'e dmc_ext_scheme \<Rightarrow> coin_state \<Rightarrow> account \<Rightarrow> tx_output \<Rightarrow> bool \<Rightarrow> account \<times> coin_state" where
  "adjustByOutput E s acc out isCheckTx =
     (let (_, outAddress, _) = ChainAndAddress out;
          acc' = acc\<lparr>acc_Balance := acc_Balance acc + out_Coins out\<rparr> in
      (acc', if \<not> isCheckTx then st_SetAccount E s outAddress acc' else s))"

text \<open>A nil transaction has no id.\<close>

fun ExecTx :: "'e dmc_ext_scheme \<Rightarrow> coin_state \<Rightarrow> coin_tx option \<Rightarrow> bool \<Rightarrow> int \<Rightarrow> (coin_log \<times> coin_state) or_panic" where
  "ExecTx E s (Some (DMCTx t)) isCheckTx height =
     bindP (validateInputBasic E (dtx_Input t)) (\<lambda>res.
     if res = 0 then Inr (LogMsg ''In validateinputBasic()'', s)
     else if validateOutputBasic (dtx_Output t) = 0 then Inr (LogMsg ''in validateOutputBasic()'', s)
     else bindP (getInput E s (dtx_Input t)) (\<lambda>(account, res).
     if res = 0 then Inr (LogMsg ''in getInput()'', s)
     else let (account, res) = getOrMakeOutput E s account (dtx_Output t) in
     if res = 0 then Inr (LogMsg ''in getOrMakeOutput()'', s)
     else bindP (validateInputAdvanced E account (tx_SignBytes E (DMCTx t)) (dtx_Input t)) (\<lambda>res.
     if res = 0 then Inr (LogMsg ''in validateInputAdvanced()'', s)
     else
       let inTotal = in_Coins (dtx_Input t);
           outTotal = out_Coins (dtx_Output t);
           outPlusFees = (if dtx_Fee t \<noteq> 1 then outTotal + dtx_Fee t else outTotal) in
       if inTotal \<noteq> outPlusFees then Inr (LogTotals inTotal outPlusFees, s)
       else bindP (adjustByInput E s account (dtx_Input t)) (\<lambda>(account, s1).
         let (_, s2) = adjustByOutput E s1 account (dtx_Output t) isCheckTx in
         Inr (LogTx (TxID E (DMCTx t)), s2)))))"
| "ExecTx E s (Some (TxUTXO t)) isCheckTx height =
     Inr (LogTx (TxID E (TxUTXO t)), st_SetAccount E s (utxo_Address t)
       \<lparr>acc_PubKey = None, acc_Height = height, acc_Balance = utxo_Balance t, acc_Address = utxo_Address t\<rparr>)"
| "ExecTx E s (Some (AppTx t)) isCheckTx height = Inr (LogTx (TxID E (AppTx t)), s)"
| "ExecTx E s None isCheckTx height = Inl NilDereference"

section \<open>The application\<close>

definition maxTxSize :: nat where "maxTxSize = 10240"

record coin_app =
  app_state :: coin_state

definition NewDMCCoinApplication :: coin_app where
  "NewDMCCoinApplication = \<lparr>app_state = NewState NewMemKVS\<rparr>"

definition SetInitAccount :: "'e dmc_ext_scheme \<Rightarrow> coin_app \<Rightarrow> bytes \<Rightarrow> 64 word \<Rightarrow> coin_app" where
  "SetInitAccount E app addr balance =
     app\<lparr>app_state := st_SetAccount E (app_state app) addr
       \<lparr>acc_PubKey = None, acc_Height = 0, acc_Balance = balance, acc_Address = addr\<rparr>\<rparr>"

definition DeliverTx :: "'e dmc_ext_scheme \<Rightarrow> coin_app \<Rightarrow> bytes \<Rightarrow> int \<Rightarrow> (response_deliver_tx \<times> coin_app) or_panic" where
  "DeliverTx E app txBytes height =
     (if length txBytes > maxTxSize then Inr (\<lparr>rdt_Code = 1, rdt_Data = []\<rparr>, app)
      else case wire_ReadTx E txBytes of
        None \<Rightarrow> Inr (\<lparr>rdt_Code = 1, rdt_Data = []\<rparr>, app)
      | Some t \<Rightarrow>
          bindP (ExecTx E (app_state app) t False height) (\<lambda>(_, s').
            Inr (\<lparr>rdt_Code = 0, rdt_Data = []\<rparr>, app\<lparr>app_state := s'\<rparr>)))"

text \<open>The transactions this handler looks at are declared and never decoded: their addresses are nil.\<close>

definition DeliverBucketedTx :: "'e dmc_ext_scheme \<Rightarrow> coin_app \<Rightarrow> bytes \<Rightarrow> int \<Rightarrow> bytes \<Rightarrow> (response_deliver_tx \<times> coin_app) or_panic" where
  "DeliverBucketedTx E app txBytes height bucketID =
     (if length txBytes > maxTxSize then Inr (\<lparr>rdt_Code = 1, rdt_Data = []\<rparr>, app)
      else
        let trs = \<lparr>dtx_Fee = 0, dtx_Input = \<lparr>in_Address = [], in_Coins = 0, in_Sequence = 0, in_Signature = None, in_PubKey = None\<rparr>,
                   dtx_Output = \<lparr>out_Address = [], out_Coins = 0\<rparr>\<rparr>;
            trx = \<lparr>utxo_Address = [], utxo_Balance = 0\<rparr>;
            s1 = (if go_rem height 100 = 1 \<and> height > 1
                  then st_SetAccount E (app_state app) (in_Address (dtx_Input trs))
                    (zero_account\<lparr>acc_Height := height, acc_Balance := utxo_Balance trx\<rparr>)
                  else app_state app) in
        bindP (go_slice (out_Address (dtx_Output trs)) 0 2) (\<lambda>p.
          if p = bucketID
          then bindP (deref (GetAccount E (cst_store s1) (out_Address (dtx_Output trs)))) (\<lambda>a.
            Inr (\<lparr>rdt_Code = 0, rdt_Data = []\<rparr>, app\<lparr>app_state := st_SetAccount E s1 (out_Address (dtx_Output trs))
              (zero_account\<lparr>acc_Height := height, acc_Balance := acc_Balance a - out_Coins (dtx_Output trs)\<rparr>)\<rparr>))
          else Inr (\<lparr>rdt_Code = 0, rdt_Data = []\<rparr>, app\<lparr>app_state := s1\<rparr>)))"

definition CheckTx :: "'e dmc_ext_scheme \<Rightarrow> coin_rt \<Rightarrow> coin_app \<Rightarrow> bytes \<Rightarrow> int \<Rightarrow> response_check_tx or_panic" where
  "CheckTx E R app txBytes height =
     (if length txBytes > maxTxSize then Inr \<lparr>rct_Code = 1, rct_BucketIDs = []\<rparr>
      else if go_rem height 100 = 1 \<and> height > 1
      then let trx = json_TxUTXO E txBytes in
        bindP (deref (GetAccount E (cst_store (app_state app)) (utxo_Address trx))) (\<lambda>a.
        bindP (if acc_Height a \<noteq> height - 1 then go_slice (utxo_Address trx) 0 2 else Inr []) (\<lambda>_.
          Inr \<lparr>rct_Code = 0, rct_BucketIDs = []\<rparr>))
      else let trs = json_DMCTx E txBytes in
        if in_Sequence (dtx_Input trs) \<noteq> height then Inr \<lparr>rct_Code = 1, rct_BucketIDs = []\<rparr>
        else bindP (go_slice (data_String E (in_Address (dtx_Input trs))) 0 2) (\<lambda>b.
          Inr \<lparr>rct_Code = 0, rct_BucketIDs = [b]\<rparr>))"

text \<open>A validator of a response has an address and a power only.\<close>

definition account_validator :: "int \<Rightarrow> account \<Rightarrow> abci_validator" where
  "account_validator pow acc = \<lparr>av_Address = acc_Address acc, av_PubKey = \<lparr>apk_Type = [], apk_Data = []\<rparr>, av_Power = pow\<rparr>"

definition GetValidatorSet :: "'e dmc_ext_scheme \<Rightarrow> coin_rt \<Rightarrow> coin_app \<Rightarrow> int \<Rightarrow> response_get_validator_set or_panic" where
  "GetValidatorSet E R app height =
     (if height < 0
      then let allAccounts = GetAllAccounts E R (cst_store (app_state app)) in
        bindP (slice_at allAccounts 0) (\<lambda>_.
          Inr \<lparr>rgv_ValidatorSet = map (\<lambda>a. account_validator (sint (acc_Balance a)) a) allAccounts\<rparr>)
      else
        let lastUTXOheight = height div 100 * 100 + 1 in
        bindP (GetAllAccountsInSegment E R (cst_store (app_state app)) (show_hex (nat (height mod 100))) 2) (\<lambda>accs.
        bindP (slice_at accs 0) (\<lambda>_.
          if \<exists>a \<in> set accs. acc_Height a \<ge> lastUTXOheight then Inr \<lparr>rgv_ValidatorSet = []\<rparr>
          else Inr \<lparr>rgv_ValidatorSet = map (account_validator 1) (TopkAccounts R accs 100)\<rparr>)))"

section \<open>Behind the local client\<close>

text \<open>
  The client calls the application in the process of the node and reports no error; the methods the coin
  application leaves to the base application answer the zero response.
\<close>

definition coin_conn :: "'e dmc_ext_scheme \<Rightarrow> coin_rt \<Rightarrow> coin_app app_conn" where
  "coin_conn E R = \<lparr>conn_Error = (\<lambda>app. None), conn_FlushSync = (\<lambda>app. Inr (None, app)),
     conn_CheckTx = (\<lambda>app t height. bindP (CheckTx E R app t height) (\<lambda>r. Inr (r, app))),
     conn_BeginBlock = (\<lambda>app hash h vs. Inr (None, app)),
     conn_DeliverTx = DeliverTx E,
     conn_DeliverBucketedTx = (\<lambda>app t height b. bindP (DeliverBucketedTx E app t height b) (\<lambda>(_, app'). Inr app')),
     conn_EndBlock = (\<lambda>app. Inr (Inr \<lparr>ValidatorUpdates = [], ConsensusParamUpdates = None\<rparr>, app)),
     conn_GetValidatorSet = (\<lambda>app height. bindP (GetValidatorSet E R app height) (\<lambda>r. Inr (Inr r, app))),
     conn_Commit = (\<lambda>app. Inr (Inr [], app))\<rparr>"

definition base_conn :: "unit app_conn" where
  "base_conn = \<lparr>conn_Error = (\<lambda>app. None), conn_FlushSync = (\<lambda>app. Inr (None, app)),
     conn_CheckTx = (\<lambda>app t height. Inr (\<lparr>rct_Code = CodeTypeOK, rct_BucketIDs = []\<rparr>, app)),
     conn_BeginBlock = (\<lambda>app hash h vs. Inr (None, app)),
     conn_DeliverTx = (\<lambda>app t height. Inr (\<lparr>rdt_Code = CodeTypeOK, rdt_Data = []\<rparr>, app)),
     conn_DeliverBucketedTx = (\<lambda>app t height b. Inr app),
     conn_EndBlock = (\<lambda>app. Inr (Inr \<lparr>ValidatorUpdates = [], ConsensusParamUpdates = None\<rparr>, app)),
     conn_GetValidatorSet = (\<lambda>app height. Inr (Inr \<lparr>rgv_ValidatorSet = []\<rparr>, app)),
     conn_Commit = (\<lambda>app. Inr (Inr [], app))\<rparr>"

section \<open>Runs of the application\<close>

inductive coin_run :: "'e dmc_ext_scheme \<Rightarrow> coin_app \<Rightarrow> bool" for E where
  coin_start: "coin_run E NewDMCCoinApplication"
| coin_init: "coin_run E app \<Longrightarrow> coin_run E (SetInitAccount E app addr balance)"
| coin_deliver: "coin_run E app \<Longrightarrow> DeliverTx E app txBytes height = Inr (r, app') \<Longrightarrow> coin_run E app'"
| coin_bucketed: "coin_run E app \<Longrightarrow> DeliverBucketedTx E app txBytes height b = Inr (r, app') \<Longrightarrow> coin_run E app'"

lemma DeliverBucketedTx_eq:
  "DeliverBucketedTx E app txBytes height b =
     (if length txBytes > maxTxSize then Inr (\<lparr>rdt_Code = 1, rdt_Data = []\<rparr>, app) else Inl IndexOutOfRange)"
  by (simp add: DeliverBucketedTx_def Let_def go_slice_def)

text \<open>A transaction changes nothing but accounts.\<close>

definition accounts_only :: "'e dmc_ext_scheme \<Rightarrow> coin_state \<Rightarrow> coin_state \<Rightarrow> bool" where
  "accounts_only E s s' \<longleftrightarrow> (\<exists>m. s' = s\<lparr>cst_store := m\<rparr> \<and> (account_store E (cst_store s) \<longrightarrow> account_store E m))"

lemma accounts_only_upd: "(account_store E (cst_store s) \<Longrightarrow> account_store E m) \<Longrightarrow> accounts_only E s (s\<lparr>cst_store := m\<rparr>)"
  by (auto simp: accounts_only_def)

lemma accounts_only_refl: "accounts_only E s s"
  using accounts_only_upd [of E s "cst_store s"] by simp

lemma ExecTx_accounts_only: "okP (\<lambda>(l, s'). accounts_only E s s') (ExecTx E s t isCheckTx height)"
  by (cases "(E, s, t, isCheckTx, height)" rule: ExecTx.cases)
    (auto simp: okP_def Let_def adjustByInput_def adjustByOutput_def accounts_only_refl SetAccount_accounts
      elim!: bindP_Inr_E intro!: accounts_only_upd split: if_split_asm prod.split_asm)

lemma DeliverTx_accounts_only:
  assumes "DeliverTx E app txBytes height = Inr (r, app')"
  shows "accounts_only E (app_state app) (app_state app')"
  using assms ExecTx_accounts_only [of E "app_state app" _ False height]
  by (fastforce simp: DeliverTx_def okP_def accounts_only_refl elim!: bindP_Inr_E split: if_split_asm option.split_asm)

lemma coin_run_store: "coin_run E app \<Longrightarrow> account_store E (cst_store (app_state app)) \<and> cst_readCache (app_state app) = Some [] \<and> cst_writeCache (app_state app) = None"
proof (induction rule: coin_run.induct)
  case coin_start
  then show ?case by (simp add: NewDMCCoinApplication_def NewState_def NewMemKVS_accounts)
next
  case (coin_init app addr balance)
  then show ?case by (simp add: SetInitAccount_def SetAccount_accounts)
next
  case (coin_deliver app txBytes height r app')
  then have "accounts_only E (app_state app) (app_state app')" by (intro DeliverTx_accounts_only)
  then show ?case using coin_deliver.IH by (auto simp: accounts_only_def)
next
  case (coin_bucketed app txBytes height b r app')
  then show ?case by (auto simp: DeliverBucketedTx_eq split: if_split_asm)
qed

section \<open>Transfers\<close>

text \<open>The account that a transfer works on is that of the output.\<close>

definition receiver :: "'e dmc_ext_scheme \<Rightarrow> coin_state \<Rightarrow> dmc_tx \<Rightarrow> account" where
  "receiver E s t = (case GetAccount E (cst_store s) (out_Address (dtx_Output t)) of None \<Rightarrow> zero_account | Some a \<Rightarrow> a)"

text \<open>
  A transfer that is accepted was checked against the balance and the key of the receiver, and leaves the
  account of the receiver, less the coins, as the account of the sender.
\<close>

lemma transfer_charges_receiver:
  assumes "ExecTx E s (Some (DMCTx t)) isCheckTx height = Inr (LogTx l, s')"
  shows "in_Coins (dtx_Input t) \<le> acc_Balance (receiver E s t)"
    "\<exists>k. acc_PubKey (receiver E s t) = Some k \<and> VerifyBytes E k (tx_SignBytes E (DMCTx t)) (in_Signature (dtx_Input t))"
    "isCheckTx \<Longrightarrow> s' = st_SetAccount E s (in_Address (dtx_Input t))
      ((receiver E s t)\<lparr>acc_Balance := acc_Balance (receiver E s t) - in_Coins (dtx_Input t), acc_Height := wrap64 (acc_Height (receiver E s t) + 1)\<rparr>)"
  using assms
  by (auto simp: receiver_def getOrMakeOutput_def getInput_def validateInputAdvanced_def adjustByInput_def adjustByOutput_def Let_def linorder_not_less
      elim!: bindP_Inr_E split: if_split_asm prod.split_asm)

lemma transfer_rejected:
  assumes "acc_PubKey (receiver E s t) = None"
  shows "ExecTx E s (Some (DMCTx t)) isCheckTx height = Inl NilDereference \<or> (\<exists>l. ExecTx E s (Some (DMCTx t)) isCheckTx height = Inr (l, s))"
proof -
  let ?r = "ExecTx E s (Some (DMCTx t)) isCheckTx height"
  have v: "validateInputBasic E (dtx_Input t) = Inl NilDereference \<or> (\<exists>r. validateInputBasic E (dtx_Input t) = Inr r)"
    by (cases "in_PubKey (dtx_Input t)") (auto simp: validateInputBasic_def in_ValidateBasic_def)
  have i: "getInput E s (dtx_Input t) = Inl NilDereference \<or> (\<exists>a. getInput E s (dtx_Input t) = Inr (a, 1))"
    by (cases "GetAccount E (cst_store s) (in_Address (dtx_Input t))"; cases "in_PubKey (dtx_Input t)") (auto simp: getInput_def)
  have g: "getOrMakeOutput E s a (dtx_Output t) = (receiver E s t, 1)" for a by (simp add: getOrMakeOutput_def receiver_def)
  have a: "validateInputAdvanced E (receiver E s t) m j = Inl NilDereference \<or> validateInputAdvanced E (receiver E s t) m j = Inr 0" for m j
    by (simp add: validateInputAdvanced_def assms)
  show ?thesis
  proof (cases "validateInputBasic E (dtx_Input t) \<in> {Inl NilDereference, Inr 0} \<or> validateOutputBasic (dtx_Output t) = 0")
    case True
    then show ?thesis using v by (cases "validateInputBasic E (dtx_Input t) = Inr 0") (auto simp: Let_def)
  next
    case False
    then show ?thesis using v i a [of "tx_SignBytes E (DMCTx t)" "dtx_Input t"] by (auto simp: g)
  qed
qed

section \<open>The validators an application reports\<close>

lemma TopkAccounts_spec:
  assumes "fair_rt R"
  shows "\<exists>rest. mset (TopkAccounts R accs k @ rest) = mset accs \<and> length (TopkAccounts R accs k) = min k (length accs) \<and>
    (\<forall>a \<in> set (TopkAccounts R accs k). \<forall>b \<in> set rest. acc_Balance a \<le> acc_Balance b)"
proof -
  let ?xs = "sort_Slice R (\<lambda>a b. acc_Balance a < acc_Balance b) accs"
  have xs: "mset ?xs = mset accs" "sorted (map acc_Balance ?xs)" using assms by (simp_all add: fair_rt_def)
  have t: "TopkAccounts R accs k = take k ?xs" by (simp add: TopkAccounts_def Let_def)
  have "mset (take k ?xs @ drop k ?xs) = mset accs" using xs(1) by simp
  moreover have "length (take k ?xs) = min k (length accs)" using mset_eq_length [OF xs(1)] by simp
  moreover have "\<forall>a \<in> set (take k ?xs). \<forall>b \<in> set (drop k ?xs). acc_Balance a \<le> acc_Balance b"
  proof -
    have "sorted (map acc_Balance (take k ?xs) @ map acc_Balance (drop k ?xs))" using xs(2) by (simp flip: map_append)
    then show ?thesis by (auto simp: sorted_append)
  qed
  ultimately show ?thesis unfolding t by blast
qed

lemma GetValidatorSet_eq:
  assumes "fair_rt R" "account_store E (cst_store (app_state app))" "0 \<le> height"
  shows "GetValidatorSet E R app height =
    (let accs = GetAllAccounts E R (cst_store (app_state app)) in
     if accs = [] then Inl IndexOutOfRange
     else if \<exists>a \<in> set (all_accounts E (cst_store (app_state app))). height div 100 * 100 + 1 \<le> acc_Height a then Inr \<lparr>rgv_ValidatorSet = []\<rparr>
     else Inr \<lparr>rgv_ValidatorSet = map (account_validator 1) (TopkAccounts R accs 100)\<rparr>)"
proof -
  have "set (GetAllAccounts E R (cst_store (app_state app))) = set (all_accounts E (cst_store (app_state app)))"
    using GetAllAccounts_mset [OF assms(1)] by (metis set_mset_mset)
  then show ?thesis
    using assms(3) unfolding GetValidatorSet_def segment_all [OF assms(1,2)] by (auto simp: Let_def slice_at_def)
qed

text \<open>A run time, for examples: maps in the order of their lists, and an insertion sort.\<close>

definition insert_by :: "('a \<Rightarrow> 'a \<Rightarrow> bool) \<Rightarrow> 'a \<Rightarrow> 'a list \<Rightarrow> 'a list" where
  "insert_by f x ys = takeWhile (\<lambda>y. f y x) ys @ x # dropWhile (\<lambda>y. f y x) ys"

definition demo_rt :: coin_rt where
  "demo_rt = \<lparr>map_range = id, sort_Slice = (\<lambda>f xs. foldr (insert_by f) xs [])\<rparr>"

lemma insert_by_mset: "mset (insert_by f x ys) = add_mset x (mset ys)"
proof -
  have "mset (takeWhile (\<lambda>y. f y x) ys @ dropWhile (\<lambda>y. f y x) ys) = mset ys" by simp
  then show ?thesis unfolding insert_by_def by (simp only: mset_append mset.simps) simp
qed

lemma insert_by_sorted:
  fixes key :: "'a \<Rightarrow> 'b :: linorder"
  assumes "sorted (map key ys)"
  shows "sorted (map key (insert_by (\<lambda>a b. key a < key b) x ys))"
  using assms
proof (induction ys)
  case (Cons y ys)
  have "set (insert_by (\<lambda>a b. key a < key b) x ys) = insert x (set ys)"
    using insert_by_mset [of "\<lambda>a b. key a < key b" x ys] by (metis set_mset_mset set_mset_add_mset_insert)
  then show ?case using Cons by (auto simp: insert_by_def less_imp_le dest: set_takeWhileD set_dropWhileD)
qed (simp add: insert_by_def)

lemma demo_rt_fair: "fair_rt demo_rt"
proof -
  have "mset (foldr (insert_by f) xs []) = mset xs" for f :: "account \<Rightarrow> account \<Rightarrow> bool" and xs
    by (induction xs) (simp_all add: insert_by_mset)
  moreover have "sorted (map key (foldr (insert_by (\<lambda>a b. key a < key b)) xs []))" for key :: "account \<Rightarrow> 64 word" and xs
    by (induction xs) (simp_all add: insert_by_sorted)
  ultimately show ?thesis by (simp add: fair_rt_def demo_rt_def)
qed

section \<open>Behind the client\<close>

lemma ApplyBucket_coin:
  "ApplyBucket (coin_conn E R) height b ts app = (if \<forall>t \<in> set ts. maxTxSize < length t then Inr (None, app) else Inl IndexOutOfRange)"
  by (induction ts) (auto simp: coin_conn_def DeliverBucketedTx_eq)

lemma base_conn_agreeable: "agreeable base_conn"
  by (simp add: agreeable_def obliging_def answers_def base_conn_def)

text \<open>The validators after a block are asked of the application that the block left.\<close>

lemma deliver_txs_coin:
  "deliver_txs (coin_conn E R) height ts app rs i = Inr (err, app', rs') \<Longrightarrow> coin_run E app \<Longrightarrow> coin_run E app'"
proof (induction ts arbitrary: app rs i)
  case (Cons t ts)
  obtain r app1 where d: "DeliverTx E app t height = Inr (r, app1)" and n: "deliver_txs (coin_conn E R) height ts app1 (rs[i := Some r]) (Suc i) = Inr (err, app', rs')"
    using Cons.prems(1) by (auto simp: coin_conn_def elim!: bindP_Inr_E split: if_split_asm)
  show ?case by (rule Cons.IH [OF n]) (rule coin_deliver [OF Cons.prems(2) d])
qed simp

lemma executed_coin:
  assumes "execBlockOnProxyApp E (coin_conn E R) app b lastVals = Inr (Inr arz, app')" "coin_run E app" "blk_Header (blk_hashed E b) = Some h"
  shows "coin_run E app' \<and> (\<exists>g. ar_GetValidatorSet arz = Some g \<and> GetValidatorSet E R app' (wrap64 (hdr_Height h + 1)) = Inr g)"
proof -
  have c: "conn_BeginBlock (coin_conn E R) = (\<lambda>app hash h vs. Inr (None, app))"
      "conn_EndBlock (coin_conn E R) = (\<lambda>app. Inr (Inr \<lparr>ValidatorUpdates = [], ConsensusParamUpdates = None\<rparr>, app))"
      "conn_GetValidatorSet (coin_conn E R) = (\<lambda>app height. bindP (GetValidatorSet E R app height) (\<lambda>r. Inr (Inr r, app)))"
    by (simp_all add: coin_conn_def)
  obtain ts rs i err rs' g where d: "deliver_txs (coin_conn E R) (hdr_Height h) ts app rs i = Inr (err, app', rs')"
      and g: "GetValidatorSet E R app' (wrap64 (hdr_Height h + 1)) = Inr g" "ar_GetValidatorSet arz = Some g"
    using assms(1,3) unfolding execBlockOnProxyApp_def c
    by (auto elim!: bindP_Inr_E split: option.split_asm prod.split_asm sum.split_asm)
  then show ?thesis using deliver_txs_coin [OF d assms(2)] by blast
qed

lemma set_updates_power:
  "\<forall>u \<in> set us. av_Power u = p \<Longrightarrow> p \<noteq> 0 \<Longrightarrow> a \<in> av_Address ` set us \<or> (\<exists>v. m a = Some v \<and> VotingPower v = p) \<Longrightarrow>
    \<exists>v. fold set_update us m a = Some v \<and> VotingPower v = p"
proof (induction us arbitrary: m)
  case (Cons u us)
  have "a \<in> av_Address ` set us \<or> (\<exists>v. set_update u m a = Some v \<and> VotingPower v = p)"
    using Cons.prems by (auto simp: set_update_def)
  then show ?case using Cons by simp
qed simp

section \<open>Properties\<close>

text \<open>
  C36: the store of the application. In every state the application reaches by setting up accounts and
  delivering transactions, the store holds accounts only, one for each key, under keys of addresses; reading
  through the state reads the store; and the write cache was never made, so that syncing it panics.
\<close>

theorem Coin_store_wellformed:
  assumes "coin_run E app"
  shows "account_store E (cst_store (app_state app)) \<and> cst_Get (app_state app) = mkv_Get (cst_store (app_state app)) \<and>
    CacheSync (app_state app) = Inl NilDereference"
  using coin_run_store [OF assms] by (simp add: cst_Get_def CacheSync_def fun_eq_iff)

theorem Coin_store_wellformed_witness:
  "account_store demo_dmc (cst_store (app_state (SetInitAccount demo_dmc NewDMCCoinApplication ''a'' 5)))"
  using Coin_store_wellformed [OF coin_init [OF coin_start, of demo_dmc "''a''" 5]] by blast

text \<open>
  C37: no transfer is ever executed. The key of an account that is read back from the store is nil, since the
  JSON decoder does not fill in an interface; so when a transfer is delivered, the application panics
  or leaves its state as it was and answers with the code of success.
\<close>

theorem No_transfer_succeeds:
  assumes "\<And>bz. acc_PubKey (json_Account E bz) = None" "wire_ReadTx E txBytes = Some (Some (DMCTx t))" "length txBytes \<le> maxTxSize"
  shows "DeliverTx E app txBytes height = Inl NilDereference \<or> DeliverTx E app txBytes height = Inr (\<lparr>rdt_Code = 0, rdt_Data = []\<rparr>, app)"
proof -
  have "acc_PubKey (receiver E (app_state app) t) = None"
    using assms(1) by (simp add: receiver_def GetAccount_def zero_account_def Let_def split: option.split)
  from transfer_rejected [OF this, of False height] show ?thesis using assms(2,3) by (auto simp: DeliverTx_def simp del: ExecTx.simps)
qed

definition coin_demo :: dmc_ext where
  "coin_demo = demo_dmc\<lparr>json_Account := (\<lambda>bz. \<lparr>acc_PubKey = None, acc_Height = 0, acc_Balance = of_nat (length bz), acc_Address = bz\<rparr>),
     wire_JSONAccount := acc_Address, wire_ReadTx := (\<lambda>bz. Some (Some (DMCTx \<lparr>dtx_Fee = 1,
       dtx_Input = \<lparr>in_Address = replicate 64 CHR ''a'', in_Coins = 1, in_Sequence = 1, in_Signature = None, in_PubKey = Some (PubKeyEd25519 bz)\<rparr>,
       dtx_Output = \<lparr>out_Address = replicate 20 CHR ''b'', out_Coins = 1\<rparr>\<rparr>)))\<rparr>"

theorem No_transfer_succeeds_witness:
  "DeliverTx coin_demo NewDMCCoinApplication ''t'' 1 = Inl NilDereference \<or>
    DeliverTx coin_demo NewDMCCoinApplication ''t'' 1 = Inr (\<lparr>rdt_Code = 0, rdt_Data = []\<rparr>, NewDMCCoinApplication)"
  by (rule No_transfer_succeeds) (simp_all add: coin_demo_def maxTxSize_def)


definition coin_demo_app :: coin_app where
  "coin_demo_app = SetInitAccount coin_demo NewDMCCoinApplication ''c'' 5"

lemma coin_demo_app:
  "coin_run coin_demo coin_demo_app" "all_accounts coin_demo (cst_store (app_state coin_demo_app)) =
    [\<lparr>acc_PubKey = None, acc_Height = 0, acc_Balance = 1, acc_Address = ''c''\<rparr>]"
  by (simp_all add: coin_demo_app_def coin_start coin_init)
    (simp add: SetInitAccount_def NewDMCCoinApplication_def NewState_def NewMemKVS_def SetAccount_def mkv_Set_def all_accounts_def coin_demo_def)


lemma reported_unseated:
  assumes "updateState E s bid h arz = Inr (Inr s')" "st_Validators s = Some vs" "vs_wf vs" "ar_GetValidatorSet arz = Some g" "st_Validators s' = Some vs'"
    and "u \<in> set (rgv_ValidatorSet g)" "\<forall>u \<in> set (rgv_ValidatorSet g). av_Power u = 1"
  shows "\<exists>i < length (Validators vs'). v_Address (Validators vs' ! i) = av_Address u \<and> VotingPower (Validators vs' ! i) = 1 \<and>
    (\<forall>chainID bid' height c. VerifyCommit E vs' chainID bid' height c = Inr None \<longrightarrow> Precommits c ! i = None)"
proof -
  have "rgv_ValidatorSet g \<noteq> []" using assms(6) by auto
  then obtain vs1 where v1: "vs_wf vs1" "vs_lookup vs1 = fold set_update (rgv_ValidatorSet g) (vs_lookup vs)" "map v_view (Validators vs') = map v_view (Validators vs1)"
    using updated_set [OF assms(1-5)] by blast
  obtain v where v: "vs_lookup vs1 (av_Address u) = Some v" "VotingPower v = 1"
    using set_updates_power [of "rgv_ValidatorSet g" 1 "av_Address u" "vs_lookup vs"] assms(6,7) unfolding v1(2) by auto
  then have "v \<in> set (Validators vs1)" "v_Address v = av_Address u" using lookup_iff [of vs1 "av_Address u" v] v1(1) by (auto simp: vs_wf_def)
  then obtain i where i: "i < length (Validators vs1)" "Validators vs1 ! i = v" by (auto simp: in_set_conv_nth)
  have l: "length (Validators vs') = length (Validators vs1)" by (rule map_eq_imp_length_eq [OF v1(3)])
  have view: "v_view (Validators vs' ! i) = v_view v" using arg_cong [OF v1(3), of "\<lambda>xs. xs ! i"] i l by simp
  then have "v_Address (Validators vs' ! i) = av_Address u" "VotingPower (Validators vs' ! i) = 1" using v \<open>v_Address v = av_Address u\<close> by simp_all
  then show ?thesis using updated_cannot_sign [OF assms(1-5)] i l assms(6) by (intro exI [of _ i]) auto
qed

text \<open>
  C19: the accounts become validators that cannot sign. When a block is executed on the coin application and
  its accounts are all older than the last height that is 1 modulo 100, then after the block 100 of the accounts, or
  all if there are fewer, have a slot in the validator set, with power 1, and no commit with a precommit in
  such a slot verifies.
\<close>

theorem Coin_block_unseats:
  assumes "fair_rt R" "coin_run E app" "execBlockOnProxyApp E (coin_conn E R) app b lastVals = Inr (Inr arz, app')"
    and "blk_Header (blk_hashed E b) = Some h" "0 \<le> hdr_Height h" "hdr_Height h + 1 < MaxInt64"
    and "updateState E s bid h arz = Inr (Inr s')" "st_Validators s = Some vs" "vs_wf vs" "st_Validators s' = Some vs'"
    and "\<forall>a \<in> set (all_accounts E (cst_store (app_state app'))). acc_Height a < (hdr_Height h + 1) div 100 * 100 + 1"
  shows "\<exists>chosen rest. mset (chosen @ rest) = mset (all_accounts E (cst_store (app_state app'))) \<and>
    length chosen = min 100 (length (all_accounts E (cst_store (app_state app')))) \<and>
    (\<forall>a \<in> set chosen. \<exists>i < length (Validators vs'). v_Address (Validators vs' ! i) = acc_Address a \<and> VotingPower (Validators vs' ! i) = 1 \<and>
      (\<forall>chainID bid' height c. VerifyCommit E vs' chainID bid' height c = Inr None \<longrightarrow> Precommits c ! i = None))"
proof -
  let ?accs = "all_accounts E (cst_store (app_state app'))" and ?xs = "GetAllAccounts E R (cst_store (app_state app'))"
  have w: "wrap64 (hdr_Height h + 1) = hdr_Height h + 1" using assms(5,6) by (simp add: int64_defs)
  obtain g where r: "coin_run E app'" and g: "ar_GetValidatorSet arz = Some g" "GetValidatorSet E R app' (hdr_Height h + 1) = Inr g"
    using executed_coin [OF assms(3,2,4)] unfolding w by blast
  have m: "mset ?xs = mset ?accs" by (rule GetAllAccounts_mset [OF assms(1)])
  obtain rest where t: "mset (TopkAccounts R ?xs 100 @ rest) = mset ?accs" "length (TopkAccounts R ?xs 100) = min 100 (length ?accs)"
    using TopkAccounts_spec [OF assms(1), of ?xs 100] mset_eq_length [OF m] unfolding m by auto
  have "\<exists>i < length (Validators vs'). v_Address (Validators vs' ! i) = acc_Address a \<and> VotingPower (Validators vs' ! i) = 1 \<and>
      (\<forall>chainID bid' height c. VerifyCommit E vs' chainID bid' height c = Inr None \<longrightarrow> Precommits c ! i = None)"
    if a: "a \<in> set (TopkAccounts R ?xs 100)" for a
  proof -
    have "\<not> (\<exists>a \<in> set ?accs. (hdr_Height h + 1) div 100 * 100 + 1 \<le> acc_Height a)" "?xs \<noteq> []"
      using assms(11) a t(2) m by (auto simp: not_le)
    then have gs: "rgv_ValidatorSet g = map (account_validator 1) (TopkAccounts R ?xs 100)"
      using g(2) GetValidatorSet_eq [OF assms(1) _, of E app' "hdr_Height h + 1"] coin_run_store [OF r] assms(5) by (auto simp: Let_def)
    have "account_validator 1 a \<in> set (rgv_ValidatorSet g)" "\<forall>u \<in> set (rgv_ValidatorSet g). av_Power u = 1"
      using a by (auto simp: gs account_validator_def)
    from reported_unseated [OF assms(7-9) g(1) assms(10) this] show ?thesis by (simp add: account_validator_def)
  qed
  then show ?thesis using t by (intro exI [of _ "TopkAccounts R ?xs 100"] exI [of _ rest]) blast
qed

definition coin_demo_block :: block where
  "coin_demo_block = \<lparr>blk_Header = Some zero_header, blk_Data = Some \<lparr>TxBuckets = []\<rparr>, blk_Commit = None\<rparr>"

lemma coin_demo_reports: "GetValidatorSet coin_demo demo_rt coin_demo_app 1 = Inr \<lparr>rgv_ValidatorSet = [demo_update ''c'' 1]\<rparr>"
proof -
  have a: "account_store coin_demo (cst_store (app_state coin_demo_app))" using coin_run_store [OF coin_demo_app(1)] by blast
  have "GetAllAccounts coin_demo demo_rt (cst_store (app_state coin_demo_app)) = [\<lparr>acc_PubKey = None, acc_Height = 0, acc_Balance = 1, acc_Address = ''c''\<rparr>]"
    using coin_demo_app(2) by (simp add: GetAllAccounts_def mkv_GetAllAcc_def demo_rt_def all_accounts_def case_prod_beta' o_def)
  then show ?thesis using GetValidatorSet_eq [OF demo_rt_fair a, of 1] coin_demo_app(2)
    by (simp add: TopkAccounts_def demo_rt_def insert_by_def account_validator_def demo_update_def no_abci_key_def)
qed

lemma coin_demo_exec:
  "execBlockOnProxyApp coin_demo (coin_conn coin_demo demo_rt) coin_demo_app coin_demo_block (Some (demo_pair\<lparr>Validators := []\<rparr>)) =
    Inr (Inr \<lparr>ar_DeliverTx = [], ar_EndBlock = Some \<lparr>ValidatorUpdates = [], ConsensusParamUpdates = None\<rparr>,
      ar_GetValidatorSet = Some \<lparr>rgv_ValidatorSet = [demo_update ''c'' 1]\<rparr>\<rparr>, coin_demo_app)"
  by (simp add: execBlockOnProxyApp_def NewABCIResponses_def getBeginBlockValidatorInfo_def coin_demo_block_def blk_hashed_def coin_conn_def
      zero_header_def wrap64_def coin_demo_reports)

theorem Coin_block_unseats_witness:
  "\<exists>i < length (Validators demo_pair_next). v_Address (Validators demo_pair_next ! i) = ''c'' \<and> VotingPower (Validators demo_pair_next ! i) = 1"
proof -
  obtain s' where s': "updateState coin_demo (zero_state\<lparr>st_Validators := Some demo_pair\<rparr>) zero_bid zero_header
     \<lparr>ar_DeliverTx = [], ar_EndBlock = Some \<lparr>ValidatorUpdates = [], ConsensusParamUpdates = None\<rparr>,
      ar_GetValidatorSet = Some \<lparr>rgv_ValidatorSet = [demo_update ''c'' 1]\<rparr>\<rparr> = Inr (Inr s')" "st_Validators s' = Some demo_pair_next"
    by (auto simp: updateState_def demo_pair_update demo_pair_rotate zero_state_def ResultsHash_def NewResults_def Let_def)
  have wf: "vs_wf demo_pair" by (simp add: vs_wf_def sorted_vals_def cache_ok_def demo_pair_def demo_validator_def)
  have h: "blk_Header (blk_hashed coin_demo coin_demo_block) = Some zero_header" by (simp add: coin_demo_block_def blk_hashed_def)
  from Coin_block_unseats [OF demo_rt_fair coin_demo_app(1) coin_demo_exec h _ _ s'(1) _ wf s'(2)] obtain chosen rest where
    c: "mset (chosen @ rest) = {#\<lparr>acc_PubKey = None, acc_Height = 0, acc_Balance = 1, acc_Address = ''c''\<rparr>#}" "length chosen = 1"
      "\<forall>a \<in> set chosen. \<exists>i < length (Validators demo_pair_next). v_Address (Validators demo_pair_next ! i) = acc_Address a \<and>
        VotingPower (Validators demo_pair_next ! i) = 1 \<and>
        (\<forall>chainID bid' height c. VerifyCommit coin_demo demo_pair_next chainID bid' height c = Inr None \<longrightarrow> Precommits c ! i = None)"
    unfolding coin_demo_app(2) by (simp add: zero_header_def int64_defs) blast
  then obtain a where a: "chosen = [a]" by (auto simp: length_Suc_conv)
  then have "acc_Address a = ''c''" using c(1) by (auto dest: arg_cong [of _ _ set_mset])
  then show ?thesis using c(3) a by auto
qed

end
