(* ===== verification/Light_Client.thy ===== *)
theory Light_Client
  imports Blocks
begin

text \<open>
  \<^verbatim>\<open>lite\<close>: the light client. Signed headers and full commits (\<^verbatim>\<open>commit.go\<close>), the three certifiers
  (\<^verbatim>\<open>static_certifier.go\<close>, \<^verbatim>\<open>dynamic_certifier.go\<close>, \<^verbatim>\<open>inquiring_certifier.go\<close>), and the providers in
  memory and over a node (\<^verbatim>\<open>memprovider.go\<close>, \<^verbatim>\<open>provider.go\<close>, \<^verbatim>\<open>client/provider.go\<close>).
\<close>

section \<open>Commits\<close>

datatype lite_error =
    ErrValidatorsChanged | ErrCommitNotFound | ErrTooMuchChange | ErrPastTime | ErrNoPathFound
  | ErrHeightMismatch int int | ErrMissingHeader | ErrOtherChain | ErrMissingSignatures | ErrOtherBlock
  | ErrCommit commit_error | ErrNode string

record lite_commit =
  lc_Header :: "header option"
  lc_Commit :: "commit option"

record full_commit =
  fc_Commit :: lite_commit
  fc_Validators :: "validator_set option"

definition NewFullCommit :: "lite_commit \<Rightarrow> validator_set option \<Rightarrow> full_commit" where
  "NewFullCommit c vals = \<lparr>fc_Commit = c, fc_Validators = vals\<rparr>"

definition lc_Height :: "lite_commit \<Rightarrow> int" where
  "lc_Height c = (case lc_Header c of None \<Rightarrow> 0 | Some h \<Rightarrow> hdr_Height h)"

definition lc_ValidatorsHash :: "lite_commit \<Rightarrow> bytes" where
  "lc_ValidatorsHash c = (case lc_Header c of None \<Rightarrow> [] | Some h \<Rightarrow> hdr_ValidatorsHash h)"

abbreviation fc_Height :: "full_commit \<Rightarrow> int" where
  "fc_Height fc \<equiv> lc_Height (fc_Commit fc)"

definition lc_ValidateBasic :: "'e ext_scheme \<Rightarrow> lite_commit \<Rightarrow> bytes \<Rightarrow> lite_error option" where
  "lc_ValidateBasic E c chainID =
     (case lc_Header c of
        None \<Rightarrow> Some ErrMissingHeader
      | Some h \<Rightarrow>
          if hdr_ChainID h \<noteq> chainID then Some ErrOtherChain
          else case lc_Commit c of
            None \<Rightarrow> Some ErrMissingSignatures
          | Some k \<Rightarrow>
              if commit_Height k \<noteq> hdr_Height h then Some (ErrHeightMismatch (commit_Height k) (hdr_Height h))
              else if hdr_Hash E (Some h) \<noteq> bid_Hash (commit_BlockID k) then Some ErrOtherBlock
              else map_option ErrCommit (commit_ValidateBasic k))"

section \<open>The static certifier\<close>

record static_certifier =
  sc_chainID :: bytes
  sc_vSet :: "validator_set option"
  sc_vhash :: bytes

definition NewStaticCertifier :: "bytes \<Rightarrow> validator_set option \<Rightarrow> static_certifier" where
  "NewStaticCertifier chainID vals = \<lparr>sc_chainID = chainID, sc_vSet = vals, sc_vhash = []\<rparr>"

definition sc_Hash :: "'e ext_scheme \<Rightarrow> static_certifier \<Rightarrow> (bytes \<times> static_certifier) or_panic" where
  "sc_Hash E sc =
     (if length (sc_vhash sc) = 0
      then bindP (deref (sc_vSet sc)) (\<lambda>vs. Inr (vs_Hash E vs, sc\<lparr>sc_vhash := vs_Hash E vs\<rparr>))
      else Inr (sc_vhash sc, sc))"

definition sc_Certify :: "'e ext_scheme \<Rightarrow> static_certifier \<Rightarrow> lite_commit \<Rightarrow> (lite_error option \<times> static_certifier) or_panic" where
  "sc_Certify E sc c =
     (case lc_ValidateBasic E c (sc_chainID sc) of
        Some err \<Rightarrow> Inr (Some err, sc)
      | None \<Rightarrow>
          bindP (sc_Hash E sc) (\<lambda>(vhash, sc).
          bindP (deref (lc_Header c)) (\<lambda>h.
          if vhash \<noteq> hdr_ValidatorsHash h then Inr (Some ErrValidatorsChanged, sc)
          else bindP (deref (lc_Commit c)) (\<lambda>k.
          bindP (deref (sc_vSet sc)) (\<lambda>vs.
          bindP (VerifyCommit E vs (sc_chainID sc) (commit_BlockID k) (hdr_Height h) k) (\<lambda>err.
            Inr (map_option ErrCommit err, sc)))))))"

section \<open>The dynamic certifier\<close>

record dynamic_certifier =
  dc_cert :: static_certifier
  dc_lastHeight :: int

definition NewDynamicCertifier :: "bytes \<Rightarrow> validator_set option \<Rightarrow> int \<Rightarrow> dynamic_certifier" where
  "NewDynamicCertifier chainID vals height = \<lparr>dc_cert = NewStaticCertifier chainID vals, dc_lastHeight = height\<rparr>"

definition dc_Certify :: "'e ext_scheme \<Rightarrow> dynamic_certifier \<Rightarrow> lite_commit \<Rightarrow> (lite_error option \<times> dynamic_certifier) or_panic" where
  "dc_Certify E dc c =
     bindP (sc_Certify E (dc_cert dc) c) (\<lambda>(err, sc).
       Inr (err, dc\<lparr>dc_cert := sc, dc_lastHeight := (if err = None then lc_Height c else dc_lastHeight dc)\<rparr>))"

text \<open>
  \<open>VerifyCommitAny\<close> of a receiver that may be nil: up to the first precommit for the block the known set is not
  looked at, and the errors of these checks are returned also if it is nil.
\<close>

fun nil_tally :: "block_id \<Rightarrow> int \<Rightarrow> int \<Rightarrow> vote option list \<Rightarrow> commit_error option or_panic" where
  "nil_tally blockID height round [] = Inl NilDereference"
| "nil_tally blockID height round (None # ps) = nil_tally blockID height round ps"
| "nil_tally blockID height round (Some p # ps) =
     (if vote_Height p \<noteq> height then Inr (Some WrongHeight)
      else if vote_Round p \<noteq> round then Inr (Some WrongRound)
      else if vote_Type p \<noteq> VoteTypePrecommit then Inr (Some NotPrecommit)
      else if \<not> bid_Equals blockID (vote_BlockID p) then nil_tally blockID height round ps
      else Inl NilDereference)"

definition known_VerifyCommitAny ::
  "'e ext_scheme \<Rightarrow> validator_set option \<Rightarrow> validator_set \<Rightarrow> bytes \<Rightarrow> block_id \<Rightarrow> int \<Rightarrow> commit \<Rightarrow> commit_error option or_panic" where
  "known_VerifyCommitAny E known newSet chainID blockID height c =
     (case known of
        Some vs \<Rightarrow> VerifyCommitAny E vs newSet chainID blockID height c
      | None \<Rightarrow>
          if vs_Size newSet \<noteq> int (length (Precommits c)) then Inr (Some WrongSetSize)
          else if height \<noteq> commit_Height c then Inr (Some WrongHeight)
          else nil_tally blockID height (commit_Round c) (Precommits c))"

lemma nil_tally_refuses: "nil_tally blockID height round ps \<noteq> Inr None"
  by (induction blockID height round ps rule: nil_tally.induct) simp_all

lemma known_VerifyCommitAny_simps [simp]:
  "known_VerifyCommitAny E (Some vs) newSet chainID blockID height c = VerifyCommitAny E vs newSet chainID blockID height c"
  "known_VerifyCommitAny E None newSet chainID blockID height c \<noteq> Inr None"
  by (simp_all add: known_VerifyCommitAny_def nil_tally_refuses)

definition dc_Update :: "'e ext_scheme \<Rightarrow> dynamic_certifier \<Rightarrow> full_commit \<Rightarrow> (lite_error option \<times> dynamic_certifier) or_panic" where
  "dc_Update E dc fc =
     (let h = fc_Height fc; chainID = sc_chainID (dc_cert dc) in
      if h \<le> dc_lastHeight dc then Inr (Some ErrPastTime, dc)
      else case lc_ValidateBasic E (fc_Commit fc) chainID of
        Some err \<Rightarrow> Inr (Some err, dc)
      | None \<Rightarrow>
          bindP (deref (lc_Commit (fc_Commit fc))) (\<lambda>k.
          bindP (deref (fc_Validators fc)) (\<lambda>newSet.
          bindP (known_VerifyCommitAny E (sc_vSet (dc_cert dc)) newSet chainID (commit_BlockID k) h k) (\<lambda>err.
            if err \<noteq> None then Inr (Some ErrTooMuchChange, dc)
            else Inr (None, \<lparr>dc_cert = NewStaticCertifier chainID (fc_Validators fc), dc_lastHeight = h\<rparr>)))))"

section \<open>Providers\<close>

text \<open>The interface \<open>Provider\<close>, over the state of the provider.\<close>

record 'p provider =
  pr_StoreCommit :: "'p \<Rightarrow> full_commit \<Rightarrow> (lite_error option \<times> 'p) or_panic"
  pr_GetByHeight :: "'p \<Rightarrow> int \<Rightarrow> ((lite_error + full_commit) \<times> 'p) or_panic"
  pr_GetByHash :: "'p \<Rightarrow> bytes \<Rightarrow> ((lite_error + full_commit) \<times> 'p) or_panic"
  pr_LatestCommit :: "'p \<Rightarrow> ((lite_error + full_commit) \<times> 'p) or_panic"

record mem_provider =
  ms_byHeight :: "full_commit list"
  ms_byHash :: "bytes \<rightharpoonup> full_commit"
  ms_sorted :: bool

definition NewMemStoreProvider :: mem_provider where
  "NewMemStoreProvider = \<lparr>ms_byHeight = [], ms_byHash = Map.empty, ms_sorted = False\<rparr>"

definition ms_StoreCommit :: "'e ext_scheme \<Rightarrow> mem_provider \<Rightarrow> full_commit \<Rightarrow> (lite_error option \<times> mem_provider) or_panic" where
  "ms_StoreCommit E m fc =
     bindP (deref (lc_Header (fc_Commit fc))) (\<lambda>h.
     case lc_ValidateBasic E (fc_Commit fc) (hdr_ChainID h) of
       Some err \<Rightarrow> Inr (Some err, m)
     | None \<Rightarrow> Inr (None, m\<lparr>ms_byHash := (ms_byHash m)(hex_EncodeToString (lc_ValidatorsHash (fc_Commit fc)) \<mapsto> fc),
         ms_byHeight := ms_byHeight m @ [fc], ms_sorted := False\<rparr>))"

text \<open>\<open>sort.Sort\<close> leaves the order of commits of one height open: \<open>srt\<close> is the order it picks.\<close>

definition sortByHeightIfNecessary :: "(full_commit list \<Rightarrow> full_commit list) \<Rightarrow> mem_provider \<Rightarrow> mem_provider" where
  "sortByHeightIfNecessary srt m = (if ms_sorted m then m else m\<lparr>ms_byHeight := srt (ms_byHeight m), ms_sorted := True\<rparr>)"

definition getByHeightLinearSearch :: "full_commit list \<Rightarrow> int \<Rightarrow> lite_error + full_commit" where
  "getByHeightLinearSearch xs h =
     (case List.find (\<lambda>fc. fc_Height fc \<le> h) (rev xs) of Some fc \<Rightarrow> Inr fc | None \<Rightarrow> Inl ErrCommitNotFound)"

text \<open>The loop ends at a commit of the height asked for, or with the bound \<open>high\<close>.\<close>

function search_height :: "full_commit list \<Rightarrow> int \<Rightarrow> int \<Rightarrow> int \<Rightarrow> full_commit + int" where
  "search_height xs h low high =
     (if low \<le> high
      then let mid = (low + high) div 2; midFC = xs ! nat mid; hmid = fc_Height midFC in
        if hmid = h then Inl midFC
        else if hmid < h then search_height xs h (mid + 1) high
        else search_height xs h low (mid - 1)
      else Inr high)"
  by pat_completeness auto
termination by (relation "measure (\<lambda>(xs, h, low, high). nat (high - low + 1))") auto

definition getByHeightBinarySearch :: "full_commit list \<Rightarrow> int \<Rightarrow> lite_error + full_commit" where
  "getByHeightBinarySearch xs h =
     (case search_height xs h 0 (int (length xs) - 1) of
        Inl fc \<Rightarrow> Inr fc
      | Inr high \<Rightarrow>
          if high \<ge> 0 \<and> fc_Height (xs ! nat high) < h then Inr (xs ! nat high) else Inl ErrCommitNotFound)"

definition ms_GetByHeight :: "(full_commit list \<Rightarrow> full_commit list) \<Rightarrow> mem_provider \<Rightarrow> int \<Rightarrow> (lite_error + full_commit) \<times> mem_provider" where
  "ms_GetByHeight srt m h =
     (let m' = sortByHeightIfNecessary srt m in
      (if length (ms_byHeight m) \<le> 50 then getByHeightLinearSearch (ms_byHeight m') h else getByHeightBinarySearch (ms_byHeight m') h, m'))"

definition ms_GetByHash :: "mem_provider \<Rightarrow> bytes \<Rightarrow> lite_error + full_commit" where
  "ms_GetByHash m hash =
     (case ms_byHash m (hex_EncodeToString hash) of None \<Rightarrow> Inl ErrCommitNotFound | Some fc \<Rightarrow> Inr fc)"

definition ms_LatestCommit :: "(full_commit list \<Rightarrow> full_commit list) \<Rightarrow> mem_provider \<Rightarrow> (lite_error + full_commit) \<times> mem_provider" where
  "ms_LatestCommit srt m =
     (if length (ms_byHeight m) = 0 then (Inl ErrCommitNotFound, m)
      else let m' = sortByHeightIfNecessary srt m in (Inr (ms_byHeight m' ! (length (ms_byHeight m) - 1)), m'))"

definition mem_store :: "'e ext_scheme \<Rightarrow> (full_commit list \<Rightarrow> full_commit list) \<Rightarrow> mem_provider provider" where
  "mem_store E srt = \<lparr>pr_StoreCommit = ms_StoreCommit E, pr_GetByHeight = (\<lambda>m h. Inr (ms_GetByHeight srt m h)),
     pr_GetByHash = (\<lambda>m hash. Inr (ms_GetByHash m hash, m)), pr_LatestCommit = (\<lambda>m. Inr (ms_LatestCommit srt m))\<rparr>"

subsection \<open>Providers in a row\<close>

text \<open>The providers of a cache are tried in order; each has its own state.\<close>

type_synonym 'p cache = "('p provider \<times> 'p) list"

definition zero_full_commit :: full_commit where
  "zero_full_commit = \<lparr>fc_Commit = \<lparr>lc_Header = None, lc_Commit = None\<rparr>, fc_Validators = None\<rparr>"

fun cp_StoreCommit :: "'p cache \<Rightarrow> full_commit \<Rightarrow> (lite_error option \<times> 'p cache) or_panic" where
  "cp_StoreCommit [] fc = Inr (None, [])"
| "cp_StoreCommit ((P, s) # ps) fc =
     bindP (pr_StoreCommit P s fc) (\<lambda>(err, s').
       if err \<noteq> None then Inr (err, (P, s') # ps)
       else bindP (cp_StoreCommit ps fc) (\<lambda>(err, ps'). Inr (err, (P, s') # ps')))"

fun best_by_height :: "'p cache \<Rightarrow> int \<Rightarrow> full_commit \<Rightarrow> lite_error option \<Rightarrow> (full_commit \<times> lite_error option \<times> 'p cache) or_panic" where
  "best_by_height [] h fc err = Inr (fc, err, [])"
| "best_by_height ((P, s) # ps) h fc err =
     bindP (pr_GetByHeight P s h) (\<lambda>(r, s').
       case r of
         Inl e \<Rightarrow> bindP (best_by_height ps h fc (Some e)) (\<lambda>(fc', err', ps'). Inr (fc', err', (P, s') # ps'))
       | Inr tfc \<Rightarrow>
           let fc1 = (if fc_Height tfc > fc_Height fc then tfc else fc) in
           if fc_Height tfc = h then Inr (fc1, None, (P, s') # ps)
           else bindP (best_by_height ps h fc1 None) (\<lambda>(fc', err', ps'). Inr (fc', err', (P, s') # ps')))"

definition cp_GetByHeight :: "'p cache \<Rightarrow> int \<Rightarrow> ((lite_error + full_commit) \<times> 'p cache) or_panic" where
  "cp_GetByHeight ps h =
     bindP (best_by_height ps h zero_full_commit None) (\<lambda>(fc, err, ps').
       Inr (if fc_Height fc > 0 then Inr fc else case err of None \<Rightarrow> Inr fc | Some e \<Rightarrow> Inl e, ps'))"

fun cp_GetByHash :: "'p cache \<Rightarrow> bytes \<Rightarrow> ((lite_error + full_commit) \<times> 'p cache) or_panic" where
  "cp_GetByHash [] hash = Inr (Inr zero_full_commit, [])"
| "cp_GetByHash ((P, s) # ps) hash =
     bindP (pr_GetByHash P s hash) (\<lambda>(r, s').
       case r of
         Inr fc \<Rightarrow> Inr (Inr fc, (P, s') # ps)
       | Inl e \<Rightarrow> if ps = [] then Inr (Inl e, [(P, s')]) else bindP (cp_GetByHash ps hash) (\<lambda>(r', ps'). Inr (r', (P, s') # ps')))"

fun best_latest :: "'p cache \<Rightarrow> full_commit \<Rightarrow> lite_error option \<Rightarrow> (full_commit \<times> lite_error option \<times> 'p cache) or_panic" where
  "best_latest [] fc err = Inr (fc, err, [])"
| "best_latest ((P, s) # ps) fc err =
     bindP (pr_LatestCommit P s) (\<lambda>(r, s').
       bindP (case r of
           Inl e \<Rightarrow> best_latest ps fc (Some e)
         | Inr tfc \<Rightarrow> best_latest ps (if fc_Height tfc > fc_Height fc then tfc else fc) None) (\<lambda>(fc', err', ps').
         Inr (fc', err', (P, s') # ps')))"

definition cp_LatestCommit :: "'p cache \<Rightarrow> ((lite_error + full_commit) \<times> 'p cache) or_panic" where
  "cp_LatestCommit ps =
     bindP (best_latest ps zero_full_commit None) (\<lambda>(fc, err, ps').
       Inr (if fc_Height fc > 0 then Inr fc else case err of None \<Rightarrow> Inr fc | Some e \<Rightarrow> Inl e, ps'))"

definition cache_provider :: "'p cache provider" where
  "cache_provider = \<lparr>pr_StoreCommit = cp_StoreCommit, pr_GetByHeight = cp_GetByHeight, pr_GetByHash = cp_GetByHash,
     pr_LatestCommit = cp_LatestCommit\<rparr>"

subsection \<open>A node as provider\<close>

text \<open>The RPC of a node: the commit of a height, the validators of a height or the latest, the latest height.\<close>

record node_rpc =
  node_Commit :: "int \<Rightarrow> string + lite_commit"
  node_Validators :: "int option \<Rightarrow> string + (int \<times> validator list)"
  node_Status :: "string + int"

definition cl_updateHeight :: "int \<Rightarrow> int \<Rightarrow> int" where
  "cl_updateHeight lastHeight h = (if h > lastHeight then h else lastHeight)"

definition seedFromVals :: "node_rpc \<Rightarrow> int \<times> validator list \<Rightarrow> (lite_error + full_commit) or_panic" where
  "seedFromVals N vals =
     (case node_Commit N (fst vals) of
        Inl e \<Rightarrow> Inr (Inl (ErrNode e))
      | Inr c \<Rightarrow> bindP (NewValidatorSet (Some (snd vals))) (\<lambda>vset. Inr (Inr (NewFullCommit c (Some vset)))))"

definition seedFromCommit :: "'e ext_scheme \<Rightarrow> node_rpc \<Rightarrow> int \<Rightarrow> lite_commit \<Rightarrow> ((lite_error + full_commit) \<times> int) or_panic" where
  "seedFromCommit E N lastHeight c =
     bindP (deref (lc_Header c)) (\<lambda>h.
     case node_Validators N (Some (hdr_Height h)) of
       Inl e \<Rightarrow> Inr (Inl (ErrNode e), lastHeight)
     | Inr vals \<Rightarrow>
         bindP (NewValidatorSet (Some (snd vals))) (\<lambda>vset.
           if vs_Hash E vset \<noteq> hdr_ValidatorsHash h then Inr (Inl ErrValidatorsChanged, lastHeight)
           else Inr (Inr (NewFullCommit c (Some vset)), cl_updateHeight lastHeight (hdr_Height h))))"

definition cl_GetByHash :: "'e ext_scheme \<Rightarrow> node_rpc \<Rightarrow> int \<Rightarrow> bytes \<Rightarrow> ((lite_error + full_commit) \<times> int) or_panic" where
  "cl_GetByHash E N lastHeight hash =
     (case node_Validators N None of
        Inl e \<Rightarrow> Inr (Inl (ErrNode e), lastHeight)
      | Inr vals \<Rightarrow>
          bindP (NewValidatorSet (Some (snd vals))) (\<lambda>vset.
            if hash \<noteq> vs_Hash E vset then Inr (Inl ErrCommitNotFound, cl_updateHeight lastHeight (fst vals))
            else bindP (seedFromVals N vals) (\<lambda>r. Inr (r, cl_updateHeight lastHeight (fst vals)))))"

definition cl_GetByHeight :: "'e ext_scheme \<Rightarrow> node_rpc \<Rightarrow> int \<Rightarrow> int \<Rightarrow> ((lite_error + full_commit) \<times> int) or_panic" where
  "cl_GetByHeight E N lastHeight h =
     (case node_Commit N h of Inl e \<Rightarrow> Inr (Inl (ErrNode e), lastHeight) | Inr c \<Rightarrow> seedFromCommit E N lastHeight c)"

definition cl_LatestCommit :: "'e ext_scheme \<Rightarrow> node_rpc \<Rightarrow> int \<Rightarrow> ((lite_error + full_commit) \<times> int) or_panic" where
  "cl_LatestCommit E N lastHeight =
     (case node_Status N of
        Inl e \<Rightarrow> Inr (Inl (ErrNode e), lastHeight)
      | Inr h \<Rightarrow> (case node_Commit N h of Inl e \<Rightarrow> Inr (Inl (ErrNode e), lastHeight) | Inr c \<Rightarrow> seedFromCommit E N lastHeight c))"

definition node_provider :: "'e ext_scheme \<Rightarrow> node_rpc \<Rightarrow> int provider" where
  "node_provider E N = \<lparr>pr_StoreCommit = (\<lambda>l fc. Inr (None, l)), pr_GetByHeight = cl_GetByHeight E N,
     pr_GetByHash = cl_GetByHash E N, pr_LatestCommit = cl_LatestCommit E N\<rparr>"

section \<open>The inquiring certifier\<close>

record ('p, 'q) inquiring =
  ic_cert :: dynamic_certifier
  ic_trusted :: 'p
  ic_Source :: 'q

abbreviation ic_LastHeight :: "('p, 'q) inquiring \<Rightarrow> int" where
  "ic_LastHeight ic \<equiv> dc_lastHeight (ic_cert ic)"

type_synonym ('p, 'q) ic_result = "(lite_error option \<times> ('p, 'q) inquiring) or_panic"

definition NewInquiringCertifier ::
  "'p provider \<Rightarrow> bytes \<Rightarrow> full_commit \<Rightarrow> 'p \<Rightarrow> 'q \<Rightarrow> ((lite_error + ('p, 'q) inquiring) \<times> 'p) or_panic" where
  "NewInquiringCertifier T chainID fc trusted source =
     bindP (pr_StoreCommit T trusted fc) (\<lambda>(err, trusted').
       case err of Some e \<Rightarrow> Inr (Inl e, trusted')
       | None \<Rightarrow> Inr (Inr \<lparr>ic_cert = NewDynamicCertifier chainID (fc_Validators fc) (fc_Height fc), ic_trusted = trusted', ic_Source = source\<rparr>, trusted'))"

definition useClosestTrust :: "'p provider \<Rightarrow> ('p, 'q) inquiring \<Rightarrow> int \<Rightarrow> ('p, 'q) ic_result" where
  "useClosestTrust T ic h =
     bindP (pr_GetByHeight T (ic_trusted ic) h) (\<lambda>(r, trusted').
       let ic = ic\<lparr>ic_trusted := trusted'\<rparr> in
       case r of Inl e \<Rightarrow> Inr (Some e, ic)
       | Inr closest \<Rightarrow>
           if fc_Height closest \<noteq> ic_LastHeight ic
           then Inr (None, ic\<lparr>ic_cert := NewDynamicCertifier (sc_chainID (dc_cert (ic_cert ic))) (fc_Validators closest) (fc_Height closest)\<rparr>)
           else Inr (None, ic))"

definition ic_Update :: "'e ext_scheme \<Rightarrow> 'p provider \<Rightarrow> ('p, 'q) inquiring \<Rightarrow> full_commit \<Rightarrow> ('p, 'q) ic_result" where
  "ic_Update E T ic fc =
     bindP (useClosestTrust T ic (fc_Height fc)) (\<lambda>(err, ic).
       if err \<noteq> None then Inr (err, ic)
       else bindP (dc_Update E (ic_cert ic) fc) (\<lambda>(err, dc).
         let ic = ic\<lparr>ic_cert := dc\<rparr> in
         if err \<noteq> None then Inr (err, ic)
         else bindP (pr_StoreCommit T (ic_trusted ic) fc) (\<lambda>(err, trusted'). Inr (err, ic\<lparr>ic_trusted := trusted'\<rparr>))))"

text \<open>Divide and conquer: \<open>None\<close> is a search that never returns.\<close>

partial_function (option) updateToHeight ::
  "'e ext_scheme \<Rightarrow> 'p provider \<Rightarrow> 'q provider \<Rightarrow> int \<Rightarrow> ('p, 'q) inquiring \<Rightarrow> ('p, 'q) ic_result option" where
  "updateToHeight E T S h ic =
     (case pr_GetByHeight S (ic_Source ic) h of
        Inl p \<Rightarrow> Some (Inl p)
      | Inr (Inl e, q) \<Rightarrow> Some (Inr (Some e, ic\<lparr>ic_Source := q\<rparr>))
      | Inr (Inr fc, q) \<Rightarrow>
          (if fc_Height fc \<le> ic_LastHeight ic then Some (Inr (Some ErrNoPathFound, ic\<lparr>ic_Source := q\<rparr>))
           else case ic_Update E T (ic\<lparr>ic_Source := q\<rparr>) fc of
             Inl p \<Rightarrow> Some (Inl p)
           | Inr (err, ic2) \<Rightarrow>
               if err \<noteq> Some ErrTooMuchChange then Some (Inr (err, ic2))
               else Option.bind (updateToHeight E T S (go_quot (wrap64 (ic_LastHeight ic + fc_Height fc)) 2) ic2) (\<lambda>r.
                 case r of
                   Inl p \<Rightarrow> Some (Inl p)
                 | Inr (Some e, ic3) \<Rightarrow> Some (Inr (Some e, ic3))
                 | Inr (None, ic3) \<Rightarrow> updateToHeight E T S h ic3)))"

definition updateToHash :: "'e ext_scheme \<Rightarrow> 'p provider \<Rightarrow> 'q provider \<Rightarrow> bytes \<Rightarrow> ('p, 'q) inquiring \<Rightarrow> ('p, 'q) ic_result option" where
  "updateToHash E T S vhash ic =
     (case pr_GetByHash S (ic_Source ic) vhash of
        Inl p \<Rightarrow> Some (Inl p)
      | Inr (Inl e, q) \<Rightarrow> Some (Inr (Some e, ic\<lparr>ic_Source := q\<rparr>))
      | Inr (Inr fc, q) \<Rightarrow>
          (case dc_Update E (ic_cert ic) fc of
             Inl p \<Rightarrow> Some (Inl p)
           | Inr (err, dc) \<Rightarrow>
               let ic2 = ic\<lparr>ic_Source := q, ic_cert := dc\<rparr> in
               if err = Some ErrTooMuchChange then updateToHeight E T S (fc_Height fc) ic2 else Some (Inr (err, ic2))))"

text \<open>The second check and the new checkpoint, after the certifier has caught up.\<close>

definition certify_stored :: "'e ext_scheme \<Rightarrow> 'p provider \<Rightarrow> lite_commit \<Rightarrow> ('p, 'q) inquiring \<Rightarrow> ('p, 'q) ic_result" where
  "certify_stored E T c ic =
     bindP (dc_Certify E (ic_cert ic) c) (\<lambda>(err, dc).
       let ic = ic\<lparr>ic_cert := dc\<rparr> in
       if err \<noteq> None then Inr (err, ic)
       else bindP (pr_StoreCommit T (ic_trusted ic) (NewFullCommit c (sc_vSet (dc_cert (ic_cert ic))))) (\<lambda>(err, trusted').
         Inr (err, ic\<lparr>ic_trusted := trusted'\<rparr>)))"

definition ic_Certify :: "'e ext_scheme \<Rightarrow> 'p provider \<Rightarrow> 'q provider \<Rightarrow> ('p, 'q) inquiring \<Rightarrow> lite_commit \<Rightarrow> ('p, 'q) ic_result option" where
  "ic_Certify E T S ic c =
     (case useClosestTrust T ic (lc_Height c) of
        Inl p \<Rightarrow> Some (Inl p)
      | Inr (Some e, ic1) \<Rightarrow> Some (Inr (Some e, ic1))
      | Inr (None, ic1) \<Rightarrow>
          (case dc_Certify E (ic_cert ic1) c of
             Inl p \<Rightarrow> Some (Inl p)
           | Inr (err, dc) \<Rightarrow>
               let ic2 = ic1\<lparr>ic_cert := dc\<rparr> in
               if err \<noteq> Some ErrValidatorsChanged then Some (Inr (err, ic2))
               else Option.bind (updateToHash E T S (lc_ValidatorsHash c) ic2) (\<lambda>r.
                 case r of
                   Inl p \<Rightarrow> Some (Inl p)
                 | Inr (Some e, ic3) \<Rightarrow> Some (Inr (Some e, ic3))
                 | Inr (None, ic3) \<Rightarrow> Some (certify_stored E T c ic3))))"

section \<open>The store in memory\<close>

text \<open>What \<open>GetByHeight\<close> is documented to return: the closest commit with height at most \<open>h\<close>.\<close>

definition closest_in :: "full_commit set \<Rightarrow> int \<Rightarrow> lite_error + full_commit \<Rightarrow> bool" where
  "closest_in A h r \<longleftrightarrow>
     (case r of Inl e \<Rightarrow> e = ErrCommitNotFound \<and> (\<forall>fc \<in> A. h < fc_Height fc)
      | Inr fc \<Rightarrow> fc \<in> A \<and> fc_Height fc \<le> h \<and> (\<forall>fc' \<in> A. fc_Height fc' \<le> h \<longrightarrow> fc_Height fc' \<le> fc_Height fc))"

lemma sorted_heights: "sorted (map fc_Height xs) \<Longrightarrow> i \<le> j \<Longrightarrow> j < length xs \<Longrightarrow> fc_Height (xs ! i) \<le> fc_Height (xs ! j)"
  using sorted_nth_mono [of "map fc_Height xs" i j] by simp

lemma linear_closest:
  assumes "sorted (map fc_Height xs)"
  shows "closest_in (set xs) h (getByHeightLinearSearch xs h)"
proof (cases "List.find (\<lambda>fc. fc_Height fc \<le> h) (rev xs)")
  case None
  then have "\<forall>fc \<in> set xs. h < fc_Height fc" by (auto simp: find_None_iff not_le)
  then show ?thesis using None by (simp add: getByHeightLinearSearch_def closest_in_def)
next
  case (Some fc)
  then obtain i where i: "i < length xs" "fc_Height (rev xs ! i) \<le> h" "fc = rev xs ! i" "\<And>j. j < i \<Longrightarrow> h < fc_Height (rev xs ! j)"
    by (auto simp: find_Some_iff not_le)
  have "fc_Height (xs ! j) \<le> fc_Height fc" if j: "j < length xs" "fc_Height (xs ! j) \<le> h" for j
  proof -
    have "\<not> length xs - 1 - j < i" using i(4) [of "length xs - 1 - j"] j by (auto simp: rev_nth)
    then show ?thesis using sorted_heights [OF assms, of j "length xs - 1 - i"] i(1,3) j(1) by (auto simp: rev_nth)
  qed
  moreover have "fc \<in> set xs" using i(1,3) by (metis length_rev nth_mem set_rev)
  ultimately show ?thesis using Some i(2,3) by (auto simp: getByHeightLinearSearch_def closest_in_def in_set_conv_nth)
qed

lemma search_height_spec:
  assumes "sorted (map fc_Height xs)" "0 \<le> low" "high < int (length xs)" "low \<le> high + 1"
    and "\<And>i. i < length xs \<Longrightarrow> int i < low \<Longrightarrow> fc_Height (xs ! i) < h" "\<And>i. i < length xs \<Longrightarrow> high < int i \<Longrightarrow> h < fc_Height (xs ! i)"
  shows "case search_height xs h low high of Inl fc \<Rightarrow> fc \<in> set xs \<and> fc_Height fc = h
    | Inr k \<Rightarrow> - 1 \<le> k \<and> k < int (length xs) \<and> (\<forall>i < length xs. (int i \<le> k \<longrightarrow> fc_Height (xs ! i) < h) \<and> (k < int i \<longrightarrow> h < fc_Height (xs ! i)))"
  using assms
proof (induction xs h low high rule: search_height.induct)
  case (1 xs h low high)
  let ?m = "(low + high) div 2"
  show ?case
  proof (cases "low \<le> high")
    case False
    then have e: "search_height xs h low high = Inr high" by simp
    show ?thesis unfolding e using 1(3-8) False by auto
  next
    case True
    then have m: "low \<le> ?m" "?m \<le> high" "nat ?m < length xs" using 1(4,5) by (auto simp: nat_less_iff)
    consider "fc_Height (xs ! nat ?m) = h" | "fc_Height (xs ! nat ?m) < h" | "h < fc_Height (xs ! nat ?m)" by linarith
    then show ?thesis
    proof cases
      case 1
      then have e: "search_height xs h low high = Inl (xs ! nat ?m)" using True by (subst search_height.simps) (simp add: Let_def)
      show ?thesis unfolding e using 1 m(3) by simp
    next
      case 2
      then have e: "search_height xs h low high = search_height xs h (?m + 1) high" using True by (subst search_height.simps) (simp add: Let_def)
      have "fc_Height (xs ! i) < h" if "i < length xs" "int i < ?m + 1" for i
        using sorted_heights [OF "1.prems"(1), of i "nat ?m"] that m 2 1(4) by linarith
      then show ?thesis unfolding e using "1.IH"(1) [OF True refl refl refl] 1(3-8) m 2 by auto
    next
      case 3
      then have e: "search_height xs h low high = search_height xs h low (?m - 1)" using True by (subst search_height.simps) (simp add: Let_def)
      have "h < fc_Height (xs ! i)" if "i < length xs" "?m - 1 < int i" for i
        using sorted_heights [OF "1.prems"(1), of "nat ?m" i] that m 3 1(4) by linarith
      then show ?thesis unfolding e using "1.IH"(2) [OF True refl refl refl] 1(3-8) m 3 by auto
    qed
  qed
qed

lemma binary_closest:
  assumes "sorted (map fc_Height xs)"
  shows "closest_in (set xs) h (getByHeightBinarySearch xs h)"
proof -
  have s: "case search_height xs h 0 (int (length xs) - 1) of Inl fc \<Rightarrow> fc \<in> set xs \<and> fc_Height fc = h
    | Inr k \<Rightarrow> - 1 \<le> k \<and> k < int (length xs) \<and> (\<forall>i < length xs. (int i \<le> k \<longrightarrow> fc_Height (xs ! i) < h) \<and> (k < int i \<longrightarrow> h < fc_Height (xs ! i)))"
    by (rule search_height_spec [OF assms]) auto
  show ?thesis
  proof (cases "search_height xs h 0 (int (length xs) - 1)")
    case (Inl fc)
    then show ?thesis using s by (simp add: getByHeightBinarySearch_def closest_in_def)
  next
    case (Inr k)
    then have k: "- 1 \<le> k" "k < int (length xs)" "\<And>i. i < length xs \<Longrightarrow> int i \<le> k \<Longrightarrow> fc_Height (xs ! i) < h"
        "\<And>i. i < length xs \<Longrightarrow> k < int i \<Longrightarrow> h < fc_Height (xs ! i)" using s by auto
    show ?thesis
    proof (cases "0 \<le> k")
      case True
      then have n: "nat k < length xs" "fc_Height (xs ! nat k) < h" using k(2) k(3) [of "nat k"] by auto
      have "fc_Height (xs ! j) \<le> fc_Height (xs ! nat k)" if "j < length xs" "fc_Height (xs ! j) \<le> h" for j
        using k(4) [of j] that sorted_heights [OF assms, of j "nat k"] n(1) by force
      then show ?thesis using Inr True n by (auto simp: getByHeightBinarySearch_def closest_in_def in_set_conv_nth)
    next
      case False
      then show ?thesis using Inr k(1,4) by (auto simp: getByHeightBinarySearch_def closest_in_def in_set_conv_nth)
    qed
  qed
qed

text \<open>What \<open>sort.Sort\<close> promises.\<close>

definition sorts_commits :: "(full_commit list \<Rightarrow> full_commit list) \<Rightarrow> bool" where
  "sorts_commits srt \<longleftrightarrow> (\<forall>xs. mset (srt xs) = mset xs \<and> sorted (map fc_Height (srt xs)))"

definition ms_ok :: "mem_provider \<Rightarrow> bool" where
  "ms_ok m \<longleftrightarrow> (ms_sorted m \<longrightarrow> sorted (map fc_Height (ms_byHeight m)))"

lemma sortByHeight_spec:
  assumes "sorts_commits srt" "ms_ok m"
  shows "sorted (map fc_Height (ms_byHeight (sortByHeightIfNecessary srt m)))" "set (ms_byHeight (sortByHeightIfNecessary srt m)) = set (ms_byHeight m)"
    "ms_ok (sortByHeightIfNecessary srt m)"
proof -
  have "set (srt xs) = set xs" for xs using assms(1) unfolding sorts_commits_def by (metis set_mset_mset)
  then show "sorted (map fc_Height (ms_byHeight (sortByHeightIfNecessary srt m)))" "set (ms_byHeight (sortByHeightIfNecessary srt m)) = set (ms_byHeight m)"
    "ms_ok (sortByHeightIfNecessary srt m)"
    using assms by (auto simp: sortByHeightIfNecessary_def ms_ok_def sorts_commits_def)
qed

lemma ms_GetByHeight_spec:
  assumes "sorts_commits srt" "ms_ok m" "ms_GetByHeight srt m h = (r, m')"
  shows "closest_in (set (ms_byHeight m)) h r" "ms_ok m'" "set (ms_byHeight m') = set (ms_byHeight m)"
  using assms(3) sortByHeight_spec [OF assms(1,2)] linear_closest [of "ms_byHeight m'" h] binary_closest [of "ms_byHeight m'" h]
  by (auto simp: ms_GetByHeight_def Let_def split: if_split_asm)

lemma lc_ValidateBasic_err: "lc_ValidateBasic E c chainID \<noteq> Some ErrTooMuchChange"
  by (auto simp: lc_ValidateBasic_def split: option.split)

section \<open>Certifiers of validator sets\<close>

text \<open>What the certifiers of one set and of changing sets keep.\<close>

definition cert_ok :: "'e ext_scheme \<Rightarrow> bytes \<Rightarrow> (validator_set \<Rightarrow> bool) \<Rightarrow> dynamic_certifier \<Rightarrow> bool" where
  "cert_ok E chainID good dc \<longleftrightarrow> sc_chainID (dc_cert dc) = chainID \<and>
     (\<exists>vs. sc_vSet (dc_cert dc) = Some vs \<and> good vs \<and> sc_vhash (dc_cert dc) \<in> {[], vs_Hash E vs})"

text \<open>A commit that a set of validators vouches for.\<close>

definition vouches :: "'e ext_scheme \<Rightarrow> bytes \<Rightarrow> validator_set \<Rightarrow> lite_commit \<Rightarrow> bool" where
  "vouches E chainID vs c \<longleftrightarrow> (\<exists>h k. lc_Header c = Some h \<and> lc_Commit c = Some k \<and> hdr_ChainID h = chainID \<and> vs_Hash E vs = hdr_ValidatorsHash h \<and>
     hdr_Hash E (Some h) = bid_Hash (commit_BlockID k) \<and> VerifyCommit E vs chainID (commit_BlockID k) (hdr_Height h) k = Inr None)"

lemma dc_Certify_ok:
  assumes "dc_Certify E dc c = Inr (err, dc')" "cert_ok E chainID good dc"
  shows "cert_ok E chainID good dc'" "sc_vSet (dc_cert dc') = sc_vSet (dc_cert dc)" "err \<noteq> None \<Longrightarrow> dc_lastHeight dc' = dc_lastHeight dc"
    "err = None \<Longrightarrow> \<exists>vs. sc_vSet (dc_cert dc') = Some vs \<and> good vs \<and> vouches E chainID vs c"
    "err = None \<Longrightarrow> dc_lastHeight dc' = lc_Height c"
  using assms
  by (auto simp: dc_Certify_def sc_Certify_def sc_Hash_def cert_ok_def vouches_def lc_ValidateBasic_def
      elim!: bindP_Inr_E split: option.split_asm if_split_asm)

text \<open>Trust is handed on: a set that a good set approves is good.\<close>

definition hands_on :: "'e ext_scheme \<Rightarrow> bytes \<Rightarrow> (validator_set \<Rightarrow> bool) \<Rightarrow> bool" where
  "hands_on E chainID good \<longleftrightarrow> (\<forall>vs vs' b h k. good vs \<longrightarrow> VerifyCommitAny E vs vs' chainID b h k = Inr None \<longrightarrow> good vs')"

lemma hands_onD: "hands_on E chainID good \<Longrightarrow> VerifyCommitAny E vs vs' chainID b h k = Inr None \<Longrightarrow> good vs \<Longrightarrow> good vs'"
  unfolding hands_on_def by blast

lemma dc_Update_ok:
  assumes "dc_Update E dc fc = Inr (err, dc')" "cert_ok E chainID good dc"
    and "hands_on E chainID good"
  shows "cert_ok E chainID good dc'" "err \<noteq> None \<Longrightarrow> dc' = dc"
    "err = None \<Longrightarrow> dc_lastHeight dc < fc_Height fc \<and> dc_lastHeight dc' = fc_Height fc \<and> sc_vSet (dc_cert dc') = fc_Validators fc"
  using assms hands_onD [OF assms(3)]
  by (auto simp: dc_Update_def cert_ok_def NewStaticCertifier_def Let_def elim!: bindP_Inr_E split: option.split_asm if_split_asm)

section \<open>The contract of the trusted provider\<close>

text \<open>
  The trusted provider holds commits: storing one that is accepted adds it, and the lookup by height returns
  the closest one. What the certifier does with such a provider, whatever the source answers.
\<close>

locale trust_store =
  fixes T :: "'p provider" and ok :: "'p \<Rightarrow> bool" and held :: "'p \<Rightarrow> full_commit set"
  assumes store: "ok p \<Longrightarrow> pr_StoreCommit T p fc = Inr (err, p') \<Longrightarrow>
      ok p' \<and> err \<noteq> Some ErrTooMuchChange \<and> held p' = (if err = None then insert fc (held p) else held p)"
    and by_height: "ok p \<Longrightarrow> pr_GetByHeight T p h = Inr (r, p') \<Longrightarrow> ok p' \<and> held p' = held p \<and> closest_in (held p) h r"
begin

text \<open>A property of commits that the held ones have, and the certifier's current validators.\<close>

definition ic_ok :: "'e ext_scheme \<Rightarrow> bytes \<Rightarrow> (validator_set \<Rightarrow> bool) \<Rightarrow> ('p, 'q) inquiring \<Rightarrow> bool" where
  "ic_ok E chainID good ic \<longleftrightarrow> ok (ic_trusted ic) \<and> (\<forall>fc \<in> held (ic_trusted ic). \<exists>vs. fc_Validators fc = Some vs \<and> good vs) \<and>
     cert_ok E chainID good (ic_cert ic)"

lemma useClosestTrust_ok:
  assumes "useClosestTrust T ic h = Inr (err, ic')" "ic_ok E chainID good ic"
  shows "ic_ok E chainID good ic'"
proof -
  obtain r p' where g: "pr_GetByHeight T (ic_trusted ic) h = Inr (r, p')"
    using assms(1) by (auto simp: useClosestTrust_def elim!: bindP_Inr_E)
  have "ok p'" "held p' = held (ic_trusted ic)" "closest_in (held (ic_trusted ic)) h r"
    using by_height [OF _ g] assms(2) by (auto simp: ic_ok_def)
  then show ?thesis using assms g
    by (auto simp: useClosestTrust_def ic_ok_def cert_ok_def closest_in_def NewDynamicCertifier_def NewStaticCertifier_def Let_def split: sum.split_asm if_split_asm)
qed

end

context trust_store
begin

lemma ic_Update_ok:
  assumes "ic_Update E T ic fc = Inr (err, ic')" "ic_ok E chainID good ic" "hands_on E chainID good"
  shows "ic_ok E chainID good ic'"
proof -
  obtain e1 ic1 where 1: "useClosestTrust T ic (fc_Height fc) = Inr (e1, ic1)" using assms(1) by (auto simp: ic_Update_def elim!: bindP_Inr_E)
  have ok1: "ic_ok E chainID good ic1" by (rule useClosestTrust_ok [OF 1 assms(2)])
  show ?thesis
  proof (cases "e1 = None")
    case False
    then show ?thesis using assms(1) 1 ok1 by (auto simp: ic_Update_def)
  next
    case True
    obtain e2 dc where 2: "dc_Update E (ic_cert ic1) fc = Inr (e2, dc)" using assms(1) 1 True by (auto simp: ic_Update_def elim!: bindP_Inr_E)
    have c: "cert_ok E chainID good (ic_cert ic1)" "ok (ic_trusted ic1)" using ok1 by (simp_all add: ic_ok_def)
    note D = dc_Update_ok [OF 2 c(1) assms(3)]
    show ?thesis
    proof (cases "e2 = None")
      case False
      then show ?thesis using assms(1) 1 True 2 ok1 D(1) by (auto simp: ic_Update_def ic_ok_def)
    next
      case n: True
      obtain p' where 3: "pr_StoreCommit T (ic_trusted ic1) fc = Inr (err, p')" "ic' = ic1\<lparr>ic_cert := dc, ic_trusted := p'\<rparr>"
        using assms(1) 1 True 2 n by (auto simp: ic_Update_def elim!: bindP_Inr_E)
      have "\<exists>vs. fc_Validators fc = Some vs \<and> good vs" using D(1,3) n by (auto simp: cert_ok_def)
      then show ?thesis using store [OF c(2) 3(1)] ok1 D(1) by (auto simp: ic_ok_def 3(2) split: if_split_asm)
    qed
  qed
qed

lemma updateToHeight_ok:
  assumes "updateToHeight E T S h ic = Some r" "hands_on E chainID good"
  shows "ic_ok E chainID good ic \<Longrightarrow> r = Inr (err, ic') \<Longrightarrow> ic_ok E chainID good ic'"
proof -
  let ?P = "\<lambda>E' T' S' h ic r. E' = E \<longrightarrow> T' = T \<longrightarrow> ic_ok E chainID good ic \<longrightarrow> (\<forall>err ic'. r = Inr (err, ic') \<longrightarrow> ic_ok E chainID good ic')"
  have src: "ic_ok E chainID good (ic\<lparr>ic_Source := q\<rparr>) = ic_ok E chainID good ic" for ic :: "('p, 'q) inquiring" and q by (simp add: ic_ok_def)
  have "?P E T S h ic r"
  proof (rule updateToHeight.raw_induct [of ?P, OF _ assms(1)], intro impI allI)
    fix f E' T' S' h r err ic' and ic :: "('p, 'q) inquiring"
    assume IH: "\<And>E' T' S' h ic r. f E' T' S' h ic = Some r \<Longrightarrow> ?P E' T' S' h ic r" and eq: "E' = E" "T' = T" and ok: "ic_ok E chainID good ic" and r: "r = Inr (err, ic')"
      and b: "(case pr_GetByHeight S' (ic_Source ic) h of
        Inl p \<Rightarrow> Some (Inl p)
      | Inr (Inl e, q) \<Rightarrow> Some (Inr (Some e, ic\<lparr>ic_Source := q\<rparr>))
      | Inr (Inr fc, q) \<Rightarrow>
          (if fc_Height fc \<le> ic_LastHeight ic then Some (Inr (Some ErrNoPathFound, ic\<lparr>ic_Source := q\<rparr>))
           else case ic_Update E' T' (ic\<lparr>ic_Source := q\<rparr>) fc of
             Inl p \<Rightarrow> Some (Inl p)
           | Inr (err, ic2) \<Rightarrow>
               if err \<noteq> Some ErrTooMuchChange then Some (Inr (err, ic2))
               else Option.bind (f E' T' S' (go_quot (wrap64 (ic_LastHeight ic + fc_Height fc)) 2) ic2) (\<lambda>r.
                 case r of
                   Inl p \<Rightarrow> Some (Inl p)
                 | Inr (Some e, ic3) \<Rightarrow> Some (Inr (Some e, ic3))
                 | Inr (None, ic3) \<Rightarrow> f E' T' S' h ic3))) = Some r"
    have U: "ic_Update E T (ic\<lparr>ic_Source := q\<rparr>) fc = Inr (e, ic2) \<Longrightarrow> ic_ok E chainID good ic2" for q fc e ic2
      by (rule ic_Update_ok [OF _ _ assms(2)], assumption) (simp add: src ok)
    show "ic_ok E chainID good ic'"
    proof (cases "pr_GetByHeight S' (ic_Source ic) h")
      case (Inl p)
      then show ?thesis using b r by simp
    next
      case (Inr x)
      obtain y q where x: "x = (y, q)" by fastforce
      consider e where "y = Inl e" | fc where "y = Inr fc" "fc_Height fc \<le> ic_LastHeight ic" | fc where "y = Inr fc" "\<not> fc_Height fc \<le> ic_LastHeight ic"
        by (cases y) auto
      then show ?thesis
      proof cases
        case (3 fc)
        obtain e2 ic2 where u: "ic_Update E T (ic\<lparr>ic_Source := q\<rparr>) fc = Inr (e2, ic2)"
          using b r Inr x 3 eq by (cases "ic_Update E T (ic\<lparr>ic_Source := q\<rparr>) fc") auto
        show ?thesis
        proof (cases "e2 = Some ErrTooMuchChange")
          case False
          then show ?thesis using b r Inr x 3 eq u U [OF u] by simp
        next
          case True
          then have "Option.bind (f E T S' (go_quot (wrap64 (ic_LastHeight ic + fc_Height fc)) 2) ic2) (\<lambda>r.
              case r of Inl p \<Rightarrow> Some (Inl p) | Inr (Some e, ic3) \<Rightarrow> Some (Inr (Some e, ic3)) | Inr (None, ic3) \<Rightarrow> f E T S' h ic3) = Some r"
            using b [unfolded eq] Inr x 3 u by simp
          then obtain r2 where r2: "f E T S' (go_quot (wrap64 (ic_LastHeight ic + fc_Height fc)) 2) ic2 = Some r2"
              "(case r2 of Inl p \<Rightarrow> Some (Inl p) | Inr (Some e, ic3) \<Rightarrow> Some (Inr (Some e, ic3)) | Inr (None, ic3) \<Rightarrow> f E T S' h ic3) = Some r"
            unfolding bind_eq_Some_conv by blast
          then obtain e3 ic3 where 3: "r2 = Inr (e3, ic3)" using r by (cases r2) auto
          have "ic_ok E chainID good ic3" using IH [OF r2(1)] U [OF u] 3 by simp
          then show ?thesis using r2(2) 3 r IH [of E T S' h ic3 r] by (cases e3) simp_all
        qed
      qed (use b r Inr x ok in \<open>auto simp: src\<close>)
    qed
  qed
  then show "ic_ok E chainID good ic \<Longrightarrow> r = Inr (err, ic') \<Longrightarrow> ic_ok E chainID good ic'" by blast
qed

lemma updateToHash_ok:
  assumes "updateToHash E T S vhash ic = Some (Inr (err, ic'))" "hands_on E chainID good" "ic_ok E chainID good ic"
  shows "ic_ok E chainID good ic'"
proof -
  have ok: "ic_ok E chainID good (ic\<lparr>ic_Source := q\<rparr>)" for q using assms(3) by (simp add: ic_ok_def)
  obtain y q where g: "pr_GetByHash S (ic_Source ic) vhash = Inr (y, q)"
    using assms(1) by (cases "pr_GetByHash S (ic_Source ic) vhash") (auto simp: updateToHash_def)
  show ?thesis
  proof (cases y)
    case (Inl e)
    then show ?thesis using assms(1) g ok by (auto simp: updateToHash_def)
  next
    case (Inr fc)
    obtain e2 dc where u: "dc_Update E (ic_cert ic) fc = Inr (e2, dc)"
      using assms(1) g Inr by (cases "dc_Update E (ic_cert ic) fc") (auto simp: updateToHash_def)
    have "cert_ok E chainID good dc" using dc_Update_ok(1) [OF u _ assms(2)] assms(3) by (simp add: ic_ok_def)
    then have ok2: "ic_ok E chainID good (ic\<lparr>ic_Source := q, ic_cert := dc\<rparr>)" using assms(3) by (simp add: ic_ok_def)
    show ?thesis
    proof (cases "e2 = Some ErrTooMuchChange")
      case True
      then show ?thesis using updateToHeight_ok [OF _ assms(2) ok2 refl] assms(1) g Inr u by (auto simp: updateToHash_def Let_def)
    next
      case False
      then show ?thesis using assms(1) g Inr u ok2 by (auto simp: updateToHash_def Let_def)
    qed
  qed
qed

lemma certify_stored_ok:
  assumes "certify_stored E T c ic = Inr (err, ic')" "ic_ok E chainID good ic"
  shows "ic_ok E chainID good ic'" "err = None \<Longrightarrow> \<exists>vs. good vs \<and> vouches E chainID vs c"
proof -
  obtain e dc where d: "dc_Certify E (ic_cert ic) c = Inr (e, dc)" using assms(1) by (auto simp: certify_stored_def elim!: bindP_Inr_E)
  have c: "cert_ok E chainID good (ic_cert ic)" "ok (ic_trusted ic)" using assms(2) by (simp_all add: ic_ok_def)
  note D = dc_Certify_ok [OF d c(1)]
  have "ic_ok E chainID good ic' \<and> (err = None \<longrightarrow> e = None)"
  proof (cases "e = None")
    case False
    then show ?thesis using assms d D(1) by (auto simp: certify_stored_def ic_ok_def)
  next
    case True
    obtain p' where st: "pr_StoreCommit T (ic_trusted ic) (NewFullCommit c (sc_vSet (dc_cert dc))) = Inr (err, p')" "ic' = ic\<lparr>ic_cert := dc, ic_trusted := p'\<rparr>"
      using assms(1) d True by (auto simp: certify_stored_def elim!: bindP_Inr_E)
    show ?thesis using store [OF c(2) st(1)] D(1,4) True assms(2) by (auto simp: ic_ok_def st(2) NewFullCommit_def split: if_split_asm)
  qed
  then show "ic_ok E chainID good ic'" "err = None \<Longrightarrow> \<exists>vs. good vs \<and> vouches E chainID vs c" using D(4) by blast+
qed

lemma ic_Certify_ok:
  assumes "ic_Certify E T S ic c = Some (Inr (err, ic'))" "hands_on E chainID good" "ic_ok E chainID good ic"
  shows "ic_ok E chainID good ic' \<and> (err = None \<longrightarrow> (\<exists>vs. good vs \<and> vouches E chainID vs c))"
proof -
  obtain e1 ic1 where 1: "useClosestTrust T ic (lc_Height c) = Inr (e1, ic1)"
    using assms(1) by (cases "useClosestTrust T ic (lc_Height c)") (auto simp: ic_Certify_def)
  have ok1: "ic_ok E chainID good ic1" by (rule useClosestTrust_ok [OF 1 assms(3)])
  show ?thesis
  proof (cases e1)
    case (Some e)
    then show ?thesis using assms(1) 1 ok1 by (auto simp: ic_Certify_def)
  next
    case None
    obtain e2 dc where d: "dc_Certify E (ic_cert ic1) c = Inr (e2, dc)"
      using assms(1) 1 None by (cases "dc_Certify E (ic_cert ic1) c") (auto simp: ic_Certify_def)
    have c: "cert_ok E chainID good (ic_cert ic1)" using ok1 by (simp add: ic_ok_def)
    note D = dc_Certify_ok [OF d c]
    have ok2: "ic_ok E chainID good (ic1\<lparr>ic_cert := dc\<rparr>)" using ok1 D(1) by (simp add: ic_ok_def)
    show ?thesis
    proof (cases "e2 = Some ErrValidatorsChanged")
      case False
      then show ?thesis using assms(1) 1 None d ok2 D(4) by (auto simp: ic_Certify_def Let_def)
    next
      case True
      then have "Option.bind (updateToHash E T S (lc_ValidatorsHash c) (ic1\<lparr>ic_cert := dc\<rparr>)) (\<lambda>r. case r of Inl p \<Rightarrow> Some (Inl p)
          | Inr (Some e, ic3) \<Rightarrow> Some (Inr (Some e, ic3)) | Inr (None, ic3) \<Rightarrow> Some (certify_stored E T c ic3)) = Some (Inr (err, ic'))"
        using assms(1) 1 None d by (simp add: ic_Certify_def Let_def)
      then obtain r where r: "updateToHash E T S (lc_ValidatorsHash c) (ic1\<lparr>ic_cert := dc\<rparr>) = Some r" "(case r of Inl p \<Rightarrow> Some (Inl p)
          | Inr (Some e, ic3) \<Rightarrow> Some (Inr (Some e, ic3)) | Inr (None, ic3) \<Rightarrow> Some (certify_stored E T c ic3)) = Some (Inr (err, ic'))"
        unfolding bind_eq_Some_conv by blast
      then obtain e3 ic3 where 3: "r = Inr (e3, ic3)" by (cases r) auto
      have ok3: "ic_ok E chainID good ic3" using updateToHash_ok [OF r(1) [unfolded 3] assms(2) ok2] .
      show ?thesis using r(2) 3 ok3 certify_stored_ok [OF _ ok3] by (cases e3) auto
    qed
  qed
qed

text \<open>Heights: the certifier is anchored at a commit it holds.\<close>

definition ic_base :: "'q \<Rightarrow> ('p, 'q) inquiring \<Rightarrow> bool" where
  "ic_base q ic \<longleftrightarrow> ok (ic_trusted ic) \<and> (\<forall>fc \<in> held (ic_trusted ic). 0 \<le> fc_Height fc) \<and> ic_Source ic = q"

definition anchored :: "('p, 'q) inquiring \<Rightarrow> bool" where
  "anchored ic \<longleftrightarrow> (\<exists>fc \<in> held (ic_trusted ic). fc_Height fc = ic_LastHeight ic)"

lemma useClosestTrust_base:
  assumes "useClosestTrust T ic h = Inr (err, ic')" "ic_base q ic"
  shows "ic_base q ic'" "held (ic_trusted ic') = held (ic_trusted ic)" "err \<noteq> Some ErrTooMuchChange"
    "err = None \<Longrightarrow> anchored ic' \<and> ic_LastHeight ic' \<le> h \<and> (\<forall>fc \<in> held (ic_trusted ic). fc_Height fc \<le> h \<longrightarrow> fc_Height fc \<le> ic_LastHeight ic')"
proof -
  obtain r p' where g: "pr_GetByHeight T (ic_trusted ic) h = Inr (r, p')"
    using assms(1) by (auto simp: useClosestTrust_def elim!: bindP_Inr_E)
  have B: "ok p'" "held p' = held (ic_trusted ic)" "closest_in (held (ic_trusted ic)) h r"
    using by_height [OF _ g] assms(2) by (auto simp: ic_base_def)
  show "ic_base q ic'" "held (ic_trusted ic') = held (ic_trusted ic)" "err \<noteq> Some ErrTooMuchChange"
    using assms g B by (auto simp: useClosestTrust_def ic_base_def closest_in_def Let_def split: sum.split_asm if_split_asm)
  show "err = None \<Longrightarrow> anchored ic' \<and> ic_LastHeight ic' \<le> h \<and> (\<forall>fc \<in> held (ic_trusted ic). fc_Height fc \<le> h \<longrightarrow> fc_Height fc \<le> ic_LastHeight ic')"
    using assms g B by (auto simp: useClosestTrust_def anchored_def closest_in_def NewDynamicCertifier_def Let_def split: sum.split_asm if_split_asm)
qed

lemma ic_Update_base:
  assumes "ic_Update E T ic fc = Inr (err, ic')" "ic_base q ic"
  shows "ic_base q ic'" "err = None \<Longrightarrow> anchored ic' \<and> ic_LastHeight ic' = fc_Height fc"
    "err = Some ErrTooMuchChange \<Longrightarrow> anchored ic' \<and> (\<forall>fc' \<in> held (ic_trusted ic). fc_Height fc' \<le> fc_Height fc \<longrightarrow> fc_Height fc' \<le> ic_LastHeight ic')"
proof -
  obtain e1 ic1 where 1: "useClosestTrust T ic (fc_Height fc) = Inr (e1, ic1)" using assms(1) by (auto simp: ic_Update_def elim!: bindP_Inr_E)
  note U = useClosestTrust_base [OF 1 assms(2)]
  have "ic_base q ic' \<and> (err = None \<longrightarrow> anchored ic' \<and> ic_LastHeight ic' = fc_Height fc) \<and>
    (err = Some ErrTooMuchChange \<longrightarrow> anchored ic' \<and> (\<forall>fc' \<in> held (ic_trusted ic). fc_Height fc' \<le> fc_Height fc \<longrightarrow> fc_Height fc' \<le> ic_LastHeight ic'))"
  proof (cases "e1 = None")
    case False
    then show ?thesis using assms(1) 1 U by (auto simp: ic_Update_def)
  next
    case True
    obtain e2 dc where 2: "dc_Update E (ic_cert ic1) fc = Inr (e2, dc)" using assms(1) 1 True by (auto simp: ic_Update_def elim!: bindP_Inr_E)
    have D: "e2 \<noteq> None \<Longrightarrow> dc = ic_cert ic1" "e2 = None \<Longrightarrow> ic_LastHeight ic1 < fc_Height fc \<and> dc_lastHeight dc = fc_Height fc"
      using 2 by (auto simp: dc_Update_def Let_def elim!: bindP_Inr_E split: option.split_asm if_split_asm)
    show ?thesis
    proof (cases "e2 = None")
      case False
      then have "err = e2" "ic' = ic1" using assms(1) 1 True 2 D(1) by (auto simp: ic_Update_def)
      then show ?thesis using False U True by auto
    next
      case n: True
      obtain p' where 3: "pr_StoreCommit T (ic_trusted ic1) fc = Inr (err, p')" "ic' = ic1\<lparr>ic_cert := dc, ic_trusted := p'\<rparr>"
        using assms(1) 1 True 2 n by (auto simp: ic_Update_def elim!: bindP_Inr_E)
      have "ok (ic_trusted ic1)" "0 \<le> ic_LastHeight ic1" using U(1) U(4) [OF True] by (auto simp: ic_base_def anchored_def)
      then show ?thesis using store [OF _ 3(1)] U(1) D(2) n by (auto simp: ic_base_def anchored_def 3(2) split: if_split_asm)
    qed
  qed
  then show "ic_base q ic'" "err = None \<Longrightarrow> anchored ic' \<and> ic_LastHeight ic' = fc_Height fc"
    "err = Some ErrTooMuchChange \<Longrightarrow> anchored ic' \<and> (\<forall>fc' \<in> held (ic_trusted ic). fc_Height fc' \<le> fc_Height fc \<longrightarrow> fc_Height fc' \<le> ic_LastHeight ic')" by blast+
qed

end

text \<open>A source that answers a height always with the same commit, of at most this height.\<close>

definition steady_source :: "'q provider \<Rightarrow> 'q \<Rightarrow> bool" where
  "steady_source S q \<longleftrightarrow> (\<exists>src. \<forall>h. pr_GetByHeight S q h = Inr (src h, q) \<and> (\<forall>fc. src h = Inr fc \<longrightarrow> fc_Height fc \<le> h)) \<and>
     (\<forall>hash. \<exists>r. pr_GetByHash S q hash = Inr (r, q) \<and> (\<forall>fc. r = Inr fc \<longrightarrow> fc_Height fc < 2 ^ 62))"

context trust_store
begin

lemma updateToHeight_returns:
  assumes "steady_source S q" "ic_base q ic" "anchored ic" "h < 2 ^ 62"
  shows "\<exists>r. updateToHeight E T S h ic = Some r \<and>
    (\<forall>err ic'. r = Inr (err, ic') \<longrightarrow> ic_base q ic' \<and> (err = None \<longrightarrow> anchored ic' \<and> ic_LastHeight ic < ic_LastHeight ic'))"
  using assms(2-4)
proof (induction "nat (h - ic_LastHeight ic)" arbitrary: h ic rule: less_induct)
  case (less h ic)
  obtain src where src: "\<And>h. pr_GetByHeight S q h = Inr (src h, q)" "\<And>h fc. src h = Inr fc \<Longrightarrow> fc_Height fc \<le> h"
    using assms(1) unfolding steady_source_def by blast
  have q: "ic_Source ic = q" "ic\<lparr>ic_Source := q\<rparr> = ic" using less.prems(1) by (simp_all add: ic_base_def)
  note eq = updateToHeight.simps [of E T S h ic, unfolded q(1) src(1)]
  show ?case
  proof (cases "src h")
    case (Inl e)
    then show ?thesis using less.prems(1) unfolding eq by (simp add: q(2))
  next
    case (Inr fc)
    show ?thesis
    proof (cases "fc_Height fc \<le> ic_LastHeight ic \<or> (\<exists>p. ic_Update E T ic fc = Inl p)")
      case True
      then show ?thesis using Inr less.prems(1) unfolding eq by (auto simp: q(2))
    next
      case False
      then obtain err ic2 where u: "ic_Update E T ic fc = Inr (err, ic2)" and lt: "ic_LastHeight ic < fc_Height fc"
        by (cases "ic_Update E T ic fc") (auto simp: not_le)
      note U = ic_Update_base [OF u less.prems(1)]
      show ?thesis
      proof (cases "err = Some ErrTooMuchChange")
        case False
        then show ?thesis using Inr lt u U(1,2) unfolding eq by (auto simp: q(2))
      next
        case True
        let ?m = "go_quot (wrap64 (ic_LastHeight ic + fc_Height fc)) 2"
        have le: "fc_Height fc \<le> h" by (rule src(2) [OF Inr])
        have st: "0 \<le> ic_LastHeight ic" "ic_LastHeight ic \<le> ic_LastHeight ic2" "anchored ic2"
          using less.prems(1,2) U(3) [OF True] lt by (auto simp: anchored_def ic_base_def)
        have m: "?m = (ic_LastHeight ic + fc_Height fc) div 2" using st(1) lt le less.prems(3) by (simp add: wrap64_def go_quot_def)
        then have m': "?m < fc_Height fc" "?m < 2 ^ 62" using lt le less.prems(3) by auto
        obtain r where r: "updateToHeight E T S ?m ic2 = Some r"
            "\<And>err ic'. r = Inr (err, ic') \<Longrightarrow> ic_base q ic' \<and> (err = None \<longrightarrow> anchored ic' \<and> ic_LastHeight ic2 < ic_LastHeight ic')"
          using less.hyps [of ?m ic2] U(1) st(2,3) m' lt le by fastforce
        have step: "updateToHeight E T S h ic = (case r of Inl p \<Rightarrow> Some (Inl p) | Inr (Some e, ic3) \<Rightarrow> Some (Inr (Some e, ic3))
            | Inr (None, ic3) \<Rightarrow> updateToHeight E T S h ic3)"
          unfolding eq using Inr lt u True r(1) by (simp add: q(2))
        show ?thesis
        proof (cases "\<exists>ic3. r = Inr (None, ic3)")
          case True
          then obtain ic3 where ic3: "r = Inr (None, ic3)" by blast
          then have a: "ic_base q ic3" "anchored ic3" "ic_LastHeight ic < ic_LastHeight ic3" using r(2) st(2) by auto
          then show ?thesis using less.hyps [of h ic3] lt le less.prems(3) unfolding step ic3 by fastforce
        next
          case False
          then show ?thesis using r(2) unfolding step by (cases r) (auto split: option.split)
        qed
      qed
    qed
  qed
qed

lemma updateToHash_returns:
  assumes "steady_source S q" "ic_base q ic" "anchored ic"
  shows "\<exists>r. updateToHash E T S vhash ic = Some r \<and> (\<forall>err ic'. r = Inr (err, ic') \<longrightarrow> ic_base q ic')"
proof -
  have q: "ic_Source ic = q" "ic\<lparr>ic_Source := q\<rparr> = ic" using assms(2) by (simp_all add: ic_base_def)
  obtain y where y: "pr_GetByHash S q vhash = Inr (y, q)" "\<And>fc. y = Inr fc \<Longrightarrow> fc_Height fc < 2 ^ 62"
    using assms(1) unfolding steady_source_def by blast
  have b: "ic_base q (ic\<lparr>ic_cert := dc\<rparr>)" for dc using assms(2) by (simp add: ic_base_def)
  show ?thesis
  proof (cases y)
    case (Inl e)
    then show ?thesis using y(1) q(1) assms(2) by (simp add: updateToHash_def ic_base_def)
  next
    case (Inr fc)
    show ?thesis
    proof (cases "dc_Update E (ic_cert ic) fc")
      case (Inl p)
      then show ?thesis using y(1) q Inr by (simp add: updateToHash_def)
    next
      case u: (Inr x)
      obtain err dc where x: "x = (err, dc)" by fastforce
      have dc: "err \<noteq> None \<Longrightarrow> ic\<lparr>ic_cert := dc\<rparr> = ic"
        using u x by (auto simp: dc_Update_def Let_def elim!: bindP_Inr_E split: option.split_asm if_split_asm)
      show ?thesis
        using updateToHeight_returns [OF assms, of "fc_Height fc" E] y q Inr u x b [of dc] dc by (auto simp: updateToHash_def Let_def)
    qed
  qed
qed

lemma certify_stored_base:
  assumes "certify_stored E T c ic = Inr (err, ic')" "ic_base q ic" "0 \<le> lc_Height c"
  shows "ic_base q ic'"
proof -
  obtain e dc where d: "dc_Certify E (ic_cert ic) c = Inr (e, dc)" using assms(1) by (auto simp: certify_stored_def elim!: bindP_Inr_E)
  show ?thesis
  proof (cases "e = None")
    case False
    then show ?thesis using assms(1,2) d by (auto simp: certify_stored_def ic_base_def)
  next
    case True
    obtain p' where st: "pr_StoreCommit T (ic_trusted ic) (NewFullCommit c (sc_vSet (dc_cert dc))) = Inr (err, p')" "ic' = ic\<lparr>ic_cert := dc, ic_trusted := p'\<rparr>"
      using assms(1) d True by (auto simp: certify_stored_def elim!: bindP_Inr_E)
    show ?thesis using store [OF _ st(1)] assms(2,3) by (auto simp: ic_base_def st(2) NewFullCommit_def split: if_split_asm)
  qed
qed

lemma ic_Certify_returns:
  assumes "steady_source S q" "ic_base q ic"
  shows "\<exists>r. ic_Certify E T S ic c = Some r \<and> (\<forall>err ic'. r = Inr (err, ic') \<longrightarrow> ic_base q ic')"
proof (cases "useClosestTrust T ic (lc_Height c)")
  case (Inl p)
  then show ?thesis by (simp add: ic_Certify_def)
next
  case (Inr x)
  obtain e1 ic1 where 1: "useClosestTrust T ic (lc_Height c) = Inr (e1, ic1)" using Inr by (cases x) simp
  note U = useClosestTrust_base [OF 1 assms(2)]
  show ?thesis
  proof (cases "e1 = None \<and> (\<exists>dc. dc_Certify E (ic_cert ic1) c = Inr (Some ErrValidatorsChanged, dc))")
    case False
    then show ?thesis using 1 U(1)
      by (cases e1; cases "dc_Certify E (ic_cert ic1) c") (auto simp: ic_Certify_def Let_def ic_base_def)
  next
    case True
    then obtain dc where d: "dc_Certify E (ic_cert ic1) c = Inr (Some ErrValidatorsChanged, dc)" and e1: "e1 = None" by blast
    have "dc_lastHeight dc = ic_LastHeight ic1" using d by (auto simp: dc_Certify_def elim!: bindP_Inr_E)
    then have a: "anchored (ic1\<lparr>ic_cert := dc\<rparr>)" "ic_base q (ic1\<lparr>ic_cert := dc\<rparr>)" "0 \<le> lc_Height c"
      using U(1,2) U(4) [OF e1] by (auto simp: anchored_def ic_base_def)
    obtain r where r: "updateToHash E T S (lc_ValidatorsHash c) (ic1\<lparr>ic_cert := dc\<rparr>) = Some r" "\<And>err ic'. r = Inr (err, ic') \<Longrightarrow> ic_base q ic'"
      using updateToHash_returns [OF assms(1) a(2,1)] by blast
    have e: "ic_Certify E T S ic c = (case r of Inl p \<Rightarrow> Some (Inl p) | Inr (Some e, ic3) \<Rightarrow> Some (Inr (Some e, ic3))
        | Inr (None, ic3) \<Rightarrow> Some (certify_stored E T c ic3))"
      using 1 e1 d r(1) by (simp add: ic_Certify_def Let_def)
    show ?thesis unfolding e using r(2) certify_stored_base [OF _ _ a(3)] by (cases r) (auto split: option.split)
  qed
qed

end

section \<open>The store in memory as trusted provider\<close>

lemma mem_trust_store:
  assumes "sorts_commits srt"
  shows "trust_store (mem_store E srt) ms_ok (\<lambda>m. set (ms_byHeight m))"
proof
  fix p fc err p' assume "ms_ok p" "pr_StoreCommit (mem_store E srt) p fc = Inr (err, p')"
  then show "ms_ok p' \<and> err \<noteq> Some ErrTooMuchChange \<and> set (ms_byHeight p') = (if err = None then insert fc (set (ms_byHeight p)) else set (ms_byHeight p))"
    by (auto simp: mem_store_def ms_StoreCommit_def ms_ok_def lc_ValidateBasic_err elim!: bindP_Inr_E split: option.split_asm)
next
  fix p h r p' assume "ms_ok p" "pr_GetByHeight (mem_store E srt) p h = Inr (r, p')"
  then show "ms_ok p' \<and> set (ms_byHeight p') = set (ms_byHeight p) \<and> closest_in (set (ms_byHeight p)) h r"
    using ms_GetByHeight_spec [OF assms, of p h r p'] by (simp add: mem_store_def)
qed

lemma stable_sorts: "sorts_commits (sort_key fc_Height)"
  by (simp add: sorts_commits_def)

interpretation mst: trust_store "mem_store E (sort_key fc_Height)" ms_ok "\<lambda>m. set (ms_byHeight m)" for E
  by (rule mem_trust_store [OF stable_sorts])

text \<open>A client from its start, with any commits to certify and any updates.\<close>

inductive ic_run :: "'e ext_scheme \<Rightarrow> 'p provider \<Rightarrow> 'q provider \<Rightarrow> ('p, 'q) inquiring \<Rightarrow> ('p, 'q) inquiring \<Rightarrow> bool" for E T S ic0 where
  ic_start: "ic_run E T S ic0 ic0"
| ic_certify: "ic_run E T S ic0 ic \<Longrightarrow> ic_Certify E T S ic c = Some (Inr (err, ic')) \<Longrightarrow> ic_run E T S ic0 ic'"
| ic_update: "ic_run E T S ic0 ic \<Longrightarrow> ic_Update E T ic fc = Inr (err, ic') \<Longrightarrow> ic_run E T S ic0 ic'"

text \<open>The sets of validators that a chain of approvals connects to the first one.\<close>

inductive trusted_from :: "'e ext_scheme \<Rightarrow> bytes \<Rightarrow> validator_set \<Rightarrow> validator_set \<Rightarrow> bool" for E chainID vs0 where
  trust_root: "trusted_from E chainID vs0 vs0"
| trust_step: "trusted_from E chainID vs0 vs \<Longrightarrow> VerifyCommitAny E vs vs' chainID b h k = Inr None \<Longrightarrow> trusted_from E chainID vs0 vs'"

lemma trusted_hands_on: "hands_on E chainID (trusted_from E chainID vs0)"
  unfolding hands_on_def by (blast intro: trust_step)

context trust_store
begin

lemma run_ok:
  "ic_run E T S ic0 ic \<Longrightarrow> hands_on E chainID good \<Longrightarrow> ic_ok E chainID good ic0 \<Longrightarrow> ic_ok E chainID good ic"
proof (induction rule: ic_run.induct)
  case (ic_certify ic c err ic')
  then show ?case using ic_Certify_ok by blast
next
  case (ic_update ic fc err ic')
  then show ?case using ic_Update_ok by blast
qed

lemma run_base: "ic_run E T S ic0 ic \<Longrightarrow> steady_source S q \<Longrightarrow> ic_base q ic0 \<Longrightarrow> ic_base q ic"
proof (induction rule: ic_run.induct)
  case (ic_certify ic c err ic')
  then show ?case using ic_Certify_returns [of S q ic E c] by auto
next
  case (ic_update ic fc err ic')
  then have "ic_base q ic" by simp
  then show ?case by (rule ic_Update_base(1) [OF ic_update(2)])
qed

end


section \<open>Properties\<close>

text \<open>
  C7: what a certified commit shows, whatever the source answers. When the light client, started from a
  full commit, has certified and updated anything in any order and now certifies a commit, then the commit is for the
  header it comes with, and it is verified by a set of validators with the hash of this header that a chain of
  approvals connects to the validators the client started from: each set in the chain has approved,
  by two thirds of its own power and of the power of the next set, a commit that brought the next set.
\<close>

theorem Light_client_sound:
  assumes "sorts_commits srt" "NewInquiringCertifier (mem_store E srt) chainID fc NewMemStoreProvider source = Inr (Inr ic0, p0)"
    and "fc_Validators fc = Some vs0" "ic_run E (mem_store E srt) S ic0 ic" "ic_Certify E (mem_store E srt) S ic c = Some (Inr (None, ic'))"
  shows "\<exists>vs. trusted_from E chainID vs0 vs \<and> vouches E chainID vs c"
proof -
  note T = mem_trust_store [OF assms(1), of E]
  have "trust_store.ic_ok ms_ok (\<lambda>m. set (ms_byHeight m)) E chainID (trusted_from E chainID vs0) ic0"
    using assms(2,3) trust_root [of E chainID vs0]
    by (auto simp: NewInquiringCertifier_def mem_store_def ms_StoreCommit_def NewMemStoreProvider_def NewDynamicCertifier_def NewStaticCertifier_def
        trust_store.ic_ok_def [OF T] cert_ok_def ms_ok_def elim!: bindP_Inr_E split: option.split_asm)
  from trust_store.ic_Certify_ok [OF T assms(5) trusted_hands_on trust_store.run_ok [OF T assms(4) trusted_hands_on this]]
  show ?thesis by blast
qed

text \<open>A header of \<open>demo_validators\<close>, and its commit.\<close>

definition lite_header :: header where
  "lite_header = zero_header\<lparr>hdr_ChainID := ''chain'', hdr_Height := 1, hdr_ValidatorsHash := vs_Hash demo_ext demo_validators\<rparr>"

definition lite_demo :: lite_commit where
  "lite_demo = \<lparr>lc_Header = Some lite_header, lc_Commit = Some (demo_commit (hdr_Hash demo_ext (Some lite_header)))\<rparr>"

definition lite_client :: "(mem_provider, unit) inquiring" where
  "lite_client = \<lparr>ic_cert = NewDynamicCertifier ''chain'' (Some demo_validators) 1,
     ic_trusted = \<lparr>ms_byHeight = [NewFullCommit lite_demo (Some demo_validators)],
       ms_byHash = [hex_EncodeToString (vs_Hash demo_ext demo_validators) \<mapsto> NewFullCommit lite_demo (Some demo_validators)], ms_sorted = False\<rparr>, ic_Source = ()\<rparr>"

lemma lite_demo_simps:
  "lc_Header lite_demo = Some lite_header" "lc_Commit lite_demo = Some (demo_commit (hdr_Hash demo_ext (Some lite_header)))"
  "hdr_ChainID lite_header = ''chain''" "hdr_Height lite_header = 1" "hdr_ValidatorsHash lite_header = vs_Hash demo_ext demo_validators"
  "commit_BlockID (demo_commit x) = demo_bid x" "bid_Hash (demo_bid x) = x"
  by (simp_all add: lite_demo_def lite_header_def demo_commit_def demo_bid_def)

lemma lite_demo_valid: "lc_ValidateBasic demo_ext lite_demo ''chain'' = None" "lc_Height lite_demo = 1"
proof -
  have "commit_ValidateBasic (demo_commit x) = None" for x unfolding commit_ValidateBasic_def demo_commit_step
    by (simp add: demo_commit_def demo_bid_def bid_IsZero_def psh_IsZero_def demo_vote_def VoteTypePrecommit_def)
  then show "lc_ValidateBasic demo_ext lite_demo ''chain'' = None" "lc_Height lite_demo = 1"
    by (simp_all add: lc_ValidateBasic_def lc_Height_def lite_demo_simps demo_commit_step)
qed

lemma lite_start:
  "NewInquiringCertifier (mem_store demo_ext (sort_key fc_Height)) ''chain'' (NewFullCommit lite_demo (Some demo_validators)) NewMemStoreProvider () =
     Inr (Inr lite_client, ic_trusted lite_client)"
  by (simp add: NewInquiringCertifier_def mem_store_def ms_StoreCommit_def NewFullCommit_def lite_client_def NewMemStoreProvider_def lc_ValidatorsHash_def
      lite_demo_simps lite_demo_valid)

lemma lite_certifies: "\<exists>ic'. ic_Certify demo_ext (mem_store demo_ext (sort_key fc_Height)) S lite_client lite_demo = Some (Inr (None, ic'))"
proof -
  have "\<exists>dc. dc_Certify demo_ext (NewDynamicCertifier ''chain'' (Some demo_validators) 1) lite_demo = Inr (None, dc)"
    using demo_commit_accepted [of "hdr_Hash demo_ext (Some lite_header)"]
    by (simp add: dc_Certify_def sc_Certify_def sc_Hash_def NewDynamicCertifier_def NewStaticCertifier_def lite_demo_valid lite_demo_simps)
  then show ?thesis
    by (auto simp: ic_Certify_def useClosestTrust_def mem_store_def ms_GetByHeight_def sortByHeightIfNecessary_def getByHeightLinearSearch_def
        lite_client_def NewFullCommit_def lite_demo_valid NewDynamicCertifier_def Let_def)
qed

theorem Light_client_sound_witness: "\<exists>vs. trusted_from demo_ext ''chain'' demo_validators vs \<and> vouches demo_ext ''chain'' vs lite_demo"
proof -
  obtain ic' where c: "ic_Certify demo_ext (mem_store demo_ext (sort_key fc_Height)) (undefined :: unit provider) lite_client lite_demo = Some (Inr (None, ic'))"
    using lite_certifies by blast
  show ?thesis by (rule Light_client_sound [OF stable_sorts lite_start _ ic_start c]) (simp add: NewFullCommit_def)
qed

text \<open>
  C13: certifying ends. If the source answers as a provider should, always with the same commit for a height
  and never with a higher one, then whatever the client has done before, certifying a commit returns:
  the bisection of \<open>updateToHeight\<close> terminates.
\<close>

theorem Light_client_returns:
  assumes "sorts_commits srt" "NewInquiringCertifier (mem_store E srt) chainID fc NewMemStoreProvider source = Inr (Inr ic0, p0)"
    and "0 \<le> fc_Height fc" "steady_source S source" "ic_run E (mem_store E srt) S ic0 ic"
  shows "\<exists>r. ic_Certify E (mem_store E srt) S ic c = Some r"
proof -
  note T = mem_trust_store [OF assms(1), of E]
  have "trust_store.ic_base ms_ok (\<lambda>m. set (ms_byHeight m)) source ic0"
    using assms(2,3)
    by (auto simp: NewInquiringCertifier_def mem_store_def ms_StoreCommit_def NewMemStoreProvider_def trust_store.ic_base_def [OF T] ms_ok_def
        elim!: bindP_Inr_E split: option.split_asm)
  from trust_store.ic_Certify_returns [OF T assms(4) trust_store.run_base [OF T assms(5,4) this]] show ?thesis by blast
qed

definition no_source :: "unit provider" where
  "no_source = \<lparr>pr_StoreCommit = (\<lambda>q fc. Inr (None, q)), pr_GetByHeight = (\<lambda>q h. Inr (Inl ErrCommitNotFound, q)),
     pr_GetByHash = (\<lambda>q hash. Inr (Inl ErrCommitNotFound, q)), pr_LatestCommit = (\<lambda>q. Inr (Inl ErrCommitNotFound, q))\<rparr>"

theorem Light_client_returns_witness: "\<exists>r. ic_Certify demo_ext (mem_store demo_ext (sort_key fc_Height)) no_source lite_client lite_demo = Some r"
  by (rule Light_client_returns [OF stable_sorts lite_start _ _ ic_start])
    (auto simp: NewFullCommit_def lite_demo_valid steady_source_def no_source_def)

text \<open>
  C39: a source can hang the light client. If the source answers every height with one commit, newer than the
  trusted ones, that the trusted validators do not approve, then the bisection never returns.
\<close>

theorem Stuck_source_never_returns:
  assumes "\<And>h. pr_GetByHeight S (ic_Source ic) h = Inr (Inr fc, ic_Source ic)" "ic_LastHeight ic < fc_Height fc"
    and "ic_Update E T ic fc = Inr (Some ErrTooMuchChange, ic)"
  shows "updateToHeight E T S h ic = None"
proof (rule ccontr)
  assume "updateToHeight E T S h ic \<noteq> None"
  then obtain r where ret: "updateToHeight E T S h ic = Some r" by blast
  let ?P = "\<lambda>E' T' S' h ic' r. E' = E \<longrightarrow> T' = T \<longrightarrow> S' = S \<longrightarrow> ic' = ic \<longrightarrow> False"
  have "?P E T S h ic r"
  proof (rule updateToHeight.raw_induct [of ?P, OF _ ret], intro impI)
    fix f E' T' S' h r ic'
    assume IH: "\<And>E' T' S' h ic' r. f E' T' S' h ic' = Some r \<Longrightarrow> ?P E' T' S' h ic' r" and eq: "E' = E" "T' = T" "S' = S" "ic' = ic"
      and b: "(case pr_GetByHeight S' (ic_Source ic') h of
        Inl p \<Rightarrow> Some (Inl p)
      | Inr (Inl e, q) \<Rightarrow> Some (Inr (Some e, ic'\<lparr>ic_Source := q\<rparr>))
      | Inr (Inr fc, q) \<Rightarrow>
          (if fc_Height fc \<le> ic_LastHeight ic' then Some (Inr (Some ErrNoPathFound, ic'\<lparr>ic_Source := q\<rparr>))
           else case ic_Update E' T' (ic'\<lparr>ic_Source := q\<rparr>) fc of
             Inl p \<Rightarrow> Some (Inl p)
           | Inr (err, ic2) \<Rightarrow>
               if err \<noteq> Some ErrTooMuchChange then Some (Inr (err, ic2))
               else Option.bind (f E' T' S' (go_quot (wrap64 (ic_LastHeight ic' + fc_Height fc)) 2) ic2) (\<lambda>r.
                 case r of
                   Inl p \<Rightarrow> Some (Inl p)
                 | Inr (Some e, ic3) \<Rightarrow> Some (Inr (Some e, ic3))
                 | Inr (None, ic3) \<Rightarrow> f E' T' S' h ic3))) = Some r"
    have "f E T S (go_quot (wrap64 (ic_LastHeight ic + fc_Height fc)) 2) ic \<noteq> None"
      using b [unfolded eq assms(1)] assms(2,3) by (auto simp: bind_eq_Some_conv)
    then show False using IH [of E T S _ ic] by auto
  qed
  then show False by blast
qed

theorem Stuck_source_never_returns_witness:
  "\<exists>T S (ic :: (mem_provider, unit) inquiring). updateToHeight demo_ext T (S :: unit provider) 1 ic = None"
proof -
  let ?fc = "NewFullCommit lite_demo (Some (demo_validators\<lparr>Validators := []\<rparr>))"
  let ?T = "mem_store demo_ext (sort_key fc_Height)" and ?S = "no_source\<lparr>pr_GetByHeight := (\<lambda>q h. Inr (Inr ?fc, q))\<rparr>"
  let ?ic = "\<lparr>ic_cert = NewDynamicCertifier ''chain'' (Some demo_validators) 0,
     ic_trusted = \<lparr>ms_byHeight = [zero_full_commit], ms_byHash = Map.empty, ms_sorted = True\<rparr>, ic_Source = ()\<rparr>"
  have h: "fc_Height ?fc = 1" "fc_Height zero_full_commit = 0" "lc_Commit lite_demo = Some (demo_commit (hdr_Hash demo_ext (Some lite_header)))"
    by (simp_all add: NewFullCommit_def zero_full_commit_def lc_Height_def lite_demo_simps)
  have "VerifyCommitAny demo_ext demo_validators (demo_validators\<lparr>Validators := []\<rparr>) ''chain'' b 1 (demo_commit x) = Inr (Some WrongSetSize)" for b x
    by (simp add: VerifyCommitAny_def vs_Size_def demo_commit_def)
  then have "dc_Update demo_ext (ic_cert ?ic) ?fc = Inr (Some ErrTooMuchChange, ic_cert ?ic)"
    using h lite_demo_valid by (simp add: dc_Update_def NewDynamicCertifier_def NewStaticCertifier_def NewFullCommit_def Let_def)
  moreover have "useClosestTrust ?T ?ic 1 = Inr (None, ?ic)"
    using h(2) by (simp add: useClosestTrust_def mem_store_def ms_GetByHeight_def sortByHeightIfNecessary_def getByHeightLinearSearch_def NewDynamicCertifier_def Let_def)
  ultimately have "ic_Update demo_ext ?T ?ic ?fc = Inr (Some ErrTooMuchChange, ?ic)" using h(1) by (simp add: ic_Update_def)
  then have "updateToHeight demo_ext ?T ?S 1 ?ic = None"
    by (intro Stuck_source_never_returns) (use h(1) in \<open>simp_all add: NewDynamicCertifier_def\<close>)
  then show ?thesis by blast
qed

text \<open>
  C40: the binary search finds what the linear one does. On commits sorted by height, both return the commit with the greatest
  height that is at most the height asked for, or report that there is none.
\<close>

theorem Binary_search_is_linear:
  assumes "sorted (map fc_Height xs)"
  shows "map_sum id fc_Height (getByHeightBinarySearch xs h) = map_sum id fc_Height (getByHeightLinearSearch xs h) \<and>
    closest_in (set xs) h (getByHeightBinarySearch xs h)"
  using binary_closest [OF assms, of h] linear_closest [OF assms, of h]
  by (auto simp: closest_in_def split: sum.split_asm) fastforce+

theorem Binary_search_is_linear_witness:
  "map_sum id fc_Height (getByHeightBinarySearch [zero_full_commit, NewFullCommit lite_demo None] 5) = Inr 1"
proof -
  have h: "fc_Height zero_full_commit = 0" "fc_Height (NewFullCommit lite_demo None) = 1"
    by (simp_all add: NewFullCommit_def zero_full_commit_def lc_Height_def lite_demo_simps)
  then have "sorted (map fc_Height [zero_full_commit, NewFullCommit lite_demo None])" by simp
  from Binary_search_is_linear [OF this, of 5] show ?thesis using h by (simp add: getByHeightLinearSearch_def)
qed

end
