(* ===== verification/Spec2Isabelle.thy ===== *)
theory Spec2Isabelle
  imports Proposer_Rotation Chain_Params Node_Runs Dmc_App Light_Client
begin

text \<open>
  DeMars-DMC is a node of a replicated ledger, a fork of Tendermint in Go. Validators agree on one block per
  height: a proposer sends a block in parts, the validators prevote and precommit it in rounds, and a block
  with precommits of more than two thirds of the voting power is committed, stored, and executed by an
  application behind the ABCI interface. The fork sorts transactions into buckets by address segments and
  has an application of its own, a coin. A light client follows the chain from headers and commits only.

  This library models the deterministic core of the node, the coin application and the light client, each
  operation as one definition with the name of the Go function, and proves what makes them correct.

  \<^bold>\<open>How Go is modelled.\<close> \<^verbatim>\<open>DMC_Prelude\<close>: bytes and strings are character lists; \<open>int64\<close> and \<open>int\<close> are integers
  with \<open>wrap64\<close> where the code computes, and bit arrays use \<open>64 word\<close>; a pointer that may be nil is an option and
  following it is \<open>deref\<close>; a panic is a value on the left of \<open>or_panic\<close>, so that each claim that something does not
  panic is a theorem; an error that Go returns is a value of an error datatype. State is passed and returned.
  A nil slice and an empty one are not told apart, except where the code compares a slice with nil. Structures behind
  pointers are values; where one is changed through a second pointer, this is part of the model: part sets, which
  consensus shares, live in a heap of their own (\<open>cs_heap\<close>), a block that is decoded over another changes the valid
  block with it (\<open>rs_ValidShared\<close>), and hashing a block fills in its header (\<open>blk_hashed\<close>). Mutexes are left
  out, because each component is driven by one goroutine at a time; the order of events is arbitrary.

  \<^bold>\<open>What is a parameter.\<close> Code outside of the repository is a field of an environment: hash functions, signature
  schemes and curve arithmetic (\<open>crypto_env\<close>), amino and JSON (\<open>ext\<close>, \<open>store_ext\<close>), go-wire, the JSON of the coin
  and the text form of its addresses (\<open>dmc_ext\<close>), the application, clock and block decoder of a node (\<open>node_env\<close>), and the RPC of the node that a
  light client asks. Laws about them are named predicates that a theorem assumes where it needs them: \<open>amino_ok\<close>
  (decoding inverts encoding, in \<^verbatim>\<open>Codec\<close>) and \<open>json_ok\<close> (the sign bytes of a vote read back, in
  \<^verbatim>\<open>Priv_Validator\<close>). Collision freedom is never assumed: a statement that depends on hashes ends in "or there are
  two inputs with one hash". Where the tallies need different block ids to have different keys, this is a
  hypothesis on the finite set of ids in use. Each theorem with hypotheses has an example that meets them.

  \<^bold>\<open>The theories, from the bottom.\<close>

  \<^item> \<^verbatim>\<open>Bit_Array\<close> (\<^verbatim>\<open>libs/common/bit_array.go\<close>), \<^verbatim>\<open>Priority_Heap\<close> (\<^verbatim>\<open>libs/common/heap.go\<close> on Go's \<^verbatim>\<open>container/heap\<close>),
    \<^verbatim>\<open>KV_Store\<close> (\<^verbatim>\<open>libs/db\<close>: the database in memory, batches, name spaces by prefix, iterators). The contracts are
    the locales \<open>index_set\<close>, \<open>heap_order\<close> and \<open>kv_store\<close>, interpreted on these definitions: C33, C34.
  \<^item> \<^verbatim>\<open>Crypto\<close> (\<^verbatim>\<open>crypto\<close>: keys, addresses, verification), \<^verbatim>\<open>Merkle\<close> (\<^verbatim>\<open>crypto/merkle\<close>: trees, proofs, maps; a
    proof that verifies has the true leaf, C32), \<^verbatim>\<open>Core_Types\<close> (the data of \<^verbatim>\<open>types\<close>), \<^verbatim>\<open>Part_Set\<close>
    (\<^verbatim>\<open>types/part_set.go\<close>: splitting and reassembly, C29 and C30).
  \<^item> \<^verbatim>\<open>Validator_Set\<close> (\<^verbatim>\<open>types/validator.go\<close>, \<^verbatim>\<open>validator_set.go\<close>: a sorted set with the contract \<open>keyed_set\<close>) and
    \<^verbatim>\<open>Proposer_Rotation\<close> (\<open>IncrementAccum\<close> on the heap equals a reference, and gives each validator its share, C28, C18).
  \<^item> \<^verbatim>\<open>Votes\<close> (\<^verbatim>\<open>types/vote.go\<close>, \<^verbatim>\<open>proposal.go\<close>, \<^verbatim>\<open>evidence.go\<close>, \<^verbatim>\<open>canonical_json.go\<close>, and verifying commits: C4, C5,
    C20), \<^verbatim>\<open>Vote_Set\<close> (\<^verbatim>\<open>types/vote_set.go\<close>: its invariant under any votes and claims, and the commits it makes, C8,
    C9, C15, C22), \<^verbatim>\<open>Height_Vote_Set\<close> (\<^verbatim>\<open>consensus/types/height_vote_set.go\<close>: bounded by the peers, C24).
  \<^item> \<^verbatim>\<open>Priv_Validator\<close> (\<^verbatim>\<open>privval/priv_validator.go\<close>: the signer with its file, over requests and restarts, C6, C21).
  \<^item> \<^verbatim>\<open>Dmc_Tx\<close> (\<^verbatim>\<open>abci/app/dmccoin/tx.go\<close>), \<^verbatim>\<open>Blocks\<close> (\<^verbatim>\<open>types/tx.go\<close>, \<^verbatim>\<open>block.go\<close>, \<^verbatim>\<open>block_meta.go\<close>: buckets, hashes, basic
    validation, C31), \<^verbatim>\<open>Chain_Params\<close> (\<^verbatim>\<open>types/params.go\<close>, \<^verbatim>\<open>results.go\<close>, \<^verbatim>\<open>genesis.go\<close>, \<^verbatim>\<open>protobuf.go\<close>).
  \<^item> \<^verbatim>\<open>Codec\<close> (the laws of amino and a codec that has them), \<^verbatim>\<open>Block_Store\<close> (\<^verbatim>\<open>blockchain/store.go\<close>, C17),
    \<^verbatim>\<open>State_Store\<close> (\<^verbatim>\<open>state/state.go\<close>, \<^verbatim>\<open>store.go\<close>), \<^verbatim>\<open>Mempool\<close> (\<^verbatim>\<open>mempool/mempool.go\<close>, C26, C27).
  \<^item> \<^verbatim>\<open>Execution\<close> (\<^verbatim>\<open>state/validation.go\<close>, \<^verbatim>\<open>execution.go\<close>: C14) and \<^verbatim>\<open>Applied_Chain\<close> (sequences of applied blocks as the
    inductive relation \<open>chain\<close>: each block certified by the next, the stored history, when a block is accepted
    and applied, C10, C11, C16, C23).
  \<^item> \<^verbatim>\<open>Timeouts\<close> (\<^verbatim>\<open>consensus/ticker.go\<close>, \<^verbatim>\<open>config/config.go\<close>: C25), \<^verbatim>\<open>Consensus_State\<close> (\<^verbatim>\<open>consensus/state.go\<close>: every handler
    of the routine), \<^verbatim>\<open>Consensus_Safety\<close> (what each handler keeps), \<^verbatim>\<open>Consensus_Runs\<close> (runs as the inductive
    relation \<open>reach\<close>), \<^verbatim>\<open>Solo_Run\<close> (a run of one validator, event by event) and \<^verbatim>\<open>Node_Runs\<close> (the properties of
    runs: C1, C2, C3, C12).
  \<^item> \<^verbatim>\<open>Dmc_Coin\<close> (the stores, state and accounts of \<^verbatim>\<open>abci/app/dmccoin\<close>, with the contract \<open>kv_contract\<close> for its three
    stores, C35) and \<^verbatim>\<open>Dmc_App\<close> (its execution and ABCI methods, the local client, and the validators it hands
    to the node: C19, C36, C37, C38).
  \<^item> \<^verbatim>\<open>Light_Client\<close> (\<^verbatim>\<open>lite\<close>: certifiers and providers, with the contract \<open>trust_store\<close> for the trusted provider: C7,
    C13, C39, C40).
\<close>

text \<open>
  \<^bold>\<open>How the parts rest on each other.\<close> \<open>VerifyCommit\<close> accepts exactly two thirds of the power (C4), so two
  commits share signers (C5), and the signer does not sign twice (C6). What a vote set reports is a commit that
  verifies (C8), so that a node that commits can prove it to others. Consensus moves its state only by blocks
  that validate and have such a commit, and the blocks a node applies form a chain in the sense of
  \<^verbatim>\<open>Applied_Chain\<close> (C1), for which the history is loadable (C11) and each block certified (C10). A light client
  that starts from validators of the chain accepts only what validators reached by approvals signed (C7).

  \<^bold>\<open>Bounds, loops and hypotheses.\<close> Loops are structural or have a measure. Two loops need not end, and are
  partial functions with \<open>None\<close> for not ending: \<open>updateToHeight\<close> of the light client, of which both a condition
  to end and a source with which it does not are proved (C13, C39), and \<open>flatten_loop\<close>, which follows parent
  pointers in a Merkle trail, and ends on the trails that the code builds. No fuel is used. The hypothesis
  \<open>quorum_ok\<close> bounds the total power, because \<open>TotalVotingPower() * 2\<close> wraps beyond; the commits of C1 verify for
  validators that meet it. That validators have keys (\<open>keyed\<close>) is assumed only where the claim is that votes do not
  panic (C9, C24). The claims about a mempool are about the one of a node, which has a reactor (\<open>node_mempool\<close>).
  Runs of a node are
  \<open>admissible\<close>: heights and rounds stay below the largest \<open>int64\<close>, and the block ids in messages are of a set on
  which \<open>bid_Key\<close> is injective.

  \<^bold>\<open>What is not as intended.\<close> Some theorems state a behaviour that the code has and does not mean to have:
  an honest proposal can be rejected for its bucket count (C23), the block hash does not bind the first bucket
  (C31), no coin transfer succeeds (C37), the coin application unseats the validators of its accounts (C19) and
  chooses the poorest (C38), and a source can make the light client recurse for ever (C39).

  \<^bold>\<open>What is not modelled.\<close> The network (\<^verbatim>\<open>p2p\<close>, \<^verbatim>\<open>tcp\<close>), the reactors that gossip (\<^verbatim>\<open>consensus/reactor.go\<close>,
  \<^verbatim>\<open>mempool/reactor.go\<close>, \<^verbatim>\<open>blockchain/pool.go\<close> and \<^verbatim>\<open>reactor.go\<close>), and the RPC: they are goroutines over sockets and
  channels, and reach the models as arbitrary messages. The write-ahead log and replay after a crash are files
  and restarts of the process; a run here is without a crash, but the signer is modelled across restarts.
  Events, logs, metrics, the transaction index, the command line and configuration files do not influence the
  modelled state. Other database backends, remote signers and remote ABCI clients are I/O behind interfaces whose
  local implementation is modelled. Generated protobuf code is represented by the data it carries.
\<close>

end
